(* ===== verification/Prelude.thy ===== *)
theory Prelude
  imports Main "HOL-Library.Word"
begin

text \<open>
  The prelude of the development: the result type of every operation that can fail, the
  bind that threads it, and the facts on lists and machine words that several components
  share.  \<open>Trap\<close> is the \<open>int3\<close> of \<open>TRAP()\<close> and of a failed \<open>ASSERT\<close>
  (snow/arch.h, snow/arch-x86_64.h); \<open>Undef\<close> is undefined behaviour of C (a read or
  write outside an allocation, a null dereference, a division by zero); \<open>Raise d\<close> is
  \<open>snow_throw_exception_with_description\<close> with its message.
\<close>

named_theorems snow_defs "definitions unfolded by the component proofs"
named_theorems snow_wf "preservation of the components' invariants"

datatype fault = Trap | Undef | Raise string

type_synonym 'a result = "fault + 'a"

definition rbind :: "'a result \<Rightarrow> ('a \<Rightarrow> 'b result) \<Rightarrow> 'b result" where
  "rbind r k = (case r of Inl e \<Rightarrow> Inl e | Inr x \<Rightarrow> k x)"

lemma rbind_simps [simp]:
  "rbind (Inl e) k = Inl e"
  "rbind (Inr x) k = k x"
  by (simp_all add: rbind_def)

lemma rbind_eq_Inr [simp]: "rbind r k = Inr y \<longleftrightarrow> (\<exists>x. r = Inr x \<and> k x = Inr y)"
  by (cases r) auto

lemma rbind_assoc: "rbind (rbind r f) g = rbind r (\<lambda>x. rbind (f x) g)"
  by (cases r) auto

lemma rbind_if: "rbind (if b then r else s) k = (if b then rbind r k else rbind s k)"
  by simp

definition assert_ok :: "bool \<Rightarrow> unit result" where
  "assert_ok b = (if b then Inr () else Inl Trap)"

lemma assert_ok_simps [simp]:
  "assert_ok True = Inr ()"
  "assert_ok False = Inl Trap"
  by (simp_all add: assert_ok_def)

text \<open>Reading a slot of a block of memory: outside the block the C code has no meaning.\<close>

definition read_slot :: "'a list \<Rightarrow> nat \<Rightarrow> 'a result" where
  "read_slot xs i = (if i < length xs then Inr (xs ! i) else Inl Undef)"

definition write_slot :: "'a list \<Rightarrow> nat \<Rightarrow> 'a \<Rightarrow> 'a list result" where
  "write_slot xs i x = (if i < length xs then Inr (xs[i := x]) else Inl Undef)"

lemma read_slot_simps [simp]:
  "i < length xs \<Longrightarrow> read_slot xs i = Inr (xs ! i)"
  "length xs \<le> i \<Longrightarrow> read_slot xs i = Inl Undef"
  by (simp_all add: read_slot_def)

lemma write_slot_simps [simp]:
  "i < length xs \<Longrightarrow> write_slot xs i x = Inr (xs[i := x])"
  "length xs \<le> i \<Longrightarrow> write_slot xs i x = Inl Undef"
  by (simp_all add: write_slot_def)

subsection \<open>Lists\<close>

lemma take_update_le [simp]: "n \<le> i \<Longrightarrow> take n (xs[i := x]) = take n xs"
  by simp

lemma map_option_plus_zero [simp]: "map_option ((+) (0::nat)) z = z"
  by (cases z) auto

fun index_of :: "'a \<Rightarrow> 'a list \<Rightarrow> nat option" where
  "index_of x [] = None"
| "index_of x (y # ys) = (if y = x then Some 0 else map_option Suc (index_of x ys))"

lemma index_of_None [simp]: "index_of x xs = None \<longleftrightarrow> x \<notin> set xs"
  by (induction xs) auto

lemma index_of_notin [simp]: "x \<notin> set xs \<Longrightarrow> index_of x xs = None"
  by simp

lemma index_of_SomeD:
  "index_of x xs = Some i \<Longrightarrow> i < length xs \<and> xs ! i = x \<and> x \<notin> set (take i xs)"
  by (induction xs arbitrary: i) (auto split: if_splits)

lemma index_of_Some_in: "index_of x xs = Some i \<Longrightarrow> x \<in> set xs"
  using index_of_SomeD nth_mem by metis

lemma index_of_nth_distinct:
  "distinct xs \<Longrightarrow> i < length xs \<Longrightarrow> index_of (xs ! i) xs = Some i"
  by (induction xs arbitrary: i) (auto simp: nth_Cons split: nat.splits)

lemma index_of_append1 [simp]: "x \<in> set xs \<Longrightarrow> index_of x (xs @ ys) = index_of x xs"
  by (induction xs) auto

lemma index_of_append2 [simp]:
  "x \<notin> set xs \<Longrightarrow> index_of x (xs @ ys) = map_option ((+) (length xs)) (index_of x ys)"
proof (induction xs)
  case (Cons a xs)
  have eq: "(\<lambda>i. Suc (length xs + i)) = (+) (Suc (length xs))" by auto
  from Cons show ?case by (auto simp: option.map_comp comp_def eq simp del: add_Suc)
qed simp

subsection \<open>Counting loops\<close>

text \<open>\<open>for (i = a; i < a + k; ++i)\<close> over a state, a fault ending the loop.\<close>

primrec rfor :: "nat \<Rightarrow> nat \<Rightarrow> (nat \<Rightarrow> 's \<Rightarrow> 's result) \<Rightarrow> 's \<Rightarrow> 's result" where
  "rfor i 0 f s = Inr s"
| "rfor i (Suc k) f s = rbind (f i s) (rfor (Suc i) k f)"

lemma rfor_fold:
  assumes "\<And>j s. j < length xs \<Longrightarrow> P s \<Longrightarrow> f (i + j) s = Inr (g (xs ! j) s) \<and> P (g (xs ! j) s)" "P s"
  shows "rfor i (length xs) f s = Inr (fold g xs s) \<and> P (fold g xs s)"
  using assms
proof (induction xs arbitrary: i s)
  case (Cons x xs)
  have "f i s = Inr (g x s) \<and> P (g x s)" using Cons.prems(1) [of 0 s] Cons.prems(2) by simp
  moreover have "rfor (Suc i) (length xs) f (g x s) = Inr (fold g xs (g x s)) \<and> P (fold g xs (g x s))"
  proof (rule Cons.IH)
    fix j s assume "j < length xs" "P s"
    then show "f (Suc i + j) s = Inr (g (xs ! j) s) \<and> P (g (xs ! j) s)"
      using Cons.prems(1) [of "Suc j" s] by simp
  qed (use calculation in simp)
  ultimately show ?case by simp
qed simp

subsection \<open>Programs over a state\<close>

type_synonym ('a, 's) prog = "'s \<Rightarrow> ('a \<times> 's) result"

definition pbind :: "('a, 's) prog \<Rightarrow> ('a \<Rightarrow> ('b, 's) prog) \<Rightarrow> ('b, 's) prog" where
  "pbind m k s = rbind (m s) (\<lambda>(x, s). k x s)"

definition pret :: "'a \<Rightarrow> ('a, 's) prog" where
  "pret x s = Inr (x, s)"

definition plift :: "'a result \<Rightarrow> ('a, 's) prog" where
  "plift r s = rbind r (\<lambda>x. Inr (x, s))"

definition pfail :: "fault \<Rightarrow> ('a, 's) prog" where
  "pfail e s = Inl e"

definition pget :: "('s, 's) prog" where
  "pget s = Inr (s, s)"

definition pput :: "'s \<Rightarrow> (unit, 's) prog" where
  "pput t s = Inr ((), t)"

lemma prog_simps [simp]:
  "pbind m k s = rbind (m s) (\<lambda>(x, s). k x s)"
  "pret x s = Inr (x, s)"
  "plift r s = rbind r (\<lambda>x. Inr (x, s))"
  "pfail e s = Inl e"
  "pget s = Inr (s, s)"
  "pput t s = Inr ((), t)"
  by (simp_all add: pbind_def pret_def plift_def pfail_def pget_def pput_def)

lemma pbind_assoc: "pbind (pbind m f) g = pbind m (\<lambda>x. pbind (f x) g)"
  by (rule ext) (auto simp: rbind_def split: sum.splits)

end
