(* ===== verification/Values.thy ===== *)
theory Values
  imports Prelude
begin

unbundle bit_operations_syntax

text \<open>
  Tagged 64-bit values (snow/intern.h, snow/object.h, snow/snow.c, x86-64 build).  A
  \<open>VALUE\<close> is a machine word: an odd word is a 63-bit integer, a non-zero multiple of
  16 points to a heap object, and the other low nibbles tag nil, the booleans, symbols and
  32-bit floats.  \<open>intx\<close> is the same word read as signed, a C \<open>float\<close> is the
  32-bit word of its representation (the code only moves its bits).
\<close>

type_synonym VALUE = "64 word"
type_synonym intx = "64 word"
type_synonym SnSymbol = "64 word"

subsection \<open>Tags\<close>

definition kTypeMask :: VALUE where "kTypeMask = 0xf"
definition kSymbolType :: VALUE where "kSymbolType = 0xa"
definition kFloatType :: VALUE where "kFloatType = 0xe"
definition SN_NIL :: VALUE where "SN_NIL = 2"
definition SN_FALSE :: VALUE where "SN_FALSE = 4"
definition SN_TRUE :: VALUE where "SN_TRUE = 6"

lemmas tag_defs = kTypeMask_def kSymbolType_def kFloatType_def SN_NIL_def SN_FALSE_def SN_TRUE_def

definition is_float :: "VALUE \<Rightarrow> bool" where
  "is_float val \<longleftrightarrow> val AND kTypeMask = kFloatType"

definition is_integer :: "VALUE \<Rightarrow> bool" where
  "is_integer val \<longleftrightarrow> val AND 1 \<noteq> 0"

definition is_object :: "VALUE \<Rightarrow> bool" where
  "is_object val \<longleftrightarrow> val \<noteq> 0 \<and> val AND kTypeMask = 0"

definition is_true :: "VALUE \<Rightarrow> bool" where
  "is_true val \<longleftrightarrow> val = SN_TRUE"

definition is_false :: "VALUE \<Rightarrow> bool" where
  "is_false val \<longleftrightarrow> val = SN_FALSE"

definition is_boolean :: "VALUE \<Rightarrow> bool" where
  "is_boolean val \<longleftrightarrow> is_true val \<or> is_false val"

definition is_nil :: "VALUE \<Rightarrow> bool" where
  "is_nil val \<longleftrightarrow> val = SN_NIL"

definition is_symbol :: "VALUE \<Rightarrow> bool" where
  "is_symbol val \<longleftrightarrow> val AND kTypeMask = kSymbolType"

definition is_numeric :: "VALUE \<Rightarrow> bool" where
  "is_numeric val \<longleftrightarrow> is_integer val \<or> is_float val"

lemmas is_defs = is_float_def is_integer_def is_object_def is_true_def is_false_def
  is_boolean_def is_nil_def is_symbol_def is_numeric_def

subsection \<open>Conversions\<close>

definition float_to_value :: "32 word \<Rightarrow> VALUE" where
  "float_to_value f = push_bit 16 (ucast f) OR kFloatType"

definition value_to_float :: "VALUE \<Rightarrow> 32 word" where
  "value_to_float val = ucast (drop_bit 16 val)"

definition int_to_value :: "intx \<Rightarrow> VALUE" where
  "int_to_value n = push_bit 1 n OR 1"

text \<open>
  \<open>(intx)val >> 1\<close> is an arithmetic shift; the \<open>OR\<close> with the sign bit that follows
  it in the source is kept.
\<close>

definition value_to_int :: "VALUE \<Rightarrow> intx" where
  "value_to_int val = signed_drop_bit 1 val OR (if sint val < 0 then push_bit 63 1 else 0)"

definition boolean_to_value :: "bool \<Rightarrow> VALUE" where
  "boolean_to_value b = (if b then SN_TRUE else SN_FALSE)"

definition symbol_to_value :: "SnSymbol \<Rightarrow> VALUE" where
  "symbol_to_value s = push_bit 4 s OR kSymbolType"

definition value_to_symbol :: "VALUE \<Rightarrow> SnSymbol" where
  "value_to_symbol val = drop_bit 4 val"

definition snow_eval_truth :: "VALUE \<Rightarrow> bool" where
  "snow_eval_truth val \<longleftrightarrow> \<not> (val = 0 \<or> val = SN_NIL \<or> val = SN_FALSE)"

definition value_to_boolean :: "VALUE \<Rightarrow> bool" where
  "value_to_boolean val = snow_eval_truth val"

subsection \<open>Object types\<close>

text \<open>The enumeration of snow/object.h; \<open>type_code\<close> gives the numbers of its constants.\<close>

datatype SnObjectType =
    SN_OBJECT_TYPE | SN_CLASS_TYPE | SN_FUNCTION_TYPE | SN_EXCEPTION_TYPE
  | SN_CONTINUATION_TYPE | SN_CONTEXT_TYPE | SN_ARGUMENTS_TYPE | SN_FUNCTION_DESCRIPTION_TYPE
  | SN_STRING_TYPE | SN_ARRAY_TYPE | SN_MAP_TYPE | SN_CODEGEN_TYPE | SN_POINTER_TYPE
  | SN_AST_TYPE | SN_DEFERRED_TASK_TYPE
  | SN_INTEGER_TYPE | SN_NIL_TYPE | SN_BOOLEAN_TYPE | SN_SYMBOL_TYPE | SN_FLOAT_TYPE

fun type_code :: "SnObjectType \<Rightarrow> nat" where
  "type_code SN_OBJECT_TYPE = 0xd0"
| "type_code SN_CLASS_TYPE = 0xd1"
| "type_code SN_FUNCTION_TYPE = 0xd2"
| "type_code SN_EXCEPTION_TYPE = 0xd3"
| "type_code SN_CONTINUATION_TYPE = 0xe0"
| "type_code SN_CONTEXT_TYPE = 0xe1"
| "type_code SN_ARGUMENTS_TYPE = 0xe2"
| "type_code SN_FUNCTION_DESCRIPTION_TYPE = 0xe3"
| "type_code SN_STRING_TYPE = 0xe4"
| "type_code SN_ARRAY_TYPE = 0xe5"
| "type_code SN_MAP_TYPE = 0xe6"
| "type_code SN_CODEGEN_TYPE = 0xe7"
| "type_code SN_POINTER_TYPE = 0xe8"
| "type_code SN_AST_TYPE = 0xe9"
| "type_code SN_DEFERRED_TASK_TYPE = 0xea"
| "type_code SN_INTEGER_TYPE = 0xf0"
| "type_code SN_NIL_TYPE = 0xf1"
| "type_code SN_BOOLEAN_TYPE = 0xf2"
| "type_code SN_SYMBOL_TYPE = 0xf3"
| "type_code SN_FLOAT_TYPE = 0xf4"

definition SN_NORMAL_OBJECT_TYPE_BASE :: nat where "SN_NORMAL_OBJECT_TYPE_BASE = 0xd0"
definition SN_NORMAL_OBJECT_TYPE_MAX :: nat where "SN_NORMAL_OBJECT_TYPE_MAX = 0xd4"
definition SN_THIN_OBJECT_TYPE_BASE :: nat where "SN_THIN_OBJECT_TYPE_BASE = 0xe0"
definition SN_TYPE_MASK :: nat where "SN_TYPE_MASK = 0xf0"

text \<open>
  \<open>snow_typeof\<close>: the type of a heap object is read through the pointer, so the
  reader \<open>base_type\<close> (the \<open>type\<close> field of the \<open>SnObjectBase\<close> at an
  address) is an argument.  A word with none of the tags reaches \<open>TRAP()\<close>.
\<close>

definition snow_typeof :: "(VALUE \<Rightarrow> SnObjectType) \<Rightarrow> VALUE \<Rightarrow> SnObjectType result" where
  "snow_typeof base_type val =
     (if is_object val then Inr (base_type val)
      else if is_integer val then Inr SN_INTEGER_TYPE
      else if is_nil val \<or> val = 0 then Inr SN_NIL_TYPE
      else if is_boolean val then Inr SN_BOOLEAN_TYPE
      else if is_symbol val then Inr SN_SYMBOL_TYPE
      else if is_float val then Inr SN_FLOAT_TYPE
      else Inl Trap)"

definition snow_is_normal_object :: "(VALUE \<Rightarrow> SnObjectType) \<Rightarrow> VALUE \<Rightarrow> bool" where
  "snow_is_normal_object base_type val \<longleftrightarrow>
     (if is_object val
      then case snow_typeof base_type val of
             Inl _ \<Rightarrow> False
           | Inr t \<Rightarrow> SN_NORMAL_OBJECT_TYPE_BASE \<le> type_code t \<and>
                      type_code t < SN_NORMAL_OBJECT_TYPE_MAX
      else False)"

subsection \<open>Lemmas on tags\<close>

lemma and_kTypeMask: "v AND kTypeMask = take_bit 4 v"
  by (simp add: kTypeMask_def take_bit_eq_mask mask_numeral)

lemma is_integer_iff_bit: "is_integer v \<longleftrightarrow> bit v 0"
  by (simp add: is_integer_def and_one_eq bit_0 even_iff_mod_2_eq_zero)

lemma is_integer_iff: "is_integer v \<longleftrightarrow> odd (take_bit 4 v)"
proof -
  have "bit v 0 \<longleftrightarrow> bit (take_bit 4 v) 0" by (simp add: bit_take_bit_iff)
  then show ?thesis by (simp add: is_integer_iff_bit bit_0)
qed

lemma tag_symbol_to_value [simp]: "take_bit 4 (symbol_to_value s) = 10"
  by (simp add: symbol_to_value_def tag_defs take_bit_or take_bit_push_bit)

lemma tag_float_to_value [simp]: "take_bit 4 (float_to_value f) = 14"
  by (simp add: float_to_value_def tag_defs take_bit_or take_bit_push_bit)

lemma is_integer_odd: "even (take_bit 4 v) \<Longrightarrow> is_integer v = False"
  unfolding is_integer_iff by simp

lemma is_integer_int_to_value [simp]: "is_integer (int_to_value n)"
  by (simp add: is_integer_iff_bit int_to_value_def bit_simps)

lemma word_of_nat_unat_eq: "unat w = k \<Longrightarrow> w = word_of_nat k"
  by auto

lemma take_bit_4_cases:
  "take_bit 4 (v :: 64 word) \<in> {0,1,2,3,4,5,6,7,8,9,10,11,12,13,14,15}"
proof -
  have "unat (take_bit 4 v) < 16"
    by (simp add: unsigned_take_bit_eq take_bit_nat_eq_self_iff take_bit_nat_less_exp [of 4, simplified])
  moreover have "x < 16 \<Longrightarrow> x \<in> {0,1,2,3,4,5,6,7,8,9,10,11,12,13,14,15}" for x :: nat
    by (simp add: numeral_eq_Suc less_Suc_eq) 
  ultimately have "unat (take_bit 4 v) \<in> {0,1,2,3,4,5,6,7,8,9,10,11,12,13,14,15}" by blast
  then show ?thesis by (auto dest: word_of_nat_unat_eq)
qed

subsection \<open>Bits of the integer encoding\<close>

lemma sint_neg_bit: "sint (v :: 64 word) < 0 \<longleftrightarrow> bit v 63"
  using bit_last_iff [of v] by simp

lemma bit_top: "bit (push_bit 63 (1 :: 64 word)) n \<longleftrightarrow> n = 63"
  by (simp only: bit_push_bit_iff bit_1_iff possible_bit_word) auto

lemma min_63_Suc: "n < 64 \<Longrightarrow> min 63 (Suc n) = (if n = 63 then 63 else Suc n)"
  by (auto simp: min_def)

lemma word_eq_sint: "v = w \<longleftrightarrow> sint v = sint (w :: 64 word)"
  by (metis signed_word_eqI)

lemma bit_value_to_int: "bit (value_to_int v) n \<longleftrightarrow> n < 64 \<and> bit v (min 63 (Suc n))"
proof (cases "n < 64")
  case True
  have "bit (signed_drop_bit (Suc 0) v) n \<longleftrightarrow> bit v (if 63 \<le> n then 63 else Suc n)"
    using True by (simp add: bit_signed_drop_bit_iff)
  moreover have "bit (if sint v < 0 then push_bit 63 1 else (0 :: 64 word)) n \<longleftrightarrow> n = 63 \<and> bit v 63"
    by (simp only: sint_neg_bit bit_top bit_0_eq bot_apply split: if_split) simp
  ultimately show ?thesis using True
    by (simp only: value_to_int_def bit_or_iff min_63_Suc One_nat_def) auto
qed (auto dest: bit_imp_le_length)

lemma bit_int_to_value: "bit (int_to_value n) i \<longleftrightarrow> i < 64 \<and> (i = 0 \<or> bit n (i - 1))"
proof (cases "i < 64")
  case True
  have "bit (push_bit 1 n) i \<longleftrightarrow> 1 \<le> i \<and> bit n (i - 1)"
    using True by (simp only: bit_push_bit_iff possible_bit_word) simp
  then show ?thesis using True by (auto simp: int_to_value_def bit_or_iff bit_1_iff)
qed (auto dest: bit_imp_le_length)

lemma value_to_int_to_value: "value_to_int (int_to_value n) = signed_take_bit 62 n"
  by (rule bit_word_eqI)
    (auto simp: bit_value_to_int bit_int_to_value bit_signed_take_bit_iff min_def)

lemma sint_value_to_int: "sint (value_to_int v) = sint v div 2"
proof -
  have "value_to_int v = signed_drop_bit 1 v"
    by (rule bit_word_eqI) (auto simp: bit_value_to_int bit_signed_drop_bit_iff min_63_Suc)
  then show ?thesis by (simp add: sint_signed_drop_bit_eq drop_bit_Suc drop_bit_eq_div)
qed

lemma sint_value_to_int_to_value:
  "sint (value_to_int (int_to_value n)) = signed_take_bit 62 (sint n)"
  unfolding value_to_int_to_value
  by (rule bit_eqI) (auto simp: bit_sint_iff bit_signed_take_bit_iff min_def)

lemma int_to_value_inj_small:
  assumes "- (2 ^ 62) \<le> sint m" "sint m < 2 ^ 62" "- (2 ^ 62) \<le> sint n" "sint n < 2 ^ 62"
  shows "int_to_value m = int_to_value n \<longleftrightarrow> m = n"
proof
  assume "int_to_value m = int_to_value n"
  then have "sint (value_to_int (int_to_value m)) = sint (value_to_int (int_to_value n))" by simp
  with assms show "m = n"
    by (simp add: sint_value_to_int_to_value signed_take_bit_int_eq_self word_eq_sint)
qed simp

lemma value_to_symbol_to_value: "value_to_symbol (symbol_to_value s) = take_bit 60 s"
  by (rule bit_eqI) (auto simp: value_to_symbol_def symbol_to_value_def tag_defs bit_simps)

lemma take_bit_60_eq_iff: "take_bit 60 s = s \<longleftrightarrow> s < 2 ^ 60" for s :: "64 word"
proof -
  have "take_bit 60 s = s \<longleftrightarrow> unat (take_bit 60 s) = unat s" by (metis word_unat_eq_iff)
  also have "\<dots> \<longleftrightarrow> unat s < 2 ^ 60" by (simp add: unsigned_take_bit_eq take_bit_nat_eq_self_iff)
  finally show ?thesis by (simp add: word_less_nat_alt)
qed

lemma symbol_to_value_inj:
  "s < 2 ^ 60 \<Longrightarrow> t < 2 ^ 60 \<Longrightarrow> symbol_to_value s = symbol_to_value t \<longleftrightarrow> s = t"
  by (metis value_to_symbol_to_value take_bit_60_eq_iff)

lemma symbol_to_value_not_nil [simp]:
  "symbol_to_value s \<noteq> SN_NIL" "symbol_to_value s \<noteq> 0" "SN_NIL \<noteq> symbol_to_value s"
  using tag_symbol_to_value [of s] by (auto simp: SN_NIL_def simp del: tag_symbol_to_value)

subsection \<open>Properties of the representation\<close>

text \<open>
  The tag tests of \<open>snow_typeof\<close> are mutually exclusive, every encoding function
  produces a value of its own type, and the words on which \<open>snow_typeof\<close> traps are
  exactly those whose low nibble is 8 or 12, or 2, 4 or 6 without being nil, false or true.
\<close>

theorem value_kinds:
  "snow_typeof bt (int_to_value n) = Inr SN_INTEGER_TYPE \<and>
   snow_typeof bt (symbol_to_value s) = Inr SN_SYMBOL_TYPE \<and>
   snow_typeof bt (float_to_value f) = Inr SN_FLOAT_TYPE \<and>
   snow_typeof bt (boolean_to_value b) = Inr SN_BOOLEAN_TYPE \<and>
   snow_typeof bt SN_NIL = Inr SN_NIL_TYPE \<and> snow_typeof bt 0 = Inr SN_NIL_TYPE \<and>
   (snow_typeof bt v = Inl Trap \<longleftrightarrow>
      take_bit 4 v \<in> {8, 12} \<or> take_bit 4 v \<in> {2, 4, 6} \<and> v \<notin> {SN_NIL, SN_FALSE, SN_TRUE}) \<and>
   length (filter id [is_object v, is_integer v, is_nil v, is_boolean v, is_symbol v, is_float v]) \<le> 1"
proof (intro conjI)
  show "snow_typeof bt (int_to_value n) = Inr SN_INTEGER_TYPE"
  proof -
    have "\<not> is_object (int_to_value n)"
      unfolding is_object_def and_kTypeMask using is_integer_int_to_value [of n]
      by (metis is_integer_iff even_zero)
    then show ?thesis by (simp add: snow_typeof_def)
  qed
  obtain t where t: "t = take_bit 4 v" by blast
  have kinds: "is_integer v \<longleftrightarrow> odd t" "is_object v \<longleftrightarrow> v \<noteq> 0 \<and> t = 0"
    "is_nil v \<longleftrightarrow> v = 2" "is_boolean v \<longleftrightarrow> v = 4 \<or> v = 6" "is_symbol v \<longleftrightarrow> t = 10"
    "is_float v \<longleftrightarrow> t = 14"
    by (auto simp: t is_integer_iff is_object_def is_nil_def is_boolean_def is_true_def
        is_false_def is_symbol_def is_float_def and_kTypeMask kSymbolType_def kFloatType_def
        SN_NIL_def SN_FALSE_def SN_TRUE_def)
  have imm: "v = 0 \<Longrightarrow> t = 0" "v = 2 \<Longrightarrow> t = 2" "v = 4 \<Longrightarrow> t = 4" "v = 6 \<Longrightarrow> t = 6"
    by (simp_all add: t)
  have tags: "t \<in> {0,1,2,3,4,5,6,7,8,9,10,11,12,13,14,15}"
    unfolding t by (rule take_bit_4_cases)
  show "snow_typeof bt v = Inl Trap \<longleftrightarrow>
      take_bit 4 v \<in> {8, 12} \<or> take_bit 4 v \<in> {2, 4, 6} \<and> v \<notin> {SN_NIL, SN_FALSE, SN_TRUE}"
    using tags imm unfolding snow_typeof_def kinds tag_defs t [symmetric]
    by (elim insertE emptyE) auto
  show "length (filter id [is_object v, is_integer v, is_nil v, is_boolean v, is_symbol v, is_float v]) \<le> 1"
    using tags imm unfolding kinds
    by (elim insertE emptyE) auto
  have sym: "symbol_to_value s \<notin> {0, 2, 4, 6}" and flt: "float_to_value f \<notin> {0, 2, 4, 6}"
    using tag_symbol_to_value [of s] tag_float_to_value [of f] by (auto simp del: tag_symbol_to_value tag_float_to_value)
  show "snow_typeof bt (symbol_to_value s) = Inr SN_SYMBOL_TYPE"
    using sym by (simp add: snow_typeof_def is_object_def is_integer_odd is_nil_def is_boolean_def
        is_true_def is_false_def is_symbol_def and_kTypeMask kSymbolType_def SN_NIL_def SN_FALSE_def SN_TRUE_def)
  show "snow_typeof bt (float_to_value f) = Inr SN_FLOAT_TYPE"
    using flt by (simp add: snow_typeof_def is_object_def is_integer_odd is_nil_def is_boolean_def is_float_def
        is_true_def is_false_def is_symbol_def and_kTypeMask kSymbolType_def kFloatType_def SN_NIL_def SN_FALSE_def SN_TRUE_def)
qed (auto simp: snow_typeof_def is_integer_def is_object_def is_nil_def is_boolean_def is_true_def
    is_false_def and_kTypeMask boolean_to_value_def SN_NIL_def SN_FALSE_def SN_TRUE_def)

text \<open>
  C27. Integers survive the round trip through a \<open>VALUE\<close> exactly when they fit 63 bits;
  every other integer comes back wrapped to 63 bits.
\<close>

theorem int_roundtrip:
  "(value_to_int (int_to_value n) = n \<longleftrightarrow> - (2 ^ 62) \<le> sint n \<and> sint n < 2 ^ 62) \<and>
   sint (value_to_int (int_to_value n)) = (sint n + 2 ^ 62) mod 2 ^ 63 - 2 ^ 62"
proof
  have "value_to_int (int_to_value n) = n \<longleftrightarrow> signed_take_bit 62 (sint n) = sint n"
    unfolding word_eq_sint sint_value_to_int_to_value ..
  also have "\<dots> \<longleftrightarrow> - (2 ^ 62) \<le> sint n \<and> sint n < 2 ^ 62"
    by (auto simp: signed_take_bit_int_eq_self_iff)
  finally show "value_to_int (int_to_value n) = n \<longleftrightarrow> - (2 ^ 62) \<le> sint n \<and> sint n < 2 ^ 62" .
  show "sint (value_to_int (int_to_value n)) = (sint n + 2 ^ 62) mod 2 ^ 63 - 2 ^ 62"
    unfolding sint_value_to_int_to_value
    by (simp add: signed_take_bit_eq_take_bit_shift take_bit_eq_mod)
qed

text \<open>
  A float's 32 bits always survive the round trip through a \<open>VALUE\<close>; a symbol
  survives exactly when its number is below \<open>2 ^ 60\<close>, and below that bound distinct
  symbols have distinct values.
\<close>

theorem float_symbol_roundtrip:
  "value_to_float (float_to_value f) = f \<and>
   (value_to_symbol (symbol_to_value s) = s \<longleftrightarrow> s < 2 ^ 60) \<and>
   (s < 2 ^ 60 \<and> t < 2 ^ 60 \<and> symbol_to_value s = symbol_to_value t \<longrightarrow> s = t)"
proof (intro conjI)
  show "value_to_float (float_to_value f) = f"
    by (rule bit_eqI)
      (auto simp: value_to_float_def float_to_value_def tag_defs bit_simps
        dest: bit_imp_le_length)
  show "value_to_symbol (symbol_to_value s) = s \<longleftrightarrow> s < 2 ^ 60"
    by (simp add: value_to_symbol_to_value take_bit_60_eq_iff)
qed (auto simp: symbol_to_value_inj)

theorem float_symbol_roundtrip_witness:
  "(1 :: 64 word) < 2 ^ 60 \<and> value_to_float (float_to_value 0x40490fdb) = 0x40490fdb \<and>
   symbol_to_value 1 \<noteq> symbol_to_value 2"
  using float_symbol_roundtrip [of "0x40490fdb" 1 2] by auto

subsection \<open>Arguments of native functions\<close>

text \<open>
  \<open>REQUIRE_ARGS\<close>, the guard at the start of a native function: the argument values of
  the context (none when \<open>_context->args\<close> is null, which the macro dereferences) and the
  number of arguments expected.
\<close>

fun dec_digits :: "nat \<Rightarrow> string" where
  "dec_digits n = (if n < 10 then [char_of (48 + n)] else dec_digits (n div 10) @ [char_of (48 + n mod 10)])"

declare dec_digits.simps [simp del]

definition require_args :: "VALUE list option \<Rightarrow> nat \<Rightarrow> VALUE list result" where
  "require_args args n = (case args of None \<Rightarrow> Inl Undef
     | Some vs \<Rightarrow> if length vs < n
         then Inl (Raise (''Expected '' @ dec_digits n @ '' argument'' @ (if n = 1 then [] else ''s'') @
                          '' for function call.''))
         else Inr vs)"

lemma require_args_ok [simp]: "n \<le> length vs \<Longrightarrow> require_args (Some vs) n = Inr vs"
  by (simp add: require_args_def)

end
