(* ===== verification/ArrayT.thy ===== *)
theory ArrayT
  imports Values
begin

text \<open>
  \<open>struct array_t\<close> and its inline operations (snow/basic.h, snow/array-intern.h).
  \<open>a_data\<close> is the contents of the block \<open>data\<close> points to (the empty list for a
  null pointer), \<open>a_size\<close> and \<open>a_alloc\<close> the two 32-bit counters, reduced modulo
  \<open>2 ^ 32\<close> where the code assigns them.  Indices are the signed \<open>intx\<close> of the
  code, as integers.  A read or write outside the block is \<open>Undef\<close>.
\<close>

record array_t =
  a_data :: "VALUE list"
  a_size :: nat
  a_alloc :: nat

text \<open>Fresh memory holds what \<open>snow_malloc\<close> fills it with in the debug build.\<close>

definition uninit :: VALUE where "uninit = 0xcdcdcdcdcdcdcdcd"

definition fresh_blob :: "nat \<Rightarrow> VALUE list" where
  "fresh_blob n = replicate n uninit"

subsection \<open>Operations\<close>

definition array_init :: array_t where
  "array_init = \<lparr>a_data = [], a_size = 0, a_alloc = 0\<rparr>"

definition array_init_with_size :: "nat \<Rightarrow> array_t" where
  "array_init_with_size n =
     \<lparr>a_data = (if n \<noteq> 0 then fresh_blob n else []), a_size = 0, a_alloc = n mod 2 ^ 32\<rparr>"

definition array_size :: "array_t \<Rightarrow> nat" where
  "array_size a = a_size a"

fun fill_nil :: "VALUE list \<Rightarrow> nat \<Rightarrow> nat \<Rightarrow> VALUE list result" where
  "fill_nil d i 0 = Inr d"
| "fill_nil d i (Suc k) = rbind (write_slot d i SN_NIL) (\<lambda>d. fill_nil d (Suc i) k)"

definition array_grow :: "array_t \<Rightarrow> int \<Rightarrow> array_t result" where
  "array_grow a new_size =
     rbind
       (if new_size > int (a_alloc a)
        then if length (a_data a) < a_size a \<or> nat new_size < a_size a then Inl Undef
             else Inr (a\<lparr>a_data := take (a_size a) (a_data a) @ fresh_blob (nat new_size - a_size a),
                         a_alloc := nat new_size mod 2 ^ 32\<rparr>)
        else Inr a)
       (\<lambda>a. if new_size > int (a_size a)
            then rbind (fill_nil (a_data a) (a_size a) (nat new_size - a_size a))
                   (\<lambda>d. Inr (a\<lparr>a_data := d, a_size := nat new_size mod 2 ^ 32\<rparr>))
            else Inr a)"

definition array_get :: "array_t \<Rightarrow> int \<Rightarrow> VALUE result" where
  "array_get a idx =
     (if idx \<ge> int (a_size a) then Inr 0
      else let idx = (if idx < 0 then idx + int (a_size a) else idx)
           in if idx < 0 then Inr 0 else read_slot (a_data a) (nat idx))"

definition array_set :: "array_t \<Rightarrow> int \<Rightarrow> VALUE \<Rightarrow> (array_t \<times> VALUE) result" where
  "array_set a idx val =
     rbind (if idx \<ge> int (a_size a) then array_grow a (idx + 1) else Inr a)
       (\<lambda>a. let idx = (if idx < 0 then idx + int (a_size a) else idx)
            in if idx < 0 then Inl Trap
               else rbind (write_slot (a_data a) (nat idx) val)
                      (\<lambda>d. Inr (a\<lparr>a_data := d\<rparr>, val)))"

text \<open>\<open>--array->size\<close> on the unsigned 32-bit counter.\<close>

definition dec32 :: "nat \<Rightarrow> nat" where
  "dec32 n = (n + (2 ^ 32 - 1)) mod 2 ^ 32"

lemma dec32_pos [simp]: "0 < n \<Longrightarrow> n \<le> 2 ^ 32 \<Longrightarrow> dec32 n = n - 1"
proof -
  assume "0 < n" "n \<le> 2 ^ 32"
  then have "n + (2 ^ 32 - 1) = (n - 1) + 2 ^ 32" "n - 1 < 2 ^ 32" by auto
  then show ?thesis unfolding dec32_def by (metis mod_add_self2 mod_less)
qed

fun shift_down :: "VALUE list \<Rightarrow> nat \<Rightarrow> nat \<Rightarrow> VALUE list result" where
  "shift_down d i 0 = Inr d"
| "shift_down d i (Suc k) =
     rbind (read_slot d (Suc i)) (\<lambda>v. rbind (write_slot d i v) (\<lambda>d. shift_down d (Suc i) k))"

definition array_erase :: "array_t \<Rightarrow> int \<Rightarrow> (array_t \<times> VALUE) result" where
  "array_erase a idx =
     rbind (if idx \<ge> int (a_size a) then array_grow a (idx + 1) else Inr a)
       (\<lambda>a. let idx = (if idx < 0 then idx + int (a_size a) else idx)
            in if idx < 0 then Inl Trap
               else rbind (read_slot (a_data a) (nat idx))
                 (\<lambda>val. rbind (shift_down (a_data a) (nat idx) (dec32 (a_size a) - nat idx))
                   (\<lambda>d. rbind (write_slot d (dec32 (a_size a)) 0)
                     (\<lambda>d. Inr (a\<lparr>a_data := d, a_size := dec32 (a_size a)\<rparr>, val)))))"

definition array_push :: "array_t \<Rightarrow> VALUE \<Rightarrow> (array_t \<times> VALUE) result" where
  "array_push a val = array_set a (int (array_size a)) val"

definition array_pop :: "array_t \<Rightarrow> (array_t \<times> VALUE) result" where
  "array_pop a =
     (if a_size a \<noteq> 0
      then rbind (read_slot (a_data a) (a_size a - 1))
        (\<lambda>val. rbind (write_slot (a_data a) (a_size a - 1) SN_NIL)
          (\<lambda>d. Inr (a\<lparr>a_data := d, a_size := a_size a - 1\<rparr>, val)))
      else Inr (a, 0))"

fun find_loop :: "(VALUE \<Rightarrow> bool result) \<Rightarrow> VALUE list \<Rightarrow> nat \<Rightarrow> nat \<Rightarrow> int result" where
  "find_loop hit d i 0 = Inr (-1)"
| "find_loop hit d i (Suc k) =
     rbind (read_slot d i) (\<lambda>x. rbind (hit x) (\<lambda>b. if b then Inr (int i) else find_loop hit d (Suc i) k))"

definition array_find :: "array_t \<Rightarrow> VALUE \<Rightarrow> int result" where
  "array_find a val = find_loop (\<lambda>x. Inr (x = val)) (a_data a) 0 (a_size a)"

definition array_find_with_compare ::
    "array_t \<Rightarrow> VALUE \<Rightarrow> (VALUE \<Rightarrow> VALUE \<Rightarrow> int result) \<Rightarrow> int result" where
  "array_find_with_compare a val cmp =
     find_loop (\<lambda>x. rbind (cmp x val) (\<lambda>n. Inr (n = 0))) (a_data a) 0 (a_size a)"

text \<open>
  The index goes through a 32-bit \<open>int\<close> in \<open>array_find_or_add\<close>; the conversion is
  written out.
\<close>

definition to_int32 :: "int \<Rightarrow> int" where
  "to_int32 n = signed_take_bit 31 n"

definition array_find_or_add :: "array_t \<Rightarrow> VALUE \<Rightarrow> (array_t \<times> int) result" where
  "array_find_or_add a val =
     rbind (array_find a val)
       (\<lambda>n. let i = to_int32 n in
            if i \<ge> 0 then Inr (a, i)
            else let i = to_int32 (int (array_size a))
                 in rbind (array_push a val) (\<lambda>(a, _). Inr (a, i)))"

definition array_clear :: "array_t \<Rightarrow> array_t result" where
  "array_clear a =
     (if a_data a \<noteq> []
      then if length (a_data a) < a_size a then Inl Undef
           else Inr (a\<lparr>a_data := replicate (a_size a) 0 @ drop (a_size a) (a_data a), a_size := 0\<rparr>)
      else Inr (a\<lparr>a_size := 0\<rparr>))"

subsection \<open>What an array promises: a list of values\<close>

definition array_wf :: "array_t \<Rightarrow> bool" where
  "array_wf a \<longleftrightarrow> a_size a \<le> length (a_data a) \<and> length (a_data a) = a_alloc a \<and> a_alloc a < 2 ^ 32"

definition elems :: "array_t \<Rightarrow> VALUE list" where
  "elems a = take (a_size a) (a_data a)"

definition norm_idx :: "nat \<Rightarrow> int \<Rightarrow> int" where
  "norm_idx n i = (if i < 0 then i + int n else i)"

definition list_get :: "VALUE list \<Rightarrow> int \<Rightarrow> VALUE" where
  "list_get xs i =
     (let j = norm_idx (length xs) i
      in if 0 \<le> j \<and> j < int (length xs) then xs ! nat j else 0)"

definition list_grow :: "VALUE list \<Rightarrow> nat \<Rightarrow> VALUE list" where
  "list_grow xs n = xs @ replicate (n - length xs) SN_NIL"

definition list_set :: "VALUE list \<Rightarrow> int \<Rightarrow> VALUE \<Rightarrow> VALUE list" where
  "list_set xs i v =
     (let j = nat (norm_idx (length xs) i) in (list_grow xs (Suc j))[j := v])"

definition list_erase :: "VALUE list \<Rightarrow> int \<Rightarrow> VALUE list" where
  "list_erase xs i =
     (let j = nat (norm_idx (length xs) i); ys = list_grow xs (Suc j) in take j ys @ drop (Suc j) ys)"

lemma length_elems: "array_wf a \<Longrightarrow> length (elems a) = a_size a"
  by (simp add: array_wf_def elems_def)

lemma fill_nil_ok:
  "i + k \<le> length d \<Longrightarrow>
   fill_nil d i k = Inr (take i d @ replicate k SN_NIL @ drop (i + k) d)"
proof (induction k arbitrary: d i)
  case (Suc k)
  have "take (Suc i) (d[i := SN_NIL]) = take i d @ [SN_NIL]"
    using Suc.prems by (simp add: take_Suc_conv_app_nth)
  with Suc show ?case by simp
qed simp

lemma list_grow_length [simp]: "length (list_grow xs n) = max (length xs) n"
  by (simp add: list_grow_def)

lemma list_grow_id [simp]: "n \<le> length xs \<Longrightarrow> list_grow xs n = xs"
  by (simp add: list_grow_def)

text \<open>\<open>array_grow\<close>: never shrinks, pads with nil, keeps the representation invariant.\<close>

lemma array_grow_ok:
  assumes wf: "array_wf a" and n: "n < 2 ^ 32"
  obtains a' where "array_grow a (int n) = Inr a'" "array_wf a'"
    "elems a' = list_grow (elems a) n" "a_size a' = max (a_size a) n"
proof (cases "n > a_size a")
  case False
  with wf have "array_grow a (int n) = Inr a"
    by (auto simp: array_grow_def array_wf_def)
  with False wf show thesis
    by (intro that [of a]) (auto simp: length_elems)
next
  case True
  let ?d = "take (a_size a) (a_data a) @ replicate (n - a_size a) SN_NIL @
              (if n > a_alloc a then [] else drop n (a_data a))"
  let ?a = "a\<lparr>a_data := ?d, a_size := n, a_alloc := max (a_alloc a) n\<rparr>"
  have "array_grow a (int n) = Inr ?a"
  proof (cases "n > a_alloc a")
    case T: True
    with wf n True show ?thesis
      by (simp add: array_grow_def array_wf_def fresh_blob_def fill_nil_ok)
  next
    case F: False
    with wf n True show ?thesis
      by (simp add: array_grow_def array_wf_def fill_nil_ok)
  qed
  moreover have "array_wf ?a" "elems ?a = list_grow (elems a) n"
    using wf n True by (auto simp: array_wf_def elems_def list_grow_def)
  ultimately show thesis using True by (intro that [of ?a]) auto
qed

lemma array_get_ok:
  assumes "array_wf a"
  shows "array_get a i = Inr (list_get (elems a) i)"
  using assms by (auto simp: array_get_def list_get_def norm_idx_def length_elems Let_def)
    (auto simp: array_wf_def elems_def)

lemma grow_to_index:
  assumes wf: "array_wf a" and lo: "- int (a_size a) \<le> i" and hi: "i < 2 ^ 32 - 1"
  defines "j \<equiv> nat (norm_idx (a_size a) i)"
  obtains b where "(if i \<ge> int (a_size a) then array_grow a (i + 1) else Inr a) = Inr b"
    "array_wf b" "elems b = list_grow (elems a) (Suc j)" "a_size b = max (a_size a) (Suc j)"
proof (cases "i \<ge> int (a_size a)")
  case True
  then have "int j = i" by (simp add: j_def norm_idx_def)
  then have s: "i + 1 = int (Suc j)" "int (Suc j) < int (2 ^ 32)" using hi by simp_all
  from s(2) have s2: "Suc j < 2 ^ 32" by (rule of_nat_less_imp_less)
  show ?thesis
    by (rule array_grow_ok [OF wf s2], rule that) (use True s(1) in \<open>simp_all add: add.commute\<close>)
next
  case False
  with lo have "Suc j \<le> a_size a" by (auto simp: j_def norm_idx_def)
  with False wf show ?thesis by (intro that [of a]) (auto simp: length_elems)
qed

lemma array_set_ok:
  assumes wf: "array_wf a" and lo: "- int (a_size a) \<le> i" and hi: "i < 2 ^ 32 - 1"
  obtains a' where "array_set a i v = Inr (a', v)" "array_wf a'" "elems a' = list_set (elems a) i v"
proof -
  define j where "j = nat (norm_idx (a_size a) i)"
  obtain b where b: "(if i \<ge> int (a_size a) then array_grow a (i + 1) else Inr a) = Inr b"
      "array_wf b" "elems b = list_grow (elems a) (Suc j)" "a_size b = max (a_size a) (Suc j)"
    using grow_to_index [OF wf lo hi] unfolding j_def by blast
  have idx: "(if i < 0 then i + int (a_size b) else i) = int j"
    using lo b(4) by (auto simp: j_def norm_idx_def)
  let ?c = "b\<lparr>a_data := (a_data b)[j := v]\<rparr>"
  have "j < length (a_data b)" using b(2,4) by (auto simp: array_wf_def)
  with b(1) idx have "array_set a i v = Inr (?c, v)"
    by (simp add: array_set_def Let_def)
  moreover have "array_wf ?c" using b(2) by (simp add: array_wf_def)
  moreover have "elems ?c = list_set (elems a) i v"
  proof -
    have "elems ?c = (elems b)[j := v]" by (simp add: elems_def take_update_swap)
    with b(3) wf show ?thesis by (simp add: list_set_def j_def length_elems Let_def)
  qed
  ultimately show thesis by (rule that)
qed

lemma shift_down_ok:
  "i + k < length d \<Longrightarrow>
   shift_down d i k = Inr (take i d @ take k (drop (Suc i) d) @ drop (i + k) d)"
proof (induction k arbitrary: d i)
  case (Suc k)
  let ?d = "d[i := d ! Suc i]"
  have "take (Suc i) ?d = take i d @ [d ! Suc i]"
    using Suc.prems by (simp add: take_Suc_conv_app_nth)
  moreover have "take (Suc k) (drop (Suc i) d) = d ! Suc i # take k (drop (Suc (Suc i)) d)"
    using Suc.prems by (simp add: Cons_nth_drop_Suc [symmetric])
  ultimately show ?case using Suc by simp
qed simp

lemma array_erase_ok:
  assumes wf: "array_wf a" and lo: "- int (a_size a) \<le> i" and hi: "i < 2 ^ 32 - 1"
  obtains a' where "array_erase a i = Inr (a', list_grow (elems a) (Suc (nat (norm_idx (a_size a) i))) ! nat (norm_idx (a_size a) i))"
    "array_wf a'" "elems a' = list_erase (elems a) i"
proof -
  define j where "j = nat (norm_idx (a_size a) i)"
  obtain b where b: "(if i \<ge> int (a_size a) then array_grow a (i + 1) else Inr a) = Inr b"
      "array_wf b" "elems b = list_grow (elems a) (Suc j)" "a_size b = max (a_size a) (Suc j)"
    using grow_to_index [OF wf lo hi] unfolding j_def by blast
  have idx: "(if i < 0 then i + int (a_size b) else i) = int j"
    using lo b(4) by (auto simp: j_def norm_idx_def)
  have len: "j < a_size b" "a_size b \<le> length (a_data b)" "a_size b < 2 ^ 32"
    using b(2,4) by (auto simp: array_wf_def)
  let ?d = "(take j (a_data b) @ take (a_size b - 1 - j) (drop (Suc j) (a_data b)) @
               drop (a_size b - 1) (a_data b))[a_size b - 1 := 0]"
  let ?c = "b\<lparr>a_data := ?d, a_size := a_size b - 1\<rparr>"
  have at: "elems b ! j = a_data b ! j" using len by (simp add: elems_def)
  have "array_erase a i = Inr (?c, elems b ! j)"
    unfolding array_erase_def b(1) using idx len at
    by (simp add: Let_def shift_down_ok)
  moreover have "array_wf ?c" using b(2) len by (auto simp: array_wf_def)
  moreover have "elems ?c = list_erase (elems a) i"
  proof -
    have "elems ?c = take j (elems b) @ drop (Suc j) (elems b)"
    proof -
      obtain m where m: "a_size b = Suc m" "j \<le> m" using len(1) by (cases "a_size b") auto
      with len(2) show ?thesis by (simp add: elems_def drop_take)
    qed
    with b(3) wf show ?thesis by (simp add: list_erase_def j_def length_elems Let_def)
  qed
  ultimately show thesis using b(3) that by (simp add: j_def)
qed

lemma array_push_ok:
  assumes "array_wf a" "a_size a < 2 ^ 32 - 1"
  obtains a' where "array_push a v = Inr (a', v)" "array_wf a'" "elems a' = elems a @ [v]"
  using assms
  by (auto intro: array_set_ok [of a "int (a_size a)" v]
      simp: array_push_def array_size_def list_set_def norm_idx_def length_elems list_grow_def
        list_update_append Let_def)

lemma array_pop_ok:
  assumes wf: "array_wf a" and ne: "elems a \<noteq> []"
  obtains a' where "array_pop a = Inr (a', last (elems a))" "array_wf a'" "elems a' = butlast (elems a)"
proof -
  have len: "0 < a_size a" "a_size a \<le> length (a_data a)"
    using wf ne by (auto simp: array_wf_def elems_def)
  let ?c = "a\<lparr>a_data := (a_data a)[a_size a - 1 := SN_NIL], a_size := a_size a - 1\<rparr>"
  have "last (elems a) = a_data a ! (a_size a - 1)"
    using len ne by (simp add: last_conv_nth elems_def min_def)
  then have "array_pop a = Inr (?c, last (elems a))" using len by (simp add: array_pop_def)
  moreover have "array_wf ?c" using wf by (auto simp: array_wf_def)
  moreover have "elems ?c = butlast (elems a)"
    using len by (simp add: elems_def butlast_take)
  ultimately show thesis by (rule that)
qed

lemma array_pop_empty: "a_size a = 0 \<Longrightarrow> array_pop a = Inr (a, 0)"
  by (simp add: array_pop_def)

lemma find_loop_ok:
  "i + k \<le> length d \<Longrightarrow>
   find_loop (\<lambda>x. Inr (x = v)) d i k =
     Inr (case index_of v (take k (drop i d)) of None \<Rightarrow> -1 | Some j \<Rightarrow> int (i + j))"
proof (induction k arbitrary: i)
  case (Suc k)
  have "take (Suc k) (drop i d) = d ! i # take k (drop (Suc i) d)"
    using Suc.prems by (simp add: Cons_nth_drop_Suc [symmetric])
  with Suc show ?case by (cases "d ! i = v") (auto split: option.splits dest: index_of_Some_in)
qed simp

lemma array_find_ok:
  "array_wf a \<Longrightarrow>
   array_find a v = Inr (case index_of v (elems a) of None \<Rightarrow> -1 | Some j \<Rightarrow> int j)"
  by (auto simp: array_find_def find_loop_ok array_wf_def elems_def split: option.split
      dest: index_of_Some_in)

lemma to_int32_small [simp]: "-(2 ^ 31) \<le> n \<Longrightarrow> n < 2 ^ 31 \<Longrightarrow> to_int32 n = n"
  by (simp add: to_int32_def signed_take_bit_int_eq_self)

lemma array_clear_ok:
  "array_wf a \<Longrightarrow> \<exists>a'. array_clear a = Inr a' \<and> array_wf a' \<and> elems a' = []"
  by (auto simp: array_clear_def array_wf_def elems_def)

subsection \<open>The interface: a growable sequence of values\<close>

text \<open>
  What the clients of \<open>array_t\<close> (argument lists, symbol tables, maps, arrays) rely on: an
  append and an indexed read over an abstract list, with room for \<open>room\<close> values.
\<close>

locale value_seq =
  fixes inv :: "'a \<Rightarrow> bool"
    and abs :: "'a \<Rightarrow> VALUE list"
    and append1 :: "'a \<Rightarrow> VALUE \<Rightarrow> ('a \<times> VALUE) result"
    and nth1 :: "'a \<Rightarrow> int \<Rightarrow> VALUE result"
    and room :: nat
  assumes append1_ok: "inv a \<Longrightarrow> length (abs a) < room \<Longrightarrow>
      \<exists>a'. append1 a v = Inr (a', v) \<and> inv a' \<and> abs a' = abs a @ [v]"
    and nth1_ok: "inv a \<Longrightarrow> nth1 a i = Inr (list_get (abs a) i)"
begin

primrec append_all :: "'a \<Rightarrow> VALUE list \<Rightarrow> 'a result" where
  "append_all a [] = Inr a"
| "append_all a (v # vs) = rbind (append1 a v) (\<lambda>(a, _). append_all a vs)"

lemma append_all_ok:
  "inv a \<Longrightarrow> length (abs a) + length vs \<le> room \<Longrightarrow>
   \<exists>a'. append_all a vs = Inr a' \<and> inv a' \<and> abs a' = abs a @ vs"
proof (induction vs arbitrary: a)
  case (Cons v vs)
  obtain b where b: "append1 a v = Inr (b, v)" "inv b" "abs b = abs a @ [v]"
    using append1_ok [of a v] Cons.prems by auto
  with Cons.IH [of b] Cons.prems(2) show ?case by auto
qed simp

lemma append_all_nth:
  assumes "inv a" "length (abs a) + length vs \<le> room"
    "append_all a vs = Inr a'" "i < length vs"
  shows "nth1 a' (int (length (abs a) + i)) = Inr (vs ! i)"
proof -
  have "inv a'" "abs a' = abs a @ vs" using append_all_ok assms by force+
  with assms(4) show ?thesis
    by (simp add: nth1_ok list_get_def norm_idx_def nth_append nat_int_add)
qed

end

lemma array_push_law:
  "array_wf a \<Longrightarrow> length (elems a) < 2 ^ 32 - 1 \<Longrightarrow>
   \<exists>a'. array_push a v = Inr (a', v) \<and> array_wf a' \<and> elems a' = elems a @ [v]"
  using array_push_ok [of a v] by (auto simp: length_elems)

interpretation arr: value_seq array_wf elems array_push array_get "2 ^ 32 - 1"
  by unfold_locales (auto simp: array_get_ok intro: array_push_law)

primrec array_push_all :: "array_t \<Rightarrow> VALUE list \<Rightarrow> array_t result" where
  "array_push_all a [] = Inr a"
| "array_push_all a (v # vs) = rbind (array_push a v) (\<lambda>(a, _). array_push_all a vs)"

lemma array_push_all_eq: "array_push_all a vs = arr.append_all a vs"
  by (induction vs arbitrary: a) (auto split: prod.splits intro!: arg_cong [where f = "rbind _"])

lemma array_init_wf [simp]: "array_wf array_init" "elems array_init = []" "a_size array_init = 0"
  by (simp_all add: array_init_def array_wf_def elems_def)

subsection \<open>Properties\<close>

text \<open>
  C18. Storing at an index: from a well-formed array and an index not before the first
  element, \<open>array_set\<close> succeeds, grows the array with nil up to the index where it lies
  past the end, and changes that slot only; a following \<open>array_get\<close> at any index, negative
  and out-of-range ones included, reads the abstract list that results.
\<close>

theorem array_set_then_get:
  assumes "array_wf a" "- int (a_size a) \<le> i" "i < 2 ^ 32 - 1"
  shows "\<exists>a'. array_set a i v = Inr (a', v) \<and> array_wf a' \<and>
           elems a' = list_set (elems a) i v \<and>
           (\<forall>j. array_get a' j = Inr (list_get (list_set (elems a) i v) j)) \<and>
           list_get (list_set (elems a) i v) (norm_idx (a_size a) i) = v"
proof -
  obtain a' where a': "array_set a i v = Inr (a', v)" "array_wf a'" "elems a' = list_set (elems a) i v"
    using array_set_ok assms by blast
  have "0 \<le> norm_idx (a_size a) i" using assms(2) by (simp add: norm_idx_def)
  then obtain k where "norm_idx (a_size a) i = int k" by (rule nonneg_int_cases)
  then have "list_get (list_set (elems a) i v) (norm_idx (a_size a) i) = v"
    using assms(1) by (simp add: list_get_def list_set_def length_elems norm_idx_def [of _ "int k"] less_max_iff_disj Let_def)
  with a' show ?thesis by (auto simp: array_get_ok)
qed

definition array_123 :: array_t where
  "array_123 = \<lparr>a_data = [3, 5, 7, uninit], a_size = 3, a_alloc = 4\<rparr>"

lemma array_123_wf: "array_wf array_123" "a_size array_123 = 3" "elems array_123 = [3, 5, 7]"
  by (simp_all add: array_123_def array_wf_def elems_def)

lemma array_set_then_get_witness:
  "\<exists>a'. array_set array_123 5 9 = Inr (a', 9) \<and> array_wf a' \<and>
        elems a' = [3, 5, 7, SN_NIL, SN_NIL, 9]"
proof -
  have "list_set (elems array_123) 5 9 = [3, 5, 7, SN_NIL, SN_NIL, 9]"
    by (simp add: array_123_wf list_set_def norm_idx_def list_grow_def numeral_eq_Suc)
  with array_set_then_get [of array_123 5 9] show ?thesis
    by (auto simp: array_123_wf)
qed

text \<open>
  C28. Erasing refines deletion from a list: \<open>array_erase\<close> returns the element at the
  (normalised) index, closes the gap, keeps the order of the others, and shrinks the array
  by one; an index past the end first grows the array with nil.
\<close>

theorem array_erase_refines:
  assumes "array_wf a" "- int (a_size a) \<le> i" "i < 2 ^ 32 - 1"
  shows "\<exists>a' w. array_erase a i = Inr (a', w) \<and> array_wf a' \<and>
           elems a' = list_erase (elems a) i \<and>
           (let j = norm_idx (a_size a) i
            in w = (if j < int (a_size a) then elems a ! nat j else SN_NIL) \<and>
               (j < int (a_size a) \<longrightarrow> elems a = take (nat j) (elems a') @ w # drop (nat j) (elems a')))"
proof -
  define j where "j = nat (norm_idx (a_size a) i)"
  have j: "norm_idx (a_size a) i = int j" using assms(2) by (simp add: j_def norm_idx_def)
  obtain a' where a': "array_erase a i = Inr (a', list_grow (elems a) (Suc j) ! j)"
    "array_wf a'" "elems a' = list_erase (elems a) i"
    using array_erase_ok [OF assms] unfolding j_def by blast
  have len: "length (elems a) = a_size a" using assms(1) by (rule length_elems)
  have "list_grow (elems a) (Suc j) ! j = (if j < a_size a then elems a ! j else SN_NIL)"
    using len by (simp add: list_grow_def nth_append)
  moreover have "elems a = take j (elems a') @ elems a ! j # drop j (elems a')" if "j < a_size a"
    using that len a'(3) j by (simp add: list_erase_def Let_def id_take_nth_drop min_def)
  ultimately show ?thesis using a' j by (auto simp: Let_def)
qed

lemma array_erase_refines_witness:
  "\<exists>a'. array_erase array_123 (- 2) = Inr (a', 5) \<and> elems a' = [3, 7]"
proof -
  have "list_erase (elems array_123) (- 2) = [3, 7]" "norm_idx (a_size array_123) (- 2) = 1"
    by (simp_all add: array_123_wf list_erase_def norm_idx_def)
  with array_erase_refines [of array_123 "- 2"] show ?thesis
    by (auto simp: array_123_wf Let_def)
qed

text \<open>
  C29. Appending and reading back: pushing a sequence of values onto a fresh array with
  \<open>array_push\<close> succeeds as long as the 32-bit counter can hold it, the array then holds
  exactly that sequence in order, and \<open>array_pop\<close> returns its last value and leaves the
  rest.
\<close>

theorem array_push_all_roundtrip:
  assumes "length vs < 2 ^ 32"
  shows "\<exists>a. array_push_all array_init vs = Inr a \<and> array_wf a \<and> elems a = vs \<and>
           (\<forall>i<length vs. array_get a (int i) = Inr (vs ! i)) \<and>
           (vs \<noteq> [] \<longrightarrow> (\<exists>b. array_pop a = Inr (b, last vs) \<and> array_wf b \<and> elems b = butlast vs))"
proof -
  have le: "length (elems array_init) + length vs \<le> 2 ^ 32 - 1" using assms by simp
  obtain a where a: "array_push_all array_init vs = Inr a" "array_wf a" "elems a = vs"
    using arr.append_all_ok [OF array_init_wf(1) le] by (auto simp: array_push_all_eq)
  have "array_get a (int i) = Inr (vs ! i)" if "i < length vs" for i
    using arr.append_all_nth [OF array_init_wf(1) le _ that, of a] a(1) by (simp add: array_push_all_eq)
  moreover have "\<exists>b. array_pop a = Inr (b, last vs) \<and> array_wf b \<and> elems b = butlast vs" if "vs \<noteq> []"
    using array_pop_ok [OF a(2)] a(3) that by metis
  ultimately show ?thesis using a by blast
qed

lemma array_push_all_roundtrip_witness:
  "\<exists>a. array_push_all array_init [3, 5] = Inr a \<and> elems a = [3, 5]"
  using array_push_all_roundtrip [of "[3, 5]"] by auto

text \<open>
  \<open>array_find_or_add\<close> interns: it returns the first index of a value that is there
  and leaves the array as it is, and otherwise appends the value and returns its index, so
  an array without duplicates stays without duplicates.
\<close>

theorem array_find_or_add_interns:
  assumes wf: "array_wf a" and sz: "a_size a < 2 ^ 31"
  shows "\<exists>a' i. array_find_or_add a v = Inr (a', int i) \<and> array_wf a' \<and>
           i < length (elems a') \<and> elems a' ! i = v \<and>
           elems a' = (if v \<in> set (elems a) then elems a else elems a @ [v]) \<and>
           (distinct (elems a) \<longrightarrow> distinct (elems a'))"
proof (cases "index_of v (elems a)")
  case None
  obtain a' where a': "array_push a v = Inr (a', v)" "array_wf a'" "elems a' = elems a @ [v]"
    using array_push_law [OF wf, of v] sz wf by (auto simp: length_elems)
  have "array_find_or_add a v = Inr (a', int (a_size a))"
    using None sz a'(1) by (simp add: array_find_or_add_def array_find_ok [OF wf] array_size_def Let_def)
  moreover have "(elems a @ [v]) ! a_size a = v" using wf by (simp add: nth_append length_elems)
  ultimately show ?thesis using a' None wf by (auto simp: length_elems)
next
  case (Some i)
  then have i: "i < length (elems a)" "elems a ! i = v" "v \<in> set (elems a)"
    using index_of_SomeD [OF Some] index_of_Some_in by auto
  then have "array_find_or_add a v = Inr (a, int i)"
    using Some sz wf by (simp add: array_find_or_add_def array_find_ok Let_def length_elems)
  with i wf show ?thesis by auto
qed

lemma array_find_or_add_interns_witness:
  "\<exists>a' i. array_find_or_add array_123 7 = Inr (a', int i) \<and> elems a' ! i = 7 \<and> elems a' = [3, 5, 7]"
proof -
  have "array_wf array_123" "a_size array_123 < 2 ^ 31" by (simp_all add: array_123_wf)
  from array_find_or_add_interns [OF this, of 7] show ?thesis by (auto simp: array_123_wf)
qed

end
