(* ===== verification/SnowMap.thy ===== *)
theory SnowMap
  imports ArrayT
begin

text \<open>
  Maps (snow/map.c, snow/map.h): an unordered block of key/value tuples, searched linearly
  with the comparison function stored in the map.  \<open>m_data\<close> is the block of tuples
  \<open>data\<close> points to, \<open>m_size\<close> the number in use.  The comparison function
  (\<open>SnMapCompare\<close>) is a component of the record, as in the code; it returns a C
  \<open>int\<close> or fails, since the deep comparison calls back into the program.
\<close>

type_synonym tuple = "VALUE \<times> VALUE"

record SnMap =
  m_size :: nat
  m_data :: "tuple list"
  m_compare :: "VALUE \<Rightarrow> VALUE \<Rightarrow> int result"

subsection \<open>Operations\<close>

text \<open>
  \<open>(intx)b - (intx)a\<close> is a 64-bit difference; returning it as \<open>int\<close> keeps its low
  32 bits.
\<close>

definition snow_map_compare_default :: "VALUE \<Rightarrow> VALUE \<Rightarrow> int result" where
  "snow_map_compare_default a b = Inr (sint (ucast (b - a) :: 32 word))"

definition snow_create_map :: SnMap where
  "snow_create_map = \<lparr>m_size = 0, m_data = [], m_compare = snow_map_compare_default\<rparr>"

definition snow_create_map_with_compare :: "(VALUE \<Rightarrow> VALUE \<Rightarrow> int result) \<Rightarrow> SnMap" where
  "snow_create_map_with_compare cmp = snow_create_map\<lparr>m_compare := cmp\<rparr>"

text \<open>\<open>snow_compare_objects\<close> (snow.c), a call into the program, is a parameter.\<close>

definition snow_create_map_with_deep_comparison :: "(VALUE \<Rightarrow> VALUE \<Rightarrow> int result) \<Rightarrow> SnMap" where
  "snow_create_map_with_deep_comparison snow_compare_objects =
     snow_create_map_with_compare snow_compare_objects"

fun scan_tuples ::
    "(VALUE \<Rightarrow> VALUE \<Rightarrow> int result) \<Rightarrow> VALUE \<Rightarrow> tuple list \<Rightarrow> nat \<Rightarrow> nat \<Rightarrow> nat option result" where
  "scan_tuples cmp key d i 0 = Inr None"
| "scan_tuples cmp key d i (Suc k) =
     rbind (read_slot d i) (\<lambda>t. rbind (cmp (fst t) key)
       (\<lambda>c. if c = 0 then Inr (Some i) else scan_tuples cmp key d (Suc i) k))"

definition snow_map_get :: "SnMap \<Rightarrow> VALUE \<Rightarrow> VALUE result" where
  "snow_map_get m key =
     rbind (scan_tuples (m_compare m) key (m_data m) 0 (m_size m))
       (\<lambda>r. case r of Some i \<Rightarrow> rbind (read_slot (m_data m) i) (\<lambda>t. Inr (snd t)) | None \<Rightarrow> Inr 0)"

definition snow_map_contains :: "SnMap \<Rightarrow> VALUE \<Rightarrow> bool result" where
  "snow_map_contains m key = rbind (snow_map_get m key) (\<lambda>v. Inr (v \<noteq> 0))"

definition snow_map_set :: "SnMap \<Rightarrow> VALUE \<Rightarrow> VALUE \<Rightarrow> SnMap result" where
  "snow_map_set m key val =
     rbind (assert_ok (key \<noteq> 0)) (\<lambda>_.
     rbind (scan_tuples (m_compare m) key (m_data m) 0 (m_size m)) (\<lambda>r. case r of
       Some i \<Rightarrow>
         rbind (read_slot (m_data m) i) (\<lambda>t.
         rbind (write_slot (m_data m) i (fst t, val)) (\<lambda>d. Inr (m\<lparr>m_data := d\<rparr>)))
     | None \<Rightarrow>
         if length (m_data m) < m_size m then Inl Undef
         else Inr (m\<lparr>m_data := take (m_size m) (m_data m) @ [(key, val)],
                     m_size := m_size m + 1\<rparr>)))"

definition snow_map_size :: "SnMap \<Rightarrow> nat" where
  "snow_map_size m = m_size m"

definition map_keys :: "SnMap \<Rightarrow> array_t result" where
  "map_keys self =
     (if length (m_data self) < m_size self then Inl Undef
      else array_push_all array_init (map fst (take (m_size self) (m_data self))))"

definition map_values :: "SnMap \<Rightarrow> array_t result" where
  "map_values self =
     (if length (m_data self) < m_size self then Inl Undef
      else array_push_all array_init (map snd (take (m_size self) (m_data self))))"

text \<open>The methods \<open>[]\<close> and \<open>[]:\<close> of maps.\<close>

definition map_get :: "SnMap \<Rightarrow> VALUE list option \<Rightarrow> VALUE result" where
  "map_get self args = rbind (require_args args 1) (\<lambda>ARGS. snow_map_get self (ARGS ! 0))"

definition map_set :: "SnMap \<Rightarrow> VALUE list option \<Rightarrow> (SnMap \<times> VALUE) result" where
  "map_set self args = rbind (require_args args 2) (\<lambda>ARGS.
     rbind (snow_map_set self (ARGS ! 0) (ARGS ! 1)) (\<lambda>m. Inr (m, ARGS ! 1)))"

subsection \<open>The abstract map\<close>

text \<open>
  A comparison function compares by a class of keys when it returns zero exactly for two
  keys of one class.  The tuples in use then represent a partial function on classes.
\<close>

definition compares_by :: "(VALUE \<Rightarrow> 'c) \<Rightarrow> (VALUE \<Rightarrow> VALUE \<Rightarrow> int result) \<Rightarrow> bool" where
  "compares_by cls cmp \<longleftrightarrow> (\<forall>a b. \<exists>n. cmp a b = Inr n \<and> (n = 0 \<longleftrightarrow> cls a = cls b))"

definition tuples :: "SnMap \<Rightarrow> tuple list" where
  "tuples m = take (m_size m) (m_data m)"

definition map_wf :: "(VALUE \<Rightarrow> 'c) \<Rightarrow> SnMap \<Rightarrow> bool" where
  "map_wf cls m \<longleftrightarrow> m_size m \<le> length (m_data m) \<and> distinct (map (cls \<circ> fst) (tuples m)) \<and>
     0 \<notin> fst ` set (tuples m)"

definition map_abs :: "(VALUE \<Rightarrow> 'c) \<Rightarrow> SnMap \<Rightarrow> 'c \<rightharpoonup> VALUE" where
  "map_abs cls m = map_of (map (\<lambda>t. (cls (fst t), snd t)) (tuples m))"

definition get_opt :: "VALUE option \<Rightarrow> VALUE" where
  "get_opt r = (case r of None \<Rightarrow> 0 | Some v \<Rightarrow> v)"

lemma get_opt_simps [simp]: "get_opt None = 0" "get_opt (Some v) = v"
  by (simp_all add: get_opt_def)

lemma tuples_simps [simp]: "m_size m \<le> length (m_data m) \<Longrightarrow> length (tuples m) = m_size m"
  by (simp add: tuples_def)

lemma scan_tuples_ok:
  assumes "compares_by cls cmp"
  shows "i + k \<le> length d \<Longrightarrow>
    scan_tuples cmp key d i k =
      Inr (map_option ((+) i) (index_of (cls key) (map (cls \<circ> fst) (take k (drop i d)))))"
proof (induction k arbitrary: i)
  case (Suc k)
  obtain n where n: "cmp (fst (d ! i)) key = Inr n" "n = 0 \<longleftrightarrow> cls (fst (d ! i)) = cls key"
    using assms unfolding compares_by_def by blast
  have "take (Suc k) (drop i d) = d ! i # take k (drop (Suc i) d)"
    using Suc.prems by (simp add: Cons_nth_drop_Suc [symmetric])
  with Suc n show ?case by (auto simp: option.map_comp comp_def)
qed simp

lemma scan_tuples_wf:
  assumes "compares_by cls (m_compare m)" "map_wf cls m"
  shows "scan_tuples (m_compare m) key (m_data m) 0 (m_size m) =
    Inr (index_of (cls key) (map (cls \<circ> fst) (tuples m)))"
  using scan_tuples_ok [OF assms(1), of 0 "m_size m" "m_data m" key] assms(2)
  by (simp add: map_wf_def tuples_def)

lemma map_of_classes:
  "map_of (map (\<lambda>t. (cls (fst t), snd t)) ts) c =
     (case index_of c (map (cls \<circ> fst) ts) of None \<Rightarrow> None | Some i \<Rightarrow> Some (snd (ts ! i)))"
  by (induction ts) (auto split: option.splits)

lemma map_abs_eq:
  "map_abs cls m c =
     (case index_of c (map (cls \<circ> fst) (tuples m)) of None \<Rightarrow> None | Some i \<Rightarrow> Some (snd (tuples m ! i)))"
  by (simp add: map_abs_def map_of_classes)

lemma snow_map_get_ok:
  assumes "compares_by cls (m_compare m)" "map_wf cls m"
  shows "snow_map_get m key = Inr (get_opt (map_abs cls m (cls key)))"
proof (cases "index_of (cls key) (map (cls \<circ> fst) (tuples m))")
  case (Some i)
  then have "i < m_size m" using index_of_SomeD [OF Some] assms(2) by (simp add: map_wf_def)
  with Some assms show ?thesis
    by (auto simp: snow_map_get_def scan_tuples_wf map_abs_eq map_wf_def tuples_def)
next
  case None
  with assms show ?thesis
    by (simp only: snow_map_get_def scan_tuples_wf map_abs_eq) simp
qed

lemma map_of_update_class:
  assumes "distinct (map (cls \<circ> fst) ts)" "i < length ts"
  shows "map_of (map (\<lambda>t. (cls (fst t), snd t)) (ts[i := (fst (ts ! i), v)])) =
    (map_of (map (\<lambda>t. (cls (fst t), snd t)) ts))(cls (fst (ts ! i)) \<mapsto> v)"
  using assms
proof (induction ts arbitrary: i)
  case (Cons t ts)
  show ?case
  proof (cases i)
    case (Suc j)
    with Cons have "cls (fst t) \<noteq> cls (fst (ts ! j))" by auto
    with Suc Cons show ?thesis by (auto simp: fun_upd_twist)
  qed auto
qed simp

lemma snow_map_set_ok:
  assumes cmp: "compares_by cls (m_compare m)" and wf: "map_wf cls m" and key: "key \<noteq> 0"
  obtains m' where "snow_map_set m key v = Inr m'" "map_wf cls m'" "m_compare m' = m_compare m"
    "map_abs cls m' = (map_abs cls m)(cls key \<mapsto> v)"
    "map fst (tuples m') = map fst (tuples m) @ (if cls key \<in> dom (map_abs cls m) then [] else [key])"
proof (cases "index_of (cls key) (map (cls \<circ> fst) (tuples m))")
  case (Some i)
  have i: "i < m_size m" "i < length (tuples m)" "cls (fst (tuples m ! i)) = cls key"
    using index_of_SomeD [OF Some] wf by (auto simp: map_wf_def)
  let ?m = "m\<lparr>m_data := (m_data m)[i := (fst (m_data m ! i), v)]\<rparr>"
  have t: "tuples ?m = (tuples m)[i := (fst (tuples m ! i), v)]" "tuples m ! i = m_data m ! i"
    using i by (auto simp: tuples_def take_update_swap)
  have fsts: "map fst (tuples ?m) = map fst (tuples m)"
    using i t by (simp add: map_update list_update_same_conv)
  have "snow_map_set m key v = Inr ?m"
    using Some i key wf cmp by (auto simp: snow_map_set_def scan_tuples_wf map_wf_def)
  moreover have "map_wf cls ?m"
  proof -
    have "map (cls \<circ> fst) (tuples ?m) = map (cls \<circ> fst) (tuples m)"
      using fsts by (metis list.map_comp)
    moreover have "fst ` set (tuples ?m) = fst ` set (tuples m)"
      using fsts by (metis list.set_map)
    ultimately show ?thesis using wf by (simp add: map_wf_def)
  qed
  moreover have "map_abs cls ?m = (map_abs cls m)(cls key \<mapsto> v)"
    using map_of_update_class [of cls "tuples m" i v] i wf unfolding map_abs_def t(1)
    by (simp add: map_wf_def)
  moreover have "cls key \<in> dom (map_abs cls m)" using Some by (simp add: map_abs_eq dom_def)
  ultimately show ?thesis using fsts by (intro that [of ?m]) auto
next
  case None
  let ?m = "m\<lparr>m_data := take (m_size m) (m_data m) @ [(key, v)], m_size := m_size m + 1\<rparr>"
  have t: "tuples ?m = tuples m @ [(key, v)]" using wf by (simp add: tuples_def map_wf_def)
  have "snow_map_set m key v = Inr ?m"
    using key wf scan_tuples_wf [OF cmp wf, of key] None
    by (auto simp: snow_map_set_def map_wf_def simp del: index_of_None)
  moreover have "map_wf cls ?m"
    using wf None key t by (auto simp: map_wf_def)
  moreover have "cls key \<notin> dom (map_abs cls m)"
    using None by (simp add: map_abs_eq dom_def del: index_of_None)
  moreover from this have "map_abs cls ?m = (map_abs cls m)(cls key \<mapsto> v)"
    unfolding map_abs_def t by (auto simp: map_add_def dom_def split: option.splits)
  ultimately show ?thesis using t by (intro that [of ?m]) auto
qed

subsection \<open>The default comparison\<close>

lemma ucast32_eq_0: "(ucast (x :: VALUE) :: 32 word) = 0 \<longleftrightarrow> 2 ^ 32 dvd uint x"
  proof -
  have "(ucast x :: 32 word) = word_of_int (uint x)" by (rule ucast_eq)
  then show ?thesis using word_of_int_eq_0_iff [where 'a = 32, of "uint x"] by simp
qed

lemma sint_eq_0: "sint w = 0 \<longleftrightarrow> w = 0"
  using signed_word_eqI [of w 0] by auto

lemma uint_diff: "uint ((b::VALUE) - a) = (uint b - uint a) mod 2 ^ 64"
  by (simp add: uint_word_ariths)

lemma compare_default_eq_0:
  "snow_map_compare_default a b = Inr 0 \<longleftrightarrow> take_bit 32 a = take_bit 32 b"
proof -
  have "snow_map_compare_default a b = Inr 0 \<longleftrightarrow> (ucast (b - a) :: 32 word) = 0"
    by (simp only: snow_map_compare_default_def sum.inject sint_eq_0)
  also have "\<dots> \<longleftrightarrow> 2 ^ 32 dvd (uint b - uint a) mod 2 ^ 64"
    by (simp only: ucast32_eq_0 uint_diff)
  also have "\<dots> \<longleftrightarrow> 2 ^ 32 dvd (uint b - uint a)"
    by (rule dvd_mod_iff) (simp add: le_imp_power_dvd)
  also have "\<dots> \<longleftrightarrow> take_bit 32 (uint b) = take_bit 32 (uint a)"
    by (simp only: mod_eq_dvd_iff take_bit_eq_mod)
  also have "\<dots> \<longleftrightarrow> take_bit 32 b = take_bit 32 a"
    by (simp only: word_uint_eq_iff unsigned_take_bit_eq)
  finally show ?thesis by auto
qed

lemma compares_by_default: "compares_by (take_bit 32) snow_map_compare_default"
  unfolding compares_by_def
proof (intro allI)
  fix a b
  show "\<exists>n. snow_map_compare_default a b = Inr n \<and> (n = 0) = (take_bit 32 a = take_bit 32 b)"
    using compare_default_eq_0 [of a b] by (auto simp: snow_map_compare_default_def)
qed

subsection \<open>The interface: an associative container\<close>

text \<open>
  What a client such as the named-argument collector of snow/arguments.c relies on: a
  lookup after an insertion, over an abstract map keyed by classes of values.
\<close>

locale assoc =
  fixes inv :: "'m \<Rightarrow> bool"
    and abs :: "'m \<Rightarrow> 'c \<rightharpoonup> VALUE"
    and cls :: "VALUE \<Rightarrow> 'c"
    and lookup :: "'m \<Rightarrow> VALUE \<Rightarrow> VALUE result"
    and insert1 :: "'m \<Rightarrow> VALUE \<Rightarrow> VALUE \<Rightarrow> 'm result"
  assumes lookup_ok: "inv m \<Longrightarrow> lookup m k = Inr (get_opt (abs m (cls k)))"
    and insert1_ok: "inv m \<Longrightarrow> k \<noteq> 0 \<Longrightarrow>
      \<exists>m'. insert1 m k v = Inr m' \<and> inv m' \<and> abs m' = (abs m)(cls k \<mapsto> v)"
begin

primrec insert_all :: "'m \<Rightarrow> (VALUE \<times> VALUE) list \<Rightarrow> 'm result" where
  "insert_all m [] = Inr m"
| "insert_all m (kv # kvs) = rbind (insert1 m (fst kv) (snd kv)) (\<lambda>m. insert_all m kvs)"

lemma insert_all_ok:
  "inv m \<Longrightarrow> 0 \<notin> fst ` set kvs \<Longrightarrow>
   \<exists>m'. insert_all m kvs = Inr m' \<and> inv m' \<and>
        abs m' = abs m ++ map_of (rev (map (\<lambda>kv. (cls (fst kv), snd kv)) kvs))"
proof (induction kvs arbitrary: m)
  case (Cons kv kvs)
  obtain m1 where m1: "insert1 m (fst kv) (snd kv) = Inr m1" "inv m1"
      "abs m1 = (abs m)(cls (fst kv) \<mapsto> snd kv)"
    using insert1_ok [of m "fst kv" "snd kv"] Cons.prems by auto
  have "abs m1 ++ map_of (rev (map (\<lambda>kv. (cls (fst kv), snd kv)) kvs)) =
      abs m ++ map_of (rev (map (\<lambda>kv. (cls (fst kv), snd kv)) (kv # kvs)))"
    unfolding m1(3) by (simp add: map_add_def fun_eq_iff split: option.splits)
  moreover obtain m2 where "insert_all m1 kvs = Inr m2" "inv m2"
      "abs m2 = abs m1 ++ map_of (rev (map (\<lambda>kv. (cls (fst kv), snd kv)) kvs))"
    using Cons.IH [of m1] m1(2) Cons.prems(2) by auto
  ultimately show ?case using m1(1) by (intro exI [of _ m2]) simp
qed simp

lemma insert_then_lookup:
  assumes "inv m" "k \<noteq> 0" "insert1 m k v = Inr m'"
  shows "lookup m' k' = (if cls k' = cls k then Inr v else lookup m k')"
  using insert1_ok [OF assms(1,2), of v] assms lookup_ok by auto

end

definition default_map :: "SnMap \<Rightarrow> bool" where
  "default_map m \<longleftrightarrow> map_wf (take_bit 32) m \<and> m_compare m = snow_map_compare_default"

interpretation dmap: assoc default_map "map_abs (take_bit 32)" "take_bit 32" snow_map_get snow_map_set
proof
  show "snow_map_get m k = Inr (get_opt (map_abs (take_bit 32) m (take_bit 32 k)))"
    if "default_map m" for m k
    using that snow_map_get_ok [of "take_bit 32" m k] compares_by_default by (simp add: default_map_def)
  show "\<exists>m'. snow_map_set m k v = Inr m' \<and> default_map m' \<and>
      map_abs (take_bit 32) m' = (map_abs (take_bit 32) m)(take_bit 32 k \<mapsto> v)"
    if "default_map m" "k \<noteq> 0" for m k v
    using that snow_map_set_ok [of "take_bit 32" m k v] compares_by_default
    by (auto simp: default_map_def)
qed

lemma empty_map [simp]:
  "default_map snow_create_map" "map_abs cls snow_create_map = Map.empty" "map_wf cls snow_create_map"
  by (simp_all add: snow_create_map_def default_map_def map_wf_def tuples_def map_abs_def)

lemma map_keys_ok:
  assumes "map_wf cls m" "m_size m < 2 ^ 32"
  obtains a where "map_keys m = Inr a" "array_wf a" "elems a = map fst (tuples m)"
proof -
  have "length (map fst (tuples m)) < 2 ^ 32" using assms by (simp add: map_wf_def tuples_def)
  then obtain a where "array_push_all array_init (map fst (tuples m)) = Inr a" "array_wf a"
      "elems a = map fst (tuples m)"
    using arr.append_all_ok [OF array_init_wf(1), of "map fst (tuples m)"]
    by (auto simp: array_push_all_eq)
  with assms show ?thesis by (intro that [of a]) (auto simp: map_keys_def map_wf_def tuples_def)
qed

subsection \<open>Properties\<close>

text \<open>
  C19. Insertion and lookup: for any comparison function that compares by a class of keys,
  \<open>snow_map_set\<close> on a well-formed map with a key other than null succeeds, keeps the map
  well-formed, and updates the abstract map at the key's class only; every later
  \<open>snow_map_get\<close> reads the value stored last for its class, or null.
\<close>

theorem map_set_then_get:
  assumes "compares_by cls (m_compare m)" "map_wf cls m" "key \<noteq> 0"
  shows "\<exists>m'. snow_map_set m key v = Inr m' \<and> map_wf cls m' \<and>
           map_abs cls m' = (map_abs cls m)(cls key \<mapsto> v) \<and>
           (\<forall>k. snow_map_get m' k = (if cls k = cls key then Inr v else snow_map_get m k)) \<and>
           snow_map_size m' = snow_map_size m + (if cls key \<in> dom (map_abs cls m) then 0 else 1)"
proof -
  obtain m' where m': "snow_map_set m key v = Inr m'" "map_wf cls m'" "m_compare m' = m_compare m"
    "map_abs cls m' = (map_abs cls m)(cls key \<mapsto> v)"
    "map fst (tuples m') = map fst (tuples m) @ (if cls key \<in> dom (map_abs cls m) then [] else [key])"
    using snow_map_set_ok [OF assms] by blast
  have "length (map fst (tuples m')) = length (tuples m) + (if cls key \<in> dom (map_abs cls m) then 0 else 1)"
    unfolding m'(5) by simp
  then have "snow_map_size m' = snow_map_size m + (if cls key \<in> dom (map_abs cls m) then 0 else 1)"
    using m'(2) assms(2) by (simp add: map_wf_def snow_map_size_def)
  moreover have "\<forall>k. snow_map_get m' k = (if cls k = cls key then Inr v else snow_map_get m k)"
    using m' assms by (simp add: snow_map_get_ok [of cls])
  ultimately show ?thesis using m' by blast
qed

lemma map_set_then_get_witness:
  "\<exists>m'. snow_map_set snow_create_map 3 7 = Inr m' \<and> snow_map_get m' 3 = Inr 7 \<and>
        snow_map_size m' = 1"
proof -
  have "compares_by (take_bit 32) (m_compare snow_create_map)"
    by (simp add: snow_create_map_def compares_by_default)
  from map_set_then_get [OF this, of 3 7] show ?thesis
    by (auto simp: snow_map_size_def snow_create_map_def [THEN arg_cong [where f = m_size]])
qed

text \<open>
  C30. What the default comparison really compares: \<open>snow_map_compare_default\<close> returns
  zero exactly when the keys agree in their low 32 bits, because the 64-bit difference is
  truncated to \<open>int\<close>.  A default map is therefore a map on the low halves of its keys:
  setting a key replaces the value of every key with the same low half.
\<close>

theorem map_default_low_half:
  "(snow_map_compare_default a b = Inr 0 \<longleftrightarrow> take_bit 32 a = take_bit 32 b) \<and>
   (default_map m \<and> key \<noteq> 0 \<longrightarrow>
      (\<exists>m'. snow_map_set m key v = Inr m' \<and> default_map m' \<and>
        (\<forall>k. snow_map_get m' k = (if take_bit 32 k = take_bit 32 key then Inr v else snow_map_get m k))))"
proof (intro conjI impI)
  show "snow_map_compare_default a b = Inr 0 \<longleftrightarrow> take_bit 32 a = take_bit 32 b"
    by (rule compare_default_eq_0)
  assume "default_map m \<and> key \<noteq> 0"
  then obtain m' where m': "snow_map_set m key v = Inr m'" "default_map m'"
    using dmap.insert1_ok by blast
  with dmap.insert_then_lookup [of m key v m'] \<open>default_map m \<and> key \<noteq> 0\<close>
  show "\<exists>m'. snow_map_set m key v = Inr m' \<and> default_map m' \<and>
        (\<forall>k. snow_map_get m' k = (if take_bit 32 k = take_bit 32 key then Inr v else snow_map_get m k))"
    by auto
qed

text \<open>Two integers a multiple of \<open>2 ^ 31\<close> apart share one entry.\<close>

lemma map_default_low_half_witness:
  "\<exists>m'. snow_map_set snow_create_map (int_to_value 0) 7 = Inr m' \<and>
        snow_map_get m' (int_to_value (2 ^ 31)) = Inr 7"
proof -
  have "take_bit 32 (int_to_value (2 ^ 31)) = take_bit 32 (int_to_value 0)" "int_to_value 0 \<noteq> 0"
    by (simp_all add: int_to_value_def)
  with map_default_low_half [of 0 0 snow_create_map "int_to_value 0" 7] show ?thesis by auto
qed

text \<open>
  The listing of a map: \<open>map.keys\<close> and \<open>map.values\<close> list the entries in insertion
  order, the two lists pair up to the abstract map, no key class occurs twice, and a set
  of a new key appends it at the end of the keys.
\<close>

theorem map_listing:
  assumes "map_wf cls m" "m_size m < 2 ^ 32"
  shows "\<exists>ks vs. map_keys m = Inr ks \<and> map_values m = Inr vs \<and> array_wf ks \<and> array_wf vs \<and>
           length (elems ks) = snow_map_size m \<and> length (elems vs) = snow_map_size m \<and>
           distinct (map cls (elems ks)) \<and>
           map_abs cls m = map_of (zip (map cls (elems ks)) (elems vs))"
proof -
  obtain ks where ks: "map_keys m = Inr ks" "array_wf ks" "elems ks = map fst (tuples m)"
    using map_keys_ok [OF assms] by blast
  have "length (map snd (tuples m)) < 2 ^ 32" using assms by (simp add: map_wf_def tuples_def)
  then obtain vs where vs: "map_values m = Inr vs" "array_wf vs" "elems vs = map snd (tuples m)"
    using arr.append_all_ok [OF array_init_wf(1), of "map snd (tuples m)"] assms
    by (auto simp: array_push_all_eq map_values_def map_wf_def tuples_def)
  have "zip (map cls (elems ks)) (elems vs) = map (\<lambda>t. (cls (fst t), snd t)) (tuples m)"
    unfolding ks(3) vs(3) by (simp add: zip_map1 zip_map2 zip_same_conv_map)
  then have "map_abs cls m = map_of (zip (map cls (elems ks)) (elems vs))"
    by (simp add: map_abs_def)
  moreover have "distinct (map cls (elems ks))"
    using assms ks(3) by (simp add: map_wf_def)
  ultimately show ?thesis
    using ks vs assms by (auto simp: map_wf_def snow_map_size_def)
qed

definition map_ab :: SnMap where
  "map_ab = \<lparr>m_size = 2, m_data = [(3, 7), (5, 9)], m_compare = snow_map_compare_default\<rparr>"

lemma map_listing_witness:
  "\<exists>ks vs. map_keys map_ab = Inr ks \<and> map_values map_ab = Inr vs \<and>
        length (elems ks) = 2 \<and> length (elems vs) = 2"
proof -
  have "map_wf id map_ab" "m_size map_ab < 2 ^ 32"
    by (simp_all add: map_ab_def map_wf_def tuples_def)
  from map_listing [OF this] obtain ks vs where "map_keys map_ab = Inr ks" "map_values map_ab = Inr vs"
    "length (elems ks) = snow_map_size map_ab" "length (elems vs) = snow_map_size map_ab" by blast
  moreover have "snow_map_size map_ab = 2" by (simp add: snow_map_size_def map_ab_def)
  ultimately show ?thesis by auto
qed

end
