(* ===== verification/LinkBuffer.thy ===== *)
theory LinkBuffer
  imports Prelude
begin

text \<open>
  The growing byte buffer the assembler writes into (snow/linkbuffer.c): a linked list of
  pages of \<open>page_size\<close> bytes, each with the number of bytes in use.  The list from
  \<open>head\<close> is a HOL list of pages; \<open>tail\<close> is its last page, as every operation keeps it.
  \<open>pg_data\<close> is the page's flexible array, \<open>page_size\<close> bytes long, filled as
  \<open>snow_malloc\<close> does in the debug build.
\<close>

type_synonym byte = "8 word"

record page =
  pg_offset :: nat
  pg_data :: "byte list"

record SnLinkBuffer =
  page_size :: nat
  pages :: "page list"

subsection \<open>Operations\<close>

definition snow_init_linkbuffer :: "nat \<Rightarrow> SnLinkBuffer" where
  "snow_init_linkbuffer psize = \<lparr>page_size = psize, pages = []\<rparr>"

fun size_pages :: "nat \<Rightarrow> page list \<Rightarrow> nat" where
  "size_pages psize [] = 0"
| "size_pages psize [p] = pg_offset p"
| "size_pages psize (p # q # ps) = psize + size_pages psize (q # ps)"

definition snow_linkbuffer_size :: "SnLinkBuffer \<Rightarrow> nat" where
  "snow_linkbuffer_size buf = size_pages (page_size buf) (pages buf)"

definition fresh_page :: "nat \<Rightarrow> page" where
  "fresh_page psize = \<lparr>pg_offset = 0, pg_data = replicate psize 0xcd\<rparr>"

definition snow_linkbuffer_push :: "SnLinkBuffer \<Rightarrow> byte \<Rightarrow> (SnLinkBuffer \<times> nat) result" where
  "snow_linkbuffer_push buf b =
     (let ps = (if pages buf = [] \<or> pg_offset (last (pages buf)) = page_size buf
                then pages buf @ [fresh_page (page_size buf)] else pages buf);
          t = last ps
      in rbind (write_slot (pg_data t) (pg_offset t) b)
           (\<lambda>d. Inr (buf\<lparr>pages := butlast ps @ [t\<lparr>pg_data := d, pg_offset := pg_offset t + 1\<rparr>]\<rparr>, 1)))"

primrec snow_linkbuffer_push_data :: "SnLinkBuffer \<Rightarrow> byte list \<Rightarrow> (SnLinkBuffer \<times> nat) result" where
  "snow_linkbuffer_push_data buf [] = Inr (buf, 0)"
| "snow_linkbuffer_push_data buf (b # bs) =
     rbind (snow_linkbuffer_push buf b) (\<lambda>(buf, n).
     rbind (snow_linkbuffer_push_data buf bs) (\<lambda>(buf, m). Inr (buf, n + m)))"

text \<open>
  A C string is its bytes up to the terminator; a block without one is read past its end.
\<close>

primrec snow_linkbuffer_push_string :: "SnLinkBuffer \<Rightarrow> byte list \<Rightarrow> (SnLinkBuffer \<times> nat) result" where
  "snow_linkbuffer_push_string buf [] = Inl Undef"
| "snow_linkbuffer_push_string buf (c # cs) =
     (if c = 0 then Inr (buf, 0)
      else rbind (snow_linkbuffer_push buf c) (\<lambda>(buf, n).
           rbind (snow_linkbuffer_push_string buf cs) (\<lambda>(buf, m). Inr (buf, n + m))))"

text \<open>
  \<open>memcpy(&dst[at], src, n)\<close>: both ranges have to lie inside their blocks.
\<close>

definition memcpy_at :: "'a list \<Rightarrow> nat \<Rightarrow> 'a list \<Rightarrow> nat \<Rightarrow> nat \<Rightarrow> 'a list result" where
  "memcpy_at dst at src from n =
     (if at + n \<le> length dst \<and> from + n \<le> length src
      then Inr (take at dst @ take n (drop from src) @ drop (at + n) dst) else Inl Undef)"

fun copy_pages :: "page list \<Rightarrow> byte list \<Rightarrow> nat \<Rightarrow> nat \<Rightarrow> (byte list \<times> nat) result" where
  "copy_pages [] dst n copied = Inr (dst, copied)"
| "copy_pages (p # ps) dst n copied =
     (if copied < n
      then let remaining = n - copied;
               to_copy = (if remaining < pg_offset p then remaining else pg_offset p)
           in rbind (memcpy_at dst copied (pg_data p) 0 to_copy)
                (\<lambda>dst. copy_pages ps dst n (copied + to_copy))
      else Inr (dst, copied))"

definition snow_linkbuffer_copy_data :: "SnLinkBuffer \<Rightarrow> byte list \<Rightarrow> nat \<Rightarrow> (byte list \<times> nat) result" where
  "snow_linkbuffer_copy_data buf dst n = copy_pages (pages buf) dst n 0"

fun modify_pages ::
    "page list \<Rightarrow> nat \<Rightarrow> nat \<Rightarrow> byte list \<Rightarrow> nat \<Rightarrow> nat \<Rightarrow> (page list \<times> nat) result" where
  "modify_pages [] offset len new_data buffer_offset copied = Inr ([], copied)"
| "modify_pages (p # ps) offset len new_data buffer_offset copied =
     (if copied < len
      then let next_offset = offset + copied
           in if next_offset \<ge> buffer_offset \<and> next_offset < buffer_offset + pg_offset p
              then let page_offset = next_offset - buffer_offset;
                       remaining = pg_offset p - page_offset;
                       to_copy = (if remaining < len then remaining else len)
                   in rbind (memcpy_at (pg_data p) page_offset new_data copied to_copy) (\<lambda>d.
                      rbind (modify_pages ps offset len new_data (buffer_offset + pg_offset p) (copied + to_copy))
                        (\<lambda>(ps, c). Inr (p\<lparr>pg_data := d\<rparr> # ps, c)))
              else rbind (modify_pages ps offset len new_data (buffer_offset + pg_offset p) copied)
                     (\<lambda>(ps, c). Inr (p # ps, c))
      else Inr (p # ps, copied))"

definition snow_linkbuffer_modify ::
    "SnLinkBuffer \<Rightarrow> nat \<Rightarrow> nat \<Rightarrow> byte list \<Rightarrow> (SnLinkBuffer \<times> nat) result" where
  "snow_linkbuffer_modify buf offset len new_data =
     rbind (modify_pages (pages buf) offset len new_data 0 0)
       (\<lambda>(ps, copied). Inr (buf\<lparr>pages := ps\<rparr>, copied))"

definition snow_linkbuffer_clear :: "SnLinkBuffer \<Rightarrow> SnLinkBuffer" where
  "snow_linkbuffer_clear buf = buf\<lparr>pages := []\<rparr>"

definition snow_free_linkbuffer :: "SnLinkBuffer \<Rightarrow> SnLinkBuffer" where
  "snow_free_linkbuffer buf = snow_linkbuffer_clear buf"

subsection \<open>The abstract buffer: a list of bytes\<close>

definition page_bytes :: "page \<Rightarrow> byte list" where
  "page_bytes p = take (pg_offset p) (pg_data p)"

definition contents :: "SnLinkBuffer \<Rightarrow> byte list" where
  "contents buf = concat (map page_bytes (pages buf))"

definition page_ok :: "nat \<Rightarrow> page \<Rightarrow> bool" where
  "page_ok psize p \<longleftrightarrow> length (pg_data p) = psize \<and> 0 < pg_offset p \<and> pg_offset p \<le> psize"

definition linkbuffer_wf :: "SnLinkBuffer \<Rightarrow> bool" where
  "linkbuffer_wf buf \<longleftrightarrow> 0 < page_size buf \<and> (\<forall>p \<in> set (pages buf). page_ok (page_size buf) p) \<and>
     (\<forall>p \<in> set (butlast (pages buf)). pg_offset p = page_size buf)"

lemma length_page_bytes: "page_ok n p \<Longrightarrow> length (page_bytes p) = pg_offset p"
  by (simp add: page_ok_def page_bytes_def)

lemma size_pages_ok:
  "\<forall>p \<in> set ps. page_ok n p \<Longrightarrow> \<forall>p \<in> set (butlast ps). pg_offset p = n \<Longrightarrow>
   size_pages n ps = length (concat (map page_bytes ps))"
proof (induction ps)
  case (Cons p ps)
  have p: "length (page_bytes p) = pg_offset p"
    by (rule length_page_bytes [of n]) (use Cons.prems(1) in simp)
  show ?case
  proof (cases "ps = []")
    case False
    then obtain q qs where q: "ps = q # qs" by (cases ps) auto
    have "pg_offset p = n" using Cons.prems(2) False by simp
    moreover have "size_pages n ps = length (concat (map page_bytes ps))"
      by (rule Cons.IH) (use Cons.prems False in simp_all)
    moreover have "size_pages n (p # ps) = n + size_pages n ps" unfolding q by simp
    ultimately show ?thesis using p by simp
  qed (simp add: p)
qed simp

lemma linkbuffer_size_ok:
  "linkbuffer_wf buf \<Longrightarrow> snow_linkbuffer_size buf = length (contents buf)"
  by (simp add: linkbuffer_wf_def snow_linkbuffer_size_def contents_def size_pages_ok)

lemma linkbuffer_push_ok:
  assumes wf: "linkbuffer_wf buf"
  obtains buf' where "snow_linkbuffer_push buf b = Inr (buf', 1)" "linkbuffer_wf buf'"
    "contents buf' = contents buf @ [b]" "page_size buf' = page_size buf"
proof -
  define n where "n = page_size buf"
  define ps where "ps = (if pages buf = [] \<or> pg_offset (last (pages buf)) = n
    then pages buf @ [fresh_page n] else pages buf)"
  define qs t where "qs = butlast ps" and "t = last ps"
  have n: "0 < n" using wf by (simp add: linkbuffer_wf_def n_def)
  have ps: "ps = qs @ [t]" by (simp add: qs_def t_def ps_def)
  have qs: "\<forall>p \<in> set qs. page_ok n p \<and> pg_offset p = n"
    "length (pg_data t) = n" "pg_offset t < n"
    "concat (map page_bytes qs) @ page_bytes t = contents buf"
  proof -
    show "concat (map page_bytes qs) @ page_bytes t = contents buf"
    proof -
      have "concat (map page_bytes ps) = contents buf"
        by (simp add: ps_def contents_def fresh_page_def page_bytes_def)
      then show ?thesis by (simp add: ps)
    qed
    have "(\<forall>p \<in> set qs. page_ok n p \<and> pg_offset p = n) \<and> length (pg_data t) = n \<and> pg_offset t < n"
    proof (cases "pages buf = [] \<or> pg_offset (last (pages buf)) = n")
      case True
      then have "qs = pages buf" "t = fresh_page n" by (simp_all add: qs_def t_def ps_def)
      moreover have "pg_offset p = n" if "p \<in> set (pages buf)" for p
        using that True wf by (cases "pages buf" rule: rev_cases) (auto simp: linkbuffer_wf_def n_def)
      ultimately show ?thesis using wf n
        by (auto simp: fresh_page_def linkbuffer_wf_def n_def)
    next
      case False
      then have p: "pages buf = qs @ [t]" using ps by (simp add: ps_def)
      with False wf show ?thesis by (auto simp: linkbuffer_wf_def n_def page_ok_def)
    qed
    then show "\<forall>p \<in> set qs. page_ok n p \<and> pg_offset p = n" "length (pg_data t) = n" "pg_offset t < n"
      by auto
  qed
  let ?t = "t\<lparr>pg_data := (pg_data t)[pg_offset t := b], pg_offset := pg_offset t + 1\<rparr>"
  let ?buf = "buf\<lparr>pages := qs @ [?t]\<rparr>"
  have "snow_linkbuffer_push buf b = Inr (?buf, 1)"
    unfolding snow_linkbuffer_push_def Let_def n_def [symmetric] ps_def [symmetric]
      qs_def [symmetric] t_def [symmetric]
    using qs by simp
  moreover have "linkbuffer_wf ?buf"
    using qs n by (auto simp: linkbuffer_wf_def page_ok_def n_def)
  moreover have "contents ?buf = contents buf @ [b]"
    using qs by (simp add: contents_def page_bytes_def take_Suc_conv_app_nth flip: qs(4))
  ultimately show ?thesis by (intro that [of ?buf]) auto
qed

subsection \<open>The interface: a sink of bytes\<close>

text \<open>What the assembler relies on: every push appends one byte and reports it.\<close>

locale byte_sink =
  fixes inv :: "'s \<Rightarrow> bool"
    and bytes :: "'s \<Rightarrow> byte list"
    and put :: "'s \<Rightarrow> byte \<Rightarrow> ('s \<times> nat) result"
  assumes put_ok: "inv s \<Longrightarrow> \<exists>s'. put s b = Inr (s', 1) \<and> inv s' \<and> bytes s' = bytes s @ [b]"
begin

primrec put_all :: "'s \<Rightarrow> byte list \<Rightarrow> ('s \<times> nat) result" where
  "put_all s [] = Inr (s, 0)"
| "put_all s (b # bs) = rbind (put s b) (\<lambda>(s, n). rbind (put_all s bs) (\<lambda>(s, m). Inr (s, n + m)))"

lemma put_all_ok:
  "inv s \<Longrightarrow> \<exists>s'. put_all s bs = Inr (s', length bs) \<and> inv s' \<and> bytes s' = bytes s @ bs"
proof (induction bs arbitrary: s)
  case (Cons b bs)
  obtain s1 where s1: "put s b = Inr (s1, 1)" "inv s1" "bytes s1 = bytes s @ [b]"
    using put_ok Cons.prems by blast
  obtain s2 where "put_all s1 bs = Inr (s2, length bs)" "inv s2" "bytes s2 = bytes s1 @ bs"
    using Cons.IH s1(2) by blast
  with s1 show ?case by simp
qed simp

end

interpretation lb: byte_sink linkbuffer_wf contents snow_linkbuffer_push
  by unfold_locales (metis linkbuffer_push_ok)

lemma push_data_eq: "snow_linkbuffer_push_data buf bs = lb.put_all buf bs"
  by (induction bs arbitrary: buf) (auto intro!: arg_cong [where f = "rbind _"])

lemma push_string_eq:
  "0 \<notin> set cs \<Longrightarrow> snow_linkbuffer_push_string buf (cs @ 0 # rest) = lb.put_all buf cs"
  by (induction cs arbitrary: buf) (auto intro!: arg_cong [where f = "rbind _"])

lemma length_concat_full:
  "\<forall>p \<in> set ps. page_ok n p \<and> pg_offset p = n \<Longrightarrow> length (concat (map page_bytes ps)) = length ps * n"
  by (induction ps) (auto simp: length_page_bytes)

lemma memcpy_at_ok [simp]:
  "at + n \<le> length dst \<Longrightarrow> from + n \<le> length src \<Longrightarrow>
   memcpy_at dst at src from n = Inr (take at dst @ take n (drop from src) @ drop (at + n) dst)"
  by (simp add: memcpy_at_def)

lemma copy_pages_ok:
  "\<forall>p \<in> set ps. page_ok m p \<Longrightarrow> copied \<le> n \<Longrightarrow> n \<le> length dst \<Longrightarrow>
   src = take (n - copied) (concat (map page_bytes ps)) \<Longrightarrow>
   copy_pages ps dst n copied =
     Inr (take copied dst @ src @ drop (copied + length src) dst, copied + length src)"
proof (induction ps arbitrary: dst copied src)
  case (Cons p ps)
  have p: "pg_offset p \<le> length (pg_data p)" using Cons.prems by (simp add: page_ok_def)
  show ?case
  proof (cases "copied < n")
    case True
    define k where "k = min (n - copied) (pg_offset p)"
    define src1 where "src1 = take k (pg_data p)"
    define src2 where "src2 = take (n - (copied + k)) (concat (map page_bytes ps))"
    define dst1 where "dst1 = take copied dst @ src1 @ drop (copied + k) dst"
    have k: "k \<le> n - copied" "k \<le> pg_offset p" "length src1 = k" "length dst1 = length dst"
      using p Cons.prems True by (simp_all add: k_def src1_def dst1_def)
    have src: "src = src1 @ src2"
      using p Cons.prems(4) by (simp add: page_bytes_def [of p] src1_def src2_def k_def min_def)
    have step: "copy_pages (p # ps) dst n copied = copy_pages ps dst1 n (copied + k)"
      using True p Cons.prems
      by (cases "n - copied < pg_offset p") (simp_all add: Let_def k_def dst1_def src1_def)
    have IH: "copy_pages ps dst1 n (copied + k) =
        Inr (take (copied + k) dst1 @ src2 @ drop (copied + k + length src2) dst1,
             copied + k + length src2)"
      by (rule Cons.IH) (use Cons.prems k True in \<open>simp_all add: src2_def\<close>)
    have "take (copied + k) dst1 = take copied dst @ src1"
      using k True Cons.prems by (simp add: dst1_def)
    moreover have ls: "length src = k + length src2" unfolding src by (simp add: k(3))
    moreover have "drop (copied + k + length src2) dst1 = drop (copied + length src) dst"
      unfolding ls using k True Cons.prems(3) by (simp add: dst1_def ac_simps)
    ultimately show ?thesis unfolding step IH by (simp add: src)
  qed (use Cons.prems in simp)
qed simp

lemma linkbuffer_init_wf [simp]:
  "0 < n \<Longrightarrow> linkbuffer_wf (snow_init_linkbuffer n)" "contents (snow_init_linkbuffer n) = []"
  by (simp_all add: snow_init_linkbuffer_def linkbuffer_wf_def contents_def)

subsection \<open>Patching\<close>

lemma modify_skip:
  "bo + length (concat (map page_bytes qs)) \<le> offset \<Longrightarrow> \<forall>p \<in> set qs. page_ok n p \<Longrightarrow> 0 < len \<Longrightarrow>
   modify_pages (qs @ ps) offset len new_data bo 0 =
     rbind (modify_pages ps offset len new_data (bo + length (concat (map page_bytes qs))) 0)
       (\<lambda>(ps, c). Inr (qs @ ps, c))"
proof (induction qs arbitrary: bo)
  case Nil
  then show ?case by (cases "modify_pages ps offset len new_data bo 0") auto
next
  case (Cons q qs)
  have q: "length (page_bytes q) = pg_offset q"
    using Cons.prems(2) length_page_bytes by auto
  have "modify_pages (qs @ ps) offset len new_data (bo + pg_offset q) 0 =
     rbind (modify_pages ps offset len new_data (bo + pg_offset q + length (concat (map page_bytes qs))) 0)
       (\<lambda>(ps, c). Inr (qs @ ps, c))"
    using Cons.prems q by (intro Cons.IH) simp_all
  then show ?case
    using Cons.prems q
    by (cases "modify_pages ps offset len new_data (bo + pg_offset q + length (concat (map page_bytes qs))) 0")
      (auto simp: ac_simps)
qed

lemma modify_done [simp]: "len \<le> copied \<Longrightarrow> modify_pages ps offset len new_data bo copied = Inr (ps, copied)"
  by (cases ps) auto

text \<open>The page a byte offset lies in.\<close>

lemma split_at_page:
  assumes wf: "linkbuffer_wf buf" and i: "i < length (contents buf)"
  obtains qs p rs where "pages buf = qs @ p # rs" "length (concat (map page_bytes qs)) = i div page_size buf * page_size buf"
    "i mod page_size buf < pg_offset p" "rs \<noteq> [] \<Longrightarrow> pg_offset p = page_size buf"
proof -
  define n k where "n = page_size buf" and "k = i div n"
  have n: "0 < n" using wf by (simp add: n_def linkbuffer_wf_def)
  have full: "\<forall>p \<in> set (butlast (pages buf)). page_ok n p \<and> pg_offset p = n"
    using wf in_set_butlastD by (fastforce simp: linkbuffer_wf_def n_def)
  have ne: "pages buf \<noteq> []" using i by (auto simp: contents_def)
  then have pb: "pages buf = butlast (pages buf) @ [last (pages buf)]" by simp
  have lastp: "page_ok n (last (pages buf))" using wf ne by (simp add: linkbuffer_wf_def n_def)
  have "length (contents buf) = length (butlast (pages buf)) * n + pg_offset (last (pages buf))"
    unfolding contents_def using length_concat_full [OF full] length_page_bytes [OF lastp]
    by (subst pb) (simp only: map_append concat_append length_append list.map concat.simps list.size append_Nil2)
  then have i': "i < length (butlast (pages buf)) * n + pg_offset (last (pages buf))" using i by simp
  have off: "pg_offset (last (pages buf)) \<le> n" using lastp by (simp add: page_ok_def)
  have "i < Suc (length (butlast (pages buf))) * n" using i' off by simp
  then have "k < Suc (length (butlast (pages buf)))" by (simp add: k_def less_mult_imp_div_less)
  then have k: "k < length (pages buf)" using ne by simp
  have spl: "pages buf = take k (pages buf) @ pages buf ! k # drop (Suc k) (pages buf)"
    using k by (simp add: id_take_nth_drop)
  have "\<forall>p \<in> set (take k (pages buf)). page_ok n p \<and> pg_offset p = n"
  proof
    fix p assume "p \<in> set (take k (pages buf))"
    then have "p \<in> set (butlast (pages buf))"
      using k by (metis Suc_leI butlast_take diff_Suc_1 in_set_conv_nth in_set_takeD
          le_imp_less_Suc length_butlast less_Suc_eq_le nat_less_le pb set_take_subset_set_take
          subsetD take_all take_butlast)
    with full show "page_ok n p \<and> pg_offset p = n" by blast
  qed
  from length_concat_full [OF this] have len: "length (concat (map page_bytes (take k (pages buf)))) = k * n"
    using k by simp
  have A: "i mod n < pg_offset (pages buf ! k)"
  proof (cases "Suc k = length (pages buf)")
    case True
    then have "pages buf ! k = last (pages buf)" "length (butlast (pages buf)) = k"
      using ne by (simp_all add: last_conv_nth flip: True)
    with i' have "i < k * n + pg_offset (pages buf ! k)" by simp
    then show ?thesis using div_mult_mod_eq [of i n] unfolding k_def by linarith
  next
    case False
    then have "pages buf ! k \<in> set (butlast (pages buf))"
      using k by (metis Suc_lessI Suc_lessE length_butlast diff_Suc_1 nth_butlast nth_mem)
    with full n show ?thesis by auto
  qed
  have B: "pg_offset (pages buf ! k) = n" if "drop (Suc k) (pages buf) \<noteq> []"
  proof -
    have "k < length (butlast (pages buf))" using that k by simp
    then have "pages buf ! k \<in> set (butlast (pages buf))" by (metis nth_butlast nth_mem)
    with full show ?thesis by auto
  qed
  show ?thesis
    using that [OF spl] len A B unfolding n_def k_def by blast
qed

lemma modify_in_page:
  assumes "bo \<le> offset" "offset + len \<le> bo + pg_offset p" "0 < len" "len \<le> length new_data"
    "pg_offset p \<le> length (pg_data p)"
  shows "modify_pages (p # rs) offset len new_data bo 0 =
    Inr (p\<lparr>pg_data := take (offset - bo) (pg_data p) @ take len new_data @
           drop (offset - bo + len) (pg_data p)\<rparr> # rs, len)"
proof -
  have "\<not> pg_offset p - (offset - bo) < len" "offset < bo + pg_offset p"
    "offset - bo + len \<le> length (pg_data p)"
    using assms by linarith+
  with assms show ?thesis by (simp add: Let_def)
qed

lemma linkbuffer_modify_ok:
  assumes wf: "linkbuffer_wf buf" and len: "0 < len" "len \<le> length new_data"
    and fits: "offset + len \<le> length (contents buf)"
    and one_page: "offset mod page_size buf + len \<le> page_size buf"
  shows "\<exists>buf'. snow_linkbuffer_modify buf offset len new_data = Inr (buf', len) \<and>
           linkbuffer_wf buf' \<and>
           contents buf' = take offset (contents buf) @ take len new_data @ drop (offset + len) (contents buf)"
proof -
  define n where "n = page_size buf"
  obtain qs p rs where pg: "pages buf = qs @ p # rs"
      "length (concat (map page_bytes qs)) = offset div n * n"
      "offset mod n < pg_offset p" "rs \<noteq> [] \<Longrightarrow> pg_offset p = n"
  proof -
    have "offset < length (contents buf)" using fits len by simp
    from split_at_page [OF wf this] show ?thesis unfolding n_def using that [unfolded n_def] by metis
  qed
  define bo o' where "bo = offset div n * n" and "o' = offset mod n"
  have off: "offset = bo + o'" by (simp add: bo_def o'_def)
  have okp: "page_ok n p" "\<forall>q \<in> set qs. page_ok n q"
    using wf pg(1) by (auto simp: linkbuffer_wf_def n_def)
  then have lp: "pg_offset p \<le> length (pg_data p)" "length (page_bytes p) = pg_offset p"
    by (simp_all add: page_ok_def page_bytes_def)
  have cont: "contents buf = concat (map page_bytes qs) @ page_bytes p @ concat (map page_bytes rs)"
    by (simp add: contents_def pg(1))
  have lq: "length (concat (map page_bytes qs)) = bo" using pg(2) by (simp only: bo_def)
  have end1: "o' + len \<le> pg_offset p"
  proof (cases "rs = []")
    case True
    have "offset + len \<le> bo + pg_offset p"
      using fits unfolding cont length_append lq lp(2) by (simp add: True)
    then show ?thesis using off by linarith
  next
    case False
    then show ?thesis using pg(4) one_page by (simp add: o'_def n_def)
  qed
  let ?p = "p\<lparr>pg_data := take o' (pg_data p) @ take len new_data @ drop (o' + len) (pg_data p)\<rparr>"
  let ?buf = "buf\<lparr>pages := qs @ ?p # rs\<rparr>"
  have "modify_pages (p # rs) offset len new_data bo 0 = Inr (?p # rs, len)"
    using modify_in_page [of bo offset len p new_data rs] end1 len lp off by simp
  then have "modify_pages (pages buf) offset len new_data 0 0 = Inr (qs @ ?p # rs, len)"
    using modify_skip [of 0 qs offset n len "p # rs" new_data] okp(2) len(1) off
    unfolding pg(1) lq by simp
  then have "snow_linkbuffer_modify buf offset len new_data = Inr (?buf, len)"
    by (simp add: snow_linkbuffer_modify_def)
  moreover have "linkbuffer_wf ?buf"
  proof -
    have "length (take o' (pg_data p) @ take len new_data @ drop (o' + len) (pg_data p)) = length (pg_data p)"
      using end1 lp len by simp
    then have "page_ok n ?p" using okp by (simp add: page_ok_def)
    with wf pg(1) show ?thesis
      by (cases "rs = []") (auto simp: linkbuffer_wf_def n_def butlast_append)
  qed
  moreover have "contents ?buf = take offset (contents buf) @ take len new_data @ drop (offset + len) (contents buf)"
  proof -
    have "page_bytes ?p = take o' (page_bytes p) @ take len new_data @ drop (o' + len) (page_bytes p)"
    proof -
      obtain r where "pg_offset p = o' + len + r" using le_Suc_ex [OF end1] by blast
      then show ?thesis using lp(1) len by (simp add: page_bytes_def drop_take)
    qed
    moreover have "contents ?buf = concat (map page_bytes qs) @ page_bytes ?p @ concat (map page_bytes rs)"
      by (simp add: contents_def)
    ultimately show ?thesis
      using lq end1 lp(2) unfolding cont off by simp
  qed
  ultimately show ?thesis by blast
qed

subsection \<open>Properties\<close>

text \<open>
  C20. Filling a fresh buffer: pushing any data succeeds whatever the page size, the size
  counts exactly the bytes pushed, and copying them out returns the bytes in order, however
  the pages split them; a shorter destination receives the prefix that fits.
\<close>

theorem linkbuffer_roundtrip:
  assumes "0 < psize" "n \<le> length dst"
  shows "\<exists>buf. snow_linkbuffer_push_data (snow_init_linkbuffer psize) bs = Inr (buf, length bs) \<and>
           linkbuffer_wf buf \<and> contents buf = bs \<and> snow_linkbuffer_size buf = length bs \<and>
           snow_linkbuffer_copy_data buf dst n =
             Inr (take n bs @ drop (min n (length bs)) dst, min n (length bs))"
proof -
  obtain buf where buf: "snow_linkbuffer_push_data (snow_init_linkbuffer psize) bs = Inr (buf, length bs)"
      "linkbuffer_wf buf" "contents buf = bs"
    using lb.put_all_ok [of "snow_init_linkbuffer psize" bs] assms(1) by (auto simp: push_data_eq)
  have "\<forall>p \<in> set (pages buf). page_ok (page_size buf) p" using buf(2) by (simp add: linkbuffer_wf_def)
  from copy_pages_ok [OF this, of 0 n dst "take n bs"] assms(2) buf(3)
  have "snow_linkbuffer_copy_data buf dst n = Inr (take n bs @ drop (min n (length bs)) dst, min n (length bs))"
    by (simp add: snow_linkbuffer_copy_data_def contents_def min.commute)
  with buf show ?thesis by (auto simp: linkbuffer_size_ok)
qed

lemma linkbuffer_roundtrip_witness:
  "\<exists>buf. snow_linkbuffer_push_data (snow_init_linkbuffer 2) [1, 2, 3] = Inr (buf, 3) \<and>
         snow_linkbuffer_copy_data buf [0, 0, 0, 0] 4 = Inr ([1, 2, 3, 0], 3)"
  using linkbuffer_roundtrip [of 2 4 "[0, 0, 0, 0]" "[1, 2, 3]"] by auto

text \<open>
  Patching inside one page, as label linking does: when the patched range lies in the
  buffer and does not cross a page boundary, \<open>snow_linkbuffer_modify\<close> replaces exactly that
  range of the contents and reports its length.
\<close>

theorem linkbuffer_modify_in_page:
  assumes "linkbuffer_wf buf" "0 < len" "len \<le> length new_data"
    "offset + len \<le> length (contents buf)" "offset mod page_size buf + len \<le> page_size buf"
  shows "\<exists>buf'. snow_linkbuffer_modify buf offset len new_data = Inr (buf', len) \<and>
           linkbuffer_wf buf' \<and> snow_linkbuffer_size buf' = snow_linkbuffer_size buf \<and>
           contents buf' = take offset (contents buf) @ take len new_data @ drop (offset + len) (contents buf)"
proof -
  obtain buf' where buf': "snow_linkbuffer_modify buf offset len new_data = Inr (buf', len)"
      "linkbuffer_wf buf'"
      "contents buf' = take offset (contents buf) @ take len new_data @ drop (offset + len) (contents buf)"
    using linkbuffer_modify_ok [OF assms] by blast
  moreover have "length (contents buf') = length (contents buf)"
    using assms by (simp add: buf'(3))
  ultimately show ?thesis using assms(1) by (auto simp: linkbuffer_size_ok)
qed

definition buf4 :: SnLinkBuffer where
  "buf4 = \<lparr>page_size = 4, pages = [\<lparr>pg_offset = 4, pg_data = [1, 2, 3, 4]\<rparr>,
                                     \<lparr>pg_offset = 3, pg_data = [5, 6, 7, 0xcd]\<rparr>]\<rparr>"

lemma buf4_wf: "linkbuffer_wf buf4" "contents buf4 = [1, 2, 3, 4, 5, 6, 7]" "page_size buf4 = 4"
  by (simp_all add: buf4_def linkbuffer_wf_def page_ok_def contents_def page_bytes_def)

lemma linkbuffer_modify_in_page_witness:
  "\<exists>buf'. snow_linkbuffer_modify buf4 5 2 [8, 9] = Inr (buf', 2) \<and> contents buf' = [1, 2, 3, 4, 5, 8, 9]"
  using linkbuffer_modify_in_page [of buf4 2 "[8, 9]" 5] by (auto simp: buf4_wf)

text \<open>
  C31. Patching across a page boundary: the number of bytes copied into a later page is
  bounded by the patch length and not by what is left of it, so a patch that starts in one
  page and ends in the next, with more bytes in that page than are left of the patch, reads
  past the end of the new data.
\<close>

theorem linkbuffer_modify_straddle:
  assumes "linkbuffer_wf buf" "pages buf = qs @ p # q # rs"
    "start < page_size buf" "length new_data = len" "page_size buf < start + len"
    "start + len < page_size buf + pg_offset q"
  shows "snow_linkbuffer_modify buf (length qs * page_size buf + start) len new_data = Inl Undef"
proof -
  define n where "n = page_size buf"
  have "\<forall>x \<in> set qs. page_ok n x \<and> pg_offset x = n"
    using assms(1,2) by (auto simp: linkbuffer_wf_def n_def butlast_append)
  then have lq: "length (concat (map page_bytes qs)) = length qs * n" "\<forall>x \<in> set qs. page_ok n x"
    using length_concat_full by blast+
  have p: "pg_offset p = n" "length (pg_data p) = n" "pg_offset q \<le> length (pg_data q)"
    using assms(1,2) by (auto simp: linkbuffer_wf_def n_def butlast_append page_ok_def)
  define k where "k = n - start"
  have k: "k < len" "0 < k" "k + start = n" using assms(3,5) by (auto simp: k_def n_def)
  have "modify_pages (q # rs) (length qs * n + start) len new_data (length qs * n + n) k = Inl Undef"
  proof -
    have t: "len < k + (if pg_offset q < len then pg_offset q else len)"
      using assms(6) k by (auto simp: n_def)
    have "memcpy_at (pg_data q) 0 new_data k (if pg_offset q < len then pg_offset q else len) = Inl Undef"
      using t assms(4) by (simp add: memcpy_at_def)
    moreover have "length qs * n + start + k = length qs * n + n" using k by simp
    moreover have "0 < pg_offset q" using assms(5,6) by simp
    ultimately show ?thesis using k(1) by (cases "pg_offset q < len") (simp_all add: Let_def)
  qed
  note second = this
  have "start < n" "(if n - start < len then n - start else len) = k"
    using assms(3) k by (simp_all add: n_def k_def)
  then have "modify_pages (p # q # rs) (length qs * n + start) len new_data (length qs * n) 0 = Inl Undef"
    using k p assms(4) second
    by (subst modify_pages.simps(2)) (simp add: Let_def del: modify_pages.simps)
  then show ?thesis
    using modify_skip [of 0 qs "length qs * n + start" n len "p # q # rs" new_data] lq k assms(2)
    by (simp add: snow_linkbuffer_modify_def n_def)
qed

lemma linkbuffer_modify_straddle_witness:
  "snow_linkbuffer_modify buf4 2 4 [9, 9, 9, 9] = Inl Undef"
proof -
  have "pages buf4 = [] @ \<lparr>pg_offset = 4, pg_data = [1, 2, 3, 4]\<rparr> #
      \<lparr>pg_offset = 3, pg_data = [5, 6, 7, 0xcd]\<rparr> # []"
    by (simp add: buf4_def)
  from linkbuffer_modify_straddle [OF buf4_wf(1) this, of 2 "[9, 9, 9, 9]" 4]
  show ?thesis by (simp add: buf4_wf(3) numeral_2_eq_2 [symmetric])
qed

end
