(* ===== verification/Asm.thy ===== *)
theory Asm
  imports LinkBuffer
begin

text \<open>
  The x86-64 assembler (snow/asm.h, snow/asm-x86_64.h): operands, the REX and ModRM
  encoders, one function per instruction, and the labels.  Every function appends bytes to
  a link buffer.  The reference is a decoder of the instruction format, written from the
  processor's manual (REX prefix, ModRM byte, displacement), and the theorems say that what
  is emitted decodes to the operands that were asked for.
\<close>

unbundle bit_operations_syntax

subsection \<open>Operands\<close>

datatype RM_MODE = RM_ADDRESS | RM_ADDRESS_DISP8 | RM_ADDRESS_DISP32 | RM_REGISTER

fun mode_code :: "RM_MODE \<Rightarrow> byte" where
  "mode_code RM_ADDRESS = 0"
| "mode_code RM_ADDRESS_DISP8 = 1"
| "mode_code RM_ADDRESS_DISP32 = 2"
| "mode_code RM_REGISTER = 3"

definition REX_EXTEND_RM :: byte where "REX_EXTEND_RM = 1"
definition REX_EXTEND_REG :: byte where "REX_EXTEND_REG = 4"
definition REX_WIDE_OPERAND :: byte where "REX_WIDE_OPERAND = 8"
definition BASE_REX :: byte where "BASE_REX = 0x40"

text \<open>The condition codes; the aliases of the enumeration share a constructor.\<close>

datatype COND =
    CC_OVERFLOW | CC_NOT_OVERFLOW | CC_BELOW | CC_NOT_BELOW | CC_EQUAL | CC_NOT_EQUAL
  | CC_NOT_ABOVE | CC_ABOVE | CC_SIGN | CC_NOT_SIGN | CC_PARITY_EVEN | CC_PARITY_ODD
  | CC_LESS | CC_GREATER_EQUAL | CC_LESS_EQUAL | CC_GREATER

fun cond_code :: "COND \<Rightarrow> byte" where
  "cond_code CC_OVERFLOW = 0"
| "cond_code CC_NOT_OVERFLOW = 1"
| "cond_code CC_BELOW = 2"
| "cond_code CC_NOT_BELOW = 3"
| "cond_code CC_EQUAL = 4"
| "cond_code CC_NOT_EQUAL = 5"
| "cond_code CC_NOT_ABOVE = 6"
| "cond_code CC_ABOVE = 7"
| "cond_code CC_SIGN = 8"
| "cond_code CC_NOT_SIGN = 9"
| "cond_code CC_PARITY_EVEN = 0xA"
| "cond_code CC_PARITY_ODD = 0xB"
| "cond_code CC_LESS = 0xC"
| "cond_code CC_GREATER_EQUAL = 0xD"
| "cond_code CC_LESS_EQUAL = 0xE"
| "cond_code CC_GREATER = 0xF"

text \<open>
  The bit fields of \<open>SnOp\<close>: a 32-bit signed displacement, its size in bytes, and three
  bits of register number with the extension bit apart.
\<close>

record SnOp =
  op_disp :: "32 word"
  disp_size :: nat
  address :: bool
  ext :: bool
  reg :: nat

definition make_op :: "nat \<Rightarrow> bool \<Rightarrow> bool \<Rightarrow> SnOp" where
  "make_op r e addr = \<lparr>op_disp = 0, disp_size = 0, address = addr, ext = e, reg = r mod 8\<rparr>"

definition make_address :: "SnOp \<Rightarrow> 32 word \<Rightarrow> SnOp" where
  "make_address r d = r\<lparr>address := True, op_disp := d,
     disp_size := (if d = 0 then 0 else if sint d > 127 \<or> sint d \<le> -128 then 4 else 1)\<rparr>"

definition make_opcode_ext :: "nat \<Rightarrow> SnOp" where
  "make_opcode_ext e = make_op e False False"

definition REGISTER :: "nat \<Rightarrow> bool \<Rightarrow> SnOp" where "REGISTER i e = make_op i e False"
definition ADDRESS :: "SnOp \<Rightarrow> 32 word \<Rightarrow> SnOp" where "ADDRESS r d = make_address r d"

definition RAX :: SnOp where "RAX = REGISTER 0 False"
definition RCX :: SnOp where "RCX = REGISTER 1 False"
definition RDX :: SnOp where "RDX = REGISTER 2 False"
definition RBX :: SnOp where "RBX = REGISTER 3 False"
definition RSP :: SnOp where "RSP = REGISTER 4 False"
definition RBP :: SnOp where "RBP = REGISTER 5 False"
definition RSI :: SnOp where "RSI = REGISTER 6 False"
definition RDI :: SnOp where "RDI = REGISTER 7 False"
definition R8 :: SnOp where "R8 = REGISTER 0 True"
definition R9 :: SnOp where "R9 = REGISTER 1 True"
definition R10 :: SnOp where "R10 = REGISTER 2 True"
definition R11 :: SnOp where "R11 = REGISTER 3 True"
definition R12 :: SnOp where "R12 = REGISTER 4 True"
definition R13 :: SnOp where "R13 = REGISTER 5 True"
definition R14 :: SnOp where "R14 = REGISTER 6 True"
definition R15 :: SnOp where "R15 = REGISTER 7 True"

subsection \<open>Encoders\<close>

type_synonym emitter = "SnLinkBuffer \<Rightarrow> SnLinkBuffer result"

definition emit :: "SnLinkBuffer \<Rightarrow> byte \<Rightarrow> SnLinkBuffer result" where
  "emit lb b = rbind (snow_linkbuffer_push lb b) (\<lambda>(lb, _). Inr lb)"

definition rex_for_rm :: "SnOp \<Rightarrow> byte" where
  "rex_for_rm rm = (if ext rm then REX_EXTEND_RM else 0)"

definition rex_for_reg :: "SnOp \<Rightarrow> byte" where
  "rex_for_reg r = (if ext r then REX_EXTEND_REG else 0)"

definition rex_for_operands :: "SnOp \<Rightarrow> SnOp \<Rightarrow> byte" where
  "rex_for_operands r rm = rex_for_reg r OR rex_for_rm rm"

definition mod_for_operand :: "SnOp \<Rightarrow> RM_MODE result" where
  "mod_for_operand addr =
     (if \<not> address addr then Inr RM_REGISTER
      else rbind (if disp_size addr = 0 then Inr RM_ADDRESS
                  else if disp_size addr = 1 then Inr RM_ADDRESS_DISP8
                  else if disp_size addr = 4 then Inr RM_ADDRESS_DISP32
                  else Inl Trap)
        (\<lambda>mode. if mode \<noteq> RM_REGISTER \<and> reg addr = reg RBP \<and> \<not> ext addr
                then Inr RM_ADDRESS_DISP32 else Inr mode))"

definition emit_rex :: "SnLinkBuffer \<Rightarrow> byte \<Rightarrow> SnLinkBuffer result" where
  "emit_rex lb rex = (if rex \<noteq> 0 then emit lb (BASE_REX OR rex) else Inr lb)"

text \<open>The bytes of a little-endian 64-bit immediate.\<close>

definition imm_byte :: "64 word \<Rightarrow> nat \<Rightarrow> byte" where
  "imm_byte imm i = ucast (drop_bit (8 * i) imm)"

fun emit_imm_from :: "SnLinkBuffer \<Rightarrow> 64 word \<Rightarrow> nat \<Rightarrow> nat \<Rightarrow> SnLinkBuffer result" where
  "emit_imm_from lb imm i 0 = Inr lb"
| "emit_imm_from lb imm i (Suc k) =
     (if i < 8 then rbind (emit lb (imm_byte imm i)) (\<lambda>lb. emit_imm_from lb imm (Suc i) k) else Inl Undef)"

definition emit_imm :: "SnLinkBuffer \<Rightarrow> 64 word \<Rightarrow> nat \<Rightarrow> SnLinkBuffer result" where
  "emit_imm lb imm n = emit_imm_from lb imm 0 n"

definition emit_disp :: "SnLinkBuffer \<Rightarrow> SnOp \<Rightarrow> SnLinkBuffer result" where
  "emit_disp lb rm = rbind (mod_for_operand rm) (\<lambda>mode.
     if mode \<noteq> RM_REGISTER
     then emit_imm lb (scast (op_disp rm))
            (case mode of RM_ADDRESS_DISP8 \<Rightarrow> 1 | RM_ADDRESS_DISP32 \<Rightarrow> 4 | _ \<Rightarrow> 0)
     else Inr lb)"

definition modrm_byte :: "byte \<Rightarrow> byte \<Rightarrow> byte \<Rightarrow> byte" where
  "modrm_byte m r rm = (push_bit 6 m AND 0xc0) OR (push_bit 3 r AND 0x38) OR (rm AND 0x07)"

definition emit_modrm :: "SnLinkBuffer \<Rightarrow> byte \<Rightarrow> byte \<Rightarrow> byte \<Rightarrow> SnLinkBuffer result" where
  "emit_modrm lb m r rm = emit lb (modrm_byte m r rm)"

definition emit_operands :: "SnLinkBuffer \<Rightarrow> SnOp \<Rightarrow> SnOp \<Rightarrow> SnLinkBuffer result" where
  "emit_operands lb r rm =
     rbind (assert_ok (\<not> address r)) (\<lambda>_.
     rbind (mod_for_operand rm) (\<lambda>mode.
     rbind (emit_modrm lb (mode_code mode) (of_nat (reg r)) (of_nat (reg rm))) (\<lambda>lb.
     emit_disp lb rm)))"

definition emit_instr :: "SnLinkBuffer \<Rightarrow> byte \<Rightarrow> SnOp \<Rightarrow> SnOp \<Rightarrow> SnLinkBuffer result" where
  "emit_instr lb opcode r rm =
     rbind (emit_rex lb (rex_for_operands r rm OR REX_WIDE_OPERAND)) (\<lambda>lb.
     rbind (emit lb opcode) (\<lambda>lb. emit_operands lb r rm))"

subsection \<open>Instructions\<close>

definition here :: "SnLinkBuffer \<Rightarrow> int" where
  "here lb = signed_take_bit 31 (int (snow_linkbuffer_size lb))"

text \<open>The instruction templates \<open>DEFINE_INSTR_X\<close>, \<open>_XI\<close>, \<open>_SD\<close> and \<open>_DS\<close>.\<close>

definition instr_X :: "byte \<Rightarrow> nat \<Rightarrow> SnLinkBuffer \<Rightarrow> SnOp \<Rightarrow> SnLinkBuffer result" where
  "instr_X opcode e lb rm = emit_instr lb opcode (make_opcode_ext e) rm"

definition instr_XI :: "byte \<Rightarrow> nat \<Rightarrow> SnLinkBuffer \<Rightarrow> 64 word \<Rightarrow> SnOp \<Rightarrow> (SnLinkBuffer \<times> int) result" where
  "instr_XI opcode e lb imm rm =
     rbind (emit_instr lb opcode (make_opcode_ext e) rm) (\<lambda>lb.
     rbind (emit_imm lb imm 4) (\<lambda>lb'. Inr (lb', here lb)))"

definition asm_add_id :: "SnLinkBuffer \<Rightarrow> 64 word \<Rightarrow> SnOp \<Rightarrow> (SnLinkBuffer \<times> int) result" where
  "asm_add_id = instr_XI 0x81 0"

definition asm_add :: "SnLinkBuffer \<Rightarrow> SnOp \<Rightarrow> SnOp \<Rightarrow> SnLinkBuffer result" where
  "asm_add lb r rm = emit_instr lb 0x01 r rm"

definition asm_add_rev :: "SnLinkBuffer \<Rightarrow> SnOp \<Rightarrow> SnOp \<Rightarrow> SnLinkBuffer result" where
  "asm_add_rev lb r rm = emit_instr lb 0x03 r rm"

definition asm_and :: "SnLinkBuffer \<Rightarrow> SnOp \<Rightarrow> SnOp \<Rightarrow> SnLinkBuffer result" where
  "asm_and lb r rm = emit_instr lb 0x21 r rm"

definition asm_cmp_id :: "SnLinkBuffer \<Rightarrow> 64 word \<Rightarrow> SnOp \<Rightarrow> (SnLinkBuffer \<times> int) result" where
  "asm_cmp_id = instr_XI 0x81 7"

definition asm_cmp :: "SnLinkBuffer \<Rightarrow> SnOp \<Rightarrow> SnOp \<Rightarrow> SnLinkBuffer result" where
  "asm_cmp lb r rm = emit_instr lb 0x39 r rm"

definition asm_cmp_rev :: "SnLinkBuffer \<Rightarrow> SnOp \<Rightarrow> SnOp \<Rightarrow> SnLinkBuffer result" where
  "asm_cmp_rev lb r rm = emit_instr lb 0x3b r rm"

definition asm_mov :: "SnLinkBuffer \<Rightarrow> SnOp \<Rightarrow> SnOp \<Rightarrow> SnLinkBuffer result" where
  "asm_mov lb r rm = emit_instr lb 0x89 r rm"

definition asm_mov_rev :: "SnLinkBuffer \<Rightarrow> SnOp \<Rightarrow> SnOp \<Rightarrow> SnLinkBuffer result" where
  "asm_mov_rev lb r rm = emit_instr lb 0x8b r rm"

definition asm_lea :: "SnLinkBuffer \<Rightarrow> SnOp \<Rightarrow> SnOp \<Rightarrow> SnLinkBuffer result" where
  "asm_lea lb r rm = emit_instr lb 0x8d r rm"

definition asm_sub_id :: "SnLinkBuffer \<Rightarrow> 64 word \<Rightarrow> SnOp \<Rightarrow> (SnLinkBuffer \<times> int) result" where
  "asm_sub_id = instr_XI 0x81 5"

definition asm_sub :: "SnLinkBuffer \<Rightarrow> SnOp \<Rightarrow> SnOp \<Rightarrow> SnLinkBuffer result" where
  "asm_sub lb r rm = emit_instr lb 0x29 r rm"

definition asm_sub_rev :: "SnLinkBuffer \<Rightarrow> SnOp \<Rightarrow> SnOp \<Rightarrow> SnLinkBuffer result" where
  "asm_sub_rev lb r rm = emit_instr lb 0x2b r rm"

definition asm_xor :: "SnLinkBuffer \<Rightarrow> SnOp \<Rightarrow> SnOp \<Rightarrow> SnLinkBuffer result" where
  "asm_xor lb r rm = emit_instr lb 0x31 r rm"


definition asm_shr :: "SnLinkBuffer \<Rightarrow> SnOp \<Rightarrow> byte \<Rightarrow> SnLinkBuffer result" where
  "asm_shr lb rm amount =
     rbind (emit_instr lb 0xc1 (make_opcode_ext 5) rm) (\<lambda>lb. emit_imm lb (ucast amount) 1)"

definition asm_imul_i :: "SnLinkBuffer \<Rightarrow> SnOp \<Rightarrow> SnOp \<Rightarrow> 32 word \<Rightarrow> SnLinkBuffer result" where
  "asm_imul_i lb r rm imm =
     rbind (emit_instr lb 0x69 r rm) (\<lambda>lb. emit_imm lb (scast imm) 4)"

definition asm_call :: "SnLinkBuffer \<Rightarrow> SnOp \<Rightarrow> SnLinkBuffer result" where
  "asm_call lb rm =
     rbind (assert_ok (\<not> address rm)) (\<lambda>_.
     rbind (emit_rex lb (rex_for_rm rm)) (\<lambda>lb.
     rbind (emit lb 0xff) (\<lambda>lb. emit_operands lb (make_opcode_ext 2) rm)))"

definition asm_mov_id :: "SnLinkBuffer \<Rightarrow> 64 word \<Rightarrow> SnOp \<Rightarrow> (SnLinkBuffer \<times> int) result" where
  "asm_mov_id lb imm rm =
     (if address rm
      then rbind (emit_rex lb (rex_for_rm rm)) (\<lambda>lb.
           rbind (emit_instr lb 0xc7 (make_opcode_ext 0) rm) (\<lambda>lb.
           rbind (emit_imm lb imm 4) (\<lambda>lb'. Inr (lb', here lb))))
      else rbind (emit_rex lb (rex_for_rm rm OR REX_WIDE_OPERAND)) (\<lambda>lb.
           rbind (emit lb (0xb8 + of_nat (reg rm))) (\<lambda>lb.
           rbind (emit_imm lb imm 8) (\<lambda>lb'. Inr (lb', here lb)))))"

definition asm_enter :: "SnLinkBuffer \<Rightarrow> 32 word \<Rightarrow> 32 word \<Rightarrow> SnLinkBuffer result" where
  "asm_enter lb stack_size level =
     rbind (emit lb 0xc8) (\<lambda>lb. rbind (emit_imm lb (ucast stack_size) 2) (\<lambda>lb. emit_imm lb (ucast level) 1))"

definition asm_leave :: "SnLinkBuffer \<Rightarrow> SnLinkBuffer result" where
  "asm_leave lb = emit lb 0xc9"

definition asm_ret :: "SnLinkBuffer \<Rightarrow> SnLinkBuffer result" where
  "asm_ret lb = emit lb 0xc3"

definition asm_int3 :: "SnLinkBuffer \<Rightarrow> SnLinkBuffer result" where
  "asm_int3 lb = emit lb 0xcc"

definition asm_debug_break :: "SnLinkBuffer \<Rightarrow> SnLinkBuffer result" where
  "asm_debug_break lb = asm_int3 lb"

definition asm_nop :: "SnLinkBuffer \<Rightarrow> SnLinkBuffer result" where
  "asm_nop lb = emit lb 0x90"


definition asm_push :: "SnLinkBuffer \<Rightarrow> SnOp \<Rightarrow> SnLinkBuffer result" where
  "asm_push lb r = rbind (assert_ok (\<not> address r)) (\<lambda>_.
     rbind (emit_rex lb (rex_for_rm r)) (\<lambda>lb. emit lb (0x50 + of_nat (reg r))))"

definition asm_pop :: "SnLinkBuffer \<Rightarrow> SnOp \<Rightarrow> SnLinkBuffer result" where
  "asm_pop lb r = rbind (assert_ok (\<not> address r)) (\<lambda>_.
     rbind (emit_rex lb (rex_for_rm r)) (\<lambda>lb. emit lb (0x58 + of_nat (reg r))))"

definition asm_push_i :: "SnLinkBuffer \<Rightarrow> 64 word \<Rightarrow> (SnLinkBuffer \<times> int) result" where
  "asm_push_i lb imm = rbind (emit lb 0x68) (\<lambda>lb. rbind (emit_imm lb imm 4) (\<lambda>lb'. Inr (lb', here lb)))"

subsection \<open>Labels\<close>

text \<open>
  A \<open>Label\<close> is its 32-bit offset, negative while unbound; a \<open>LabelRef\<close> holds a pointer
  to its label, here the index of the label in the function's list of labels.
\<close>

record LabelRef =
  ref_offset :: int
  ref_label :: nat

definition asm_label :: int where "asm_label = -1"

definition asm_bind :: "SnLinkBuffer \<Rightarrow> int list \<Rightarrow> nat \<Rightarrow> int list result" where
  "asm_bind lb labels l = rbind (read_slot labels l) (\<lambda>off.
     rbind (assert_ok (off < 0)) (\<lambda>_. write_slot labels l (here lb)))"

definition asm_link :: "SnLinkBuffer \<Rightarrow> int list \<Rightarrow> LabelRef \<Rightarrow> SnLinkBuffer result" where
  "asm_link lb labels ref = rbind (read_slot labels (ref_label ref)) (\<lambda>off.
     rbind (assert_ok (off \<ge> 0)) (\<lambda>_.
     let diff = (word_of_int (off - (ref_offset ref + 4)) :: 32 word)
     in rbind (snow_linkbuffer_modify lb (unat (word_of_int (ref_offset ref) :: 64 word)) 4
                 (map (\<lambda>i. ucast (drop_bit (8 * i) diff)) [0..<4]))
          (\<lambda>(lb, _). Inr lb)))"

definition asm_j :: "SnLinkBuffer \<Rightarrow> COND \<Rightarrow> nat \<Rightarrow> (SnLinkBuffer \<times> LabelRef) result" where
  "asm_j lb cc l = rbind (emit lb 0x0f) (\<lambda>lb. rbind (emit lb (0x80 + cond_code cc)) (\<lambda>lb.
     rbind (emit_imm lb 0 4) (\<lambda>lb'. Inr (lb', \<lparr>ref_offset = here lb, ref_label = l\<rparr>))))"

definition asm_jmp :: "SnLinkBuffer \<Rightarrow> nat \<Rightarrow> (SnLinkBuffer \<times> LabelRef) result" where
  "asm_jmp lb l = rbind (emit lb 0xe9) (\<lambda>lb.
     rbind (emit_imm lb 0 4) (\<lambda>lb'. Inr (lb', \<lparr>ref_offset = here lb, ref_label = l\<rparr>)))"

subsection \<open>What is appended\<close>

text \<open>
  \<open>appends f bs\<close>: on a well-formed buffer \<open>f\<close> succeeds and appends \<open>bs\<close>.
\<close>

definition appends :: "emitter \<Rightarrow> byte list \<Rightarrow> bool" where
  "appends f bs \<longleftrightarrow> (\<forall>lb. linkbuffer_wf lb \<longrightarrow>
     (\<exists>lb'. f lb = Inr lb' \<and> linkbuffer_wf lb' \<and> page_size lb' = page_size lb \<and>
            contents lb' = contents lb @ bs))"

named_theorems emits "what the emitters append"

lemma appends_emit [emits]: "appends (\<lambda>lb. emit lb b) [b]"
  unfolding appends_def emit_def by (metis linkbuffer_push_ok old.prod.case rbind_simps(2))

lemma appends_nop [emits]: "appends Inr []"
  by (simp add: appends_def)

lemma appends_seq: "appends f xs \<Longrightarrow> appends g ys \<Longrightarrow> appends (\<lambda>lb. rbind (f lb) g) (xs @ ys)"
  unfolding appends_def by (metis append.assoc rbind_simps(2))

lemma appends_rbind_ok: "r = Inr x \<Longrightarrow> appends (k x) bs \<Longrightarrow> appends (\<lambda>lb. rbind r (\<lambda>x. k x lb)) bs"
  by simp

definition rex_bytes :: "byte \<Rightarrow> byte list" where
  "rex_bytes rex = (if rex \<noteq> 0 then [BASE_REX OR rex] else [])"

definition imm_bytes :: "64 word \<Rightarrow> nat \<Rightarrow> byte list" where
  "imm_bytes imm n = map (imm_byte imm) [0..<n]"

lemma length_imm_bytes [simp]: "length (imm_bytes imm n) = n"
  by (simp add: imm_bytes_def)

lemma appends_emit_rex [emits]: "appends (\<lambda>lb. emit_rex lb rex) (rex_bytes rex)"
  by (cases "rex = 0") (simp_all add: emit_rex_def rex_bytes_def emits)

lemma appends_emit_imm_from:
  "i + k \<le> 8 \<Longrightarrow> appends (\<lambda>lb. emit_imm_from lb imm i k) (map (imm_byte imm) [i..<i + k])"
proof (induction k arbitrary: i)
  case 0
  show ?case by (simp add: appends_nop)
next
  case (Suc k)
  have "appends (\<lambda>lb. rbind (emit lb (imm_byte imm i)) (\<lambda>lb. emit_imm_from lb imm (Suc i) k))
      ([imm_byte imm i] @ map (imm_byte imm) [Suc i..<Suc i + k])"
    by (intro appends_seq emits Suc.IH) (use Suc.prems in simp)
  moreover have "[i..<i + Suc k] = i # [Suc i..<Suc i + k]"
    by (simp add: upt_conv_Cons)
  ultimately show ?case using Suc.prems by simp
qed

lemma appends_emit_imm [emits]: "n \<le> 8 \<Longrightarrow> appends (\<lambda>lb. emit_imm lb imm n) (imm_bytes imm n)"
  using appends_emit_imm_from [of 0 n imm] by (simp add: emit_imm_def imm_bytes_def)

definition disp_bytes :: "SnOp \<Rightarrow> byte list" where
  "disp_bytes rm = (case mod_for_operand rm of
      Inr RM_ADDRESS_DISP8 \<Rightarrow> imm_bytes (scast (op_disp rm)) 1
    | Inr RM_ADDRESS_DISP32 \<Rightarrow> imm_bytes (scast (op_disp rm)) 4
    | _ \<Rightarrow> [])"

text \<open>The operands the code makes: registers, and addresses \<open>[reg + disp]\<close>.\<close>

definition is_reg :: "SnOp \<Rightarrow> bool" where
  "is_reg r \<longleftrightarrow> reg r < 8 \<and> \<not> address r"

definition is_operand :: "SnOp \<Rightarrow> bool" where
  "is_operand rm \<longleftrightarrow> reg rm < 8 \<and>
     (address rm \<longrightarrow> disp_size rm = (if op_disp rm = 0 then 0
        else if sint (op_disp rm) > 127 \<or> sint (op_disp rm) \<le> -128 then 4 else 1))"

definition op_mode :: "SnOp \<Rightarrow> RM_MODE" where
  "op_mode rm = (if \<not> address rm then RM_REGISTER
     else if reg rm = 5 \<and> \<not> ext rm then RM_ADDRESS_DISP32
     else if disp_size rm = 0 then RM_ADDRESS else if disp_size rm = 1 then RM_ADDRESS_DISP8
     else RM_ADDRESS_DISP32)"

lemma make_op_is_reg [simp]: "is_reg (make_op r e False)" "is_reg (make_opcode_ext x)"
  "is_reg (REGISTER r e)"
  by (simp_all add: is_reg_def make_op_def make_opcode_ext_def REGISTER_def)

lemma is_reg_operand [simp]: "is_reg r \<Longrightarrow> is_operand r"
  by (simp add: is_reg_def is_operand_def)

lemma ADDRESS_is_operand [simp]: "is_reg r \<Longrightarrow> is_operand (ADDRESS r d)"
  by (simp add: is_reg_def is_operand_def ADDRESS_def make_address_def)

lemma mod_for_operand_ok: "is_operand rm \<Longrightarrow> mod_for_operand rm = Inr (op_mode rm)"
  by (auto simp: is_operand_def mod_for_operand_def op_mode_def RBP_def REGISTER_def make_op_def)

definition operand_bytes :: "SnOp \<Rightarrow> SnOp \<Rightarrow> byte list" where
  "operand_bytes r rm =
     modrm_byte (mode_code (op_mode rm)) (of_nat (reg r)) (of_nat (reg rm)) # disp_bytes rm"

definition instr_bytes :: "byte \<Rightarrow> SnOp \<Rightarrow> SnOp \<Rightarrow> byte list" where
  "instr_bytes opcode r rm =
     rex_bytes (rex_for_operands r rm OR REX_WIDE_OPERAND) @ [opcode] @ operand_bytes r rm"

lemma appends_emit_disp [emits]: "is_operand rm \<Longrightarrow> appends (\<lambda>lb. emit_disp lb rm) (disp_bytes rm)"
proof -
  assume rm: "is_operand rm"
  have z: "appends (\<lambda>lb. emit_imm lb imm 0) []" for imm
    using appends_emit_imm [of 0 imm] by (simp add: imm_bytes_def)
  show ?thesis
    using rm by (cases "op_mode rm")
      (simp_all add: emit_disp_def disp_bytes_def mod_for_operand_ok appends_emit_imm appends_nop z)
qed

lemma appends_emit_operands [emits]:
  assumes "is_reg r" "is_operand rm"
  shows "appends (\<lambda>lb. emit_operands lb r rm) (operand_bytes r rm)"
proof -
  have "appends (\<lambda>lb. rbind (emit_modrm lb (mode_code (op_mode rm)) (of_nat (reg r)) (of_nat (reg rm)))
      (\<lambda>lb. emit_disp lb rm))
    ([modrm_byte (mode_code (op_mode rm)) (of_nat (reg r)) (of_nat (reg rm))] @ disp_bytes rm)"
    unfolding emit_modrm_def by (intro appends_seq emits assms)
  then show ?thesis
    using assms by (simp add: emit_operands_def is_reg_def mod_for_operand_ok operand_bytes_def)
qed

lemma appends_emit_instr [emits]:
  "is_reg r \<Longrightarrow> is_operand rm \<Longrightarrow> appends (\<lambda>lb. emit_instr lb opcode r rm) (instr_bytes opcode r rm)"
  unfolding emit_instr_def instr_bytes_def by (intro appends_seq emits)

text \<open>An instruction that also returns the offset of its immediate.\<close>

lemma appendsD:
  assumes "appends f bs" "linkbuffer_wf lb"
  obtains lb' where "f lb = Inr lb'" "linkbuffer_wf lb'" "page_size lb' = page_size lb"
    "contents lb' = contents lb @ bs"
  using assms unfolding appends_def by blast

definition appends_ref :: "(SnLinkBuffer \<Rightarrow> (SnLinkBuffer \<times> int) result) \<Rightarrow> byte list \<Rightarrow> byte list \<Rightarrow> bool" where
  "appends_ref f bs imm \<longleftrightarrow> (\<forall>lb. linkbuffer_wf lb \<and> length (contents lb) + length bs < 2 ^ 31 \<longrightarrow>
     (\<exists>lb'. f lb = Inr (lb', int (length (contents lb) + length bs)) \<and> linkbuffer_wf lb' \<and>
            page_size lb' = page_size lb \<and> contents lb' = contents lb @ bs @ imm))"

lemma here_ok: "linkbuffer_wf lb \<Longrightarrow> length (contents lb) < 2 ^ 31 \<Longrightarrow> here lb = int (length (contents lb))"
  by (simp add: here_def linkbuffer_size_ok signed_take_bit_int_eq_self)

lemma appends_ref_imm:
  assumes "appends f bs" "n \<le> 8"
  shows "appends_ref (\<lambda>lb. rbind (f lb) (\<lambda>lb. rbind (emit_imm lb imm n) (\<lambda>lb'. Inr (lb', here lb))))
    bs (imm_bytes imm n)"
  unfolding appends_ref_def
proof (intro allI impI)
  fix lb assume lb: "linkbuffer_wf lb \<and> length (contents lb) + length bs < 2 ^ 31"
  obtain lb1 where lb1: "f lb = Inr lb1" "linkbuffer_wf lb1" "page_size lb1 = page_size lb"
      "contents lb1 = contents lb @ bs"
    using appendsD [OF assms(1)] lb by blast
  obtain lb2 where lb2: "emit_imm lb1 imm n = Inr lb2" "linkbuffer_wf lb2" "page_size lb2 = page_size lb1"
      "contents lb2 = contents lb1 @ imm_bytes imm n"
    using appendsD [OF appends_emit_imm [OF assms(2)]] lb1(2) by blast
  have "here lb1 = int (length (contents lb) + length bs)"
    using here_ok [OF lb1(2)] lb lb1(4) by simp
  with lb1 lb2 show "\<exists>lb'. rbind (f lb) (\<lambda>lb. rbind (emit_imm lb imm n) (\<lambda>lb'. Inr (lb', here lb))) =
      Inr (lb', int (length (contents lb) + length bs)) \<and> linkbuffer_wf lb' \<and>
      page_size lb' = page_size lb \<and> contents lb' = contents lb @ bs @ imm_bytes imm n"
    by simp
qed

subsection \<open>Decoding\<close>

lemma byte_eqI: "(\<And>n. n < 8 \<Longrightarrow> bit a n = bit b n) \<Longrightarrow> a = (b :: byte)"
  by (rule bit_word_eqI) simp

lemma less8: "(n::nat) < 8 \<longleftrightarrow> n \<in> {0, 1, 2, 3, 4, 5, 6, 7}"
  by auto

lemma modrm_parts:
  "drop_bit 6 (modrm_byte m r k) = take_bit 2 m"
  "take_bit 3 (drop_bit 3 (modrm_byte m r k)) = take_bit 3 r"
  "take_bit 3 (modrm_byte m r k) = take_bit 3 k"
  by (rule byte_eqI, simp only: less8, auto simp: modrm_byte_def bit_simps)+

datatype operand = Reg nat | Mem nat int | MemRip int | MemSib byte nat int

primrec le_value :: "byte list \<Rightarrow> int" where
  "le_value [] = 0"
| "le_value (b # bs) = uint b + 256 * le_value bs"

definition decode_disp :: "nat \<Rightarrow> byte list \<Rightarrow> (int \<times> byte list) option" where
  "decode_disp n bs = (if n = 0 then Some (0, bs) else if length bs < n then None
     else Some (signed_take_bit (8 * n - 1) (le_value (take n bs)), drop n bs))"

fun strip_rex :: "byte \<Rightarrow> byte list \<Rightarrow> byte \<times> byte list" where
  "strip_rex rex [] = (rex, [])"
| "strip_rex rex (b # bs) = (if take_bit 4 (drop_bit 4 b) = 4 then strip_rex b bs else (rex, b # bs))"

text \<open>
  The operand of a ModRM byte: mode 3 is a register; otherwise register 4 announces a SIB
  byte, register 5 in mode 0 is relative to the instruction pointer, and anything else is
  a base register with a displacement of 0, 1 or 4 bytes.
\<close>

definition decode_rm :: "byte \<Rightarrow> byte \<Rightarrow> byte list \<Rightarrow> (operand \<times> byte list) option" where
  "decode_rm rex b bs =
     (let m = drop_bit 6 b; base = unat (take_bit 3 b); n = (if bit rex 0 then 8 else 0) + base
      in if m = 3 then Some (Reg n, bs)
         else if base = 4 then
           (case bs of [] \<Rightarrow> None
            | sib # bs \<Rightarrow> map_option (\<lambda>(d, bs). (MemSib sib (unat m) d, bs))
                (decode_disp (if m = 1 then 1 else if m = 2 \<or> take_bit 3 sib = 5 then 4 else 0) bs))
         else if m = 0 \<and> base = 5 then map_option (\<lambda>(d, bs). (MemRip d, bs)) (decode_disp 4 bs)
         else map_option (\<lambda>(d, bs). (Mem n d, bs)) (decode_disp (if m = 0 then 0 else if m = 1 then 1 else 4) bs))"

definition decode_instr :: "byte list \<Rightarrow> (byte \<times> nat \<times> operand \<times> byte list) option" where
  "decode_instr bs = (case strip_rex 0x40 bs of
      (rex, opcode # b # bs) \<Rightarrow>
        map_option (\<lambda>(rm, bs). (opcode, (if bit rex 2 then 8 else 0) + unat (take_bit 3 (drop_bit 3 b)), rm, bs))
          (decode_rm rex b bs)
    | _ \<Rightarrow> None)"

definition reg_number :: "SnOp \<Rightarrow> nat" where
  "reg_number r = (if ext r then 8 else 0) + reg r"

definition meaning :: "SnOp \<Rightarrow> operand" where
  "meaning rm = (if address rm then Mem (reg_number rm) (sint (op_disp rm)) else Reg (reg_number rm))"

text \<open>
  The addresses with an encoding of this form: not based on \<open>RSP\<close> or \<open>R12\<close>, whose number
  announces a SIB byte, nor on \<open>R13\<close> without a displacement.
\<close>

definition encodable :: "SnOp \<Rightarrow> bool" where
  "encodable rm \<longleftrightarrow> address rm \<longrightarrow> reg rm \<noteq> 4 \<and> \<not> (ext rm \<and> reg rm = 5 \<and> op_disp rm = 0)"

lemma take_bit_add: "take_bit (m + n) (x :: int) = take_bit m x + 2 ^ m * take_bit n (drop_bit m x)"
proof -
  have "take_bit (m + n) x = push_bit m (drop_bit m (take_bit (m + n) x)) + take_bit m (take_bit (m + n) x)"
    by (simp only: bits_ident)
  then show ?thesis by (simp add: drop_bit_take_bit push_bit_eq_mult)
qed

lemma take_bit_uint64: "take_bit 64 (uint (w :: 64 word)) = uint w"
  using unsigned_less [of w, where ?'a = int] by (simp add: take_bit_int_eq_self)

lemma uint_imm_byte: "uint (imm_byte imm i) = take_bit 8 (drop_bit (8 * i) (uint imm))"
  by (simp add: imm_byte_def unsigned_ucast_eq unsigned_drop_bit_eq take_bit_uint64)

lemma le_value_imm_from:
  "le_value (map (imm_byte imm) [i..<i + k]) = take_bit (8 * k) (drop_bit (8 * i) (uint imm))"
proof (induction k arbitrary: i)
  case (Suc k)
  have "[i..<i + Suc k] = i # [Suc i..<Suc i + k]" by (simp add: upt_conv_Cons)
  then have "le_value (map (imm_byte imm) [i..<i + Suc k]) =
      take_bit 8 (drop_bit (8 * i) (uint imm)) + 2 ^ 8 * take_bit (8 * k) (drop_bit 8 (drop_bit (8 * i) (uint imm)))"
    using Suc [of "Suc i"] by (simp add: uint_imm_byte ac_simps)
  also have "\<dots> = take_bit (8 + 8 * k) (drop_bit (8 * i) (uint imm))"
    by (simp only: take_bit_add)
  finally show ?case by simp
qed simp

lemma le_value_imm: "le_value (imm_bytes imm n) = take_bit (8 * n) (uint imm)"
  using le_value_imm_from [of imm 0 n] by (simp add: imm_bytes_def)

lemma signed_take_disp:
  fixes d :: "32 word"
  assumes "n \<le> 31" "- (2 ^ n) \<le> sint d" "sint d < 2 ^ n"
  shows "signed_take_bit n (take_bit (Suc n) (uint (scast d :: 64 word))) = sint d"
proof -
  have "uint (scast d :: 64 word) = take_bit 64 (sint d)"
  proof -
    have "(scast d :: 64 word) = word_of_int (sint d)" by (rule scast_eq)
    then show ?thesis by (simp only: unsigned_of_int) simp
  qed
  then have "signed_take_bit n (take_bit (Suc n) (uint (scast d :: 64 word))) = signed_take_bit n (sint d)"
    using assms(1) by (simp add: min_def signed_take_bit_eq_iff_take_bit_eq)
  then show ?thesis using assms by (simp add: signed_take_bit_int_eq_self)
qed

lemma decode_disp_ok:
  assumes "n = 1 \<and> -128 \<le> sint d \<and> sint d \<le> 127 \<or> n = 4"
  shows "decode_disp n (imm_bytes (scast d) n @ rest) = Some (sint (d :: 32 word), rest)"
proof -
  have "signed_take_bit (8 * n - 1) (take_bit (Suc (8 * n - 1)) (uint (scast d :: 64 word))) = sint d"
  proof (rule signed_take_disp)
    show "8 * n - 1 \<le> 31" using assms by auto
    show "- (2 ^ (8 * n - 1)) \<le> sint d" "sint d < 2 ^ (8 * n - 1)"
      using assms sint_ge [of d] sint_lt [of d] by auto
  qed
  moreover have "Suc (8 * n - 1) = 8 * n" "n \<noteq> 0" using assms by auto
  ultimately show ?thesis by (simp add: decode_disp_def le_value_imm)
qed

lemma disp_bytes_ok:
  assumes "is_operand rm"
  shows "disp_bytes rm = (case op_mode rm of RM_ADDRESS_DISP8 \<Rightarrow> imm_bytes (scast (op_disp rm)) 1
    | RM_ADDRESS_DISP32 \<Rightarrow> imm_bytes (scast (op_disp rm)) 4 | _ \<Rightarrow> [])"
  by (simp add: disp_bytes_def mod_for_operand_ok [OF assms])

lemma take_bit_mode [simp]: "take_bit 2 (mode_code m) = mode_code m"
  by (cases m) simp_all

lemma take_bit_reg [simp]: "n < 8 \<Longrightarrow> take_bit 3 (of_nat n :: byte) = of_nat n"
proof -
  assume "n < 8"
  then have "take_bit 3 (of_nat n :: byte) = of_nat (take_bit 3 n)" by (simp add: take_bit_of_nat)
  also have "take_bit 3 n = n" using \<open>n < 8\<close> by (simp add: take_bit_nat_eq_self)
  finally show ?thesis .
qed

lemma unat_reg [simp]: "n < 8 \<Longrightarrow> unat (of_nat n :: byte) = n"
  by (simp add: unsigned_of_nat take_bit_nat_eq_self)

lemma mode_code_simps:
  "mode_code m = 3 \<longleftrightarrow> m = RM_REGISTER" "mode_code m = 0 \<longleftrightarrow> m = RM_ADDRESS"
  "mode_code m = 1 \<longleftrightarrow> m = RM_ADDRESS_DISP8" "mode_code m = 2 \<longleftrightarrow> m = RM_ADDRESS_DISP32"
  by (cases m; simp)+

lemma decode_rm_ok:
  assumes rm: "is_operand rm" "encodable rm" and rex: "bit rex 0 \<longleftrightarrow> ext rm"
    and b: "drop_bit 6 b = mode_code (op_mode rm)" "take_bit 3 b = of_nat (reg rm)"
  shows "decode_rm rex b (disp_bytes rm @ rest) = Some (meaning rm, rest)"
proof -
  have r: "reg rm < 8" using rm(1) by (simp add: is_operand_def)
  show ?thesis
  proof (cases "address rm")
    case False
    then show ?thesis using r b rex rm(1)
      by (simp add: decode_rm_def op_mode_def disp_bytes_ok meaning_def reg_number_def Let_def)
  next
    case True
    then have ne: "reg rm \<noteq> 4" "\<not> (ext rm \<and> reg rm = 5 \<and> op_disp rm = 0)" using rm(2) by (auto simp: encodable_def)
    have m: "op_mode rm \<noteq> RM_REGISTER" using True by (simp add: op_mode_def)
    have "decode_disp (if op_mode rm = RM_ADDRESS then 0 else if op_mode rm = RM_ADDRESS_DISP8 then 1 else 4)
        (disp_bytes rm @ rest) = Some (sint (op_disp rm), rest)"
      using rm(1) True decode_disp_ok [of 4 "op_disp rm"] decode_disp_ok [of 1 "op_disp rm"]
      unfolding disp_bytes_ok [OF rm(1)]
      by (auto simp: op_mode_def is_operand_def decode_disp_def [of 0] split: if_splits)
    moreover have "\<not> (op_mode rm = RM_ADDRESS \<and> reg rm = 5)"
      using ne rm(1) True by (auto simp: op_mode_def is_operand_def split: if_splits)
    ultimately show ?thesis
      using True r ne m rex b
      by (cases "op_mode rm") (simp_all add: decode_rm_def meaning_def reg_number_def Let_def)
  qed
qed

lemma strip_rex_bytes:
  assumes "rex \<in> {8, 9, 12, 13}" "take_bit 4 (drop_bit 4 opcode) \<noteq> (4 :: byte)"
  shows "strip_rex r0 (rex_bytes rex @ opcode # bs) = (BASE_REX OR rex, opcode # bs)"
  using assms by (auto simp: rex_bytes_def BASE_REX_def)

lemma rex_cases:
  "rex_for_operands r rm OR REX_WIDE_OPERAND =
     (if ext r then if ext rm then 13 else 12 else if ext rm then 9 else 8)"
  by (simp add: rex_for_operands_def rex_for_reg_def rex_for_rm_def REX_WIDE_OPERAND_def
      REX_EXTEND_RM_def REX_EXTEND_REG_def)

lemma rex_bits:
  "bit (BASE_REX OR (rex_for_operands r rm OR REX_WIDE_OPERAND)) 0 \<longleftrightarrow> ext rm"
  "bit (BASE_REX OR (rex_for_operands r rm OR REX_WIDE_OPERAND)) 2 \<longleftrightarrow> ext r"
  unfolding rex_cases by (simp_all add: BASE_REX_def)

lemma decode_instr_bytes:
  assumes "is_reg r" "is_operand rm" "take_bit 4 (drop_bit 4 opcode) \<noteq> (4 :: byte)"
  shows "decode_instr (instr_bytes opcode r rm @ rest) =
    map_option (\<lambda>(rm, bs). (opcode, reg_number r, rm, bs))
      (decode_rm (BASE_REX OR (rex_for_operands r rm OR REX_WIDE_OPERAND))
        (modrm_byte (mode_code (op_mode rm)) (of_nat (reg r)) (of_nat (reg rm))) (disp_bytes rm @ rest))"
proof -
  have "rex_for_operands r rm OR REX_WIDE_OPERAND \<in> {8, 9, 12, 13}" unfolding rex_cases by auto
  from strip_rex_bytes [OF this assms(3)] show ?thesis
    using assms(1) rex_bits(2) [of r rm]
    by (simp add: decode_instr_def instr_bytes_def operand_bytes_def modrm_parts is_reg_def reg_number_def)
qed

text \<open>Register 4 in a ModRM byte of an address announces a SIB byte.\<close>

lemma decode_rm_sib:
  assumes "drop_bit 6 b = mode_code m" "m \<noteq> RM_REGISTER" "take_bit 3 b = 4" "5 \<le> length bs"
  shows "\<exists>s rest. decode_rm rex b bs = Some (MemSib (hd bs) (unat (mode_code m)) s, rest)"
proof -
  obtain sib tl where bs: "bs = sib # tl" "4 \<le> length tl" using assms(4) by (cases bs) auto
  define n where "n = (if mode_code m = 1 then 1 else if mode_code m = 2 \<or> take_bit 3 sib = 5 then 4 else 0 :: nat)"
  have "n \<le> 4" by (simp add: n_def)
  then have "\<exists>d rest. decode_disp n tl = Some (d, rest)" using bs(2) by (auto simp: decode_disp_def)
  then obtain d rest where "decode_disp n tl = Some (d, rest)" by blast
  then show ?thesis using assms(1-3) bs(1) by (simp add: decode_rm_def Let_def mode_code_simps(1) n_def)
qed

subsection \<open>Properties\<close>

text \<open>
  C15. Every instruction the assembler emits through \<open>emit_instr\<close> means what was asked for:
  for a register operand, a register or \<open>[reg + disp]\<close> operand of an encodable form and an
  opcode that is not itself a prefix, it appends bytes which decode to that opcode, that
  register and that operand, with nothing left over.
\<close>

theorem emit_instr_decodes:
  assumes "is_reg r" "is_operand rm" "encodable rm" "take_bit 4 (drop_bit 4 opcode) \<noteq> (4 :: byte)"
    "linkbuffer_wf lb"
  shows "\<exists>lb' bs. emit_instr lb opcode r rm = Inr lb' \<and> linkbuffer_wf lb' \<and>
           contents lb' = contents lb @ bs \<and>
           (\<forall>rest. decode_instr (bs @ rest) = Some (opcode, reg_number r, meaning rm, rest))"
proof -
  obtain lb' where lb': "emit_instr lb opcode r rm = Inr lb'" "linkbuffer_wf lb'"
      "contents lb' = contents lb @ instr_bytes opcode r rm"
    using appendsD [OF appends_emit_instr [OF assms(1,2)] assms(5)] by metis
  have "decode_instr (instr_bytes opcode r rm @ rest) = Some (opcode, reg_number r, meaning rm, rest)" for rest
  proof -
    have "reg rm < 8" using assms(2) by (simp add: is_operand_def)
    then show ?thesis
      using decode_rm_ok [OF assms(2,3) rex_bits(1) [of r rm]] assms
      by (simp add: decode_instr_bytes modrm_parts)
  qed
  with lb' show ?thesis by blast
qed

lemma emit_instr_decodes_witness:
  "\<exists>lb' bs. emit_instr (snow_init_linkbuffer 4) 0x8b R14 (ADDRESS R13 40) = Inr lb' \<and>
        contents lb' = bs \<and> (\<forall>rest. decode_instr (bs @ rest) = Some (0x8b, 14, Mem 13 40, rest))"
proof -
  have "is_reg R14" "is_reg R13" by (simp_all add: R14_def R13_def)
  moreover have "encodable (ADDRESS R13 40)" "reg_number R14 = 14" "meaning (ADDRESS R13 40) = Mem 13 40"
    by (simp_all add: encodable_def ADDRESS_def make_address_def R13_def R14_def REGISTER_def make_op_def
        reg_number_def meaning_def)
  moreover have "take_bit 4 (drop_bit 4 (0x8b :: byte)) \<noteq> 4" by simp
  moreover have "linkbuffer_wf (snow_init_linkbuffer 4)" by simp
  ultimately show ?thesis
    using emit_instr_decodes [of R14 "ADDRESS R13 40" "0x8b" "snow_init_linkbuffer 4"] by auto
qed

text \<open>
  C32. The addresses the encoder gets wrong.  Based on \<open>R13\<close> without a displacement: the bytes
  decode to an address relative to the instruction pointer, whose displacement is the four
  bytes after the instruction.  Based on \<open>RSP\<close> or \<open>R12\<close>, with any displacement: the byte that
  follows the ModRM byte (the fourth one; the first of the displacement or of what follows the
  instruction) is taken for a SIB byte, whatever it is.  For any register operand and an opcode
  that is not itself a prefix, when enough bytes follow.
\<close>

theorem emit_instr_unencodable:
  "is_reg r \<and> take_bit 4 (drop_bit 4 opcode) \<noteq> (4 :: byte) \<and> linkbuffer_wf lb \<and> 5 \<le> length rest \<longrightarrow>
   (\<exists>lb' bs d. emit_instr lb opcode r (ADDRESS R13 0) = Inr lb' \<and> contents lb' = contents lb @ bs \<and>
      decode_disp 4 rest = Some (d, drop 4 rest) \<and>
      decode_instr (bs @ rest) = Some (opcode, reg_number r, MemRip d, drop 4 rest)) \<and>
   (\<forall>b \<in> {RSP, R12}. \<forall>d. \<exists>lb' bs m s rest'. emit_instr lb opcode r (ADDRESS b d) = Inr lb' \<and>
      contents lb' = contents lb @ bs \<and>
      decode_instr (bs @ rest) = Some (opcode, reg_number r, MemSib ((bs @ rest) ! 3) m s, rest'))"
proof (intro impI conjI ballI allI; elim conjE)
  assume r: "is_reg r" "take_bit 4 (drop_bit 4 opcode) \<noteq> (4 :: byte)" "linkbuffer_wf lb" "5 \<le> length rest"
  have R: "is_reg R13" "is_reg RSP" "is_reg R12" by (simp_all add: R13_def RSP_def R12_def)
  note ops = ADDRESS_def make_address_def R13_def RSP_def R12_def REGISTER_def make_op_def op_mode_def
  show "\<exists>lb' bs d. emit_instr lb opcode r (ADDRESS R13 0) = Inr lb' \<and> contents lb' = contents lb @ bs \<and>
      decode_disp 4 rest = Some (d, drop 4 rest) \<and>
      decode_instr (bs @ rest) = Some (opcode, reg_number r, MemRip d, drop 4 rest)"
  proof -
    obtain lb' where lb': "emit_instr lb opcode r (ADDRESS R13 0) = Inr lb'"
        "contents lb' = contents lb @ instr_bytes opcode r (ADDRESS R13 0)"
      using appendsD [OF appends_emit_instr [OF r(1) ADDRESS_is_operand [OF R(1)]] r(3)] by metis
    have "disp_bytes (ADDRESS R13 0) = []" "op_mode (ADDRESS R13 0) = RM_ADDRESS" "reg (ADDRESS R13 0) = 5"
      using disp_bytes_ok [OF ADDRESS_is_operand [OF R(1), of 0]] by (simp_all add: ops)
    then have "\<exists>d. decode_disp 4 rest = Some (d, drop 4 rest) \<and> decode_instr (instr_bytes opcode r (ADDRESS R13 0) @ rest) =
        Some (opcode, reg_number r, MemRip d, drop 4 rest)"
      using r by (simp add: decode_instr_bytes R decode_rm_def modrm_parts decode_disp_def Let_def)
    with lb' show ?thesis by blast
  qed
  fix b d assume b: "b \<in> {RSP, R12}"
  then have rb: "is_reg b" using R by auto
  let ?rm = "ADDRESS b d"
  obtain lb' where lb': "emit_instr lb opcode r ?rm = Inr lb'" "contents lb' = contents lb @ instr_bytes opcode r ?rm"
    using appendsD [OF appends_emit_instr [OF r(1) ADDRESS_is_operand [OF rb]] r(3)] by metis
  have rm: "op_mode ?rm \<noteq> RM_REGISTER" "reg ?rm = 4" using b by (auto simp: ops)
  have modrm: "drop_bit 6 (modrm_byte (mode_code (op_mode ?rm)) (of_nat (reg r)) (of_nat (reg ?rm))) = mode_code (op_mode ?rm)"
    "take_bit 3 (modrm_byte (mode_code (op_mode ?rm)) (of_nat (reg r)) (of_nat (reg ?rm))) = 4"
    using rm(2) by (simp_all add: modrm_parts)
  have "5 \<le> length (disp_bytes ?rm @ rest)" using r(4) by simp
  then obtain s rest' where "decode_rm (BASE_REX OR (rex_for_operands r ?rm OR REX_WIDE_OPERAND))
      (modrm_byte (mode_code (op_mode ?rm)) (of_nat (reg r)) (of_nat (reg ?rm))) (disp_bytes ?rm @ rest) =
      Some (MemSib (hd (disp_bytes ?rm @ rest)) (unat (mode_code (op_mode ?rm))) s, rest')"
    using decode_rm_sib [OF modrm(1) rm(1) modrm(2)] by blast
  then have "decode_instr (instr_bytes opcode r ?rm @ rest) = Some (opcode, reg_number r,
      MemSib (hd (disp_bytes ?rm @ rest)) (unat (mode_code (op_mode ?rm))) s, rest')"
    using r(1,2) rb by (simp add: decode_instr_bytes)
  moreover have "(instr_bytes opcode r ?rm @ rest) ! 3 = hd (disp_bytes ?rm @ rest)"
    using r(4) by (cases "disp_bytes ?rm @ rest") (auto simp: instr_bytes_def operand_bytes_def rex_bytes_def rex_cases)
  ultimately show "\<exists>lb' bs m s rest'. emit_instr lb opcode r (ADDRESS b d) = Inr lb' \<and> contents lb' = contents lb @ bs \<and>
      decode_instr (bs @ rest) = Some (opcode, reg_number r, MemSib ((bs @ rest) ! 3) m s, rest')"
    using lb' by (intro exI [of _ lb'] exI [of _ "instr_bytes opcode r ?rm"]) auto
qed

lemma emit_instr_unencodable_witness:
  "(\<exists>lb' bs d. emit_instr (snow_init_linkbuffer 16) 0x8b RAX (ADDRESS R13 0) = Inr lb' \<and>
      contents lb' = bs \<and> decode_instr (bs @ [1, 2, 3, 4, 5]) = Some (0x8b, 0, MemRip d, [5])) \<and>
   (\<exists>lb' bs m s rest'. emit_instr (snow_init_linkbuffer 16) 0x8b RAX (ADDRESS RSP 16) = Inr lb' \<and>
      contents lb' = bs \<and> decode_instr (bs @ [1, 2, 3, 4, 5]) = Some (0x8b, 0, MemSib ((bs @ [1, 2, 3, 4, 5]) ! 3) m s, rest'))"
proof -
  have "is_reg RAX" by (simp add: RAX_def)
  moreover have "reg_number RAX = 0" by (simp add: RAX_def reg_number_def REGISTER_def make_op_def)
  ultimately show ?thesis
    using emit_instr_unencodable [of RAX "0x8b" "snow_init_linkbuffer 16" "[1, 2, 3, 4, 5]"] by auto
qed

text \<open>
  Loading a 64-bit immediate into a register: \<open>asm_mov_id\<close> appends the two opcode
  bytes and the eight bytes of the immediate, least significant first, and returns the
  offset of the immediate, so that the eight bytes there spell it.
\<close>

theorem mov_id_immediate:
  assumes "is_reg r" "linkbuffer_wf lb" "length (contents lb) + 10 < 2 ^ 31"
  shows "\<exists>lb' off. asm_mov_id lb imm r = Inr (lb', int off) \<and> linkbuffer_wf lb' \<and>
           off = length (contents lb) + 2 \<and> snow_linkbuffer_size lb' = off + 8 \<and>
           take 2 (drop (length (contents lb)) (contents lb')) =
             [0x48 OR (if ext r then 1 else 0), 0xb8 + of_nat (reg r)] \<and>
           le_value (drop off (contents lb')) = uint imm"
proof -
  define b0 b1 where "b0 = (0x48 OR (if ext r then 1 else 0) :: byte)" and "b1 = (0xb8 + of_nat (reg r) :: byte)"
  have rex: "rex_bytes (rex_for_rm r OR REX_WIDE_OPERAND) = [b0]"
    by (simp add: rex_bytes_def rex_for_rm_def REX_WIDE_OPERAND_def REX_EXTEND_RM_def BASE_REX_def b0_def)
  have "appends (\<lambda>lb. rbind (emit_rex lb (rex_for_rm r OR REX_WIDE_OPERAND)) (\<lambda>lb. emit lb b1))
      (rex_bytes (rex_for_rm r OR REX_WIDE_OPERAND) @ [b1])"
    by (intro appends_seq emits)
  from appends_ref_imm [OF this, of 8 imm]
  have "appends_ref (\<lambda>lb. asm_mov_id lb imm r) [b0, b1] (imm_bytes imm 8)"
    using assms(1) by (simp add: asm_mov_id_def is_reg_def rbind_assoc rex b1_def)
  then obtain lb' where lb': "asm_mov_id lb imm r = Inr (lb', int (length (contents lb) + 2))" "linkbuffer_wf lb'"
      "contents lb' = contents lb @ [b0, b1] @ imm_bytes imm 8"
    using assms(2,3) unfolding appends_ref_def by fastforce
  moreover have "le_value (imm_bytes imm 8) = uint imm" by (simp add: le_value_imm take_bit_uint64)
  moreover have "snow_linkbuffer_size lb' = length (contents lb) + 2 + 8"
    using lb' by (simp add: linkbuffer_size_ok)
  ultimately show ?thesis
    unfolding b0_def [symmetric] b1_def [symmetric]
    by (intro exI [of _ lb'] exI [of _ "length (contents lb) + 2"]) simp
qed

lemma mov_id_immediate_witness:
  "\<exists>lb'. asm_mov_id (snow_init_linkbuffer 4) 0x123456789 RDI = Inr (lb', 2) \<and>
        le_value (drop 2 (contents lb')) = 0x123456789"
proof -
  have "is_reg RDI" by (simp add: RDI_def)
  moreover have "linkbuffer_wf (snow_init_linkbuffer 4)" "length (contents (snow_init_linkbuffer 4)) + 10 < 2 ^ 31"
    by simp_all
  ultimately obtain lb' off where o: "asm_mov_id (snow_init_linkbuffer 4) 0x123456789 RDI = Inr (lb', int off)"
      "off = length (contents (snow_init_linkbuffer 4)) + 2" "le_value (drop off (contents lb')) = uint (0x123456789 :: 64 word)"
    using mov_id_immediate [of RDI "snow_init_linkbuffer 4" "0x123456789"] by blast
  have "off = 2" using o(2) by simp
  with o(1,3) show ?thesis by (intro exI [of _ lb']) simp
qed

text \<open>
  C23. Linking a jump: once its label is bound, \<open>asm_link\<close> patches the four bytes of the
  reference (which must not cross a page of the buffer), changes nothing else, and the
  signed displacement there leads from the end of the reference to the label; linking an
  unbound label traps.
\<close>

theorem link_reaches_label:
  assumes "linkbuffer_wf lb" "ref_label ref < length labels" "labels ! ref_label ref = l"
    "ref_offset ref = int off" "off + 4 \<le> length (contents lb)" "length (contents lb) < 2 ^ 31"
    "l \<le> int (length (contents lb))" "off mod page_size lb + 4 \<le> page_size lb"
  shows "(l < 0 \<longrightarrow> asm_link lb labels ref = Inl Trap) \<and>
         (0 \<le> l \<longrightarrow> (\<exists>lb'. asm_link lb labels ref = Inr lb' \<and> linkbuffer_wf lb' \<and>
           length (contents lb') = length (contents lb) \<and>
           take off (contents lb') = take off (contents lb) \<and>
           drop (off + 4) (contents lb') = drop (off + 4) (contents lb) \<and>
           (\<exists>d. decode_disp 4 (drop off (contents lb')) = Some (d, drop (off + 4) (contents lb)) \<and>
                int (off + 4) + d = l)))"
proof (intro conjI impI)
  assume "l < 0" then show "asm_link lb labels ref = Inl Trap" using assms by (simp add: asm_link_def)
next
  assume l: "0 \<le> l"
  define diff where "diff = (word_of_int (l - (int off + 4)) :: 32 word)"
  have bytes: "map (\<lambda>i. ucast (drop_bit (8 * i) diff)) [0..<4] = imm_bytes (scast diff) 4"
  proof -
    have "(ucast (drop_bit (8 * i) diff) :: byte) = imm_byte (scast diff) i" if "i < 4" for i
      using that unfolding imm_byte_def
      by (intro bit_word_eqI) (auto simp: bit_simps not_le)
    then show ?thesis by (simp add: imm_bytes_def)
  qed
  have sd: "sint diff = l - (int off + 4)"
  proof -
    have "sint diff = signed_take_bit 31 (l - (int off + 4))"
      unfolding diff_def by (simp only: signed_of_int) simp
    with assms l show ?thesis by (simp add: signed_take_bit_int_eq_self)
  qed
  have uo: "unat (word_of_int (int off) :: 64 word) = off"
    using assms by (simp add: unsigned_of_nat take_bit_nat_eq_self)
  obtain lb' where lb': "snow_linkbuffer_modify lb off 4 (imm_bytes (scast diff) 4) = Inr (lb', 4)"
      "linkbuffer_wf lb'"
      "contents lb' = take off (contents lb) @ imm_bytes (scast diff) 4 @ drop (off + 4) (contents lb)"
    using linkbuffer_modify_ok [of lb 4 "imm_bytes (scast diff) 4" off] assms by auto
  have "asm_link lb labels ref =
      rbind (snow_linkbuffer_modify lb (unat (word_of_int (int off) :: 64 word)) 4
        (map (\<lambda>i. ucast (drop_bit (8 * i) diff)) [0..<4])) (\<lambda>(lb, _). Inr lb)"
    using assms l unfolding asm_link_def Let_def diff_def by simp
  then have "asm_link lb labels ref = Inr lb'" unfolding uo bytes lb'(1) by simp
  moreover have "decode_disp 4 (drop off (contents lb')) = Some (sint diff, drop (off + 4) (contents lb))"
    using assms decode_disp_ok [of 4 diff] by (simp add: lb'(3))
  ultimately show "\<exists>lb'. asm_link lb labels ref = Inr lb' \<and> linkbuffer_wf lb' \<and>
           length (contents lb') = length (contents lb) \<and>
           take off (contents lb') = take off (contents lb) \<and>
           drop (off + 4) (contents lb') = drop (off + 4) (contents lb) \<and>
           (\<exists>d. decode_disp 4 (drop off (contents lb')) = Some (d, drop (off + 4) (contents lb)) \<and>
                int (off + 4) + d = l)"
    using lb' assms sd by (intro exI [of _ lb']) auto
qed

lemma link_reaches_label_witness:
  "\<exists>lb' d. asm_link buf4 [7] \<lparr>ref_offset = 0, ref_label = 0\<rparr> = Inr lb' \<and>
        decode_disp 4 (contents lb') = Some (d, [5, 6, 7]) \<and> 4 + d = 7"
  using link_reaches_label [of buf4 "\<lparr>ref_offset = 0, ref_label = 0\<rparr>" "[7]" 7 0]
  by (auto simp: buf4_wf)

end
