(* ===== verification/Arguments.thy ===== *)
theory Arguments
  imports SnowMap
begin

text \<open>
  Argument lists of function calls (snow/arguments.c): two parallel arrays, the names (nil
  for a positional argument) and the values.  A call into the program (\<open>snow_call\<close>) is a
  parameter that takes and returns a state of the program, \<open>'w\<close>.
\<close>

record SnArguments =
  arg_names :: array_t
  arg_data :: array_t

type_synonym SnSymbol = VALUE
type_synonym 'w caller = "VALUE \<Rightarrow> VALUE list \<Rightarrow> 'w \<Rightarrow> (VALUE \<times> 'w) result"

subsection \<open>Operations\<close>

definition snow_create_arguments_with_size :: "nat \<Rightarrow> SnArguments" where
  "snow_create_arguments_with_size n =
     \<lparr>arg_names = array_init_with_size n, arg_data = array_init_with_size n\<rparr>"

definition snow_arguments_push :: "SnArguments \<Rightarrow> VALUE \<Rightarrow> (SnArguments \<times> VALUE) result" where
  "snow_arguments_push args val =
     rbind (array_push (arg_names args) SN_NIL) (\<lambda>(names, _).
     rbind (array_push (arg_data args) val) (\<lambda>(data, v).
     Inr (args\<lparr>arg_names := names, arg_data := data\<rparr>, v)))"

definition snow_arguments_push_named ::
    "SnArguments \<Rightarrow> SnSymbol \<Rightarrow> VALUE \<Rightarrow> (SnArguments \<times> VALUE) result" where
  "snow_arguments_push_named args s val =
     rbind (array_find_or_add (arg_names args) (symbol_to_value s)) (\<lambda>(names, idx).
     rbind (array_set (arg_data args) idx val) (\<lambda>(data, v).
     Inr (args\<lparr>arg_names := names, arg_data := data\<rparr>, v)))"

fun unnamed_slot :: "array_t \<Rightarrow> nat \<Rightarrow> nat \<Rightarrow> nat option result" where
  "unnamed_slot names i 0 = Inr None"
| "unnamed_slot names i (Suc k) =
     rbind (array_get names (int i)) (\<lambda>n.
       if \<not> snow_eval_truth n then Inr (Some i) else unnamed_slot names (Suc i) k)"

definition snow_arguments_add_name :: "SnArguments \<Rightarrow> SnSymbol \<Rightarrow> (SnArguments \<times> int) result" where
  "snow_arguments_add_name args s =
     (let vsym = symbol_to_value s
      in rbind (array_find (arg_names args) vsym) (\<lambda>idx.
         if idx < 0
         then rbind (unnamed_slot (arg_names args) 0 (array_size (arg_names args))) (\<lambda>slot.
              case slot of
                Some i \<Rightarrow> rbind (array_set (arg_names args) (int i) vsym)
                            (\<lambda>(names, _). Inr (args\<lparr>arg_names := names\<rparr>, int i))
              | None \<Rightarrow> rbind (array_push (arg_names args) vsym)
                            (\<lambda>(names, _). Inr (args\<lparr>arg_names := names\<rparr>, int (array_size (arg_names args)))))
         else Inr (args, idx)))"

definition snow_arguments_get_index_for_name :: "SnArguments \<Rightarrow> SnSymbol \<Rightarrow> int result" where
  "snow_arguments_get_index_for_name args name = array_find (arg_names args) (symbol_to_value name)"

definition snow_arguments_get_by_index :: "SnArguments \<Rightarrow> int \<Rightarrow> VALUE result" where
  "snow_arguments_get_by_index args idx = array_get (arg_data args) idx"

definition snow_arguments_get_by_name :: "SnArguments option \<Rightarrow> SnSymbol \<Rightarrow> VALUE result" where
  "snow_arguments_get_by_name args name =
     rbind (case args of Some a \<Rightarrow> array_find (arg_names a) (symbol_to_value name) | None \<Rightarrow> Inr (-1)) (\<lambda>idx.
       if idx \<ge> 0 then (case args of Some a \<Rightarrow> array_get (arg_data a) idx | None \<Rightarrow> Inl Undef)
       else Inr SN_NIL)"

fun name_at_loop ::
    "SnArguments \<Rightarrow> SnSymbol \<Rightarrow> nat \<Rightarrow> nat \<Rightarrow> nat \<Rightarrow> nat \<Rightarrow> VALUE \<Rightarrow> (VALUE \<times> VALUE) result" where
  "name_at_loop args name idx i 0 unnamed_i unnamed = Inr (unnamed, 0)"
| "name_at_loop args name idx i (Suc k) unnamed_i unnamed =
     rbind (array_get (arg_names args) (int i)) (\<lambda>argname.
     rbind (array_get (arg_data args) (int i)) (\<lambda>data.
       if argname = SN_NIL
       then name_at_loop args name idx (Suc i) k (unnamed_i + 1) (if unnamed_i = idx then data else unnamed)
       else if value_to_symbol argname = name then Inr (unnamed, data)
       else name_at_loop args name idx (Suc i) k unnamed_i unnamed))"

definition snow_arguments_get_by_name_at :: "SnArguments \<Rightarrow> SnSymbol \<Rightarrow> nat \<Rightarrow> VALUE result" where
  "snow_arguments_get_by_name_at args name idx =
     rbind (name_at_loop args name idx 0 (array_size (arg_data args)) 0 0) (\<lambda>(unnamed, named).
       Inr (if named \<noteq> 0 then named else unnamed))"

text \<open>
  \<open>unnamed_args\<close> is an array of the size of the data on the stack; writing past it has no
  meaning.
\<close>

definition put_step :: "SnArguments \<Rightarrow> nat \<Rightarrow> VALUE list \<times> SnMap \<Rightarrow> (VALUE list \<times> SnMap) result" where
  "put_step args i = (\<lambda>(unnamed_args, m).
     rbind (array_get (arg_names args) (int i)) (\<lambda>argname.
     rbind (array_get (arg_data args) (int i)) (\<lambda>data.
       if argname = SN_NIL
       then if length unnamed_args < array_size (arg_data args) then Inr (unnamed_args @ [data], m) else Inl Undef
       else rbind (snow_map_set m argname data) (\<lambda>m. Inr (unnamed_args, m)))))"

definition snow_arguments_put_in_map :: "SnArguments \<Rightarrow> SnMap \<Rightarrow> SnMap result" where
  "snow_arguments_put_in_map args m =
     rbind (rfor 0 (array_size (arg_names args)) (put_step args) ([], m)) (\<lambda>(u, m).
       if length u mod 2 \<noteq> 0
       then Inl (Raise (''Odd number of arguments ('' @ dec_digits (length u) @ '') for Map.''))
       else rfor 0 (length u div 2) (\<lambda>i m. snow_map_set m (u ! (i * 2)) (u ! (i * 2 + 1))) m)"

text \<open>\<open>Map(...)\<close>, the constructor of maps (\<open>map_new\<close> of snow/map.c).\<close>

definition map_new :: "SnArguments option \<Rightarrow> SnMap result" where
  "map_new args = (case args of None \<Rightarrow> Inl Undef | Some a \<Rightarrow> snow_arguments_put_in_map a snow_create_map)"

subsection \<open>Methods\<close>

definition arguments_any :: "SnArguments \<Rightarrow> VALUE" where
  "arguments_any args = boolean_to_value (array_size (arg_data args) > 0)"

definition arguments_unnamed :: "SnArguments \<Rightarrow> array_t result" where
  "arguments_unnamed args =
     rfor 0 (array_size (arg_data args)) (\<lambda>i res.
       rbind (array_get (arg_names args) (int i)) (\<lambda>name.
       rbind (array_get (arg_data args) (int i)) (\<lambda>val.
         if name = SN_NIL then rbind (array_push res val) (\<lambda>(res, _). Inr res) else Inr res)))
       (array_init_with_size (array_size (arg_data args)))"

fun detect_loop :: "'w caller \<Rightarrow> VALUE \<Rightarrow> SnArguments \<Rightarrow> nat \<Rightarrow> nat \<Rightarrow> 'w \<Rightarrow> (VALUE \<times> 'w) result" where
  "detect_loop call closure args i 0 w = Inr (SN_NIL, w)"
| "detect_loop call closure args i (Suc k) w =
     rbind (array_get (arg_data args) (int i)) (\<lambda>x.
     rbind (call closure [x] w) (\<lambda>(r, w).
       if snow_eval_truth r then Inr (x, w) else detect_loop call closure args (Suc i) k w))"

definition arguments_detect :: "'w caller \<Rightarrow> SnArguments \<Rightarrow> VALUE list option \<Rightarrow> 'w \<Rightarrow> (VALUE \<times> 'w) result" where
  "arguments_detect call self args w = rbind (require_args args 1) (\<lambda>ARGS.
     detect_loop call (ARGS ! 0) self 0 (array_size (arg_data self)) w)"

definition arguments_map_pairs ::
    "'w caller \<Rightarrow> SnArguments \<Rightarrow> VALUE list option \<Rightarrow> 'w \<Rightarrow> (array_t \<times> 'w) result" where
  "arguments_map_pairs call self args w = rbind (require_args args 1) (\<lambda>ARGS.
     rfor 0 (array_size (arg_names self)) (\<lambda>i (res, w).
       rbind (array_get (arg_names self) (int i)) (\<lambda>name.
       rbind (array_get (arg_data self) (int i)) (\<lambda>val.
         if name \<noteq> SN_NIL
         then rbind (call (ARGS ! 0) [name, val] w) (\<lambda>(x, w).
              rbind (array_push res x) (\<lambda>(res, _). Inr (res, w)))
         else Inr (res, w))))
       (array_init_with_size (array_size (arg_names self)), w))"

subsection \<open>What an argument list promises: a list of name and value pairs\<close>

definition args_wf :: "SnArguments \<Rightarrow> bool" where
  "args_wf args \<longleftrightarrow> array_wf (arg_names args) \<and> array_wf (arg_data args) \<and>
     a_size (arg_names args) = a_size (arg_data args) \<and>
     distinct (filter (\<lambda>n. n \<noteq> SN_NIL) (elems (arg_names args))) \<and>
     (\<forall>n \<in> set (elems (arg_names args)). n \<noteq> SN_NIL \<longrightarrow> n = symbol_to_value (value_to_symbol n))"

definition pairs_of :: "SnArguments \<Rightarrow> (VALUE \<times> VALUE) list" where
  "pairs_of args = zip (elems (arg_names args)) (elems (arg_data args))"

definition unnamed_of :: "(VALUE \<times> VALUE) list \<Rightarrow> VALUE list" where
  "unnamed_of ps = map snd (filter (\<lambda>p. fst p = SN_NIL) ps)"

definition named_of :: "(VALUE \<times> VALUE) list \<Rightarrow> (VALUE \<times> VALUE) list" where
  "named_of ps = filter (\<lambda>p. fst p \<noteq> SN_NIL) ps"

definition put_named :: "VALUE \<Rightarrow> VALUE \<Rightarrow> (VALUE \<times> VALUE) list \<Rightarrow> (VALUE \<times> VALUE) list" where
  "put_named n v ps = (case index_of n (map fst ps) of
      Some i \<Rightarrow> ps[i := (n, v)] | None \<Rightarrow> ps @ [(n, v)])"

lemma args_wfD:
  assumes "args_wf args"
  shows "array_wf (arg_names args)" "array_wf (arg_data args)"
    "length (elems (arg_names args)) = a_size (arg_data args)"
    "length (elems (arg_data args)) = a_size (arg_data args)"
    "a_size (arg_names args) = a_size (arg_data args)"
    "length (pairs_of args) = a_size (arg_data args)"
  using assms by (simp_all add: args_wf_def length_elems pairs_of_def)

lemma pairs_of_fst [simp]: "args_wf args \<Longrightarrow> map fst (pairs_of args) = elems (arg_names args)"
  by (simp add: pairs_of_def args_wfD)

lemma pairs_of_snd [simp]: "args_wf args \<Longrightarrow> map snd (pairs_of args) = elems (arg_data args)"
  by (simp add: pairs_of_def args_wfD)

lemma array_init_with_size_wf [simp]:
  "n < 2 ^ 32 \<Longrightarrow> array_wf (array_init_with_size n)" "elems (array_init_with_size n) = []"
  "a_size (array_init_with_size n) = 0"
  by (simp_all add: array_init_with_size_def array_wf_def elems_def fresh_blob_def)

lemma create_arguments_wf [simp]:
  "n < 2 ^ 32 \<Longrightarrow> args_wf (snow_create_arguments_with_size n)"
  "pairs_of (snow_create_arguments_with_size n) = []"
  by (simp_all add: snow_create_arguments_with_size_def args_wf_def pairs_of_def)

lemma arguments_push_ok:
  assumes wf: "args_wf args" and room: "length (pairs_of args) < 2 ^ 31"
  obtains args' where "snow_arguments_push args v = Inr (args', v)" "args_wf args'"
    "pairs_of args' = pairs_of args @ [(SN_NIL, v)]"
proof -
  note w = args_wfD [OF wf]
  obtain n where n: "array_push (arg_names args) SN_NIL = Inr (n, SN_NIL)" "array_wf n"
      "elems n = elems (arg_names args) @ [SN_NIL]"
    using array_push_law [OF w(1), of SN_NIL] room w by auto
  obtain d where d: "array_push (arg_data args) v = Inr (d, v)" "array_wf d"
      "elems d = elems (arg_data args) @ [v]"
    using array_push_law [OF w(2), of v] room w by auto
  have sizes: "a_size n = a_size d" using length_elems n d w by (metis length_append_singleton)
  show ?thesis
  proof (rule that [of "args\<lparr>arg_names := n, arg_data := d\<rparr>"])
    show "args_wf (args\<lparr>arg_names := n, arg_data := d\<rparr>)"
      using wf n d sizes by (auto simp: args_wf_def)
  qed (use n d w in \<open>simp_all add: snow_arguments_push_def pairs_of_def\<close>)
qed

lemma arguments_push_named_ok:
  assumes wf: "args_wf args" and room: "length (pairs_of args) < 2 ^ 31" and s: "s < 2 ^ 60"
  obtains args' where "snow_arguments_push_named args s v = Inr (args', v)" "args_wf args'"
    "pairs_of args' = put_named (symbol_to_value s) v (pairs_of args)"
proof -
  note w = args_wfD [OF wf]
  let ?k = "symbol_to_value s"
  have sym: "symbol_to_value (value_to_symbol ?k) = ?k"
    by (simp only: value_to_symbol_to_value take_bit_60_eq_iff [THEN iffD2, OF s])
  show ?thesis
  proof (cases "index_of ?k (elems (arg_names args))")
    case (Some i)
    then have i: "i < a_size (arg_data args)" "elems (arg_names args) ! i = ?k"
      using index_of_SomeD [OF Some] w by auto
    have "array_find_or_add (arg_names args) ?k = Inr (arg_names args, int i)"
      using Some i room w by (simp add: array_find_or_add_def array_find_ok Let_def)
    moreover obtain d where d: "array_set (arg_data args) (int i) v = Inr (d, v)" "array_wf d"
        "elems d = (elems (arg_data args))[i := v]"
      using array_set_ok [OF w(2), of "int i" v] i room w by (auto simp: list_set_def norm_idx_def Let_def)
    moreover have "a_size d = a_size (arg_data args)" using length_elems d w by (metis length_list_update)
    moreover have "put_named ?k v (pairs_of args) = zip (elems (arg_names args)) ((elems (arg_data args))[i := v])"
    proof -
      have "(elems (arg_names args))[i := ?k] = elems (arg_names args)"
        using i(2) list_update_id by metis
      then show ?thesis
        using Some i wf w(3) unfolding put_named_def pairs_of_fst [OF wf]
        by (simp add: pairs_of_def zip_update [symmetric])
    qed
    ultimately show ?thesis
      using wf by (intro that [of "args\<lparr>arg_data := d\<rparr>"])
        (auto simp: snow_arguments_push_named_def args_wf_def pairs_of_def)
  next
    case None
    obtain n where n: "array_push (arg_names args) ?k = Inr (n, ?k)" "array_wf n"
        "elems n = elems (arg_names args) @ [?k]"
      using array_push_law [OF w(1), of ?k] room w by auto
    have f: "array_find_or_add (arg_names args) ?k = Inr (n, int (a_size (arg_data args)))"
      using None n room w by (simp add: array_find_or_add_def array_find_ok Let_def array_size_def)
    obtain d where d: "array_set (arg_data args) (int (a_size (arg_data args))) v = Inr (d, v)" "array_wf d"
        "elems d = elems (arg_data args) @ [v]"
      using array_push_law [OF w(2), of v] room w by (auto simp: array_push_def array_size_def)
    have "a_size n = a_size d" using length_elems n d w by (metis length_append_singleton)
    moreover have "put_named ?k v (pairs_of args) = pairs_of args @ [(?k, v)]"
      using None wf by (simp add: put_named_def)
    ultimately show ?thesis
      using wf n d f None sym w by (intro that [of "args\<lparr>arg_names := n, arg_data := d\<rparr>"])
        (auto simp: snow_arguments_push_named_def args_wf_def pairs_of_def)
  qed
qed

lemma array_get_nth:
  "array_wf a \<Longrightarrow> i < length (elems a) \<Longrightarrow> array_get a (int i) = Inr (elems a ! i)"
  by (simp add: array_get_ok list_get_def norm_idx_def)

lemma args_get:
  assumes "args_wf args" "i < length (pairs_of args)"
  shows "array_get (arg_names args) (int i) = Inr (fst (pairs_of args ! i))"
    "array_get (arg_data args) (int i) = Inr (snd (pairs_of args ! i))"
  using assms args_wfD [OF assms(1)] by (simp_all add: array_get_nth pairs_of_def)

text \<open>Lookup by name.\<close>

lemma map_of_index:
  "map_of ps k = (case index_of k (map fst ps) of None \<Rightarrow> None | Some i \<Rightarrow> Some (snd (ps ! i)))"
  by (induction ps) (auto split: option.splits)

lemma get_by_name_ok:
  assumes wf: "args_wf args"
  shows "snow_arguments_get_by_name (Some args) s =
    Inr (case map_of (pairs_of args) (symbol_to_value s) of Some v \<Rightarrow> v | None \<Rightarrow> SN_NIL)"
proof (cases "index_of (symbol_to_value s) (elems (arg_names args))")
  case (Some i)
  then have "i < length (pairs_of args)" using index_of_SomeD [OF Some] args_wfD [OF wf] by simp
  with Some show ?thesis
    using args_get [OF wf, of i] args_wfD(1) [OF wf] wf
    by (simp add: snow_arguments_get_by_name_def array_find_ok map_of_index)
next
  case None
  then have "array_find (arg_names args) (symbol_to_value s) = Inr (-1)"
    using args_wfD(1) [OF wf] by (simp add: array_find_ok)
  moreover have "map_of (pairs_of args) (symbol_to_value s) = None"
    using None wf by (simp add: map_of_index del: index_of_None)
  ultimately show ?thesis by (simp add: snow_arguments_get_by_name_def)
qed

lemma name_at_loop_ok:
  assumes wf: "args_wf args" and s: "s < 2 ^ 60"
  shows "i + k = length (pairs_of args) \<Longrightarrow>
    name_at_loop args s idx i k c u =
      (let ps = drop i (pairs_of args);
           us = unnamed_of (takeWhile (\<lambda>p. fst p \<noteq> symbol_to_value s) ps)
       in Inr (if c \<le> idx \<and> idx < c + length us then us ! (idx - c) else u,
               get_opt (map_of ps (symbol_to_value s))))"
proof (induction k arbitrary: i c u)
  case 0
  then show ?case by (auto simp: unnamed_of_def)
next
  case (Suc k)
  define n d where "n = fst (pairs_of args ! i)" and "d = snd (pairs_of args ! i)"
  have i: "i < length (pairs_of args)" using Suc.prems by simp
  have get: "array_get (arg_names args) (int i) = Inr n" "array_get (arg_data args) (int i) = Inr d"
    using args_get [OF wf i] by (simp_all add: n_def d_def)
  have dr: "drop i (pairs_of args) = (n, d) # drop (Suc i) (pairs_of args)"
    using i by (simp add: Cons_nth_drop_Suc [symmetric] n_def d_def)
  have "n \<in> set (elems (arg_names args))"
    using i wf pairs_of_fst [OF wf] by (metis length_map n_def nth_map nth_mem)
  then have sym: "n \<noteq> SN_NIL \<Longrightarrow> value_to_symbol n = s \<longleftrightarrow> n = symbol_to_value s"
    using wf s by (metis args_wf_def take_bit_60_eq_iff value_to_symbol_to_value)
  have IH: "name_at_loop args s idx (Suc i) k c' u' =
      (let ps = drop (Suc i) (pairs_of args);
           us = unnamed_of (takeWhile (\<lambda>p. fst p \<noteq> symbol_to_value s) ps)
       in Inr (if c' \<le> idx \<and> idx < c' + length us then us ! (idx - c') else u',
               get_opt (map_of ps (symbol_to_value s))))" for c' u'
    using Suc by simp
  show ?case
  proof (cases "n = SN_NIL")
    case True
    then show ?thesis
      using get IH unfolding dr
      by (cases "idx = c"; cases "idx < c") (auto simp: Let_def unnamed_of_def nth_Cons' Suc_diff_Suc not_less)
  next
    case False
    then show ?thesis
      using get IH sym unfolding dr by (auto simp: Let_def unnamed_of_def)
  qed
qed

text \<open>The collection of arguments into a map.\<close>

fun pairs :: "VALUE list \<Rightarrow> (VALUE \<times> VALUE) list" where
  "pairs (a # b # vs) = (a, b) # pairs vs"
| "pairs _ = []"

lemma pairs_props:
  "even (length vs) \<Longrightarrow> length (pairs vs) = length vs div 2"
  "i < length vs div 2 \<Longrightarrow> pairs vs ! i = (vs ! (i * 2), vs ! (i * 2 + 1))"
  by (induction vs arbitrary: i rule: pairs.induct) (auto simp: nth_Cons split: nat.splits)

lemma rfor_insert_all:
  "(\<And>j. j < length kvs \<Longrightarrow> f (i + j) = (\<lambda>m. snow_map_set m (fst (kvs ! j)) (snd (kvs ! j)))) \<Longrightarrow>
   rfor i (length kvs) f m = dmap.insert_all m kvs"
proof (induction kvs arbitrary: i m)
  case (Cons kv kvs)
  have "f i = (\<lambda>m. snow_map_set m (fst kv) (snd kv))" using Cons.prems [of 0] by simp
  moreover have "rfor (Suc i) (length kvs) f m = dmap.insert_all m kvs" for m
    using Cons.prems [of "Suc _"] by (intro Cons.IH) simp
  ultimately show ?case by (simp add: rbind_def split: sum.splits)
qed simp

lemma put_loop_ok:
  assumes wf: "args_wf args"
  shows "i + k = length (pairs_of args) \<Longrightarrow> length u \<le> i \<Longrightarrow>
    rfor i k (put_step args) (u, m) =
      rbind (dmap.insert_all m (named_of (drop i (pairs_of args))))
        (\<lambda>m. Inr (u @ unnamed_of (drop i (pairs_of args)), m))"
proof (induction k arbitrary: i u m)
  case 0
  then show ?case by (simp add: named_of_def unnamed_of_def)
next
  case (Suc k)
  define n d where "n = fst (pairs_of args ! i)" and "d = snd (pairs_of args ! i)"
  have i: "i < length (pairs_of args)" using Suc.prems by simp
  have get: "array_get (arg_names args) (int i) = Inr n" "array_get (arg_data args) (int i) = Inr d"
    using args_get [OF wf i] by (simp_all add: n_def d_def)
  have dr: "drop i (pairs_of args) = (n, d) # drop (Suc i) (pairs_of args)"
    using i by (simp add: Cons_nth_drop_Suc [symmetric] n_def d_def)
  have room: "length u < array_size (arg_data args)"
    using Suc.prems args_wfD [OF wf] by (simp add: array_size_def)
  show ?case
    using get room Suc.prems Suc.IH [of "Suc i" "u @ [d]" m] Suc.IH [of "Suc i" u]
    unfolding dr
    by (cases "n = SN_NIL"; cases "snow_map_set m n d")
      (auto simp: put_step_def named_of_def unnamed_of_def)
qed

subsection \<open>Properties\<close>

text \<open>The pushes of a call: positional arguments and named ones, in the order written.\<close>

primrec push_args :: "SnArguments \<Rightarrow> (SnSymbol option \<times> VALUE) list \<Rightarrow> SnArguments result" where
  "push_args args [] = Inr args"
| "push_args args (p # ps) =
     rbind (case fst p of None \<Rightarrow> snow_arguments_push args (snd p)
                        | Some s \<Rightarrow> snow_arguments_push_named args s (snd p))
       (\<lambda>(args, _). push_args args ps)"

lemma put_named_props:
  "n \<noteq> SN_NIL \<Longrightarrow> unnamed_of (put_named n v ps) = unnamed_of ps"
  "map_of (put_named n v ps) = (map_of ps)(n \<mapsto> v)"
  "length (put_named n v ps) \<le> Suc (length ps)"
proof -
  have upd: "index_of n (map fst ps) = Some i \<Longrightarrow> map_of (ps[i := (n, v)]) = (map_of ps)(n \<mapsto> v) \<and>
      (n \<noteq> SN_NIL \<longrightarrow> unnamed_of (ps[i := (n, v)]) = unnamed_of ps)" for i
  proof (induction ps arbitrary: i)
    case (Cons p ps)
    then show ?case by (cases "fst p = n") (auto simp: unnamed_of_def fun_upd_twist split: if_splits)
  qed simp
  show "n \<noteq> SN_NIL \<Longrightarrow> unnamed_of (put_named n v ps) = unnamed_of ps"
    using upd by (auto simp: put_named_def unnamed_of_def split: option.splits)
  show "map_of (put_named n v ps) = (map_of ps)(n \<mapsto> v)"
  proof (cases "index_of n (map fst ps)")
    case None
    then have "n \<notin> dom (map_of ps)" by (simp add: dom_map_of_conv_image_fst)
    then show ?thesis using None
      by (auto simp: put_named_def map_add_def dom_def fun_eq_iff split: option.splits simp del: index_of_None)
  qed (use upd in \<open>simp add: put_named_def\<close>)
  show "length (put_named n v ps) \<le> Suc (length ps)"
    by (simp add: put_named_def split: option.splits)
qed

lemma push_args_ok:
  assumes "args_wf args" "length (pairs_of args) + length ps < 2 ^ 31" "\<forall>s \<in> set (map fst ps). \<forall>t. s = Some t \<longrightarrow> t < 2 ^ 60"
  shows "\<exists>args'. push_args args ps = Inr args' \<and> args_wf args' \<and>
      unnamed_of (pairs_of args') = unnamed_of (pairs_of args) @ map snd (filter (\<lambda>p. fst p = None) ps) \<and>
      (\<forall>s<2 ^ 60. map_of (pairs_of args') (symbol_to_value s) =
        (case map_of (rev ps) (Some s) of Some v \<Rightarrow> Some v | None \<Rightarrow> map_of (pairs_of args) (symbol_to_value s)))"
  using assms
proof (induction ps arbitrary: args)
  case (Cons p ps)
  show ?case
  proof (cases "fst p")
    case None
    obtain a where a: "snow_arguments_push args (snd p) = Inr (a, snd p)" "args_wf a"
        "pairs_of a = pairs_of args @ [(SN_NIL, snd p)]"
      by (rule arguments_push_ok [of args "snd p"]) (use Cons.prems in auto)
    obtain b where b: "push_args a ps = Inr b" "args_wf b"
      "unnamed_of (pairs_of b) = unnamed_of (pairs_of a) @ map snd (filter (\<lambda>p. fst p = None) ps)"
      "\<forall>s<2 ^ 60. map_of (pairs_of b) (symbol_to_value s) =
        (case map_of (rev ps) (Some s) of Some v \<Rightarrow> Some v | None \<Rightarrow> map_of (pairs_of a) (symbol_to_value s))"
      using Cons.IH [OF a(2)] Cons.prems a(3) by auto
    have "map_of (pairs_of a) (symbol_to_value s) = map_of (pairs_of args) (symbol_to_value s)" for s
      by (simp add: a(3) map_add_def split: option.split)
    with a b None show ?thesis
      by (cases p) (auto simp: unnamed_of_def map_add_def split: option.splits)
  next
    case (Some t)
    then have t: "t < 2 ^ 60" using Cons.prems(3) by simp
    obtain a where a: "snow_arguments_push_named args t (snd p) = Inr (a, snd p)" "args_wf a"
        "pairs_of a = put_named (symbol_to_value t) (snd p) (pairs_of args)"
      by (rule arguments_push_named_ok [of args t "snd p"]) (use Cons.prems t in auto)
    have len: "length (pairs_of a) + length ps < 2 ^ 31"
      using Cons.prems(2) put_named_props(3) [of "symbol_to_value t" "snd p" "pairs_of args"] a(3) by simp
    obtain b where b: "push_args a ps = Inr b" "args_wf b"
      "unnamed_of (pairs_of b) = unnamed_of (pairs_of a) @ map snd (filter (\<lambda>p. fst p = None) ps)"
      "\<forall>s<2 ^ 60. map_of (pairs_of b) (symbol_to_value s) =
        (case map_of (rev ps) (Some s) of Some v \<Rightarrow> Some v | None \<Rightarrow> map_of (pairs_of a) (symbol_to_value s))"
      using Cons.IH [OF a(2) len] Cons.prems(3) by auto
    have "map_of (pairs_of a) (symbol_to_value s) =
        (if s = t then Some (snd p) else map_of (pairs_of args) (symbol_to_value s))" if "s < 2 ^ 60" for s
      using symbol_to_value_inj [OF that t] by (simp add: a(3) put_named_props)
    with a b Some show ?thesis
      by (cases p) (auto simp: put_named_props map_add_def split: option.splits)
  qed
qed simp

text \<open>
  C25. Collecting the arguments of a call: pushing positional and named arguments in any
  order onto a fresh argument list succeeds and keeps the two arrays in step with no name
  twice; the positional values stay in order, and a lookup by name finds the value pushed
  last under that name, or nil.
\<close>

theorem arguments_collect:
  assumes "n < 2 ^ 32" "length ps < 2 ^ 31" "\<forall>s \<in> set (map fst ps). \<forall>t. s = Some t \<longrightarrow> t < 2 ^ 60"
  shows "\<exists>args. push_args (snow_create_arguments_with_size n) ps = Inr args \<and> args_wf args \<and>
      unnamed_of (pairs_of args) = map snd (filter (\<lambda>p. fst p = None) ps) \<and>
      (\<forall>s<2 ^ 60. snow_arguments_get_by_name (Some args) s =
        Inr (case map_of (rev ps) (Some s) of Some v \<Rightarrow> v | None \<Rightarrow> SN_NIL))"
proof -
  obtain args where args: "push_args (snow_create_arguments_with_size n) ps = Inr args" "args_wf args"
      "unnamed_of (pairs_of args) = unnamed_of [] @ map snd (filter (\<lambda>p. fst p = None) ps)"
      "\<forall>s<2 ^ 60. map_of (pairs_of args) (symbol_to_value s) =
        (case map_of (rev ps) (Some s) of Some v \<Rightarrow> Some v | None \<Rightarrow> map_of [] (symbol_to_value s))"
    using push_args_ok [OF create_arguments_wf(1) [OF assms(1)], of ps] assms(2,3)
    unfolding create_arguments_wf(2) by auto
  have "map_of (pairs_of args) (symbol_to_value s) = map_of (rev ps) (Some s)" if "s < 2 ^ 60" for s
    using args(4) that by (auto split: option.splits)
  with args show ?thesis by (intro exI [of _ args]) (simp add: get_by_name_ok unnamed_of_def)
qed

lemma arguments_collect_witness:
  "\<exists>args. push_args (snow_create_arguments_with_size 2) [(Some 1, 7), (None, 9), (Some 1, 11)] = Inr args \<and>
      snow_arguments_get_by_name (Some args) 1 = Inr 11"
  using arguments_collect [of 2 "[(Some 1, 7), (None, 9), (Some 1, 11)]"] by (auto simp del: One_nat_def)

text \<open>
  Lookup by name with an expected position: the value under the name where it is there
  and not null; otherwise the value at that position among the positional arguments that
  come before the name, or null.
\<close>

theorem arguments_get_by_name_at:
  assumes "args_wf args" "s < 2 ^ 60"
  shows "snow_arguments_get_by_name_at args s idx =
    (let named = get_opt (map_of (pairs_of args) (symbol_to_value s));
         us = unnamed_of (takeWhile (\<lambda>p. fst p \<noteq> symbol_to_value s) (pairs_of args))
     in Inr (if named \<noteq> 0 then named else if idx < length us then us ! idx else 0))"
  using name_at_loop_ok [OF assms, of 0 "array_size (arg_data args)" idx 0 0] args_wfD(6) [OF assms(1)]
  by (simp add: snow_arguments_get_by_name_at_def array_size_def Let_def)

definition args_ab :: SnArguments where
  "args_ab = \<lparr>arg_names = \<lparr>a_data = [SN_NIL, symbol_to_value 3], a_size = 2, a_alloc = 2\<rparr>,
              arg_data = \<lparr>a_data = [7, 9], a_size = 2, a_alloc = 2\<rparr>\<rparr>"

lemma args_ab_wf: "args_wf args_ab" "pairs_of args_ab = [(SN_NIL, 7), (symbol_to_value 3, 9)]"
proof -
  have "value_to_symbol (symbol_to_value 3) = 3"
    unfolding value_to_symbol_to_value by (simp add: take_bit_60_eq_iff)
  then show "args_wf args_ab" by (auto simp: args_ab_def args_wf_def array_wf_def elems_def)
  show "pairs_of args_ab = [(SN_NIL, 7), (symbol_to_value 3, 9)]"
    by (simp add: args_ab_def pairs_of_def elems_def)
qed

lemma arguments_get_by_name_at_witness:
  "snow_arguments_get_by_name_at args_ab 3 0 = Inr 9 \<and> snow_arguments_get_by_name_at args_ab 4 0 = Inr 7"
proof -
  have "symbol_to_value 3 \<noteq> symbol_to_value 4" using symbol_to_value_inj [of 3 4] by simp
  then show ?thesis
    using arguments_get_by_name_at [OF args_ab_wf(1), of 3 0] arguments_get_by_name_at [OF args_ab_wf(1), of 4 0]
    by (simp add: args_ab_wf(2) unnamed_of_def)
qed

text \<open>
  Building a map from arguments: an odd number of positional arguments raises the
  exception that says so; otherwise, when no positional key is null, every named argument
  and every pair of positional ones ends up in the map, later ones replacing earlier ones
  of the same key class, and all else in the map is kept.
\<close>

theorem arguments_put_in_map:
  assumes wf: "args_wf args" and m: "default_map m"
    and keys: "0 \<notin> set (elems (arg_names args))" "0 \<notin> fst ` set (pairs (unnamed_of (pairs_of args)))"
  shows "let us = unnamed_of (pairs_of args); kvs = named_of (pairs_of args) @ pairs us
    in if odd (length us)
       then snow_arguments_put_in_map args m =
         Inl (Raise (''Odd number of arguments ('' @ dec_digits (length us) @ '') for Map.''))
       else \<exists>m'. snow_arguments_put_in_map args m = Inr m' \<and> default_map m' \<and>
         map_abs (take_bit 32) m' = map_abs (take_bit 32) m ++
           map_of (rev (map (\<lambda>kv. (take_bit 32 (fst kv), snd kv)) kvs))"
proof -
  define us where "us = unnamed_of (pairs_of args)"
  have "0 \<notin> fst ` set (named_of (pairs_of args))"
    using keys(1) wf by (auto simp: named_of_def simp flip: pairs_of_fst)
  then obtain m1 where m1: "dmap.insert_all m (named_of (pairs_of args)) = Inr m1" "default_map m1"
      "map_abs (take_bit 32) m1 = map_abs (take_bit 32) m ++
         map_of (rev (map (\<lambda>kv. (take_bit 32 (fst kv), snd kv)) (named_of (pairs_of args))))"
    using dmap.insert_all_ok [OF m, of "named_of (pairs_of args)"] by blast
  have loop: "rfor 0 (array_size (arg_names args)) (put_step args) ([], m) = Inr (us, m1)"
    using put_loop_ok [OF wf, of 0 "array_size (arg_names args)" "[]" m] args_wfD [OF wf] m1(1)
    by (simp add: array_size_def us_def)
  show ?thesis
  proof (cases "odd (length us)")
    case True
    then show ?thesis using loop by (simp add: snow_arguments_put_in_map_def odd_iff_mod_2_eq_one us_def [symmetric] Let_def)
  next
    case False
    obtain m2 where m2: "dmap.insert_all m1 (pairs us) = Inr m2" "default_map m2"
      "map_abs (take_bit 32) m2 = map_abs (take_bit 32) m1 ++
         map_of (rev (map (\<lambda>kv. (take_bit 32 (fst kv), snd kv)) (pairs us)))"
      using dmap.insert_all_ok [OF m1(2), of "pairs us"] keys(2) unfolding us_def by blast
    have "rfor 0 (length (pairs us)) (\<lambda>i m. snow_map_set m (us ! (i * 2)) (us ! (i * 2 + 1))) m1 =
        dmap.insert_all m1 (pairs us)"
    proof (rule rfor_insert_all)
      fix j assume "j < length (pairs us)"
      then show "(\<lambda>m. snow_map_set m (us ! ((0 + j) * 2)) (us ! ((0 + j) * 2 + 1))) =
          (\<lambda>m. snow_map_set m (fst (pairs us ! j)) (snd (pairs us ! j)))"
        using pairs_props(1) [of us] pairs_props(2) [of j us] False by simp
    qed
    then have "snow_arguments_put_in_map args m = Inr m2"
      using loop False m2(1) pairs_props(1) [of us]
      by (simp add: snow_arguments_put_in_map_def even_iff_mod_2_eq_zero)
    then show ?thesis using False m2 m1(3) by (simp add: us_def [symmetric] Let_def)
  qed
qed

lemma arguments_put_in_map_witness:
  "snow_arguments_put_in_map args_ab snow_create_map =
     Inl (Raise (''Odd number of arguments ('' @ dec_digits 1 @ '') for Map.''))"
proof -
  have k1: "0 \<notin> set (elems (arg_names args_ab))"
    using symbol_to_value_not_nil(2) [of 3] by (auto simp: args_ab_def elems_def SN_NIL_def)
  have u: "unnamed_of (pairs_of args_ab) = [7]"
    by (simp add: args_ab_wf(2) unnamed_of_def)
  have k2: "0 \<notin> fst ` set (pairs (unnamed_of (pairs_of args_ab)))" unfolding u by simp
  have "odd (length [7 :: VALUE])" by simp
  with arguments_put_in_map [OF args_ab_wf(1) empty_map(1) k1 k2] show ?thesis
    unfolding u Let_def by (simp only: if_True not_False_eq_True list.size add_0 add_Suc One_nat_def)
qed

end
