(* ===== verification/Symbols.thy ===== *)
theory Symbols
  imports Arguments
begin

text \<open>
  The symbol table (snow/symbol.c) and the store that keeps values alive for compiled code
  (\<open>snow_store_add\<close>, \<open>snow_store_get\<close> in snow/snow.c).  The symbol storage is an array of
  string objects; the model keeps the list of their contents.  A C string is the characters
  before its terminator, so \<open>strcmp(a, b) == 0\<close> is equality.
\<close>

subsection \<open>The store\<close>

definition snow_store_init :: array_t where
  "snow_store_init = array_init_with_size 1024"

definition snow_store_add :: "array_t \<Rightarrow> VALUE \<Rightarrow> (array_t \<times> VALUE) result" where
  "snow_store_add store val =
     (let key = int (array_size store)
      in rbind (array_push store val) (\<lambda>(store, _). Inr (store, int_to_value (word_of_int key))))"

definition snow_store_get :: "array_t \<Rightarrow> VALUE \<Rightarrow> VALUE result" where
  "snow_store_get store key =
     rbind (assert_ok (is_integer key)) (\<lambda>_. array_get store (sint (value_to_int key)))"

subsection \<open>The symbol table\<close>

type_synonym symtab = "string list"

text \<open>The index of the first string of the storage equal to \<open>cstr\<close>.\<close>

fun symbol_loop :: "string \<Rightarrow> symtab \<Rightarrow> nat \<Rightarrow> nat option" where
  "symbol_loop cstr [] i = None"
| "symbol_loop cstr (existing # rest) i =
     (if cstr = existing then Some i else symbol_loop cstr rest (Suc i))"

definition snow_symbol :: "symtab \<Rightarrow> string \<Rightarrow> symtab \<times> SnSymbol" where
  "snow_symbol storage cstr =
     (case symbol_loop cstr storage 0 of
        Some i \<Rightarrow> (storage, of_nat i)
      | None \<Rightarrow> (storage @ [cstr], of_nat (length storage)))"

definition snow_symbol_from_string :: "symtab \<Rightarrow> string \<Rightarrow> symtab \<times> SnSymbol" where
  "snow_symbol_from_string storage str = snow_symbol storage str"

definition snow_vsymbol :: "symtab \<Rightarrow> string \<Rightarrow> symtab \<times> VALUE" where
  "snow_vsymbol storage cstr = (case snow_symbol storage cstr of (storage, s) \<Rightarrow> (storage, symbol_to_value s))"

definition snow_symbol_to_string :: "symtab \<Rightarrow> SnSymbol \<Rightarrow> string result" where
  "snow_symbol_to_string storage s =
     rbind (assert_ok (unat s < length storage)) (\<lambda>_. Inr (storage ! unat s))"

definition snow_symbol_to_cstr :: "symtab \<Rightarrow> SnSymbol \<Rightarrow> string result" where
  "snow_symbol_to_cstr storage s = snow_symbol_to_string storage s"

text \<open>
  The methods of symbols: calling one sends the message of that name to the argument
  (\<open>snow_call_method\<close>, a parameter).
\<close>

definition symbol_call ::
    "(VALUE \<Rightarrow> SnSymbol \<Rightarrow> 'w \<Rightarrow> (VALUE \<times> 'w) result) \<Rightarrow> VALUE \<Rightarrow> VALUE list option \<Rightarrow> 'w \<Rightarrow> (VALUE \<times> 'w) result" where
  "symbol_call call_method self args w =
     rbind (assert_ok (is_symbol self)) (\<lambda>_.
     rbind (require_args args 1) (\<lambda>ARGS. call_method (ARGS ! 0) (value_to_symbol self) w))"

definition symbol_to_string :: "symtab \<Rightarrow> VALUE \<Rightarrow> string result" where
  "symbol_to_string storage self =
     rbind (assert_ok (is_symbol self)) (\<lambda>_. snow_symbol_to_string storage (value_to_symbol self))"

definition symbol_inspect :: "symtab \<Rightarrow> VALUE \<Rightarrow> string result" where
  "symbol_inspect storage self =
     rbind (assert_ok (is_symbol self)) (\<lambda>_.
     rbind (snow_symbol_to_string storage (value_to_symbol self)) (\<lambda>s. Inr (''#'' @ s)))"

subsection \<open>Lemmas\<close>

lemma symbol_loop_eq: "symbol_loop c xs i = map_option ((+) i) (index_of c xs)"
  by (induction c xs i rule: symbol_loop.induct) (auto simp: option.map_comp comp_def)

lemma snow_symbol_eq:
  "snow_symbol storage c = (case index_of c storage of Some i \<Rightarrow> (storage, of_nat i)
     | None \<Rightarrow> (storage @ [c], of_nat (length storage)))"
  by (simp add: snow_symbol_def symbol_loop_eq split: option.split)

lemma unat_of_nat_small: "n < 2 ^ 64 \<Longrightarrow> unat (of_nat n :: VALUE) = n"
  by (simp add: unsigned_of_nat take_bit_nat_eq_self)

primrec intern_all :: "symtab \<Rightarrow> string list \<Rightarrow> symtab \<times> SnSymbol list" where
  "intern_all storage [] = (storage, [])"
| "intern_all storage (c # cs) =
     (case snow_symbol storage c of (storage, s) \<Rightarrow>
      case intern_all storage cs of (storage, ss) \<Rightarrow> (storage, s # ss))"

lemma snow_symbol_props:
  assumes "distinct storage" "snow_symbol storage c = (storage', s)" "length storage < 2 ^ 60"
  shows "distinct storage'" "\<exists>ext. storage' = storage @ ext" "length storage' \<le> Suc (length storage)"
    "unat s < length storage'" "storage' ! unat s = c" "unat s < 2 ^ 60"
proof -
  consider (old) i where "index_of c storage = Some i" | (new) "c \<notin> set storage"
    by (cases "index_of c storage") auto
  then have "distinct storage' \<and> (\<exists>ext. storage' = storage @ ext) \<and> length storage' \<le> Suc (length storage) \<and>
    unat s < length storage' \<and> storage' ! unat s = c \<and> unat s < 2 ^ 60"
  proof cases
    case old
    then have "storage' = storage" "s = of_nat i" using assms(2) by (simp_all add: snow_symbol_eq)
    moreover have "i < length storage" "storage ! i = c" using index_of_SomeD [OF old] by auto
    ultimately show ?thesis using assms(1,3) unat_of_nat_small [of i] by simp
  next
    case new
    then have "storage' = storage @ [c]" "s = of_nat (length storage)" using assms(2) by (simp_all add: snow_symbol_eq)
    then show ?thesis using new assms(1,3) unat_of_nat_small [of "length storage"] by simp
  qed
  then show "distinct storage'" "\<exists>ext. storage' = storage @ ext" "length storage' \<le> Suc (length storage)"
    "unat s < length storage'" "storage' ! unat s = c" "unat s < 2 ^ 60" by auto
qed

lemma intern_all_props:
  assumes "distinct storage" "length storage + length cs < 2 ^ 60"
  shows "case intern_all storage cs of (storage', ss) \<Rightarrow>
    distinct storage' \<and> (\<exists>ext. storage' = storage @ ext) \<and> length ss = length cs \<and>
    (\<forall>i<length cs. unat (ss ! i) < length storage' \<and> storage' ! unat (ss ! i) = cs ! i) \<and>
    length storage' \<le> length storage + length cs"
  using assms
proof (induction cs arbitrary: storage)
  case (Cons c cs)
  obtain st1 s where s: "snow_symbol storage c = (st1, s)" by fastforce
  have len: "length storage < 2 ^ 60" using Cons.prems by simp
  note p = snow_symbol_props [OF Cons.prems(1) s len]
  obtain st2 ss where ss: "intern_all st1 cs = (st2, ss)" by fastforce
  have IH: "distinct st2 \<and> (\<exists>ext. st2 = st1 @ ext) \<and> length ss = length cs \<and>
    (\<forall>i<length cs. unat (ss ! i) < length st2 \<and> st2 ! unat (ss ! i) = cs ! i) \<and>
    length st2 \<le> length st1 + length cs"
    using Cons.IH [OF p(1)] p(3) Cons.prems(2) unfolding ss by simp
  have "unat s < length st2 \<and> st2 ! unat s = c" using IH p(4,5) by (auto simp: nth_append)
  then have "\<forall>i<length (c # cs). unat ((s # ss) ! i) < length st2 \<and> st2 ! unat ((s # ss) ! i) = (c # cs) ! i"
    using IH by (auto simp: nth_Cons split: nat.split)
  then show ?case using s ss IH p(2,3) by auto
qed simp

subsection \<open>Properties\<close>

text \<open>
  C14. Interning: from an empty table and for any sequence of strings, two of them get the
  same symbol exactly when they are equal, and the symbol of each converts back to that
  string, later internings included.  The table is the list of its strings, which are valid
  UTF-8 (Strings has \<open>snow_create_string\<close>, which does not return on others); it is bounded
  by 2 ^ 60 symbols here, which is what fits in a tagged value, and by the 32-bit size of its
  array in the code.
\<close>

theorem symbols_intern:
  assumes "length cs < 2 ^ 60" "i < length cs" "j < length cs"
  shows "case intern_all [] cs of (storage, ss) \<Rightarrow>
    length ss = length cs \<and> (ss ! i = ss ! j \<longleftrightarrow> cs ! i = cs ! j) \<and>
    snow_symbol_to_string storage (ss ! i) = Inr (cs ! i) \<and>
    symbol_to_string storage (symbol_to_value (ss ! i)) = Inr (cs ! i) \<and>
    snow_symbol storage (cs ! i) = (storage, ss ! i)"
proof -
  obtain st ss where ss: "intern_all [] cs = (st, ss)" by fastforce
  have p: "distinct st" "length ss = length cs" "length st \<le> length cs"
    "\<forall>i<length cs. unat (ss ! i) < length st \<and> st ! unat (ss ! i) = cs ! i"
    using intern_all_props [of "[]" cs] assms(1) unfolding ss by auto
  have pi: "unat (ss ! i) < length st" "st ! unat (ss ! i) = cs ! i" using p(4) assms(2) by auto
  have pj: "unat (ss ! j) < length st" "st ! unat (ss ! j) = cs ! j" using p(4) assms(3) by auto
  have "ss ! i = ss ! j \<longleftrightarrow> cs ! i = cs ! j"
    using pi pj nth_eq_iff_index_eq [OF p(1) pi(1) pj(1)] by (metis word_unat_eq_iff)
  moreover have "ss ! i < 2 ^ 60"
    using pi(1) p(3) assms(1) by (simp add: word_less_nat_alt)
  then have "value_to_symbol (symbol_to_value (ss ! i)) = ss ! i"
    unfolding value_to_symbol_to_value by (rule take_bit_60_eq_iff [THEN iffD2])
  moreover have "is_symbol (symbol_to_value (ss ! i))"
    by (simp add: is_symbol_def and_kTypeMask) (simp add: kSymbolType_def)
  moreover have "index_of (cs ! i) st = Some (unat (ss ! i))"
    using index_of_nth_distinct [OF p(1) pi(1)] pi(2) by simp
  ultimately show ?thesis
    using ss p(2) pi by (simp add: snow_symbol_to_string_def symbol_to_string_def snow_symbol_eq)
qed

lemma symbols_intern_witness:
  "case intern_all [] [''x'', ''y'', ''x''] of (storage, ss) \<Rightarrow>
     ss ! 0 = ss ! 2 \<and> snow_symbol_to_string storage (ss ! 0) = Inr ''x''"
  using symbols_intern [of "[''x'', ''y'', ''x'']" 0 2] by (auto simp: split_beta)

text \<open>
  C33. The store: a value added is read back under the key returned, whatever is added
  later; keys are distinct integers, handed out in order.
\<close>

theorem store_add_get:
  assumes "array_wf store" "a_size store < 2 ^ 32 - 1"
  shows "\<exists>store' key. snow_store_add store val = Inr (store', key) \<and> array_wf store' \<and>
    is_integer key \<and> sint (value_to_int key) = int (a_size store) \<and>
    a_size store' = a_size store + 1 \<and> snow_store_get store' key = Inr val \<and>
    (\<forall>i<a_size store. snow_store_get store' (int_to_value (of_nat i)) = snow_store_get store (int_to_value (of_nat i)))"
proof -
  obtain st where st: "array_push store val = Inr (st, val)" "array_wf st" "elems st = elems store @ [val]"
    using array_push_law [OF assms(1)] assms by (auto simp: length_elems)
  have len: "length (elems store) = a_size store" "a_size st = a_size store + 1"
    using length_elems assms(1) st by (simp_all, metis length_append_singleton)
  have key: "sint (value_to_int (int_to_value (of_nat i))) = int i" "is_integer (int_to_value (of_nat i :: VALUE))"
    if "i < 2 ^ 32" for i
  proof -
    have "sint (of_nat i :: VALUE) = int i"
      using that by (simp add: signed_of_nat signed_take_bit_int_eq_self)
    then show "sint (value_to_int (int_to_value (of_nat i :: VALUE))) = int i"
      using that by (simp add: sint_value_to_int_to_value signed_take_bit_int_eq_self)
    show "is_integer (int_to_value (of_nat i :: VALUE))"
      by (simp add: is_integer_iff_bit bit_int_to_value)
  qed
  have get: "snow_store_get a (int_to_value (of_nat i)) = Inr (elems a ! i)"
    if "array_wf a" "i < length (elems a)" "i < 2 ^ 32" for a i
    using that key [of i] by (simp add: snow_store_get_def array_get_nth)
  have "snow_store_add store val = Inr (st, int_to_value (of_nat (a_size store)))"
    using st(1) by (simp add: snow_store_add_def array_size_def)
  moreover have "snow_store_get st (int_to_value (of_nat (a_size store))) = Inr val"
    using get [of st "a_size store"] st len assms by (simp add: nth_append)
  moreover have "snow_store_get st (int_to_value (of_nat i)) = snow_store_get store (int_to_value (of_nat i))"
    if "i < a_size store" for i
    using get [of st i] get [of store i] st len assms that by (simp add: nth_append)
  ultimately show ?thesis using st(2) len key [of "a_size store"] assms by auto
qed

lemma store_add_get_witness:
  "\<exists>store key. snow_store_add snow_store_init 7 = Inr (store, key) \<and> snow_store_get store key = Inr 7"
proof -
  have "array_wf snow_store_init" "a_size snow_store_init < 2 ^ 32 - 1"
    by (simp_all add: snow_store_init_def)
  from store_add_get [OF this, of 7] show ?thesis by blast
qed

end
