(* ===== verification/Numeric.thy ===== *)
theory Numeric
  imports Symbols "HOL-Library.Signed_Division"
begin

text \<open>
  Numbers (snow/numeric.c) and the printing of booleans and nil (snow/boolean.c,
  snow/nil.c).  Integers are 63 bits wide inside their values.  Single-precision arithmetic
  is a parameter, a record of operations on the 32-bit patterns: the theories the
  development may use have no floating point.  Signed overflow and division by zero have
  no meaning in C.
\<close>

type_synonym float32 = "32 word"

record float_ops =
  f_of_int :: "64 word \<Rightarrow> float32"
  f_add :: "float32 \<Rightarrow> float32 \<Rightarrow> float32"
  f_sub :: "float32 \<Rightarrow> float32 \<Rightarrow> float32"
  f_mul :: "float32 \<Rightarrow> float32 \<Rightarrow> float32"
  f_div :: "float32 \<Rightarrow> float32 \<Rightarrow> float32"
  f_mod :: "float32 \<Rightarrow> float32 \<Rightarrow> float32"
  f_pow :: "float32 \<Rightarrow> float32 \<Rightarrow> float32"
  f_neg :: "float32 \<Rightarrow> float32"
  f_less :: "float32 \<Rightarrow> float32 \<Rightarrow> bool"
  f_pow_int :: "64 word \<Rightarrow> 64 word \<Rightarrow> (64 word) result"
  f_print :: "float32 \<Rightarrow> string"

text \<open>An \<open>intx\<close> result of signed arithmetic.\<close>

definition intx :: "int \<Rightarrow> (64 word) result" where
  "intx n = (if - (2 ^ 63) \<le> n \<and> n < 2 ^ 63 then Inr (word_of_int n) else Inl Undef)"

definition to_float :: "float_ops \<Rightarrow> VALUE \<Rightarrow> float32" where
  "to_float F v = (if is_integer v then f_of_int F (value_to_int v) else value_to_float v)"

text \<open>The shape the binary operations share.\<close>

definition binary ::
    "(int \<Rightarrow> int \<Rightarrow> VALUE result) \<Rightarrow> (float32 \<Rightarrow> float32 \<Rightarrow> VALUE) \<Rightarrow> float_ops \<Rightarrow>
     VALUE \<Rightarrow> VALUE list option \<Rightarrow> VALUE result" where
  "binary fi ff F self args =
     rbind (assert_ok (is_numeric self)) (\<lambda>_.
     rbind (require_args args 1) (\<lambda>ARGS.
     rbind (assert_ok (is_numeric (ARGS ! 0))) (\<lambda>_.
       if is_integer self \<and> is_integer (ARGS ! 0)
       then fi (sint (value_to_int self)) (sint (value_to_int (ARGS ! 0)))
       else Inr (ff (to_float F self) (to_float F (ARGS ! 0))))))"

definition numeric_plus :: "float_ops \<Rightarrow> VALUE \<Rightarrow> VALUE list option \<Rightarrow> VALUE result" where
  "numeric_plus F = binary (\<lambda>a b. rbind (intx (a + b)) (\<lambda>n. Inr (int_to_value n)))
     (\<lambda>a b. float_to_value (f_add F a b)) F"

definition numeric_minus :: "float_ops \<Rightarrow> VALUE \<Rightarrow> VALUE list option \<Rightarrow> VALUE result" where
  "numeric_minus F self args =
     rbind (assert_ok (is_numeric self)) (\<lambda>_.
       case args of
         Some (b # _) \<Rightarrow>
           rbind (assert_ok (is_numeric b)) (\<lambda>_.
             if is_integer self \<and> is_integer b
             then rbind (intx (sint (value_to_int self) - sint (value_to_int b))) (\<lambda>n. Inr (int_to_value n))
             else Inr (float_to_value (f_sub F (to_float F self) (to_float F b))))
       | _ \<Rightarrow>
           if is_integer self then rbind (intx (- sint (value_to_int self))) (\<lambda>n. Inr (int_to_value n))
           else Inr (float_to_value (f_neg F (value_to_float self))))"

definition numeric_multiply :: "float_ops \<Rightarrow> VALUE \<Rightarrow> VALUE list option \<Rightarrow> VALUE result" where
  "numeric_multiply F = binary (\<lambda>a b. rbind (intx (a * b)) (\<lambda>n. Inr (int_to_value n)))
     (\<lambda>a b. float_to_value (f_mul F a b)) F"

definition numeric_divide :: "float_ops \<Rightarrow> VALUE \<Rightarrow> VALUE list option \<Rightarrow> VALUE result" where
  "numeric_divide F = binary
     (\<lambda>a b. if b = 0 then Inl Undef else rbind (intx (a sdiv b)) (\<lambda>n. Inr (int_to_value n)))
     (\<lambda>a b. float_to_value (f_div F a b)) F"

definition numeric_modulo :: "float_ops \<Rightarrow> VALUE \<Rightarrow> VALUE list option \<Rightarrow> VALUE result" where
  "numeric_modulo F = binary
     (\<lambda>a b. if b = 0 then Inl Undef else rbind (intx (a smod b)) (\<lambda>n. Inr (int_to_value n)))
     (\<lambda>a b. float_to_value (f_mod F a b)) F"

definition numeric_power :: "float_ops \<Rightarrow> VALUE \<Rightarrow> VALUE list option \<Rightarrow> VALUE result" where
  "numeric_power F = binary
     (\<lambda>a b. rbind (f_pow_int F (word_of_int a) (word_of_int b)) (\<lambda>n. Inr (int_to_value n)))
     (\<lambda>a b. float_to_value (f_pow F a b)) F"

definition numeric_less_than :: "float_ops \<Rightarrow> VALUE \<Rightarrow> VALUE list option \<Rightarrow> VALUE result" where
  "numeric_less_than F = binary (\<lambda>a b. Inr (boolean_to_value (a < b)))
     (\<lambda>a b. boolean_to_value (f_less F a b)) F"

definition numeric_greater_than :: "float_ops \<Rightarrow> VALUE \<Rightarrow> VALUE list option \<Rightarrow> VALUE result" where
  "numeric_greater_than F = binary (\<lambda>a b. Inr (boolean_to_value (a > b)))
     (\<lambda>a b. boolean_to_value (f_less F b a)) F"

text \<open>\<open>snprintf\<close> of \<open>%lld\<close>; a 64-bit integer takes at most 20 characters of the 32.\<close>

definition print_int :: "int \<Rightarrow> string" where
  "print_int n = (if n < 0 then ''-'' @ dec_digits (nat (- n)) else dec_digits (nat n))"

definition numeric_to_string :: "float_ops \<Rightarrow> VALUE \<Rightarrow> string result" where
  "numeric_to_string F self =
     rbind (assert_ok (is_numeric self)) (\<lambda>_.
       if is_integer self then Inr (print_int (sint (value_to_int self)))
       else if is_float self then Inr (f_print F (value_to_float self)) else Inl Trap)"

definition boolean_to_string :: "VALUE \<Rightarrow> string" where
  "boolean_to_string self = (if snow_eval_truth self then ''true'' else ''false'')"

definition nil_to_string :: string where "nil_to_string = []"
definition nil_inspect :: string where "nil_inspect = ''nil''"
definition nil_any :: VALUE where "nil_any = SN_FALSE"

subsection \<open>Lemmas\<close>

lemma sint_value_range:
  "- (2 ^ 62) \<le> sint (value_to_int v)" "sint (value_to_int v) < 2 ^ 62"
proof -
  have eq: "sint (value_to_int v) = sint v div 2" by (rule sint_value_to_int)
  show "- (2 ^ 62) \<le> sint (value_to_int v)" "sint (value_to_int v) < 2 ^ 62"
    unfolding eq using sint_ge [of v] sint_lt [of v] by auto
qed

lemma is_integer_numeric [simp]: "is_integer v \<Longrightarrow> is_numeric v"
  by (simp add: is_numeric_def)

lemma binary_int:
  "is_integer a \<Longrightarrow> is_integer b \<Longrightarrow>
   binary fi ff F a (Some [b]) = fi (sint (value_to_int a)) (sint (value_to_int b))"
  by (simp add: binary_def)

lemma intx_ok: "- (2 ^ 63) \<le> n \<Longrightarrow> n < 2 ^ 63 \<Longrightarrow> intx n = Inr (word_of_int n)"
  by (simp add: intx_def)

definition int_result :: "VALUE result \<Rightarrow> int \<Rightarrow> bool" where
  "int_result r n \<longleftrightarrow> (\<exists>v. r = Inr v \<and> is_integer v \<and> sint (value_to_int v) = signed_take_bit 62 n)"

lemma int_result_intx:
  assumes "- (2 ^ 63) \<le> n" "n < 2 ^ 63"
  shows "int_result (rbind (intx n) (\<lambda>n. Inr (int_to_value n))) n"
proof -
  have "sint (word_of_int n :: 64 word) = signed_take_bit 63 n" by (simp only: signed_of_int) simp
  moreover have "is_integer (int_to_value (word_of_int n))" by (simp add: is_integer_iff_bit bit_int_to_value)
  ultimately show ?thesis
    using assms by (simp add: int_result_def intx_ok sint_value_to_int_to_value signed_take_bit_int_eq_self)
qed

fun dec_value :: "string \<Rightarrow> nat" where
  "dec_value s = foldl (\<lambda>n c. 10 * n + (of_char c - 48)) 0 s"

lemma dec_value_digits: "foldl (\<lambda>n c. 10 * n + (of_char c - 48)) 0 (dec_digits n) = (n :: nat)"
proof (induction n rule: dec_digits.induct)
  case (1 n)
  show ?case
  proof (cases "n < 10")
    case True
    then show ?thesis by (subst dec_digits.simps) simp
  next
    case False
    then have "foldl (\<lambda>n c. 10 * n + (of_char c - 48)) 0 (dec_digits (n div 10)) = n div 10" by (rule 1)
    with False show ?thesis by (subst dec_digits.simps) simp
  qed
qed

lemma abs_sdiv_le: "\<bar>a sdiv b\<bar> \<le> \<bar>a\<bar>" for a b :: int
proof -
  have "\<bar>a\<bar> div \<bar>b\<bar> \<le> \<bar>a\<bar>"
    using div_by_1 [of "\<bar>a\<bar>"] zdiv_mono2 [of "\<bar>a\<bar>" 1 "\<bar>b\<bar>"] by (cases "b = 0") auto
  moreover have "0 \<le> \<bar>a\<bar> div \<bar>b\<bar>" by (cases "b = 0") (simp_all add: pos_imp_zdiv_nonneg_iff)
  ultimately show ?thesis
    by (simp add: signed_divide_int_def abs_mult abs_sgn_eq)
qed

lemma smod_props:
  assumes "b \<noteq> (0 :: int)"
  shows "a = (a sdiv b) * b + a smod b" "\<bar>a smod b\<bar> < \<bar>b\<bar>" "a smod b = 0 \<or> sgn (a smod b) = sgn a"
proof -
  have eq: "a smod b = sgn a * (\<bar>a\<bar> mod \<bar>b\<bar>)" by (simp add: signed_modulo_int_def)
  have "(a sdiv b) * b = sgn a * (\<bar>a\<bar> div \<bar>b\<bar> * \<bar>b\<bar>)"
    by (simp add: signed_divide_int_def ac_simps flip: abs_sgn)
  then have "(a sdiv b) * b + a smod b = sgn a * (\<bar>a\<bar> div \<bar>b\<bar> * \<bar>b\<bar> + \<bar>a\<bar> mod \<bar>b\<bar>)"
    unfolding eq by (simp only: distrib_left)
  also have "\<dots> = a" by (simp only: div_mult_mod_eq sgn_mult_abs)
  finally show "a = (a sdiv b) * b + a smod b" by simp
  have m: "0 \<le> \<bar>a\<bar> mod \<bar>b\<bar>" "\<bar>a\<bar> mod \<bar>b\<bar> < \<bar>b\<bar>" using assms by simp_all
  then show "\<bar>a smod b\<bar> < \<bar>b\<bar>" unfolding eq using assms by (simp add: abs_mult abs_sgn_eq)
  show "a smod b = 0 \<or> sgn (a smod b) = sgn a" unfolding eq using m by (auto simp: sgn_mult sgn_if)
qed

subsection \<open>Properties\<close>

text \<open>
  C34. Integer arithmetic: on two integers, sum, difference, negation, product, quotient and
  remainder are the mathematical results wrapped to the 63 bits of a value; a product beyond 64
  bits and a division by zero have no meaning; division truncates toward zero and the remainder
  takes the sign of the dividend; the comparisons compare the numbers.  (The power of two
  integers is computed by the C library in double precision, a parameter of the model.)
\<close>

theorem numeric_integers:
  assumes "is_integer self" "is_integer arg"
  shows "let a = sint (value_to_int self); b = sint (value_to_int arg); args = Some [arg] in
    int_result (numeric_plus F self args) (a + b) \<and>
    int_result (numeric_minus F self args) (a - b) \<and>
    int_result (numeric_minus F self (Some [])) (- a) \<and>
    (if - (2 ^ 63) \<le> a * b \<and> a * b < 2 ^ 63 then int_result (numeric_multiply F self args) (a * b)
     else numeric_multiply F self args = Inl Undef) \<and>
    (if b = 0 then numeric_divide F self args = Inl Undef \<and> numeric_modulo F self args = Inl Undef
     else int_result (numeric_divide F self args) (a sdiv b) \<and> int_result (numeric_modulo F self args) (a smod b) \<and>
       a = (a sdiv b) * b + a smod b \<and> \<bar>a smod b\<bar> < \<bar>b\<bar> \<and> (a smod b = 0 \<or> sgn (a smod b) = sgn a)) \<and>
    numeric_less_than F self args = Inr (boolean_to_value (a < b)) \<and>
    numeric_greater_than F self args = Inr (boolean_to_value (a > b))"
proof -
  define a b where "a = sint (value_to_int self)" and "b = sint (value_to_int arg)"
  have r: "- (2 ^ 62) \<le> a" "a < 2 ^ 62" "- (2 ^ 62) \<le> b" "b < 2 ^ 62"
    using sint_value_range unfolding a_def b_def by auto
  have "int_result (numeric_plus F self (Some [arg])) (a + b)"
    unfolding numeric_plus_def binary_int [OF assms] a_def [symmetric] b_def [symmetric]
    by (rule int_result_intx) (use r in auto)
  moreover have "int_result (numeric_minus F self (Some [arg])) (a - b)"
    using int_result_intx [of "a - b"] assms r by (simp add: numeric_minus_def a_def b_def)
  moreover have "int_result (numeric_minus F self (Some [])) (- a)"
    using int_result_intx [of "- a"] assms r by (simp add: numeric_minus_def a_def)
  moreover have "if - (2 ^ 63) \<le> a * b \<and> a * b < 2 ^ 63 then int_result (numeric_multiply F self (Some [arg])) (a * b)
     else numeric_multiply F self (Some [arg]) = Inl Undef"
    unfolding numeric_multiply_def binary_int [OF assms] a_def [symmetric] b_def [symmetric]
    using int_result_intx [of "a * b"] by (auto simp: intx_def)
  moreover have "int_result (numeric_divide F self (Some [arg])) (a sdiv b)" if "b \<noteq> 0"
    unfolding numeric_divide_def binary_int [OF assms] a_def [symmetric] b_def [symmetric]
    using that int_result_intx [of "a sdiv b"] abs_sdiv_le [of a b] r by (auto simp: abs_le_iff)
  moreover have "int_result (numeric_modulo F self (Some [arg])) (a smod b)" if "b \<noteq> 0"
    unfolding numeric_modulo_def binary_int [OF assms] a_def [symmetric] b_def [symmetric]
    using that int_result_intx [of "a smod b"] smod_props(2) [OF that, of a] r by (auto simp: abs_less_iff)
  moreover have "numeric_divide F self (Some [arg]) = Inl Undef \<and> numeric_modulo F self (Some [arg]) = Inl Undef" if "b = 0"
    using that unfolding numeric_divide_def numeric_modulo_def binary_int [OF assms] b_def by simp
  moreover have "numeric_less_than F self (Some [arg]) = Inr (boolean_to_value (a < b))"
    "numeric_greater_than F self (Some [arg]) = Inr (boolean_to_value (a > b))"
    unfolding numeric_less_than_def numeric_greater_than_def binary_int [OF assms] a_def b_def by simp_all
  ultimately show ?thesis
    unfolding a_def [symmetric] b_def [symmetric] Let_def using smod_props [of b a] by auto
qed

text \<open>An instance of the parameter, for the witness; its values play no part on integers.\<close>

definition zero_floats :: float_ops where
  "zero_floats = \<lparr>f_of_int = (\<lambda>_. 0), f_add = (\<lambda>_ _. 0), f_sub = (\<lambda>_ _. 0), f_mul = (\<lambda>_ _. 0),
     f_div = (\<lambda>_ _. 0), f_mod = (\<lambda>_ _. 0), f_pow = (\<lambda>_ _. 0), f_neg = (\<lambda>_. 0), f_less = (\<lambda>_ _. False),
     f_pow_int = (\<lambda>_ _. Inr 0), f_print = (\<lambda>_. [])\<rparr>"

text \<open>Seven by minus two, and a sum that wraps: \<open>2 ^ 62 - 1 + 1\<close> is \<open>- 2 ^ 62\<close>.\<close>

lemma numeric_integers_witness:
  "int_result (numeric_divide zero_floats (int_to_value 7) (Some [int_to_value (- 2)])) (- 3) \<and>
   int_result (numeric_plus zero_floats (int_to_value (2 ^ 62 - 1)) (Some [int_to_value 1])) (2 ^ 62)"
proof -
  have v: "sint (value_to_int (int_to_value 7)) = 7" "sint (value_to_int (int_to_value (- 2))) = - 2"
    "sint (value_to_int (int_to_value (2 ^ 62 - 1))) = 2 ^ 62 - 1" "sint (value_to_int (int_to_value 1)) = 1"
    unfolding sint_value_to_int_to_value by simp_all
  have d: "(7 :: int) sdiv - 2 = - 3" by (simp add: signed_divide_int_def)
  have "int_result (numeric_divide zero_floats (int_to_value 7) (Some [int_to_value (- 2)])) (7 sdiv - 2)"
    using numeric_integers [of "int_to_value 7" "int_to_value (- 2)" zero_floats] unfolding v Let_def by simp
  moreover have "int_result (numeric_plus zero_floats (int_to_value (2 ^ 62 - 1)) (Some [int_to_value 1])) (2 ^ 62 - 1 + 1)"
    using numeric_integers [of "int_to_value (2 ^ 62 - 1)" "int_to_value 1" zero_floats] unfolding v Let_def
    by (simp only: is_integer_int_to_value simp_thms)
  ultimately show ?thesis unfolding d by simp
qed

text \<open>Printing: the digits spell the number, with a sign where it is negative.\<close>

lemma numeric_to_string_value:
  "is_integer v \<Longrightarrow> numeric_to_string F v = Inr (print_int (sint (value_to_int v)))"
  "0 \<le> n \<Longrightarrow> int (dec_value (print_int n)) = n"
  "n < 0 \<Longrightarrow> hd (print_int n) = CHR ''-'' \<and> int (dec_value (tl (print_int n))) = - n"
  using dec_value_digits [of "nat n"] dec_value_digits [of "nat (- n)"]
  by (simp_all add: numeric_to_string_def print_int_def)

text \<open>Errors of the binary operations, the same for all of them.\<close>

lemma binary_errors:
  "\<not> is_numeric self \<Longrightarrow> binary fi ff F self args = Inl Trap"
  "is_numeric self \<Longrightarrow> binary fi ff F self None = Inl Undef"
  "is_numeric self \<Longrightarrow> binary fi ff F self (Some []) =
     Inl (Raise ''Expected 1 argument for function call.'')"
  "is_numeric self \<Longrightarrow> \<not> is_numeric b \<Longrightarrow> binary fi ff F self (Some (b # bs)) = Inl Trap"
  by (simp_all add: binary_def require_args_def dec_digits.simps char_of_def bit_0)

end
