(* ===== verification/GcHeap.thy ===== *)
theory GcHeap
  imports LinkBuffer
begin

text \<open>
  The memory the collector works on: the chunks and their bounds (\<open>gc_alloc_chunk\<close>,
  \<open>gc_free_chunk\<close>, \<open>gc_maybe_contains\<close> in snow/gc.c), and the incremental heaps with their
  flags and the lists of heaps (snow/gcheap.h).  Addresses are natural numbers, null is 0.
  What \<open>malloc\<close> returns is an argument of every operation that calls it.  The counters of
  a heap are 32 bits wide; a heap in memory that was just allocated holds the bytes the
  debug build fills it with.
\<close>

unbundle bit_operations_syntax

type_synonym addr = nat

subsection \<open>Chunks\<close>

record gc_info =
  lower_bound :: addr
  upper_bound :: addr
  allocated_size :: "64 word"
  freed_size :: "64 word"
  total_mem_usage :: "64 word"

definition gc_info_init :: gc_info where
  "gc_info_init = \<lparr>lower_bound = 0, upper_bound = 0, allocated_size = 0, freed_size = 0, total_mem_usage = 0\<rparr>"

definition gc_alloc_chunk :: "addr \<Rightarrow> nat \<Rightarrow> gc_info \<Rightarrow> gc_info" where
  "gc_alloc_chunk p n g = g\<lparr>
     lower_bound := (if p < lower_bound g \<or> lower_bound g = 0 then p else lower_bound g),
     upper_bound := (if p + n > upper_bound g then p + n else upper_bound g),
     allocated_size := allocated_size g + of_nat n,
     total_mem_usage := total_mem_usage g + of_nat n\<rparr>"

definition gc_free_chunk :: "addr \<Rightarrow> nat \<Rightarrow> gc_info \<Rightarrow> gc_info" where
  "gc_free_chunk p n g = g\<lparr>
     lower_bound := (if lower_bound g = p then p + n else lower_bound g),
     upper_bound := (if p + n = upper_bound g then p else upper_bound g),
     freed_size := freed_size g + of_nat n,
     total_mem_usage := total_mem_usage g - of_nat n\<rparr>"

definition gc_maybe_contains :: "gc_info \<Rightarrow> addr \<Rightarrow> bool" where
  "gc_maybe_contains g root \<longleftrightarrow> lower_bound g \<le> root \<and> root \<le> upper_bound g"

subsection \<open>Heaps\<close>

definition SNOW_GC_ALIGNMENT :: nat where "SNOW_GC_ALIGNMENT = 16"
definition sizeof_head :: nat where "sizeof_head = 16"
definition sizeof_tail :: nat where "sizeof_tail = 16"

type_synonym SnGCFlags = "8 word"

record SnGCHeap =
  h_start :: addr
  h_current :: addr
  h_end :: addr
  num_objects :: nat
  num_reachable :: nat
  num_indefinite :: nat
  h_flags :: "SnGCFlags list option"
  num_flags :: nat

text \<open>A heap in fresh memory, and one after \<open>memset(heap, 0, sizeof(SnGCHeap))\<close>.\<close>

definition fresh_heap :: SnGCHeap where
  "fresh_heap = \<lparr>h_start = 0xcdcdcdcdcdcdcdcd, h_current = 0xcdcdcdcdcdcdcdcd, h_end = 0xcdcdcdcdcdcdcdcd,
     num_objects = 0xcdcdcdcd, num_reachable = 0xcdcdcdcd, num_indefinite = 0xcdcdcdcd,
     h_flags = Some [], num_flags = 0xcdcdcdcd\<rparr>"

definition zero_heap :: SnGCHeap where
  "zero_heap = \<lparr>h_start = 0, h_current = 0, h_end = 0, num_objects = 0, num_reachable = 0,
     num_indefinite = 0, h_flags = None, num_flags = 0\<rparr>"

definition gc_heap_init :: "SnGCHeap \<Rightarrow> SnGCHeap" where
  "gc_heap_init h = h\<lparr>h_start := 0, h_current := 0, h_end := 0, num_objects := 0,
     h_flags := None, num_flags := 0\<rparr>"

definition gc_heap_finalize :: "SnGCHeap \<Rightarrow> gc_info \<Rightarrow> SnGCHeap \<times> gc_info" where
  "gc_heap_finalize h g =
     (h\<lparr>h_start := 0, h_current := 0, h_end := 0, h_flags := None, num_flags := 0\<rparr>,
      gc_free_chunk (h_start h) (h_end h - h_start h) g)"

definition gc_heap_contains :: "SnGCHeap \<Rightarrow> addr \<Rightarrow> bool" where
  "gc_heap_contains h root \<longleftrightarrow> h_start h \<noteq> 0 \<and> root \<ge> h_start h + sizeof_head \<and>
     int root < int (h_end h) - int sizeof_tail"

text \<open>
  \<open>chunk\<close> is where \<open>malloc\<close> puts the heap's memory when it has none yet.  The result
  holds the address and the object index, or none for null.
\<close>

definition gc_heap_alloc ::
    "addr \<Rightarrow> SnGCHeap \<Rightarrow> nat \<Rightarrow> nat \<Rightarrow> gc_info \<Rightarrow> (SnGCHeap \<times> gc_info \<times> (addr \<times> nat) option) result" where
  "gc_heap_alloc chunk h total_size heap_size g =
     rbind (assert_ok (total_size mod SNOW_GC_ALIGNMENT = 0)) (\<lambda>_.
       let (h, g) = (if h_start h = 0
             then (h\<lparr>h_start := chunk, h_current := chunk, h_end := chunk + heap_size\<rparr>,
                   gc_alloc_chunk chunk heap_size g)
             else (h, g))
       in if h_current h + total_size > h_end h then Inr (h, g, None)
          else Inr (h\<lparr>h_current := h_current h + total_size, num_objects := (num_objects h + 1) mod 2 ^ 32\<rparr>,
                    g, Some (h_current h, num_objects h)))"

definition gc_heap_get_flags :: "SnGCHeap \<Rightarrow> nat \<Rightarrow> SnGCFlags result" where
  "gc_heap_get_flags h i =
     rbind (assert_ok (i < num_objects h)) (\<lambda>_.
       case h_flags h of Some fs \<Rightarrow> read_slot fs i | None \<Rightarrow> Inr 0)"

text \<open>
  Growing the flags: \<open>snow_realloc\<close> keeps what was there, \<open>memset\<close> clears the rest; the
  length written wraps when the doubled count does.
\<close>

definition grow_flags :: "SnGCHeap \<Rightarrow> SnGCHeap result" where
  "grow_flags h =
     (if num_objects h > num_flags h
      then let num = num_flags h; n = (2 * num_objects h) mod 2 ^ 32;
               old = (case h_flags h of Some fs \<Rightarrow> fs | None \<Rightarrow> [])
           in if length old < num \<or> n < num then Inl Undef
              else Inr (h\<lparr>num_flags := n, h_flags := Some (take num old @ replicate (n - num) 0)\<rparr>)
      else Inr h)"

definition gc_heap_set_flags :: "SnGCHeap \<Rightarrow> nat \<Rightarrow> SnGCFlags \<Rightarrow> SnGCHeap result" where
  "gc_heap_set_flags h i flags =
     rbind (assert_ok (i < num_objects h)) (\<lambda>_.
     rbind (grow_flags h) (\<lambda>h.
       case h_flags h of
         None \<Rightarrow> Inl Undef
       | Some fs \<Rightarrow> rbind (read_slot fs i) (\<lambda>f.
           rbind (write_slot fs i (f OR flags)) (\<lambda>fs. Inr (h\<lparr>h_flags := Some fs\<rparr>)))))"

definition gc_heap_clear_flags :: "SnGCHeap \<Rightarrow> SnGCHeap" where
  "gc_heap_clear_flags h = h\<lparr>h_flags := None, num_flags := 0, num_indefinite := 0, num_reachable := 0\<rparr>"

definition gc_heap_available :: "SnGCHeap \<Rightarrow> nat" where
  "gc_heap_available h = h_end h - h_current h"

subsection \<open>Lists of heaps\<close>

text \<open>The doubly linked list from \<open>head\<close>; a node is a position in it.\<close>

type_synonym SnGCHeapList = "SnGCHeap list"

definition gc_heap_list_init :: SnGCHeapList where
  "gc_heap_list_init = []"

definition gc_heap_list_push_heap :: "SnGCHeapList \<Rightarrow> SnGCHeap option \<Rightarrow> SnGCHeapList" where
  "gc_heap_list_push_heap hs h = (case h of Some h \<Rightarrow> h | None \<Rightarrow> gc_heap_init fresh_heap) # hs"

definition gc_heap_list_erase :: "SnGCHeapList \<Rightarrow> nat \<Rightarrow> gc_info \<Rightarrow> (SnGCHeapList \<times> gc_info) result" where
  "gc_heap_list_erase hs i g = rbind (read_slot hs i) (\<lambda>h.
     Inr (take i hs @ drop (Suc i) hs, snd (gc_heap_finalize h g)))"

definition gc_heap_list_clear :: "SnGCHeapList \<Rightarrow> SnGCHeapList" where
  "gc_heap_list_clear hs = gc_heap_list_init"

fun first_fitting :: "SnGCHeapList \<Rightarrow> nat \<Rightarrow> nat option" where
  "first_fitting [] n = None"
| "first_fitting (h # hs) n = (if gc_heap_available h \<ge> n then Some 0 else map_option Suc (first_fitting hs n))"

definition gc_heap_list_alloc ::
    "addr \<Rightarrow> SnGCHeapList \<Rightarrow> nat \<Rightarrow> nat \<Rightarrow> gc_info \<Rightarrow> (SnGCHeapList \<times> gc_info \<times> addr \<times> nat) result" where
  "gc_heap_list_alloc chunk hs n heap_size g =
     (let (hs, i) = (case first_fitting hs n of Some i \<Rightarrow> (hs, i)
                     | None \<Rightarrow> (gc_heap_list_push_heap hs None, 0))
      in rbind (read_slot hs i) (\<lambda>h.
         rbind (gc_heap_alloc chunk h n heap_size g) (\<lambda>(h, g, r).
           case r of None \<Rightarrow> Inl Trap | Some (p, idx) \<Rightarrow> Inr (hs[i := h], g, p, idx))))"

fun gc_heap_list_find_heap :: "SnGCHeapList \<Rightarrow> addr \<Rightarrow> nat option" where
  "gc_heap_list_find_heap [] p = None"
| "gc_heap_list_find_heap (h # hs) p =
     (if gc_heap_contains h p then Some 0 else map_option Suc (gc_heap_list_find_heap hs p))"

definition gc_heap_list_clear_flags :: "SnGCHeapList \<Rightarrow> SnGCHeapList" where
  "gc_heap_list_clear_flags hs = map gc_heap_clear_flags hs"

subsection \<open>The chunk state machine\<close>

text \<open>
  A state is the bounds and the live chunks.  \<open>malloc\<close> may return any chunk apart from
  the live ones; any live chunk may be freed.
\<close>

type_synonym chunk_state = "gc_info \<times> (addr \<times> nat) list"

definition apart :: "addr \<times> nat \<Rightarrow> addr \<times> nat \<Rightarrow> bool" where
  "apart a b \<longleftrightarrow> fst a + snd a \<le> fst b \<or> fst b + snd b \<le> fst a"

inductive chunk_step :: "chunk_state \<Rightarrow> chunk_state \<Rightarrow> bool" where
  chunk_alloc: "0 < p \<Longrightarrow> 0 < n \<Longrightarrow> \<forall>c \<in> set cs. apart (p, n) c \<Longrightarrow>
     chunk_step (g, cs) (gc_alloc_chunk p n g, (p, n) # cs)"
| chunk_free: "i < length cs \<Longrightarrow> cs ! i = (p, n) \<Longrightarrow>
     chunk_step (g, cs) (gc_free_chunk p n g, take i cs @ drop (Suc i) cs)"

inductive_cases chunk_stepE: "chunk_step s t"

inductive chunk_reachable :: "chunk_state \<Rightarrow> bool" where
  chunk_init: "chunk_reachable (gc_info_init, [])"
| chunk_next: "chunk_reachable s \<Longrightarrow> chunk_step s t \<Longrightarrow> chunk_reachable t"

definition chunks_apart :: "(addr \<times> nat) list \<Rightarrow> bool" where
  "chunks_apart cs \<longleftrightarrow> (\<forall>i<length cs. \<forall>j<length cs. i \<noteq> j \<longrightarrow> apart (cs ! i) (cs ! j))"

definition chunk_inv :: "chunk_state \<Rightarrow> bool" where
  "chunk_inv s \<longleftrightarrow> (case s of (g, cs) \<Rightarrow>
     chunks_apart cs \<and>
     (\<forall>(p, n) \<in> set cs. 0 < p \<and> 0 < n \<and> 0 < lower_bound g \<and> lower_bound g \<le> p \<and> p + n \<le> upper_bound g) \<and>
     total_mem_usage g = of_nat (sum_list (map snd cs)) \<and>
     total_mem_usage g = allocated_size g - freed_size g)"

lemma chunks_apart_Cons:
  "chunks_apart (c # cs) \<longleftrightarrow> (\<forall>d \<in> set cs. apart c d) \<and> chunks_apart cs"
proof
  assume a: "chunks_apart (c # cs)"
  have "apart c (cs ! i)" if "i < length cs" for i
    using a that unfolding chunks_apart_def by (metis Suc_less_eq length_Cons nat.distinct(1) nth_Cons_0 nth_Cons_Suc zero_less_Suc)
  moreover have "apart (cs ! i) (cs ! j)" if "i < length cs" "j < length cs" "i \<noteq> j" for i j
    using a that unfolding chunks_apart_def by (metis Suc_less_eq length_Cons nat.inject nth_Cons_Suc)
  ultimately show "(\<forall>d \<in> set cs. apart c d) \<and> chunks_apart cs"
    unfolding chunks_apart_def by (metis in_set_conv_nth)
next
  assume a: "(\<forall>d \<in> set cs. apart c d) \<and> chunks_apart cs"
  then show "chunks_apart (c # cs)"
    unfolding chunks_apart_def by (auto simp: nth_Cons apart_def split: nat.splits)
qed

lemma chunks_apart_remove:
  "chunks_apart cs \<Longrightarrow> i < length cs \<Longrightarrow>
   chunks_apart (take i cs @ drop (Suc i) cs) \<and> (\<forall>d \<in> set (take i cs @ drop (Suc i) cs). apart (cs ! i) d)"
proof (induction cs arbitrary: i)
  case (Cons c cs)
  show ?case
  proof (cases i)
    case 0
    then show ?thesis using Cons.prems by (simp add: chunks_apart_Cons)
  next
    case (Suc k)
    then have IH: "chunks_apart (take k cs @ drop (Suc k) cs)"
        "\<forall>d \<in> set (take k cs @ drop (Suc k) cs). apart (cs ! k) d"
      using Cons by (auto simp: chunks_apart_Cons)
    moreover have "\<forall>d \<in> set (take k cs @ drop (Suc k) cs). apart c d"
      using Cons.prems(1) in_set_takeD in_set_dropD by (auto simp: chunks_apart_Cons; fast)
    moreover have "apart (cs ! k) c" using Cons.prems Suc by (auto simp: chunks_apart_Cons apart_def)
    ultimately show ?thesis using Suc by (simp add: chunks_apart_Cons)
  qed
qed (simp add: chunks_apart_def)

lemma sum_remove:
  "i < length cs \<Longrightarrow> sum_list (map snd cs) = snd (cs ! i) + sum_list (map snd (take i cs @ drop (Suc i) (cs :: ('a \<times> nat) list)))"
  by (subst id_take_nth_drop [of i cs]) simp_all

lemma chunk_step_inv:
  assumes "chunk_inv s" "chunk_step s t"
  shows "chunk_inv t"
  using assms(2)
proof (rule chunk_stepE)
  fix p n cs g
  assume s: "s = (g, cs)" "t = (gc_alloc_chunk p n g, (p, n) # cs)" "0 < p" "0 < n" "\<forall>c \<in> set cs. apart (p, n) c"
  have old: "0 < q \<and> 0 < m \<and> 0 < lower_bound g \<and> lower_bound g \<le> q \<and> q + m \<le> upper_bound g"
    if "(q, m) \<in> set cs" for q m
    using assms(1) s(1) that by (auto simp: chunk_inv_def)
  have "0 < q \<and> 0 < m \<and> 0 < lower_bound (gc_alloc_chunk p n g) \<and> lower_bound (gc_alloc_chunk p n g) \<le> q \<and>
      q + m \<le> upper_bound (gc_alloc_chunk p n g)" if "(q, m) \<in> set ((p, n) # cs)" for q m
    using that s(3,4) old [of q m] by (auto simp: gc_alloc_chunk_def)
  then show ?thesis
    using assms(1) s by (auto simp: chunk_inv_def gc_alloc_chunk_def chunks_apart_Cons)
next
  fix i cs p n g
  assume s: "s = (g, cs)" "t = (gc_free_chunk p n g, take i cs @ drop (Suc i) cs)" "i < length cs" "cs ! i = (p, n)"
  let ?ds = "take i cs @ drop (Suc i) cs"
  have ap: "chunks_apart ?ds" "\<forall>d \<in> set ?ds. apart (p, n) d"
    using chunks_apart_remove [of cs i] assms(1) s by (auto simp: chunk_inv_def)
  have sub: "set ?ds \<subseteq> set cs" by (auto dest: in_set_takeD in_set_dropD)
  have pn: "0 < p" "0 < n" using assms(1) s nth_mem [of i cs] by (auto simp: chunk_inv_def)
  have live: "0 < lower_bound g \<and> lower_bound g \<le> q \<and> q + m \<le> upper_bound g \<and> 0 < q \<and> 0 < m \<and> apart (p, n) (q, m)"
    if "(q, m) \<in> set ?ds" for q m
  proof -
    have "(q, m) \<in> set cs" "apart (p, n) (q, m)" using sub ap(2) that by blast+
    then show ?thesis using assms(1) s(1) by (auto simp: chunk_inv_def)
  qed
  have bounds: "0 < q \<and> 0 < m \<and> 0 < lower_bound (gc_free_chunk p n g) \<and> lower_bound (gc_free_chunk p n g) \<le> q \<and>
      q + m \<le> upper_bound (gc_free_chunk p n g)" if "(q, m) \<in> set ?ds" for q m
    using that [THEN live] pn by (auto simp: gc_free_chunk_def apart_def)
  moreover have "total_mem_usage (gc_free_chunk p n g) = of_nat (sum_list (map snd ?ds))"
    using sum_remove [OF s(3)] s(1,4) assms(1) by (simp add: chunk_inv_def gc_free_chunk_def)
  moreover have "total_mem_usage (gc_free_chunk p n g) = allocated_size (gc_free_chunk p n g) - freed_size (gc_free_chunk p n g)"
  proof -
    have "total_mem_usage g = allocated_size g - freed_size g"
      using assms(1) unfolding s(1) chunk_inv_def prod.case by blast
    then show ?thesis by (simp add: gc_free_chunk_def)
  qed
  ultimately show ?thesis
    unfolding s(2) chunk_inv_def prod.case using ap(1) bounds by blast
qed

lemma chunk_reachable_inv: "chunk_reachable s \<Longrightarrow> chunk_inv s"
proof (induction rule: chunk_reachable.induct)
  case chunk_init
  then show ?case by (simp add: chunk_inv_def gc_info_init_def chunks_apart_def)
qed (rule chunk_step_inv)

subsection \<open>The bump allocator\<close>

definition heap_wf :: "SnGCHeap \<Rightarrow> bool" where
  "heap_wf h \<longleftrightarrow> h_start h \<le> h_current h \<and> h_current h \<le> h_end h \<and>
     num_flags h \<le> length (case h_flags h of Some fs \<Rightarrow> fs | None \<Rightarrow> [])"

text \<open>A run of allocations on one heap, collecting the blocks handed out.\<close>

primrec heap_run ::
    "addr \<Rightarrow> nat \<Rightarrow> SnGCHeap \<Rightarrow> gc_info \<Rightarrow> nat list \<Rightarrow> (SnGCHeap \<times> gc_info \<times> (addr \<times> nat \<times> nat) list) result" where
  "heap_run chunk hsize h g [] = Inr (h, g, [])"
| "heap_run chunk hsize h g (n # ns) =
     rbind (gc_heap_alloc chunk h n hsize g) (\<lambda>(h, g, r).
     rbind (heap_run chunk hsize h g ns) (\<lambda>(h, g, bs).
       Inr (h, g, (case r of Some (p, i) \<Rightarrow> (p, n, i) # bs | None \<Rightarrow> bs))))"

lemma gc_heap_alloc_first:
  "h_start h = 0 \<Longrightarrow> 0 < chunk \<Longrightarrow> gc_heap_alloc chunk h n hsize g =
   gc_heap_alloc chunk (h\<lparr>h_start := chunk, h_current := chunk, h_end := chunk + hsize\<rparr>) n hsize
     (gc_alloc_chunk chunk hsize g)"
  by (simp add: gc_heap_alloc_def)

lemma heap_run_ok:
  assumes "\<forall>n \<in> set ns. n mod SNOW_GC_ALIGNMENT = 0" "heap_wf h" "0 < h_start h"
    "num_objects h + length ns < 2 ^ 32"
  shows "\<exists>h' bs. heap_run chunk hsize h g ns = Inr (h', g, bs) \<and> heap_wf h' \<and> h_start h' = h_start h \<and>
    h_end h' = h_end h \<and> h_current h' = h_current h + sum_list (map (\<lambda>(p, n, i). n) bs) \<and>
    map (\<lambda>(p, n, i). i) bs = [num_objects h..<num_objects h + length bs] \<and>
    (\<forall>k<length bs. case bs ! k of (p, n, i) \<Rightarrow> p = h_current h + sum_list (map (\<lambda>(p, n, i). n) (take k bs)) \<and>
       p + n \<le> h_end h)"
  using assms
proof (induction ns arbitrary: h)
  case Nil
  then show ?case by simp
next
  case (Cons n ns)
  have c: "0 < (1 :: nat)" by simp
  obtain h1 g1 r where a: "gc_heap_alloc chunk h n hsize g = Inr (h1, g1, r)"
    by (cases "gc_heap_alloc chunk h n hsize g") (use Cons.prems in \<open>auto simp: gc_heap_alloc_def split: if_splits\<close>)
  have a1: "heap_wf h1" "h_start h1 = h_start h" "h_end h1 = h_end h" "g1 = g"
    "case r of None \<Rightarrow> num_objects h1 = num_objects h \<and> h_current h1 = h_current h
      | Some (p, i) \<Rightarrow> p = h_current h \<and> i = num_objects h \<and> h_current h1 = p + n \<and> num_objects h1 = i + 1 \<and> p + n \<le> h_end h"
    using a Cons.prems by (auto simp: gc_heap_alloc_def heap_wf_def split: if_splits)
  have "num_objects h1 + length ns < 2 ^ 32" using a1(5) Cons.prems(4) by (auto split: option.splits)
  then obtain h2 bs where b: "heap_run chunk hsize h1 g ns = Inr (h2, g, bs)" "heap_wf h2" "h_start h2 = h_start h"
    "h_end h2 = h_end h" "h_current h2 = h_current h1 + sum_list (map (\<lambda>(p, n, i). n) bs)"
    "map (\<lambda>(p, n, i). i) bs = [num_objects h1..<num_objects h1 + length bs]"
    "\<forall>k<length bs. case bs ! k of (p, n, i) \<Rightarrow> p = h_current h1 + sum_list (map (\<lambda>(p, n, i). n) (take k bs)) \<and>
       p + n \<le> h_end h"
    using Cons.IH [of h1] Cons.prems a1 by auto
  show ?case
  proof (cases r)
    case None
    then show ?thesis using a b a1 by (intro exI [of _ h2] exI [of _ bs]) simp
  next
    case (Some pi)
    obtain p i where pi: "pi = (p, i)" by fastforce
    have p: "p = h_current h" "i = num_objects h" "h_current h1 = p + n" "num_objects h1 = i + 1" "p + n \<le> h_end h"
      using a1(5) Some pi by simp_all
    have "\<forall>k<length ((p, n, i) # bs). case ((p, n, i) # bs) ! k of (q, m, j) \<Rightarrow>
        q = h_current h + sum_list (map (\<lambda>(p, n, i). n) (take k ((p, n, i) # bs))) \<and> q + m \<le> h_end h"
    proof (intro allI impI)
      fix k assume k: "k < length ((p, n, i) # bs)"
      show "case ((p, n, i) # bs) ! k of (q, m, j) \<Rightarrow>
        q = h_current h + sum_list (map (\<lambda>(p, n, i). n) (take k ((p, n, i) # bs))) \<and> q + m \<le> h_end h"
        using k b(7) p by (cases k) (auto split: prod.splits)
    qed
    moreover have "map (\<lambda>(p, n, i). i) ((p, n, i) # bs) = [num_objects h..<num_objects h + length ((p, n, i) # bs)]"
      using b(6) p by (simp add: upt_conv_Cons del: upt_Suc)
    ultimately show ?thesis
      using a b(1-5) Some pi p a1(4) by (intro exI [of _ h2] exI [of _ "(p, n, i) # bs"]) auto
  qed
qed

text \<open>
  What a run hands out, said without the heap: from the position \<open>cur\<close>, the next size either
  fits below \<open>end\<close> and takes the block there, with the next index, or is passed over.
\<close>

fun fit_blocks :: "nat \<Rightarrow> nat \<Rightarrow> nat \<Rightarrow> nat list \<Rightarrow> (addr \<times> nat \<times> nat) list" where
  "fit_blocks cur hend i [] = []"
| "fit_blocks cur hend i (n # ns) =
     (if cur + n \<le> hend then (cur, n, i) # fit_blocks (cur + n) hend (i + 1) ns
      else fit_blocks cur hend i ns)"

lemma heap_run_fits:
  assumes "\<forall>n \<in> set ns. n mod SNOW_GC_ALIGNMENT = 0" "0 < h_start h" "num_objects h + length ns < 2 ^ 32"
  shows "heap_run chunk hsize h g ns =
    (let bs = fit_blocks (h_current h) (h_end h) (num_objects h) ns
     in Inr (h\<lparr>h_current := h_current h + sum_list (map (\<lambda>(p, n, i). n) bs),
                num_objects := num_objects h + length bs\<rparr>, g, bs))"
  using assms
proof (induction ns arbitrary: h)
  case Nil
  then show ?case by (simp add: Let_def)
next
  case (Cons n ns)
  have n: "n mod SNOW_GC_ALIGNMENT = 0" using Cons.prems(1) by simp
  show ?case
  proof (cases "h_current h + n \<le> h_end h")
    case True
    let ?h = "h\<lparr>h_current := h_current h + n, num_objects := num_objects h + 1\<rparr>"
    have "gc_heap_alloc chunk h n hsize g = Inr (?h, g, Some (h_current h, num_objects h))"
      using True n Cons.prems(2,3) by (simp add: gc_heap_alloc_def)
    then show ?thesis using True Cons.IH [of ?h] Cons.prems by (simp add: Let_def add.assoc)
  next
    case False
    then have "gc_heap_alloc chunk h n hsize g = Inr (h, g, None)"
      using n Cons.prems(2) by (simp add: gc_heap_alloc_def)
    then show ?thesis using False Cons.IH [of h] Cons.prems by (simp add: Let_def)
  qed
qed

lemma sum_take_step:
  "j < k \<Longrightarrow> k \<le> length xs \<Longrightarrow> sum_list (map f (take j xs)) + f (xs ! j) \<le> (sum_list (map f (take k xs)) :: nat)"
proof (induction xs arbitrary: j k)
  case (Cons x xs)
  then show ?case by (cases k; cases j) simp_all
qed simp

text \<open>The flags of a heap: zero until set, then accumulated.\<close>

definition flag_of :: "SnGCHeap \<Rightarrow> nat \<Rightarrow> SnGCFlags" where
  "flag_of h i = (case h_flags h of Some fs \<Rightarrow> if i < num_flags h then fs ! i else 0 | None \<Rightarrow> 0)"

definition flags_wf :: "SnGCHeap \<Rightarrow> bool" where
  "flags_wf h \<longleftrightarrow> (case h_flags h of Some fs \<Rightarrow> num_flags h = length fs | None \<Rightarrow> num_flags h = 0)"

lemma grow_flags_ok:
  assumes "flags_wf h" "num_objects h < 2 ^ 31"
  obtains h' fs where "grow_flags h = Inr h'" "flags_wf h'" "num_objects h \<le> num_flags h'" "num_objects h' = num_objects h"
    "0 < num_objects h \<longrightarrow> h_flags h' = Some fs" "\<forall>i. flag_of h' i = flag_of h i" "num_flags h \<le> num_flags h'"
proof (cases "num_objects h > num_flags h")
  case True
  then have "(2 * num_objects h) mod 2 ^ 32 = 2 * num_objects h" using assms(2) by simp
  moreover have "flag_of (h\<lparr>num_flags := 2 * num_objects h, h_flags :=
      Some (take (num_flags h) (case h_flags h of Some fs \<Rightarrow> fs | None \<Rightarrow> []) @
            replicate (2 * num_objects h - num_flags h) 0)\<rparr>) i = flag_of h i" for i
    using assms(1) True by (cases "h_flags h") (auto simp: flag_of_def flags_wf_def nth_append)
  ultimately show ?thesis
    using assms True
    by (intro that [of "h\<lparr>num_flags := 2 * num_objects h, h_flags :=
      Some (take (num_flags h) (case h_flags h of Some fs \<Rightarrow> fs | None \<Rightarrow> []) @
            replicate (2 * num_objects h - num_flags h) 0)\<rparr>"])
      (auto simp: grow_flags_def flags_wf_def Let_def split: option.splits)
next
  case False
  then show ?thesis
    using assms by (intro that [of h "the (h_flags h)"]) (auto simp: grow_flags_def flags_wf_def split: option.splits)
qed

lemma set_flags_ok:
  assumes "flags_wf h" "num_objects h < 2 ^ 31" "i < num_objects h"
  obtains h' where "gc_heap_set_flags h i f = Inr h'" "flags_wf h'" "num_objects h' = num_objects h"
    "num_objects h' \<le> num_flags h'" "\<forall>j. flag_of h' j = (if j = i then flag_of h i OR f else flag_of h j)"
proof -
  obtain h1 fs where g: "grow_flags h = Inr h1" "flags_wf h1" "num_objects h \<le> num_flags h1"
      "num_objects h1 = num_objects h" "0 < num_objects h \<longrightarrow> h_flags h1 = Some fs" "\<forall>i. flag_of h1 i = flag_of h i"
    by (rule grow_flags_ok [OF assms(1,2)])
  then have fs: "h_flags h1 = Some fs" "num_flags h1 = length fs" "i < length fs"
    using assms(3) by (auto simp: flags_wf_def)
  let ?h = "h1\<lparr>h_flags := Some (fs[i := fs ! i OR f])\<rparr>"
  have "gc_heap_set_flags h i f = Inr ?h"
    using g fs assms(3) by (simp add: gc_heap_set_flags_def)
  moreover have "flag_of ?h j = (if j = i then flag_of h i OR f else flag_of h j)" for j
  proof -
    have 1: "flag_of h1 k = (if k < length fs then fs ! k else 0)" for k using fs by (simp add: flag_of_def)
    have 2: "flag_of ?h j = (if j < length fs then fs[i := fs ! i OR f] ! j else 0)" using fs by (simp add: flag_of_def)
    show ?thesis unfolding 2 using fs(3) by (simp add: 1 flip: g(6) [rule_format])
  qed
  ultimately show ?thesis
    using g fs by (intro that [of ?h]) (auto simp: flags_wf_def)
qed

subsection \<open>Properties\<close>

text \<open>
  C16. The bounds the collector tests pointers against are complete: in every state the
  runtime can reach by allocating chunks wherever \<open>malloc\<close> puts them and freeing them in
  any order, every address inside a live chunk passes \<open>gc_maybe_contains\<close>, live chunks do
  not overlap, and the memory usage counter is the sum of their sizes.
\<close>

theorem chunk_bounds_complete:
  assumes "chunk_reachable (g, cs)"
  shows "(\<forall>(p, n) \<in> set cs. \<forall>a. p \<le> a \<and> a < p + n \<longrightarrow> gc_maybe_contains g a) \<and> chunks_apart cs \<and>
    total_mem_usage g = of_nat (sum_list (map snd cs))"
proof -
  have inv: "chunk_inv (g, cs)" using assms by (rule chunk_reachable_inv)
  have "gc_maybe_contains g a" if "(p, n) \<in> set cs" "p \<le> a" "a < p + n" for p n a
    using inv that by (fastforce simp: chunk_inv_def gc_maybe_contains_def)
  with inv show ?thesis by (auto simp: chunk_inv_def)
qed

lemma chunk_bounds_complete_witness:
  "gc_maybe_contains (gc_free_chunk 100 16 (gc_alloc_chunk 100 16 (gc_alloc_chunk 200 32 gc_info_init))) 210"
proof -
  have "chunk_reachable (gc_alloc_chunk 200 32 gc_info_init, [(200, 32)])"
    by (rule chunk_next [OF chunk_init]) (rule chunk_alloc; simp)
  then have r: "chunk_reachable (gc_alloc_chunk 100 16 (gc_alloc_chunk 200 32 gc_info_init), [(100, 16), (200, 32)])"
    by (rule chunk_next) (rule chunk_alloc; simp add: apart_def)
  have "chunk_step (gc_alloc_chunk 100 16 (gc_alloc_chunk 200 32 gc_info_init), [(100, 16), (200, 32)])
      (gc_free_chunk 100 16 (gc_alloc_chunk 100 16 (gc_alloc_chunk 200 32 gc_info_init)), [(200, 32)])"
    using chunk_free [of 0 "[(100, 16), (200, 32)]" 100 16] by simp
  with r have "chunk_reachable (gc_free_chunk 100 16 (gc_alloc_chunk 100 16 (gc_alloc_chunk 200 32 gc_info_init)), [(200, 32)])"
    by (rule chunk_next)
  from chunk_bounds_complete [OF this] show ?thesis by auto
qed

text \<open>
  C17. The bump allocator: on a heap that has its chunk, any run of allocations of aligned
  sizes (fewer than \<open>2 ^ 32\<close> objects in all) hands out exactly the blocks of
  \<open>fit_blocks\<close>: each size that fits before the end of the heap gets the block that starts at
  the current position, back to back with the one before and with the next object index;
  a size that does not fit gets null and changes nothing, so that a smaller one after it
  may still fit.  Afterwards the position and the number of objects have moved by what was
  handed out and the rest of the heap is as it was; the blocks lie between the old
  position and the end of the heap and do not overlap.
\<close>

theorem heap_alloc_blocks:
  assumes "\<forall>n \<in> set ns. n mod SNOW_GC_ALIGNMENT = 0" "heap_wf h" "0 < h_start h" "num_objects h + length ns < 2 ^ 32"
  shows "\<exists>h' bs. heap_run chunk hsize h g ns = Inr (h', g, bs) \<and> heap_wf h' \<and>
    bs = fit_blocks (h_current h) (h_end h) (num_objects h) ns \<and>
    h' = h\<lparr>h_current := h_current h + sum_list (map (\<lambda>(p, n, i). n) bs), num_objects := num_objects h + length bs\<rparr> \<and>
    map (\<lambda>(p, n, i). i) bs = [num_objects h..<num_objects h + length bs] \<and>
    (\<forall>k<length bs. case bs ! k of (p, n, i) \<Rightarrow> h_current h \<le> p \<and> p + n \<le> h_end h) \<and>
    (\<forall>k<length bs. \<forall>j<k. case (bs ! j, bs ! k) of ((p, n, _), (q, m, _)) \<Rightarrow> p + n \<le> q)"
proof -
  obtain h' bs where r: "heap_run chunk hsize h g ns = Inr (h', g, bs)" "heap_wf h'"
    "map (\<lambda>(p, n, i). i) bs = [num_objects h..<num_objects h + length bs]"
    "\<forall>k<length bs. case bs ! k of (p, n, i) \<Rightarrow> p = h_current h + sum_list (map (\<lambda>(p, n, i). n) (take k bs)) \<and>
       p + n \<le> h_end h"
    using heap_run_ok [OF assms, of chunk hsize g] by blast
  have f: "bs = fit_blocks (h_current h) (h_end h) (num_objects h) ns"
    "h' = h\<lparr>h_current := h_current h + sum_list (map (\<lambda>(p, n, i). n) bs), num_objects := num_objects h + length bs\<rparr>"
    using r(1) unfolding heap_run_fits [OF assms(1,3,4)] Let_def by blast+
  have "case (bs ! j, bs ! k) of ((p, n, _), (q, m, _)) \<Rightarrow> p + n \<le> q" if "k < length bs" "j < k" for j k
  proof -
    obtain p n i q m l where e: "bs ! j = (p, n, i)" "bs ! k = (q, m, l)" by (metis prod_cases3)
    have "sum_list (map (\<lambda>(p, n, i). n) (take j bs)) + n \<le> sum_list (map (\<lambda>(p, n, i). n) (take k bs))"
      using sum_take_step [of j k bs "\<lambda>(p, n, i). n"] that e(1) by simp
    moreover have "p = h_current h + sum_list (map (\<lambda>(p, n, i). n) (take j bs))"
      "q = h_current h + sum_list (map (\<lambda>(p, n, i). n) (take k bs))"
      using r(4) [rule_format, of j] r(4) [rule_format, of k] e that by simp_all
    ultimately show ?thesis using e by simp
  qed
  moreover have "case bs ! k of (p, n, i) \<Rightarrow> h_current h \<le> p \<and> p + n \<le> h_end h" if "k < length bs" for k
  proof -
    obtain p n i where e: "bs ! k = (p, n, i)" by (metis prod_cases3)
    have "p = h_current h + sum_list (map (\<lambda>(p, n, i). n) (take k bs)) \<and> p + n \<le> h_end h"
      using r(4) [rule_format, OF that] unfolding e by simp
    then show ?thesis unfolding e by simp
  qed
  ultimately show ?thesis
    by (intro exI [of _ h'] exI [of _ bs] conjI allI impI r(1-3) f) assumption+
qed

definition heap_64 :: SnGCHeap where
  "heap_64 = zero_heap\<lparr>h_start := 4096, h_current := 4096, h_end := 4160\<rparr>"

lemma heap_alloc_blocks_witness:
  "\<exists>h' bs. heap_run 0 0 heap_64 gc_info_init [32, 48, 32] = Inr (h', gc_info_init, bs) \<and>
     bs = [(4096, 32, 0), (4128, 32, 1)] \<and> h_current h' = 4160 \<and> num_objects h' = 2"
proof -
  have h: "heap_wf heap_64" "0 < h_start heap_64" "num_objects heap_64 = 0" "h_current heap_64 = 4096" "h_end heap_64 = 4160"
    by (simp_all add: heap_64_def heap_wf_def zero_heap_def)
  have "\<forall>n \<in> set [32, 48, 32]. n mod SNOW_GC_ALIGNMENT = 0" by (simp add: SNOW_GC_ALIGNMENT_def)
  from heap_alloc_blocks [OF this h(1,2), of 0 0 gc_info_init] show ?thesis
    unfolding h(3-5) by auto
qed

text \<open>
  Flags: with consistent bookkeeping and fewer than \<open>2 ^ 31\<close> objects, setting flags of
  an object of the heap succeeds, adds them to that object's flags only, and afterwards
  every object of the heap reads back its flags.  The table is only grown by a set: after
  enough further allocations, reading the flags of a new object reads past its end.
\<close>

theorem heap_flags:
  assumes "flags_wf h" "num_objects h < 2 ^ 31" "i < num_objects h"
  shows "\<exists>h'. gc_heap_set_flags h i f = Inr h' \<and> flags_wf h' \<and> num_objects h' = num_objects h \<and>
    (\<forall>j<num_objects h. gc_heap_get_flags h' j = Inr (if j = i then flag_of h i OR f else flag_of h j)) \<and>
    (\<forall>k. num_flags h' \<le> k \<longrightarrow> gc_heap_get_flags (h'\<lparr>num_objects := Suc k\<rparr>) k = Inl Undef)"
proof -
  obtain h' where h': "gc_heap_set_flags h i f = Inr h'" "flags_wf h'" "num_objects h' = num_objects h"
    "num_objects h' \<le> num_flags h'" "\<forall>j. flag_of h' j = (if j = i then flag_of h i OR f else flag_of h j)"
    using set_flags_ok [OF assms] by blast
  then obtain fs where fs: "h_flags h' = Some fs" "num_flags h' = length fs"
    using assms(3) by (cases "h_flags h'") (auto simp: flags_wf_def)
  have "gc_heap_get_flags h' j = Inr (flag_of h' j)" if "j < num_objects h" for j
    using that fs h'(3,4) by (simp add: gc_heap_get_flags_def flag_of_def)
  moreover have "gc_heap_get_flags (h'\<lparr>num_objects := Suc k\<rparr>) k = Inl Undef" if "num_flags h' \<le> k" for k
    using that fs by (simp add: gc_heap_get_flags_def)
  ultimately show ?thesis using h' by (intro exI [of _ h']) simp
qed

lemma heap_flags_witness:
  "\<exists>h. gc_heap_set_flags (heap_64\<lparr>num_objects := 3\<rparr>) 1 9 = Inr h \<and>
     gc_heap_get_flags h 1 = Inr 9 \<and> gc_heap_get_flags h 2 = Inr 0"
proof -
  have "flags_wf (heap_64\<lparr>num_objects := 3\<rparr>)" "num_objects (heap_64\<lparr>num_objects := 3\<rparr>) < 2 ^ 31"
    "1 < num_objects (heap_64\<lparr>num_objects := 3\<rparr>)" "\<forall>i. flag_of (heap_64\<lparr>num_objects := 3\<rparr>) i = 0"
    by (simp_all add: heap_64_def zero_heap_def flags_wf_def flag_of_def)
  from heap_flags [OF this(1-3), of 9] this(4) show ?thesis by auto
qed

text \<open>
  \<open>gc_heap_init\<close> leaves two counters as they were in memory: a new heap in the debug build
  starts with \<open>0xcdcdcdcd\<close> objects referenced indefinitely.
\<close>

lemma heap_init_uninitialised:
  "num_indefinite (gc_heap_init fresh_heap) = 0xcdcdcdcd" "num_reachable (gc_heap_init fresh_heap) = 0xcdcdcdcd"
  by (simp_all add: gc_heap_init_def fresh_heap_def)

end
