(* ===== verification/Objects.thy ===== *)
theory Objects
  imports Symbols
begin

text \<open>
  Objects, classes and the member protocol (snow/object.c, snow/class.c and the member
  functions of snow/snow.c).  The store maps addresses to the normal objects and to the
  fields classes add to them; it also holds the types of the thin objects, the contents of
  strings and the classes of the basic types (\<open>basic_classes\<close>).  A call into the program (\<open>snow_call\<close>) is a parameter that may change
  the store.  A recursion over prototypes or modules takes fuel; running out of it is the
  stack overflow an unbounded recursion ends in.
\<close>

record SnObject =
  o_type :: SnObjectType
  o_flags :: "32 word"
  o_prototype :: VALUE
  o_members :: "SnMap option"
  property_names :: array_t
  property_data :: array_t
  included_modules :: array_t

text \<open>
  The part of a class beyond its object; the objects by address; the types and the contents
  of the others; and the table of the classes of the basic types.
\<close>

record SnClass =
  c_name :: SnSymbol
  instance_prototype :: VALUE

record store =
  objs :: "VALUE \<rightharpoonup> SnObject"
  classes :: "VALUE \<rightharpoonup> SnClass"
  strings :: "VALUE \<rightharpoonup> string"
  thin_type :: "VALUE \<Rightarrow> SnObjectType"
  basic_classes :: "SnObjectType \<Rightarrow> VALUE"

text \<open>\<open>snow_get_prototype\<close>; a null pointer where the table has no class yet.\<close>

definition class_prototype :: "store \<Rightarrow> SnObjectType \<Rightarrow> VALUE" where
  "class_prototype s t = (case classes s (basic_classes s t) of Some c \<Rightarrow> instance_prototype c | None \<Rightarrow> 0)"

lemma class_prototype_objs [simp]: "class_prototype (s\<lparr>objs := f\<rparr>) = class_prototype s"
  by (rule ext) (simp add: class_prototype_def)

type_synonym 'a oprog = "('a, store) prog"
type_synonym ocall = "VALUE \<Rightarrow> VALUE \<Rightarrow> VALUE list \<Rightarrow> VALUE oprog"

definition SN_FLAG_ASSIGNED :: "32 word" where "SN_FLAG_ASSIGNED = 1"

subsection \<open>The store\<close>

definition deref :: "VALUE \<Rightarrow> SnObject oprog" where
  "deref p s = (case objs s p of Some ob \<Rightarrow> Inr (ob, s) | None \<Rightarrow> Inl Undef)"

definition update :: "VALUE \<Rightarrow> (SnObject \<Rightarrow> SnObject) \<Rightarrow> unit oprog" where
  "update p f s = (case objs s p of Some ob \<Rightarrow> Inr ((), s\<lparr>objs := (objs s)(p \<mapsto> f ob)\<rparr>) | None \<Rightarrow> Inl Undef)"

definition base_type :: "store \<Rightarrow> VALUE \<Rightarrow> SnObjectType" where
  "base_type s v = (case objs s v of Some ob \<Rightarrow> o_type ob | None \<Rightarrow> thin_type s v)"

definition typeof :: "VALUE \<Rightarrow> SnObjectType oprog" where
  "typeof v s = rbind (snow_typeof (base_type s) v) (\<lambda>t. Inr (t, s))"

definition is_normal :: "store \<Rightarrow> VALUE \<Rightarrow> bool" where
  "is_normal s v \<longleftrightarrow> is_object v \<and> objs s v \<noteq> None"

subsection \<open>Creating objects\<close>

definition snow_object_init :: "SnObject \<Rightarrow> VALUE \<Rightarrow> SnObject" where
  "snow_object_init ob prototype = ob\<lparr>o_flags := SN_FLAG_ASSIGNED, o_prototype := prototype,
     o_members := None, property_names := array_init, property_data := array_init,
     included_modules := array_init\<rparr>"

text \<open>An object in fresh memory, with its type set (\<open>snow_alloc_any_object\<close>).\<close>

definition snow_alloc_any_object :: "SnObjectType \<Rightarrow> SnObject" where
  "snow_alloc_any_object t = \<lparr>o_type = t, o_flags = 0xcdcdcdcd, o_prototype = uninit, o_members = None,
     property_names = array_init, property_data = array_init, included_modules = array_init\<rparr>"

text \<open>\<open>p\<close> is the address the allocator returns.\<close>

definition snow_create_object :: "VALUE \<Rightarrow> VALUE \<Rightarrow> VALUE oprog" where
  "snow_create_object p prototype s =
     Inr (p, s\<lparr>objs := (objs s)(p \<mapsto> snow_object_init (snow_alloc_any_object SN_OBJECT_TYPE) prototype)\<rparr>)"

definition sizeof_SnObject :: VALUE where "sizeof_SnObject = 72"

definition snow_create_object_with_extra_data :: "VALUE \<Rightarrow> VALUE \<Rightarrow> VALUE \<Rightarrow> (VALUE \<times> VALUE) oprog" where
  "snow_create_object_with_extra_data p prototype extra_bytes =
     pbind (snow_create_object p prototype) (\<lambda>obj. pret (obj, obj + extra_bytes))"

subsection \<open>Lookup\<close>

definition property_index :: "SnObject \<Rightarrow> SnSymbol \<Rightarrow> int result" where
  "property_index ob member = array_find (property_names ob) (symbol_to_value member)"

definition own_member :: "SnObject \<Rightarrow> SnSymbol \<Rightarrow> VALUE result" where
  "own_member ob member = (case o_members ob of
      Some m \<Rightarrow> snow_map_get m (symbol_to_value member) | None \<Rightarrow> Inr 0)"

text \<open>
  \<open>for (i = 0; i < array_size(modules); ++i)\<close> with a lookup in every module, until one
  gives a value; the size is read again at every turn, and is below \<open>2 ^ 32\<close>, the
  turns allowed.
\<close>

fun module_loop :: "(VALUE \<Rightarrow> VALUE oprog) \<Rightarrow> VALUE \<Rightarrow> nat \<Rightarrow> nat \<Rightarrow> VALUE oprog" where
  "module_loop look obj 0 i = pfail Undef"
| "module_loop look obj (Suc k) i =
     pbind (deref obj) (\<lambda>ob.
       if i < array_size (included_modules ob)
       then pbind (plift (array_get (included_modules ob) (int i))) (\<lambda>m.
            pbind pget (\<lambda>s. pbind (plift (assert_ok (is_normal s m))) (\<lambda>_.
            pbind (look m) (\<lambda>val. if val \<noteq> 0 then pret val else module_loop look obj k (Suc i)))))
       else pret 0)"

fun get_without_prototype :: "nat \<Rightarrow> ocall \<Rightarrow> VALUE \<Rightarrow> VALUE \<Rightarrow> SnSymbol \<Rightarrow> VALUE oprog" where
  "get_without_prototype 0 call obj self member = pfail Undef"
| "get_without_prototype (Suc n) call obj self member =
     pbind (deref obj) (\<lambda>ob.
     pbind (plift (property_index ob member)) (\<lambda>idx.
       if idx \<ge> 0
       then pbind (plift (array_get (property_data ob) (2 * idx))) (\<lambda>getter.
            if snow_eval_truth getter then call self getter [] else pfail Trap)
       else pbind (plift (own_member ob member)) (\<lambda>val.
            if val \<noteq> 0 then pret val
            else module_loop (\<lambda>m. get_without_prototype n call m self member) obj (2 ^ 32) 0)))"

definition snow_object_get_included_member :: "nat \<Rightarrow> ocall \<Rightarrow> VALUE \<Rightarrow> VALUE \<Rightarrow> SnSymbol \<Rightarrow> VALUE oprog" where
  "snow_object_get_included_member n call obj self member =
     module_loop (\<lambda>m. get_without_prototype n call m self member) obj (2 ^ 32) 0"

definition prototype_of :: "VALUE \<Rightarrow> VALUE oprog" where
  "prototype_of obj =
     pbind (deref obj) (\<lambda>ob.
       if o_prototype ob \<noteq> 0 then pret (o_prototype ob)
       else pbind (typeof obj) (\<lambda>t. pbind pget (\<lambda>s. pret (class_prototype s t))))"

fun snow_object_get_member :: "nat \<Rightarrow> ocall \<Rightarrow> VALUE \<Rightarrow> VALUE \<Rightarrow> SnSymbol \<Rightarrow> VALUE oprog" where
  "snow_object_get_member 0 call obj self member = pfail Undef"
| "snow_object_get_member (Suc n) call obj self member =
     pbind (get_without_prototype (Suc n) call obj self member) (\<lambda>val.
       if val \<noteq> 0 then pret val
       else pbind (prototype_of obj) (\<lambda>prototype.
            if prototype \<noteq> obj then snow_object_get_member n call prototype self member else pret 0))"

subsection \<open>Assignment\<close>

fun object_set_with_property :: "nat \<Rightarrow> ocall \<Rightarrow> VALUE \<Rightarrow> VALUE \<Rightarrow> SnSymbol \<Rightarrow> VALUE \<Rightarrow> VALUE oprog" where
  "object_set_with_property 0 call obj self member val = pfail Undef"
| "object_set_with_property (Suc n) call obj self member val =
     pbind (deref obj) (\<lambda>ob.
     pbind (plift (property_index ob member)) (\<lambda>idx.
       if idx \<ge> 0
       then pbind (plift (array_get (property_data ob) (2 * idx + 1))) (\<lambda>setter.
            if snow_eval_truth setter then call self setter [val] else pfail Trap)
       else if o_prototype ob \<noteq> 0 then object_set_with_property n call (o_prototype ob) self member val
       else pret 0))"

definition snow_object_set_member :: "nat \<Rightarrow> ocall \<Rightarrow> VALUE \<Rightarrow> VALUE \<Rightarrow> SnSymbol \<Rightarrow> VALUE \<Rightarrow> VALUE oprog" where
  "snow_object_set_member n call obj self member val =
     pbind (update obj (\<lambda>ob. if o_members ob = None then ob\<lparr>o_members := Some snow_create_map\<rparr> else ob)) (\<lambda>_.
     pbind (object_set_with_property n call obj self member val) (\<lambda>with_property.
       if with_property \<noteq> 0 then pret with_property
       else pbind (deref obj) (\<lambda>ob.
            case o_members ob of
              None \<Rightarrow> pfail Undef
            | Some m \<Rightarrow> pbind (plift (snow_map_set m (symbol_to_value member) val)) (\<lambda>m.
                 pbind (update obj (\<lambda>ob. ob\<lparr>o_members := Some m\<rparr>)) (\<lambda>_. pret val)))))"

subsection \<open>Properties of objects\<close>

definition create_or_get_index_of_property :: "VALUE \<Rightarrow> SnSymbol \<Rightarrow> int oprog" where
  "create_or_get_index_of_property obj name =
     (let vsym = symbol_to_value name
      in pbind (deref obj) (\<lambda>ob.
         pbind (plift (array_find (property_names ob) vsym)) (\<lambda>idx.
           if idx < 0
           then pbind (plift (array_push (property_names ob) vsym)) (\<lambda>(names, _).
                pbind (update obj (\<lambda>ob. ob\<lparr>property_names := names\<rparr>)) (\<lambda>_.
                pret (int (array_size (property_names ob)))))
           else pret idx)))"

definition set_property_slot :: "VALUE \<Rightarrow> int \<Rightarrow> VALUE \<Rightarrow> VALUE oprog" where
  "set_property_slot obj i f =
     pbind (deref obj) (\<lambda>ob.
     pbind (plift (array_set (property_data ob) i f)) (\<lambda>(data, _).
     pbind (update obj (\<lambda>ob. ob\<lparr>property_data := data\<rparr>)) (\<lambda>_. pret f)))"

definition snow_object_set_property_getter :: "VALUE \<Rightarrow> SnSymbol \<Rightarrow> VALUE \<Rightarrow> VALUE oprog" where
  "snow_object_set_property_getter obj name getter =
     pbind (create_or_get_index_of_property obj name) (\<lambda>idx. set_property_slot obj (2 * idx) getter)"

definition snow_object_set_property_setter :: "VALUE \<Rightarrow> SnSymbol \<Rightarrow> VALUE \<Rightarrow> VALUE oprog" where
  "snow_object_set_property_setter obj name setter =
     pbind (create_or_get_index_of_property obj name) (\<lambda>idx. set_property_slot obj (2 * idx + 1) setter)"

subsection \<open>Modules\<close>

fun any_loop :: "(VALUE \<Rightarrow> bool oprog) \<Rightarrow> VALUE list \<Rightarrow> bool oprog" where
  "any_loop f [] = pret False"
| "any_loop f (m # ms) = pbind pget (\<lambda>s. pbind (plift (assert_ok (is_normal s m))) (\<lambda>_.
     pbind (f m) (\<lambda>b. if b then pret True else any_loop f ms)))"

fun snow_object_is_included :: "nat \<Rightarrow> VALUE \<Rightarrow> VALUE \<Rightarrow> bool oprog" where
  "snow_object_is_included 0 obj included = pfail Undef"
| "snow_object_is_included (Suc n) obj included =
     (if obj = included then pret True
      else pbind (deref obj) (\<lambda>ob.
           any_loop (\<lambda>m. snow_object_is_included n m included) (elems (included_modules ob))))"

definition snow_object_include :: "nat \<Rightarrow> VALUE \<Rightarrow> VALUE \<Rightarrow> bool oprog" where
  "snow_object_include n obj included =
     pbind (deref obj) (\<lambda>ob.
     pbind (plift (array_find (included_modules ob) included)) (\<lambda>i.
       if i \<ge> 0 then pret False
       else pbind (snow_object_is_included n included obj) (\<lambda>b.
            if b then pfail (Raise ''Circular include detected.'')
            else pbind (plift (array_push (included_modules ob) included)) (\<lambda>(ms, _).
                 pbind (update obj (\<lambda>ob. ob\<lparr>included_modules := ms\<rparr>)) (\<lambda>_. pret True)))))"

definition snow_object_uninclude :: "VALUE \<Rightarrow> VALUE \<Rightarrow> bool oprog" where
  "snow_object_uninclude obj included =
     pbind (deref obj) (\<lambda>ob.
     pbind (plift (array_find (included_modules ob) included)) (\<lambda>idx.
       if idx \<ge> 0
       then pbind (plift (array_erase (included_modules ob) idx)) (\<lambda>(ms, _).
            pbind (update obj (\<lambda>ob. ob\<lparr>included_modules := ms\<rparr>)) (\<lambda>_. pret True))
       else pret False))"

subsection \<open>The module graph and the prototype chain\<close>

definition modules_of :: "store \<Rightarrow> VALUE \<Rightarrow> VALUE list" where
  "modules_of s p = (case objs s p of Some ob \<Rightarrow> elems (included_modules ob) | None \<Rightarrow> [])"

definition mods :: "store \<Rightarrow> (VALUE \<times> VALUE) set" where
  "mods s = {(a, b). b \<in> set (modules_of s a)}"

definition proto_of :: "store \<Rightarrow> VALUE \<Rightarrow> VALUE" where
  "proto_of s p = (case objs s p of
      Some ob \<Rightarrow> if o_prototype ob \<noteq> 0 then o_prototype ob else class_prototype s (o_type ob)
    | None \<Rightarrow> p)"

definition protos :: "store \<Rightarrow> (VALUE \<times> VALUE) set" where
  "protos s = {(a, b). objs s a \<noteq> None \<and> b = proto_of s a \<and> b \<noteq> a}"

definition object_wf :: "store \<Rightarrow> SnObject \<Rightarrow> bool" where
  "object_wf s ob \<longleftrightarrow> array_wf (property_names ob) \<and> array_wf (property_data ob) \<and> array_wf (included_modules ob) \<and>
     (\<forall>m. o_members ob = Some m \<longrightarrow> default_map m) \<and>
     (\<forall>m \<in> set (elems (included_modules ob)). is_normal s m) \<and>
     (if o_prototype ob \<noteq> 0 then is_normal s (o_prototype ob) else is_normal s (class_prototype s (o_type ob)))"

definition store_wf :: "store \<Rightarrow> bool" where
  "store_wf s \<longleftrightarrow> finite (dom (objs s)) \<and> (\<forall>p ob. objs s p = Some ob \<longrightarrow> is_object p \<and> object_wf s ob) \<and>
     acyclic (mods s) \<and> acyclic (protos s)"

definition rank :: "(VALUE \<times> VALUE) set \<Rightarrow> VALUE \<Rightarrow> nat" where
  "rank R a = card (R\<^sup>+ `` {a})"

lemma rank_less:
  assumes "finite (R\<^sup>+ `` {a})" "acyclic R" "(a, b) \<in> R"
  shows "rank R b < rank R a"
proof -
  have "R\<^sup>+ `` {b} \<subset> R\<^sup>+ `` {a}"
  proof
    show "R\<^sup>+ `` {b} \<subseteq> R\<^sup>+ `` {a}" using assms(3) by (auto intro: trancl_into_trancl2)
    have "b \<in> R\<^sup>+ `` {a}" using assms(3) by auto
    moreover have "b \<notin> R\<^sup>+ `` {b}" using assms(2) by (auto simp: acyclic_def)
    ultimately show "R\<^sup>+ `` {b} \<noteq> R\<^sup>+ `` {a}" by blast
  qed
  then show ?thesis unfolding rank_def using assms(1) by (rule psubset_card_mono [rotated])
qed

lemma rank_bound:
  assumes "finite A" "Range R \<subseteq> A"
  shows "rank R a \<le> card A" "finite (R\<^sup>+ `` {a})"
proof -
  have "R\<^sup>+ `` {a} \<subseteq> A"
  proof
    fix x assume "x \<in> R\<^sup>+ `` {a}"
    then have "(a, x) \<in> R\<^sup>+" by simp
    then have "x \<in> Range R" by (cases rule: trancl.cases) auto
    then show "x \<in> A" using assms(2) by blast
  qed
  then show "rank R a \<le> card A" "finite (R\<^sup>+ `` {a})"
    using assms(1) by (auto simp: rank_def intro: card_mono finite_subset)
qed

lemma store_wfD:
  assumes "store_wf s" "objs s p = Some ob"
  shows "array_wf (property_names ob)" "array_wf (property_data ob)" "array_wf (included_modules ob)"
    "\<And>m. o_members ob = Some m \<Longrightarrow> default_map m" "is_object p"
    "\<And>m. m \<in> set (elems (included_modules ob)) \<Longrightarrow> is_normal s m"
  using assms by (auto simp: store_wf_def object_wf_def)

lemma normal_type: "objs s p = Some ob \<Longrightarrow> is_object p \<Longrightarrow> snow_typeof (base_type s) p = Inr (o_type ob)"
  by (simp add: snow_typeof_def base_type_def)

lemma proto_normal:
  assumes "store_wf s" "objs s p = Some ob"
  shows "is_normal s (proto_of s p)" "prototype_of p s = Inr (proto_of s p, s)"
  using assms normal_type [OF assms(2)] store_wfD(5) [OF assms]
  by (auto simp: store_wf_def object_wf_def proto_of_def prototype_of_def deref_def typeof_def split: if_splits)

lemma mods_bound:
  assumes "store_wf s"
  shows "rank (mods s) a \<le> card (dom (objs s))" "finite ((mods s)\<^sup>+ `` {a})"
    "rank (protos s) a \<le> card (dom (objs s))" "finite ((protos s)\<^sup>+ `` {a})"
proof -
  have f: "finite (dom (objs s))" using assms by (simp add: store_wf_def)
  have r: "Range (mods s) \<subseteq> dom (objs s)"
  proof
    fix x assume "x \<in> Range (mods s)"
    then obtain a where "x \<in> set (modules_of s a)" by (auto simp: mods_def)
    moreover from this obtain ob where "objs s a = Some ob" by (cases "objs s a") (auto simp: modules_of_def)
    ultimately have "objs s a = Some ob" "x \<in> set (elems (included_modules ob))" by (auto simp: modules_of_def)
    then show "x \<in> dom (objs s)" using store_wfD(6) [OF assms] by (auto simp: is_normal_def)
  qed
  have r': "Range (protos s) \<subseteq> dom (objs s)"
    using proto_normal(1) [OF assms] by (auto simp: protos_def is_normal_def)
  show "rank (mods s) a \<le> card (dom (objs s))" "finite ((mods s)\<^sup>+ `` {a})"
    "rank (protos s) a \<le> card (dom (objs s))" "finite ((protos s)\<^sup>+ `` {a})"
    using rank_bound [OF f r] rank_bound [OF f r'] by auto
qed

lemma mods_rank_less: "store_wf s \<Longrightarrow> m \<in> set (modules_of s a) \<Longrightarrow> rank (mods s) m < rank (mods s) a"
  by (rule rank_less [OF mods_bound(2)]) (auto simp: store_wf_def mods_def)

subsection \<open>Inclusion\<close>

lemma any_loop_pure:
  "(\<And>m. m \<in> set ms \<Longrightarrow> is_normal s m \<and> f m s = Inr (P m, s)) \<Longrightarrow>
   any_loop f ms s = Inr (\<exists>m \<in> set ms. P m, s)"
  by (induction ms) (auto simp: assert_ok_def)

lemma is_included_ok:
  "store_wf s \<Longrightarrow> objs s a \<noteq> None \<Longrightarrow> rank (mods s) a < n \<Longrightarrow>
   snow_object_is_included n a b s = Inr ((a, b) \<in> (mods s)\<^sup>*, s)"
proof (induction n arbitrary: a)
  case (Suc n)
  then obtain ob where ob: "objs s a = Some ob" by auto
  show ?case
  proof (cases "a = b")
    case False
    have "is_normal s m \<and> snow_object_is_included n m b s = Inr ((m, b) \<in> (mods s)\<^sup>*, s)"
      if "m \<in> set (elems (included_modules ob))" for m
    proof -
      have m: "m \<in> set (modules_of s a)" using that ob by (simp add: modules_of_def)
      have "is_normal s m" using store_wfD(6) [OF Suc.prems(1) ob] that by simp
      moreover have "rank (mods s) m < n" using mods_rank_less [OF Suc.prems(1) m] Suc.prems(3) by simp
      ultimately show ?thesis using Suc.IH [OF Suc.prems(1)] by (simp add: is_normal_def)
    qed
    then have loop: "any_loop (\<lambda>m. snow_object_is_included n m b) (elems (included_modules ob)) s =
        Inr (\<exists>m \<in> set (elems (included_modules ob)). (m, b) \<in> (mods s)\<^sup>*, s)"
      by (rule any_loop_pure)
    have e: "(a, m) \<in> mods s \<longleftrightarrow> m \<in> set (elems (included_modules ob))" for m
      using ob by (simp add: mods_def modules_of_def)
    have "(\<exists>m \<in> set (elems (included_modules ob)). (m, b) \<in> (mods s)\<^sup>*) \<longleftrightarrow> (a, b) \<in> (mods s)\<^sup>*" (is "?l \<longleftrightarrow> ?r")
    proof (rule iffI)
      assume ?l
      then obtain m where "(a, m) \<in> mods s" "(m, b) \<in> (mods s)\<^sup>*" using e by blast
      then show ?r by (rule converse_rtrancl_into_rtrancl)
    next
      assume ?r
      then obtain m where "(a, m) \<in> mods s" "(m, b) \<in> (mods s)\<^sup>*"
        using False by (cases rule: converse_rtranclE) auto
      then show ?l using e by blast
    qed
    with loop show ?thesis using False ob by (simp add: deref_def)
  qed simp
qed simp

lemma is_normal_update [simp]:
  "objs s p = Some ob \<Longrightarrow> is_normal (s\<lparr>objs := (objs s)(p \<mapsto> ob')\<rparr>) v = is_normal s v"
  by (auto simp: is_normal_def)

lemma include_ok:
  assumes wf: "store_wf s" and a: "objs s a = Some ob" and b: "is_normal s b"
    and n: "card (dom (objs s)) < n" and room: "a_size (included_modules ob) < 2 ^ 31"
  shows "b \<in> set (modules_of s a) \<Longrightarrow> snow_object_include n a b s = Inr (False, s)"
    "b \<notin> set (modules_of s a) \<Longrightarrow> (b, a) \<in> (mods s)\<^sup>* \<Longrightarrow>
     snow_object_include n a b s = Inl (Raise ''Circular include detected.'')"
    "b \<notin> set (modules_of s a) \<Longrightarrow> (b, a) \<notin> (mods s)\<^sup>* \<Longrightarrow>
     \<exists>s'. snow_object_include n a b s = Inr (True, s') \<and> store_wf s' \<and> mods s' = insert (a, b) (mods s) \<and>
          protos s' = protos s \<and> dom (objs s') = dom (objs s)"
proof -
  note w = store_wfD [OF wf a]
  have "rank (mods s) b < n" using mods_bound(1) [OF wf, of b] n by simp
  then have inc: "snow_object_is_included n b a s = Inr ((b, a) \<in> (mods s)\<^sup>*, s)"
    using is_included_ok [OF wf] b by (auto simp: is_normal_def)
  obtain ms where ms: "array_push (included_modules ob) b = Inr (ms, b)" "array_wf ms"
      "elems ms = elems (included_modules ob) @ [b]"
    using array_push_law [OF w(3), of b] room w(3) by (auto simp: length_elems)
  show "snow_object_include n a b s = Inr (False, s)" if "b \<in> set (modules_of s a)"
  proof -
    have "b \<in> set (elems (included_modules ob))" using that a by (simp add: modules_of_def)
    then obtain i where "index_of b (elems (included_modules ob)) = Some i"
      by (cases "index_of b (elems (included_modules ob))") auto
    then show ?thesis using a w(3) by (simp add: snow_object_include_def deref_def array_find_ok)
  qed
  have absent: "array_find (included_modules ob) b = Inr (-1)" if "b \<notin> set (modules_of s a)"
    using that a w(3) by (simp add: modules_of_def array_find_ok)
  show "snow_object_include n a b s = Inl (Raise ''Circular include detected.'')"
    if "b \<notin> set (modules_of s a)" "(b, a) \<in> (mods s)\<^sup>*"
    using that a inc absent by (simp add: snow_object_include_def deref_def)
  assume new: "b \<notin> set (modules_of s a)" "(b, a) \<notin> (mods s)\<^sup>*"
  let ?ob = "ob\<lparr>included_modules := ms\<rparr>"
  let ?s = "s\<lparr>objs := (objs s)(a \<mapsto> ?ob)\<rparr>"
  have "snow_object_include n a b s = Inr (True, ?s)"
    using new a inc absent ms by (simp add: snow_object_include_def deref_def update_def)
  moreover have m: "mods ?s = insert (a, b) (mods s)"
    using a ms(3) by (auto simp: mods_def modules_of_def split: if_splits)
  moreover have p: "protos ?s = protos s"
    using a by (auto simp: protos_def proto_of_def split: if_splits)
  moreover have "dom (objs ?s) = dom (objs s)" using a by auto
  moreover have "store_wf ?s"
  proof -
    have other: "object_wf ?s x" if "object_wf s x" for x
      using that a by (auto simp: object_wf_def)
    have "object_wf ?s ?ob" using wf a ms b by (auto simp: object_wf_def store_wf_def)
    then have "\<forall>q x. objs ?s q = Some x \<longrightarrow> is_object q \<and> object_wf ?s x"
      using wf a other by (auto simp: store_wf_def)
    moreover have "acyclic (mods ?s)" using wf new(2) unfolding m by (simp add: store_wf_def acyclic_insert)
    ultimately show ?thesis using wf p a by (simp add: store_wf_def)
  qed
  ultimately show "\<exists>s'. snow_object_include n a b s = Inr (True, s') \<and> store_wf s' \<and>
      mods s' = insert (a, b) (mods s) \<and> protos s' = protos s \<and> dom (objs s') = dom (objs s)" by blast
qed

subsection \<open>Lookup over the linearised ancestry\<close>

text \<open>
  What one object holds under a name, without its modules and its prototype: a property with
  its getter, a member, or nothing.
\<close>

datatype entry = Nothing | Getter VALUE | Plain VALUE

definition entry_of :: "store \<Rightarrow> SnSymbol \<Rightarrow> VALUE \<Rightarrow> entry" where
  "entry_of s member p = (case objs s p of
      None \<Rightarrow> Nothing
    | Some ob \<Rightarrow> (case index_of (symbol_to_value member) (elems (property_names ob)) of
        Some i \<Rightarrow> Getter (list_get (elems (property_data ob)) (2 * int i))
      | None \<Rightarrow> (case own_member ob member of
          Inr v \<Rightarrow> if v = 0 then Nothing else Plain v
        | Inl e \<Rightarrow> Nothing)))"

text \<open>
  The objects to ask, in order.  An object that has a property of the name does not ask its
  modules, even when the getter gives null.
\<close>

definition is_getter :: "entry \<Rightarrow> bool" where
  "is_getter e \<longleftrightarrow> (case e of Getter g \<Rightarrow> True | _ \<Rightarrow> False)"

primrec linear :: "nat \<Rightarrow> store \<Rightarrow> SnSymbol \<Rightarrow> VALUE \<Rightarrow> VALUE list" where
  "linear 0 s member p = []"
| "linear (Suc n) s member p =
     p # (if is_getter (entry_of s member p) then [] else concat (map (linear n s member) (modules_of s p)))"

primrec ancestry :: "nat \<Rightarrow> store \<Rightarrow> SnSymbol \<Rightarrow> VALUE \<Rightarrow> VALUE list" where
  "ancestry 0 s member p = []"
| "ancestry (Suc n) s member p =
     linear (Suc n) s member p @ (if proto_of s p = p then [] else ancestry n s member (proto_of s p))"

text \<open>The first that gives a value; a getter that gives null is passed over.\<close>

fun look_in :: "ocall \<Rightarrow> VALUE \<Rightarrow> SnSymbol \<Rightarrow> VALUE list \<Rightarrow> VALUE oprog" where
  "look_in call self member [] s = Inr (0, s)"
| "look_in call self member (p # ps) s = (case entry_of s member p of
      Nothing \<Rightarrow> look_in call self member ps s
    | Plain v \<Rightarrow> Inr (v, s)
    | Getter g \<Rightarrow> if snow_eval_truth g
        then rbind (call self g [] s) (\<lambda>(v, s'). if v \<noteq> 0 then Inr (v, s') else look_in call self member ps s')
        else Inl Trap)"

text \<open>A getter of these objects that gives null leaves the store as it is (nil is not null, and any other may change it).\<close>

definition null_keeps :: "ocall \<Rightarrow> VALUE \<Rightarrow> SnSymbol \<Rightarrow> store \<Rightarrow> VALUE set \<Rightarrow> bool" where
  "null_keeps call self member s A \<longleftrightarrow>
     (\<forall>p \<in> A. \<forall>g s'. entry_of s member p = Getter g \<longrightarrow> call self g [] s = Inr (0, s') \<longrightarrow> s' = s)"

lemma null_keeps_mono: "null_keeps call self member s A \<Longrightarrow> B \<subseteq> A \<Longrightarrow> null_keeps call self member s B"
  by (auto simp: null_keeps_def)

lemma own_member_ok:
  "store_wf s \<Longrightarrow> objs s p = Some ob \<Longrightarrow> \<exists>v. own_member ob member = Inr v"
  using store_wfD(4) [of s p ob] dmap.lookup_ok
  by (auto simp: own_member_def split: option.split)

lemma entry_nonzero: "entry_of s member p \<noteq> Plain 0"
  by (auto simp: entry_of_def split: option.splits sum.splits)

lemma look_in_append:
  "look_in call self member (xs @ ys) s =
     rbind (look_in call self member xs s) (\<lambda>(v, s'). if v \<noteq> 0 then Inr (v, s') else look_in call self member ys s')"
proof (induction xs arbitrary: s)
  case (Cons x xs)
  show ?case
    using entry_nonzero [of s member x] Cons
    by (cases "entry_of s member x") (auto simp: rbind_assoc intro!: arg_cong2 [where f = rbind])
qed simp

lemma look_in_null:
  "null_keeps call self member s (set xs) \<Longrightarrow> look_in call self member xs s = Inr (0, s') \<Longrightarrow> s' = s"
proof (induction xs)
  case (Cons p xs)
  have IH: "look_in call self member xs s = Inr (0, s') \<Longrightarrow> s' = s"
    using Cons.IH null_keeps_mono [OF Cons.prems(1), of "set xs"] by auto
  show ?case
  proof (cases "entry_of s member p")
    case (Getter g)
    with Cons.prems(2) obtain v t where t: "call self g [] s = Inr (v, t)"
        "(if v \<noteq> 0 then Inr (v, t) else look_in call self member xs t) = Inr (0, s')"
      by (auto simp: rbind_eq_Inr split: if_splits)
    then have "v = 0" by (auto split: if_splits)
    with t Cons.prems(1) Getter have "t = s" by (auto simp: null_keeps_def)
    with t \<open>v = 0\<close> IH show ?thesis by simp
  qed (use Cons.prems IH entry_nonzero in \<open>auto simp: entry_of_def split: option.splits sum.splits if_splits\<close>)
qed simp

lemma rbind_value: "rbind r (\<lambda>(v, s'). if v \<noteq> 0 then Inr (v, s') else look_in call self member [] s') = r"
  by (cases r) (auto split: prod.split)

lemma array_get_nat: "array_wf a \<Longrightarrow> i < array_size a \<Longrightarrow> array_get a (int i) = Inr (elems a ! i)"
  by (simp add: array_get_ok list_get_def norm_idx_def length_elems array_size_def)

lemma module_loop_ok:
  assumes wf: "store_wf s" and a: "objs s a = Some ob"
    and look: "\<And>m. m \<in> set (elems (included_modules ob)) \<Longrightarrow> look m s = look_in call self member (L m) s"
    and c: "\<And>m. m \<in> set (elems (included_modules ob)) \<Longrightarrow> null_keeps call self member s (set (L m))"
  shows "i \<le> array_size (included_modules ob) \<Longrightarrow> array_size (included_modules ob) < i + k \<Longrightarrow>
    module_loop look a k i s = look_in call self member (concat (map L (drop i (elems (included_modules ob))))) s"
proof (induction k arbitrary: i)
  case (Suc k)
  note w = store_wfD [OF wf a]
  show ?case
  proof (cases "i < array_size (included_modules ob)")
    case True
    let ?m = "elems (included_modules ob) ! i"
    have i: "i < length (elems (included_modules ob))" using True w(3) by (simp add: length_elems array_size_def)
    then have m: "?m \<in> set (elems (included_modules ob))" by simp
    have d: "drop i (elems (included_modules ob)) = ?m # drop (Suc i) (elems (included_modules ob))"
      using i by (rule Cons_nth_drop_Suc [symmetric])
    let ?xs = "L ?m" and ?ys = "concat (map L (drop (Suc i) (elems (included_modules ob))))"
    have IH: "module_loop look a k (Suc i) s = look_in call self member ?ys s"
      using Suc.IH [of "Suc i"] Suc.prems True by simp
    have "module_loop look a (Suc k) i s =
      rbind (look_in call self member ?xs s) (\<lambda>(v, s'). if v \<noteq> 0 then Inr (v, s') else module_loop look a k (Suc i) s')"
      using True a array_get_nat [OF w(3) True] w(6) [OF m] look [OF m]
      by (simp add: deref_def)  (auto intro!: arg_cong2 [where f = rbind])
    also have "\<dots> = rbind (look_in call self member ?xs s) (\<lambda>(v, s'). if v \<noteq> 0 then Inr (v, s') else look_in call self member ?ys s')"
    proof (cases "look_in call self member ?xs s")
      case (Inr r)
      obtain v s' where r: "r = (v, s')" by force
      show ?thesis using look_in_null [OF c [OF m], of s'] IH Inr r by auto
    qed simp
    also have "\<dots> = look_in call self member (?xs @ ?ys) s" by (rule look_in_append [symmetric])
    finally show ?thesis unfolding d by simp
  next
    case False
    then show ?thesis using a w(3) by (simp add: deref_def array_size_def length_elems)
  qed
qed simp

lemma get_without_prototype_ok:
  assumes wf: "store_wf s"
  shows "objs s p \<noteq> None \<Longrightarrow> rank (mods s) p < n \<Longrightarrow> null_keeps call self member s (set (linear n s member p)) \<Longrightarrow>
    get_without_prototype n call p self member s = look_in call self member (linear n s member p) s"
proof (induction n arbitrary: p)
  case (Suc n)
  then obtain ob where ob: "objs s p = Some ob" by auto
  note w = store_wfD [OF wf ob]
  obtain v where v: "own_member ob member = Inr v" using own_member_ok [OF wf ob] by blast
  have m: "modules_of s p = elems (included_modules ob)" using ob by (simp add: modules_of_def)
  show ?case
  proof (cases "is_getter (entry_of s member p)")
    case True
    then obtain i where i: "index_of (symbol_to_value member) (elems (property_names ob)) = Some i"
        "entry_of s member p = Getter (list_get (elems (property_data ob)) (2 * int i))"
      using ob v by (auto simp: entry_of_def is_getter_def split: option.splits if_splits)
    with True have "linear (Suc n) s member p = [p]" by simp
    then show ?thesis
      using i ob w(1,2) by (simp add: deref_def property_index_def array_find_ok array_get_ok rbind_value del: linear.simps)
  next
    case False
    have c: "null_keeps call self member s (set (linear n s member q))" if "q \<in> set (elems (included_modules ob))" for q
      by (rule null_keeps_mono [OF Suc.prems(3)]) (use that m False in auto)
    have "module_loop (\<lambda>m. get_without_prototype n call m self member) p (2 ^ 32) 0 s =
        look_in call self member (concat (map (linear n s member) (drop 0 (elems (included_modules ob))))) s"
    proof (rule module_loop_ok [OF wf ob _ c])
      fix q assume q: "q \<in> set (elems (included_modules ob))"
      have "objs s q \<noteq> None" using w(6) [OF q] by (simp add: is_normal_def)
      moreover have "rank (mods s) q < n" using mods_rank_less [OF wf, of q p] q m Suc.prems(2) by simp
      ultimately show "get_without_prototype n call q self member s = look_in call self member (linear n s member q) s"
        using c [OF q] by (rule Suc.IH)
    next
      show "array_size (included_modules ob) < 0 + 2 ^ 32" using w(3) by (simp add: array_wf_def array_size_def)
    qed simp_all
    moreover have "index_of (symbol_to_value member) (elems (property_names ob)) = None"
      using False ob by (cases "index_of (symbol_to_value member) (elems (property_names ob))") (simp_all add: entry_of_def is_getter_def)
    moreover from this have "entry_of s member p = (if v = 0 then Nothing else Plain v)" using ob v by (simp add: entry_of_def)
    ultimately show ?thesis
      using False ob v w(1,2) by (simp add: deref_def property_index_def array_find_ok m)
  qed
qed simp

lemma get_member_ok:
  assumes wf: "store_wf s"
  shows "objs s p \<noteq> None \<Longrightarrow> card (dom (objs s)) + rank (protos s) p < n \<Longrightarrow>
    null_keeps call self member s (set (ancestry n s member p)) \<Longrightarrow>
    snow_object_get_member n call p self member s = look_in call self member (ancestry n s member p) s"
proof (induction n arbitrary: p)
  case (Suc n)
  then obtain ob where ob: "objs s p = Some ob" by auto
  have "rank (mods s) p < Suc n" using mods_bound(1) [OF wf, of p] Suc.prems(2) by simp
  then have own: "get_without_prototype (Suc n) call p self member s = look_in call self member (linear (Suc n) s member p) s"
    by (rule get_without_prototype_ok [OF wf Suc.prems(1)]) (rule null_keeps_mono [OF Suc.prems(3)], auto)
  let ?xs = "linear (Suc n) s member p" and ?q = "proto_of s p"
  let ?ys = "if ?q = p then [] else ancestry n s member ?q"
  have up: "(if ?q \<noteq> p then snow_object_get_member n call ?q self member s else Inr (0, s)) =
      look_in call self member ?ys s"
  proof (cases "?q = p")
    case False
    then have "(p, ?q) \<in> protos s" using ob by (simp add: protos_def)
    then have "rank (protos s) ?q < rank (protos s) p"
      using rank_less [OF mods_bound(4) [OF wf]] wf by (simp add: store_wf_def)
    moreover have "objs s ?q \<noteq> None" using proto_normal(1) [OF wf ob] by (simp add: is_normal_def)
    moreover have "null_keeps call self member s (set (ancestry n s member ?q))"
      by (rule null_keeps_mono [OF Suc.prems(3)]) (use False in auto)
    ultimately show ?thesis using Suc.IH [of ?q] Suc.prems(2) False by simp
  qed simp
  have step: "snow_object_get_member (Suc n) call p self member s =
      rbind (look_in call self member ?xs s) (\<lambda>(v, s'). if v \<noteq> 0 then Inr (v, s') else
        rbind (prototype_of p s') (\<lambda>(q, s''). if q \<noteq> p then snow_object_get_member n call q self member s'' else Inr (0, s'')))"
    unfolding snow_object_get_member.simps prog_simps own by (auto simp: fun_eq_iff intro!: arg_cong2 [where f = rbind])
  have "snow_object_get_member (Suc n) call p self member s =
    rbind (look_in call self member ?xs s) (\<lambda>(v, s'). if v \<noteq> 0 then Inr (v, s') else look_in call self member ?ys s')"
  proof (cases "look_in call self member ?xs s")
    case (Inr r)
    obtain v s' where r: "r = (v, s')" by force
    show ?thesis
    proof (cases "v = 0")
      case True
      have "null_keeps call self member s (set ?xs)" by (rule null_keeps_mono [OF Suc.prems(3)]) auto
      then have "s' = s" using look_in_null Inr r True by blast
      then have "snow_object_get_member (Suc n) call p self member s =
          (if ?q \<noteq> p then snow_object_get_member n call ?q self member s else Inr (0, s))"
        unfolding step Inr r using True proto_normal(2) [OF wf ob] by simp
      then show ?thesis unfolding up Inr r using True \<open>s' = s\<close> by simp
    next
      case False
      then show ?thesis unfolding step Inr r by simp
    qed
  qed (simp only: step rbind_simps)
  also have "\<dots> = look_in call self member (?xs @ ?ys) s" by (rule look_in_append [symmetric])
  finally show ?case by simp
qed simp

subsection \<open>Assignment\<close>

text \<open>No object on the explicit prototype chain has a property of that name.\<close>

primrec no_property :: "nat \<Rightarrow> store \<Rightarrow> SnSymbol \<Rightarrow> VALUE \<Rightarrow> bool" where
  "no_property 0 s member p = False"
| "no_property (Suc n) s member p = (case objs s p of
      None \<Rightarrow> False
    | Some ob \<Rightarrow> symbol_to_value member \<notin> set (elems (property_names ob)) \<and>
        (o_prototype ob = 0 \<or> no_property n s member (o_prototype ob)))"

lemma object_set_with_property_none:
  "store_wf s \<Longrightarrow> no_property n s member p \<Longrightarrow> object_set_with_property n call p self member val s = Inr (0, s)"
proof (induction n arbitrary: p)
  case (Suc n)
  then obtain ob where ob: "objs s p = Some ob" by (cases "objs s p") auto
  note w = store_wfD [OF Suc.prems(1) ob]
  show ?case using Suc.IH [OF Suc.prems(1)] Suc.prems(2) ob w(1)
    by (cases "o_prototype ob = 0") (simp_all add: deref_def property_index_def array_find_ok)
qed simp

definition own_map :: "SnObject \<Rightarrow> SnMap" where
  "own_map ob = (case o_members ob of Some m \<Rightarrow> m | None \<Rightarrow> snow_create_map)"

lemma own_map_default: "store_wf s \<Longrightarrow> objs s p = Some ob \<Longrightarrow> default_map (own_map ob)"
  using store_wfD(4) [of s p ob] by (auto simp: own_map_def split: option.split)

lemma object_wf_cong: "dom (objs s') = dom (objs s) \<Longrightarrow> class_prototype s' = class_prototype s \<Longrightarrow> object_wf s' ob = object_wf s ob"
  by (simp add: object_wf_def is_normal_def dom_def set_eq_iff)

lemma store_wf_members:
  assumes wf: "store_wf s" and p: "objs s p = Some ob" and m: "default_map m"
  shows "store_wf (s\<lparr>objs := (objs s)(p \<mapsto> ob\<lparr>o_members := Some m\<rparr>)\<rparr>)" (is "store_wf ?s")
proof -
  have d: "dom (objs ?s) = dom (objs s)" "class_prototype ?s = class_prototype s" using p by auto
  have g: "mods ?s = mods s" "protos ?s = protos s"
    using p by (auto simp: mods_def modules_of_def protos_def proto_of_def split: if_splits)
  have "object_wf s (ob\<lparr>o_members := Some m\<rparr>)" using wf p m by (auto simp: store_wf_def object_wf_def)
  then have "\<forall>q x. objs ?s q = Some x \<longrightarrow> is_object q \<and> object_wf ?s x"
    using wf p by (auto simp: store_wf_def object_wf_cong [OF d])
  then show ?thesis using wf d g by (simp add: store_wf_def)
qed

lemma set_member_ok:
  assumes wf: "store_wf s" and p: "objs s p = Some ob" and np: "no_property n s member p"
  shows "\<exists>m. snow_object_set_member n call p self member val s =
      Inr (val, s\<lparr>objs := (objs s)(p \<mapsto> ob\<lparr>o_members := Some m\<rparr>)\<rparr>) \<and>
      snow_map_set (own_map ob) (symbol_to_value member) val = Inr m \<and> default_map m \<and>
      (\<forall>k. snow_map_get m k = (if take_bit 32 k = take_bit 32 (symbol_to_value member) then Inr val
            else snow_map_get (own_map ob) k))"
proof -
  have "symbol_to_value member \<noteq> 0" by simp
  then obtain m where m: "snow_map_set (own_map ob) (symbol_to_value member) val = Inr m" "default_map m"
    using dmap.insert1_ok [OF own_map_default [OF wf p]] by blast
  let ?s1 = "s\<lparr>objs := (objs s)(p \<mapsto> ob\<lparr>o_members := Some (own_map ob)\<rparr>)\<rparr>"
  have up: "update p (\<lambda>ob. if o_members ob = None then ob\<lparr>o_members := Some snow_create_map\<rparr> else ob) s = Inr ((), ?s1)"
  proof (cases "o_members ob")
    case (Some m)
    then have e: "ob\<lparr>o_members := Some m\<rparr> = ob" by (cases ob) simp
    show ?thesis unfolding own_map_def Some option.case e using p Some by (simp add: update_def)
  qed (simp add: update_def own_map_def p)
  have "no_property n ?s1 member q = no_property n s member q" for q
    using p by (induction n arbitrary: q) (auto split: option.split)
  then have "object_set_with_property n call p self member val ?s1 = Inr (0, ?s1)"
    using object_set_with_property_none [OF store_wf_members [OF wf p own_map_default [OF wf p]]] np by blast
  then have "snow_object_set_member n call p self member val s =
      Inr (val, s\<lparr>objs := (objs s)(p \<mapsto> ob\<lparr>o_members := Some m\<rparr>)\<rparr>)"
    using up m(1) by (simp add: snow_object_set_member_def deref_def update_def)
  then show ?thesis
    using m dmap.insert_then_lookup [OF own_map_default [OF wf p] \<open>symbol_to_value member \<noteq> 0\<close> m(1)] by auto
qed

subsection \<open>Properties\<close>

text \<open>
  C3. Member lookup: in a well-formed store, with any fuel above twice the number of objects,
  looking up a name gives what the first object of the ancestry that has a value for it gives:
  its member, or what its getter returns when called on the receiver, and a trap for a property
  that cannot be read.  The ancestry is the object, its modules depth first, then the same for
  its prototype, and so on; an object with a property of the name does not ask its modules, and a
  getter that returns null is passed over, where such a getter is assumed to leave the store as
  it was.  The lookup ends, with null when no object has a value, and the store is unchanged
  unless the getter that gives the value changes it.
\<close>

theorem object_get_member:
  assumes "store_wf s" "objs s p \<noteq> None" "2 * card (dom (objs s)) < n"
    and "null_keeps call self member s (set (ancestry n s member p))"
  shows "snow_object_get_member n call p self member s = look_in call self member (ancestry n s member p) s"
  using get_member_ok [OF assms(1,2) _ assms(4)] mods_bound(3) [OF assms(1), of p] assms(3) by simp

text \<open>
  C5. Assignment of a value, which is never the null word: when the object and its explicit
  prototypes have no property of that name, the value is stored in the object itself and is what a lookup then returns, whatever
  the modules and the default prototype of its type define (a setter there is not called);
  no other object changes, and a name of another class keeps its member.
\<close>

theorem object_set_then_get:
  assumes "store_wf s" "objs s p = Some ob" "no_property n s member p" "val \<noteq> 0" "0 < k"
  shows "\<exists>s'. snow_object_set_member n call p self member val s = Inr (val, s') \<and> store_wf s' \<and>
    snow_object_get_member k call p self member s' = Inr (val, s') \<and>
    (\<forall>q. q \<noteq> p \<longrightarrow> objs s' q = objs s q) \<and>
    (\<forall>x. take_bit 32 (symbol_to_value x) \<noteq> take_bit 32 (symbol_to_value member) \<longrightarrow>
         entry_of s' x p = entry_of s x p)"
proof -
  let ?k = "symbol_to_value member"
  obtain m where m: "snow_object_set_member n call p self member val s =
      Inr (val, s\<lparr>objs := (objs s)(p \<mapsto> ob\<lparr>o_members := Some m\<rparr>)\<rparr>)" "default_map m"
      "\<forall>k. snow_map_get m k = (if take_bit 32 k = take_bit 32 ?k then Inr val else snow_map_get (own_map ob) k)"
    using set_member_ok [OF assms(1-3), of call self val] by blast
  let ?s = "s\<lparr>objs := (objs s)(p \<mapsto> ob\<lparr>o_members := Some m\<rparr>)\<rparr>"
  obtain k' where k: "k = Suc k'" using assms(5) by (cases k) auto
  have "?k \<notin> set (elems (property_names ob))" using assms(2,3) by (cases n) auto
  then have "snow_object_get_member k call p self member ?s = Inr (val, ?s)"
    using m(3) assms(4) store_wfD(1) [OF assms(1,2)]
    by (simp add: k deref_def property_index_def own_member_def array_find_ok)
  moreover have "entry_of ?s x p = entry_of s x p"
    if "take_bit 32 (symbol_to_value x) \<noteq> take_bit 32 ?k" for x
  proof -
    have "own_member (ob\<lparr>o_members := Some m\<rparr>) x = own_member ob x"
      using that m(3) dmap.lookup_ok [OF empty_map(1)]
      by (simp add: own_member_def own_map_def split: option.split)
    then show ?thesis using assms(2) by (simp add: entry_of_def split: option.split)
  qed
  ultimately show ?thesis using m(1) store_wf_members [OF assms(1,2) m(2)] by auto
qed

text \<open>
  C6. Including a module: a module already included changes nothing; one that reaches the
  object through its own modules raises an exception; otherwise it is appended, the object
  then includes it, and the module graph stays free of cycles (part of \<open>store_wf\<close>), which
  is what makes lookup end.
\<close>

theorem object_include_acyclic:
  assumes "store_wf s" "objs s a = Some ob" "is_normal s b" "card (dom (objs s)) < n"
    "a_size (included_modules ob) < 2 ^ 31"
  shows "if b \<in> set (modules_of s a) then snow_object_include n a b s = Inr (False, s)
    else if (b, a) \<in> (mods s)\<^sup>* then snow_object_include n a b s = Inl (Raise ''Circular include detected.'')
    else \<exists>s'. snow_object_include n a b s = Inr (True, s') \<and> store_wf s' \<and>
           mods s' = insert (a, b) (mods s) \<and> snow_object_is_included n a b s' = Inr (True, s')"
proof -
  note ok = include_ok [OF assms]
  consider (old) "b \<in> set (modules_of s a)" | (cycle) "b \<notin> set (modules_of s a)" "(b, a) \<in> (mods s)\<^sup>*"
    | (fresh) "b \<notin> set (modules_of s a)" "(b, a) \<notin> (mods s)\<^sup>*" by blast
  then show ?thesis
  proof cases
    case fresh
    then obtain s' where s': "snow_object_include n a b s = Inr (True, s')" "store_wf s'"
        "mods s' = insert (a, b) (mods s)" "dom (objs s') = dom (objs s)"
      using ok(3) by blast
    have "objs s' a \<noteq> None" using s'(4) assms(2) by blast
    moreover have "rank (mods s') a < n" using mods_bound(1) [OF s'(2), of a] s'(4) assms(4) by simp
    ultimately have "snow_object_is_included n a b s' = Inr ((a, b) \<in> (mods s')\<^sup>*, s')"
      using is_included_ok [OF s'(2)] by blast
    then show ?thesis using fresh s' by auto
  qed (use ok(1,2) in auto)
qed

text \<open>
  A store of two objects: one without a prototype of its own, and the prototype of all
  objects, which has a property (name 3, getter 48, setter 64).
\<close>

definition two_objects :: store where
  "two_objects = \<lparr>objs = [16 \<mapsto> snow_object_init (snow_alloc_any_object SN_OBJECT_TYPE) 0,
      32 \<mapsto> (snow_object_init (snow_alloc_any_object SN_OBJECT_TYPE) 0)
        \<lparr>property_names := \<lparr>a_data = [symbol_to_value 3], a_size = 1, a_alloc = 1\<rparr>,
         property_data := \<lparr>a_data = [48, 64], a_size = 2, a_alloc = 2\<rparr>\<rparr>],
    classes = [48 \<mapsto> \<lparr>c_name = 9, instance_prototype = 32\<rparr>], strings = Map.empty,
    thin_type = (\<lambda>_. SN_FUNCTION_TYPE), basic_classes = (\<lambda>_. 48)\<rparr>"

lemmas two_defs = two_objects_def snow_object_init_def snow_alloc_any_object_def array_wf_def elems_def class_prototype_def

lemma two_objects_wf: "store_wf two_objects"
proof -
  have m: "mods two_objects = {}"
    by (auto simp: mods_def modules_of_def two_defs array_init_def split: if_splits)
  have p: "protos two_objects = {(16, 32)}"
    by (auto simp: protos_def proto_of_def two_defs split: if_splits)
  have "is_object 16" "is_object 32" by (simp_all add: is_object_def kTypeMask_def)
  moreover have "acyclic {(16 :: VALUE, 32)}" by (simp add: acyclic_insert) (simp add: acyclic_def)
  ultimately show ?thesis unfolding store_wf_def m p
    by (auto simp: object_wf_def is_normal_def two_defs array_init_def split: if_splits)
qed

lemma two_objects_lookup:
  "objs two_objects 16 = Some (snow_object_init (snow_alloc_any_object SN_OBJECT_TYPE) 0)"
  "card (dom (objs two_objects)) = 2" "proto_of two_objects 16 = 32" "proto_of two_objects 32 = 32"
  "modules_of two_objects 16 = []" "modules_of two_objects 32 = []"
  "entry_of two_objects 3 16 = Nothing" "entry_of two_objects 3 32 = Getter 48"
  by (simp_all add: two_defs array_init_def proto_of_def modules_of_def entry_of_def own_member_def list_get_def norm_idx_def)

text \<open>A program whose functions return nil, or the first argument.\<close>

definition echo_call :: ocall where
  "echo_call self f args s = Inr (if args = [] then SN_NIL else hd args, s)"

text \<open>The object gets the getter's value from the default prototype, on itself as receiver.\<close>

lemma object_get_member_witness:
  "snow_object_get_member 5 echo_call 16 16 3 two_objects = Inr (SN_NIL, two_objects)"
proof -
  have "null_keeps echo_call 16 3 two_objects A" for A by (simp add: null_keeps_def echo_call_def SN_NIL_def)
  moreover have "ancestry 5 two_objects 3 16 = [16, 32]"
  proof -
    have five: "(5 :: nat) = Suc (Suc 3)" by simp
    show ?thesis unfolding five ancestry.simps linear.simps by (simp add: two_objects_lookup is_getter_def)
  qed
  moreover have "look_in echo_call 16 3 [16, 32] two_objects = Inr (SN_NIL, two_objects)"
    by (simp add: two_objects_lookup echo_call_def snow_eval_truth_def SN_NIL_def SN_FALSE_def)
  ultimately show ?thesis
    using object_get_member [OF two_objects_wf, of 16 5 echo_call 16 3] two_objects_lookup(1,2) by simp
qed

text \<open>The setter of the default prototype is not called.\<close>

lemma object_set_then_get_witness:
  "\<exists>s'. snow_object_set_member 1 echo_call 16 16 3 7 two_objects = Inr (7, s') \<and>
    snow_object_get_member 5 echo_call 16 16 3 s' = Inr (7, s') \<and> entry_of two_objects 3 32 = Getter 48"
proof -
  have "no_property 1 two_objects 3 16" by (simp add: two_defs array_init_def)
  with object_set_then_get [OF two_objects_wf two_objects_lookup(1), of 1 3 7 5 echo_call 16] two_objects_lookup(8)
  show ?thesis by auto
qed

lemma object_include_acyclic_witness:
  "\<exists>s'. snow_object_include 3 16 32 two_objects = Inr (True, s') \<and> snow_object_is_included 3 16 32 s' = Inr (True, s')"
proof -
  have "is_normal two_objects 32" by (simp add: is_normal_def two_defs is_object_def kTypeMask_def)
  moreover have "(32, 16) \<notin> (mods two_objects)\<^sup>*"
  proof
    assume "(32, 16) \<in> (mods two_objects)\<^sup>*"
    then show False using two_objects_lookup(6) by (cases rule: converse_rtranclE) (auto simp: mods_def)
  qed
  ultimately show ?thesis
    using object_include_acyclic [OF two_objects_wf two_objects_lookup(1), of 32 3] two_objects_lookup(2,5)
    by (auto simp: snow_object_init_def)
qed

end
