(* ===== verification/Members.thy ===== *)
theory Members
  imports Objects
begin

text \<open>
  Calls and members (snow/snow.c), the methods every object has (snow/object.c) and classes
  (snow/class.c).  What lies outside is a parameter of every operation: \<open>e_invoke\<close> runs a
  function object on a receiver and arguments (\<open>snow_create_context_for_function\<close> and
  \<open>snow_function_call\<close>), \<open>e_alloc\<close> gives the address of the next object, and
  \<open>e_sym\<close>, \<open>e_name\<close> are the symbol table.  The fuel bounds the depth of calls.
\<close>

record env =
  e_sym :: "string \<Rightarrow> SnSymbol"
  e_name :: "SnSymbol \<Rightarrow> string"
  e_alloc :: "store \<Rightarrow> VALUE"
  e_invoke :: "VALUE \<Rightarrow> VALUE \<Rightarrow> SnArguments \<Rightarrow> VALUE oprog"

definition passert :: "bool \<Rightarrow> unit oprog" where
  "passert b = plift (assert_ok b)"

lemma passert_simps [simp]: "passert True s = Inr ((), s)" "passert False s = Inl Trap"
  by (simp_all add: passert_def)

definition assert_normal :: "VALUE \<Rightarrow> unit oprog" where
  "assert_normal v = pbind pget (\<lambda>s. passert (is_normal s v))"

definition assert_type :: "VALUE \<Rightarrow> SnObjectType \<Rightarrow> unit oprog" where
  "assert_type v t = pbind (typeof v) (\<lambda>t'. passert (t' = t))"

lemma assert_normal_eq [simp]: "assert_normal v s = (if is_normal s v then Inr ((), s) else Inl Trap)"
  by (simp add: assert_normal_def)

subsection \<open>Members of any value\<close>

definition snow_get_prototype :: "SnObjectType \<Rightarrow> VALUE oprog" where
  "snow_get_prototype t = pbind pget (\<lambda>s. case classes s (basic_classes s t) of
      Some c \<Rightarrow> pret (instance_prototype c) | None \<Rightarrow> pfail Undef)"

definition snow_get_class :: "SnObjectType \<Rightarrow> VALUE oprog" where
  "snow_get_class t = pbind pget (\<lambda>s. pret (basic_classes s t))"

definition get_closest_object :: "VALUE \<Rightarrow> VALUE oprog" where
  "get_closest_object self =
     pbind (typeof self) (\<lambda>t.
       if is_object self
       then (let m = type_code t div 16 * 16
             in if m = SN_NORMAL_OBJECT_TYPE_BASE then pret self
                else if m = SN_THIN_OBJECT_TYPE_BASE then snow_get_prototype t
                else pfail Trap)
       else snow_get_prototype t)"

definition snow_get_member :: "nat \<Rightarrow> ocall \<Rightarrow> VALUE \<Rightarrow> SnSymbol \<Rightarrow> VALUE oprog" where
  "snow_get_member n call self name =
     pbind (get_closest_object self) (\<lambda>closest_object. snow_object_get_member n call closest_object self name)"

definition snow_set_member :: "nat \<Rightarrow> ocall \<Rightarrow> VALUE \<Rightarrow> SnSymbol \<Rightarrow> VALUE \<Rightarrow> VALUE oprog" where
  "snow_set_member n call self name val =
     pbind (passert (is_object self)) (\<lambda>_. pbind (assert_normal self) (\<lambda>_.
       snow_object_set_member n call self self name val))"

subsection \<open>Calls\<close>

primrec push_args :: "SnArguments \<Rightarrow> VALUE list \<Rightarrow> SnArguments result" where
  "push_args args [] = Inr args"
| "push_args args (v # vs) = rbind (snow_arguments_push args v) (\<lambda>(args, _). push_args args vs)"

definition snow_call_va :: "(VALUE \<Rightarrow> VALUE \<Rightarrow> SnArguments \<Rightarrow> VALUE oprog) \<Rightarrow> ocall" where
  "snow_call_va call_with_args self closure vs =
     pbind (plift (push_args (snow_create_arguments_with_size (length vs)) vs)) (call_with_args self closure)"

text \<open>\<open>while (snow_typeof(closure) != SN_FUNCTION_TYPE)\<close>: the object is asked for its
  \<open>__call__\<close> and becomes the receiver.\<close>

fun call_loop :: "nat \<Rightarrow> (VALUE \<Rightarrow> VALUE oprog) \<Rightarrow> VALUE \<Rightarrow> VALUE \<Rightarrow> (VALUE \<times> VALUE) oprog" where
  "call_loop 0 get_call self closure = pfail Undef"
| "call_loop (Suc n) get_call self closure =
     pbind (typeof closure) (\<lambda>t.
       if t = SN_FUNCTION_TYPE then pret (self, closure)
       else pbind (get_call closure) (\<lambda>c.
            if c = 0 then pfail (Raise ''Attempted to call nil.'') else call_loop n get_call closure c))"

fun snow_call_with_args :: "nat \<Rightarrow> env \<Rightarrow> VALUE \<Rightarrow> VALUE \<Rightarrow> SnArguments \<Rightarrow> VALUE oprog" where
  "snow_call_with_args 0 env in_self in_closure args = pfail Undef"
| "snow_call_with_args (Suc n) env in_self in_closure args =
     (if \<not> snow_eval_truth in_closure
      then pfail (Raise (''Attempted to call '' @ (if in_closure = SN_FALSE then ''false'' else ''nil'') @ ''.''))
      else pbind (call_loop n (\<lambda>c. snow_get_member n (snow_call_va (snow_call_with_args n env)) c (e_sym env ''__call__''))
                    in_self in_closure) (\<lambda>(self, closure).
           e_invoke env closure self args))"

definition snow_call :: "nat \<Rightarrow> env \<Rightarrow> ocall" where
  "snow_call n env = snow_call_va (snow_call_with_args n env)"

definition snow_call_method :: "nat \<Rightarrow> env \<Rightarrow> VALUE \<Rightarrow> SnSymbol \<Rightarrow> VALUE list \<Rightarrow> VALUE oprog" where
  "snow_call_method n env self member vs =
     pbind (snow_get_member n (snow_call n env) self member) (\<lambda>method.
       if method = 0 then pfail Trap else snow_call n env self method vs)"

definition snow_get_member_with_fallback :: "nat \<Rightarrow> env \<Rightarrow> VALUE \<Rightarrow> SnSymbol \<Rightarrow> VALUE oprog" where
  "snow_get_member_with_fallback n env self name =
     pbind (get_closest_object self) (\<lambda>closest_object.
     pbind (snow_object_get_member n (snow_call n env) closest_object self name) (\<lambda>member.
       if member \<noteq> 0 then pret member
       else pbind (snow_object_get_member n (snow_call n env) closest_object self (e_sym env ''member_missing'')) (\<lambda>member_missing.
            if member_missing = 0 then pret 0
            else pbind (snow_call n env self member_missing [symbol_to_value name]) (\<lambda>member.
                 pret (if member = SN_NIL then 0 else member)))))"

text \<open>The contents of a string object.\<close>

definition snow_string_cstr :: "VALUE \<Rightarrow> string oprog" where
  "snow_string_cstr v = pbind pget (\<lambda>s. case strings s v of Some str \<Rightarrow> pret str | None \<Rightarrow> pfail Undef)"

definition snow_value_to_cstr :: "nat \<Rightarrow> env \<Rightarrow> VALUE \<Rightarrow> string oprog" where
  "snow_value_to_cstr n env val =
     (let to_string = e_sym env ''to_string''
      in pbind (snow_call_method n env val to_string []) (\<lambda>v.
         pbind (snow_call_method n env v to_string []) (\<lambda>str.
         pbind (assert_type str SN_STRING_TYPE) (\<lambda>_. snow_string_cstr str))))"

definition snow_inspect_value :: "nat \<Rightarrow> env \<Rightarrow> VALUE \<Rightarrow> string oprog" where
  "snow_inspect_value n env val =
     pbind (snow_call_method n env val (e_sym env ''inspect'') []) (\<lambda>v.
     pbind (snow_call_method n env v (e_sym env ''to_string'') []) (\<lambda>str.
     pbind (assert_type str SN_STRING_TYPE) (\<lambda>_. snow_string_cstr str)))"

definition snow_get_member_for_method_call :: "nat \<Rightarrow> env \<Rightarrow> VALUE \<Rightarrow> SnSymbol \<Rightarrow> VALUE oprog" where
  "snow_get_member_for_method_call n env self name =
     pbind (snow_get_member_with_fallback n env self name) (\<lambda>member.
       if member \<noteq> 0 then pret member
       else pbind (snow_inspect_value n env self) (\<lambda>str.
            pfail (Raise (''Cannot call missing member: '' @ e_name env name @ '' on '' @ str))))"

text \<open>\<open>int\<close> is what the result is truncated to.\<close>

definition snow_compare_objects :: "nat \<Rightarrow> env \<Rightarrow> VALUE \<Rightarrow> VALUE \<Rightarrow> int oprog" where
  "snow_compare_objects n env a b =
     pbind (snow_call_method n env a (e_sym env ''<=>'') [b]) (\<lambda>r.
     pbind (passert (is_integer r)) (\<lambda>_. pret (sint (ucast (value_to_int r) :: 32 word))))"

fun chain_loop :: "nat \<Rightarrow> VALUE \<Rightarrow> VALUE \<Rightarrow> bool oprog" where
  "chain_loop 0 proto obj = pfail Undef"
| "chain_loop (Suc n) proto obj =
     (if obj = 0 then pret False
      else pbind (assert_normal obj) (\<lambda>_.
           if obj = proto then pret True
           else pbind (snow_object_is_included n obj proto) (\<lambda>b.
                if b then pret True
                else pbind (deref obj) (\<lambda>ob. chain_loop n proto (o_prototype ob)))))"

definition snow_prototype_chain_contains :: "nat \<Rightarrow> VALUE \<Rightarrow> VALUE \<Rightarrow> bool oprog" where
  "snow_prototype_chain_contains n val proto = pbind (get_closest_object val) (chain_loop n proto)"

subsection \<open>Names given by assignment\<close>

definition snow_is_object_assigned :: "VALUE \<Rightarrow> bool oprog" where
  "snow_is_object_assigned val = pbind pget (\<lambda>s.
     if is_normal s val then pbind (deref val) (\<lambda>ob. pret (o_flags ob AND SN_FLAG_ASSIGNED \<noteq> 0)) else pret True)"

definition snow_set_object_assigned :: "nat \<Rightarrow> env \<Rightarrow> VALUE \<Rightarrow> SnSymbol \<Rightarrow> VALUE \<Rightarrow> VALUE oprog" where
  "snow_set_object_assigned n env val name member_of =
     pbind (snow_is_object_assigned val) (\<lambda>b.
       if b then pret val
       else pbind (update val (\<lambda>ob. ob\<lparr>o_flags := o_flags ob OR SN_FLAG_ASSIGNED\<rparr>)) (\<lambda>_.
            pbind (snow_call_method n env val (e_sym env ''__on_assign__'') [symbol_to_value name, member_of]) (\<lambda>_.
            pret val)))"

definition snow_reset_object_assigned :: "VALUE \<Rightarrow> VALUE oprog" where
  "snow_reset_object_assigned val = pbind pget (\<lambda>s.
     if is_normal s val
     then pbind (update val (\<lambda>ob. ob\<lparr>o_flags := o_flags ob AND NOT SN_FLAG_ASSIGNED\<rparr>)) (\<lambda>_. pret val)
     else pret val)"

subsection \<open>Methods of every object\<close>

definition arg_values :: "SnArguments option \<Rightarrow> VALUE list option" where
  "arg_values args = map_option (\<lambda>a. elems (arg_data a)) args"

definition require :: "SnArguments option \<Rightarrow> nat \<Rightarrow> VALUE list oprog" where
  "require args n = plift (require_args (arg_values args) n)"

definition create_string :: "env \<Rightarrow> string \<Rightarrow> VALUE oprog" where
  "create_string env str = pbind pget (\<lambda>s.
     let p = e_alloc env s
     in pbind (pput (s\<lparr>strings := (strings s)(p \<mapsto> str), thin_type := (thin_type s)(p := SN_STRING_TYPE)\<rparr>)) (\<lambda>_. pret p))"

fun hex_digits :: "nat \<Rightarrow> string" where
  "hex_digits n = (let d = n mod 16; c = char_of (if d < 10 then 48 + d else 87 + d)
                   in if n < 16 then [c] else hex_digits (n div 16) @ [c])"

declare hex_digits.simps [simp del]

text \<open>\<open>snprintf\<close> into 64 bytes keeps 63 characters.\<close>

definition object_inspect :: "nat \<Rightarrow> env \<Rightarrow> VALUE \<Rightarrow> VALUE oprog" where
  "object_inspect n env self =
     (let get = snow_get_member n (snow_call n env)
      in pbind (get self (e_sym env ''class'')) (\<lambda>c.
         pbind (get c (e_sym env ''name'')) (\<lambda>vsym_classname.
         pbind (passert (is_symbol vsym_classname)) (\<lambda>_.
         pbind (get self (e_sym env ''__name__'')) (\<lambda>name.
         pbind (if name \<noteq> 0 then pbind (snow_value_to_cstr n env name) (\<lambda>str. pret (str @ '':'')) else pret []) (\<lambda>prefix.
           create_string env (take 63 (''<'' @ prefix @ e_name env (value_to_symbol vsym_classname) @ ''@0x'' @
             hex_digits (unat self) @ ''>''))))))))"

definition object_equals :: "VALUE \<Rightarrow> SnArguments option \<Rightarrow> VALUE oprog" where
  "object_equals self args = pbind (require args 1) (\<lambda>ARGS. pret (boolean_to_value (self = ARGS ! 0)))"

definition object_not_equals :: "VALUE \<Rightarrow> SnArguments option \<Rightarrow> VALUE oprog" where
  "object_not_equals self args = pbind (require args 1) (\<lambda>ARGS. pret (boolean_to_value (self \<noteq> ARGS ! 0)))"

definition object_name :: "nat \<Rightarrow> env \<Rightarrow> VALUE \<Rightarrow> VALUE oprog" where
  "object_name n env self = snow_get_member n (snow_call n env) self (e_sym env ''__name__'')"

definition object_prototype :: "VALUE \<Rightarrow> VALUE oprog" where
  "object_prototype self = pbind pget (\<lambda>s.
     if is_normal s self then pbind (deref self) (\<lambda>ob. pret (o_prototype ob))
     else pbind (typeof self) snow_get_prototype)"

definition object_reset_assigned_name :: "VALUE \<Rightarrow> VALUE oprog" where
  "object_reset_assigned_name self =
     pbind (assert_normal self) (\<lambda>_.
     pbind (update self (\<lambda>ob. ob\<lparr>o_flags := o_flags ob AND NOT SN_FLAG_ASSIGNED\<rparr>)) (\<lambda>_. pret self))"

text \<open>\<open>ARGS[0]\<close> is read without a check of the number of arguments.\<close>

definition object_on_assign :: "nat \<Rightarrow> env \<Rightarrow> VALUE \<Rightarrow> SnArguments option \<Rightarrow> VALUE oprog" where
  "object_on_assign n env self args =
     pbind (assert_normal self) (\<lambda>_.
     pbind (plift (case args of None \<Rightarrow> Inl Undef | Some a \<Rightarrow> read_slot (a_data (arg_data a)) 0)) (\<lambda>vname.
     pbind (passert (is_symbol vname)) (\<lambda>_.
     pbind (snow_object_set_member n (snow_call n env) self self (e_sym env ''__name__'') vname) (\<lambda>_. pret self))))"

definition object_is_a :: "nat \<Rightarrow> VALUE \<Rightarrow> SnArguments option \<Rightarrow> VALUE oprog" where
  "object_is_a n self args =
     pbind (require args 1) (\<lambda>ARGS.
     let klass = ARGS ! 0
     in pbind (typeof klass) (\<lambda>t.
        pbind (if t = SN_CLASS_TYPE
               then pbind pget (\<lambda>s. case classes s klass of
                      Some c \<Rightarrow> snow_prototype_chain_contains n self (instance_prototype c)
                    | None \<Rightarrow> pfail Undef)
               else pret False) (\<lambda>b.
          if b then pret SN_TRUE
          else pbind pget (\<lambda>s.
               if is_normal s self \<and> is_normal s klass
               then pbind (snow_prototype_chain_contains n self klass) (\<lambda>b.
                    if b then pret SN_TRUE
                    else pbind (snow_object_is_included n self klass) (\<lambda>b.
                         pret (if b then SN_TRUE else SN_FALSE)))
               else pret SN_FALSE))))"

definition object_include :: "nat \<Rightarrow> VALUE \<Rightarrow> SnArguments option \<Rightarrow> VALUE oprog" where
  "object_include n self args =
     pbind (require args 1) (\<lambda>ARGS.
     pbind (assert_normal (ARGS ! 0)) (\<lambda>_.
     pbind (assert_normal self) (\<lambda>_.
     pbind (snow_object_include n self (ARGS ! 0)) (\<lambda>b. pret (boolean_to_value b)))))"

text \<open>A function argument of a property method: a function, or nil for a null pointer.\<close>

definition function_or_null :: "VALUE \<Rightarrow> VALUE oprog" where
  "function_or_null f = (if \<not> is_nil f then pbind (assert_type f SN_FUNCTION_TYPE) (\<lambda>_. pret f) else pret 0)"

definition object_property :: "VALUE \<Rightarrow> SnArguments option \<Rightarrow> VALUE oprog" where
  "object_property self args =
     pbind (require args 3) (\<lambda>ARGS.
     pbind (assert_type (ARGS ! 0) SN_SYMBOL_TYPE) (\<lambda>_.
     pbind (function_or_null (ARGS ! 1)) (\<lambda>getter.
     pbind (function_or_null (ARGS ! 2)) (\<lambda>setter.
     pbind (snow_object_set_property_getter self (value_to_symbol (ARGS ! 0)) getter) (\<lambda>_.
     pbind (snow_object_set_property_setter self (value_to_symbol (ARGS ! 0)) setter) (\<lambda>_. pret self))))))"

definition object_getter :: "VALUE \<Rightarrow> SnArguments option \<Rightarrow> VALUE oprog" where
  "object_getter self args =
     pbind (require args 2) (\<lambda>ARGS.
     pbind (assert_type (ARGS ! 0) SN_SYMBOL_TYPE) (\<lambda>_.
     pbind (function_or_null (ARGS ! 1)) (\<lambda>function.
     pbind (snow_object_set_property_getter self (value_to_symbol (ARGS ! 0)) function) (\<lambda>_. pret self))))"

definition object_setter :: "VALUE \<Rightarrow> SnArguments option \<Rightarrow> VALUE oprog" where
  "object_setter self args =
     pbind (require args 2) (\<lambda>ARGS.
     pbind (assert_type (ARGS ! 0) SN_SYMBOL_TYPE) (\<lambda>_.
     pbind (function_or_null (ARGS ! 1)) (\<lambda>function.
     pbind (snow_object_set_property_setter self (value_to_symbol (ARGS ! 0)) function) (\<lambda>_. pret self))))"

subsection \<open>Classes\<close>

definition class_of :: "VALUE \<Rightarrow> SnClass oprog" where
  "class_of kl = pbind pget (\<lambda>s. case classes s kl of Some c \<Rightarrow> pret c | None \<Rightarrow> pfail Undef)"

definition set_class :: "VALUE \<Rightarrow> SnClass \<Rightarrow> unit oprog" where
  "set_class kl c = pbind pget (\<lambda>s. pput (s\<lparr>classes := (classes s)(kl \<mapsto> c)\<rparr>))"

text \<open>An object of class type in fresh memory, its fields still unset.\<close>

definition alloc_class :: "env \<Rightarrow> VALUE \<Rightarrow> VALUE oprog" where
  "alloc_class env prototype = pbind pget (\<lambda>s.
     let kl = e_alloc env s
     in pbind (pput (s\<lparr>objs := (objs s)(kl \<mapsto> snow_object_init (snow_alloc_any_object SN_CLASS_TYPE) prototype),
                       classes := (classes s)(kl \<mapsto> \<lparr>c_name = uninit, instance_prototype = uninit\<rparr>)\<rparr>)) (\<lambda>_. pret kl))"

definition new_object :: "env \<Rightarrow> VALUE \<Rightarrow> VALUE oprog" where
  "new_object env prototype = pbind pget (\<lambda>s. snow_create_object (e_alloc env s) prototype)"

definition snow_init_class_class :: "nat \<Rightarrow> env \<Rightarrow> VALUE oprog" where
  "snow_init_class_class n env =
     pbind (alloc_class env 0) (\<lambda>kl.
     pbind (new_object env 0) (\<lambda>proto.
     pbind (set_class kl \<lparr>c_name = e_sym env ''Class'', instance_prototype = proto\<rparr>) (\<lambda>_.
     pbind (update kl (\<lambda>ob. ob\<lparr>o_prototype := proto\<rparr>)) (\<lambda>_.
     pbind (snow_set_member n (snow_call n env) proto (e_sym env ''class'') kl) (\<lambda>_. pret kl)))))"

definition snow_create_class :: "nat \<Rightarrow> env \<Rightarrow> string \<Rightarrow> VALUE oprog" where
  "snow_create_class n env name =
     pbind (snow_get_prototype SN_CLASS_TYPE) (\<lambda>class_proto.
     pbind (alloc_class env class_proto) (\<lambda>kl.
     pbind (new_object env 0) (\<lambda>proto.
     pbind (set_class kl \<lparr>c_name = e_sym env name, instance_prototype = proto\<rparr>) (\<lambda>_.
     pbind (snow_set_member n (snow_call n env) proto (e_sym env ''class'') kl) (\<lambda>_. pret kl)))))"

text \<open>\<open>func\<close> creates the function object (\<open>snow_create_function_with_name\<close>).\<close>

definition snow_define_method :: "nat \<Rightarrow> env \<Rightarrow> VALUE \<Rightarrow> string \<Rightarrow> VALUE oprog \<Rightarrow> VALUE oprog" where
  "snow_define_method n env klass name create =
     pbind (assert_type klass SN_CLASS_TYPE) (\<lambda>_.
     pbind (class_of klass) (\<lambda>c.
     pbind (passert (instance_prototype c \<noteq> 0)) (\<lambda>_.
     pbind create (\<lambda>func.
     pbind (class_of klass) (\<lambda>c.
     pbind (snow_set_member n (snow_call n env) (instance_prototype c) (e_sym env name) func) (\<lambda>_. pret func))))))"

definition snow_define_class_method :: "nat \<Rightarrow> env \<Rightarrow> VALUE \<Rightarrow> string \<Rightarrow> VALUE oprog \<Rightarrow> VALUE oprog" where
  "snow_define_class_method n env klass name create =
     pbind (assert_type klass SN_CLASS_TYPE) (\<lambda>_.
     pbind create (\<lambda>func.
     pbind (snow_set_member n (snow_call n env) klass (e_sym env name) func) (\<lambda>_. pret func)))"

definition snow_define_object_property ::
    "env \<Rightarrow> VALUE \<Rightarrow> string \<Rightarrow> VALUE oprog option \<Rightarrow> VALUE oprog option \<Rightarrow> unit oprog" where
  "snow_define_object_property env obj name getter setter =
     pbind (case getter of None \<Rightarrow> pret () | Some create \<Rightarrow>
              pbind create (\<lambda>f. pbind (snow_object_set_property_getter obj (e_sym env name) f) (\<lambda>_. pret ()))) (\<lambda>_.
     case setter of None \<Rightarrow> pret () | Some create \<Rightarrow>
              pbind create (\<lambda>f. pbind (snow_object_set_property_setter obj (e_sym env name) f) (\<lambda>_. pret ())))"

definition snow_define_property ::
    "env \<Rightarrow> VALUE \<Rightarrow> string \<Rightarrow> VALUE oprog option \<Rightarrow> VALUE oprog option \<Rightarrow> unit oprog" where
  "snow_define_property env klass name getter setter =
     pbind (assert_type klass SN_CLASS_TYPE) (\<lambda>_.
     pbind (class_of klass) (\<lambda>c. snow_define_object_property env (instance_prototype c) name getter setter))"

text \<open>A call passes the arguments of the context on; a null pointer is an empty list here.\<close>

definition initialize_with :: "nat \<Rightarrow> env \<Rightarrow> VALUE \<Rightarrow> SnArguments \<Rightarrow> VALUE oprog" where
  "initialize_with n env obj args =
     pbind (snow_object_get_member n (snow_call n env) obj obj (e_sym env ''initialize'')) (\<lambda>initialize.
       if initialize \<noteq> 0 then pbind (snow_call_with_args n env obj initialize args) (\<lambda>_. pret obj)
       else pret obj)"

definition class_new :: "nat \<Rightarrow> env \<Rightarrow> VALUE \<Rightarrow> SnArguments \<Rightarrow> VALUE oprog" where
  "class_new n env self args =
     pbind (assert_type self SN_CLASS_TYPE) (\<lambda>_.
     pbind (class_of self) (\<lambda>c.
     pbind (passert (instance_prototype c \<noteq> 0)) (\<lambda>_.
     pbind (new_object env (instance_prototype c)) (\<lambda>obj. initialize_with n env obj args))))"

definition class_get_name :: "VALUE \<Rightarrow> VALUE oprog" where
  "class_get_name self =
     pbind (assert_type self SN_CLASS_TYPE) (\<lambda>_.
     pbind (class_of self) (\<lambda>c. pret (symbol_to_value (c_name c))))"

definition class_set_name :: "VALUE \<Rightarrow> SnArguments option \<Rightarrow> VALUE oprog" where
  "class_set_name self args =
     pbind (assert_type self SN_CLASS_TYPE) (\<lambda>_.
     pbind (require args 1) (\<lambda>ARGS.
     pbind (assert_type (ARGS ! 0) SN_SYMBOL_TYPE) (\<lambda>_.
     pbind (class_of self) (\<lambda>c.
     pbind (set_class self (c\<lparr>c_name := value_to_symbol (ARGS ! 0)\<rparr>)) (\<lambda>_. pret (ARGS ! 0))))))"

text \<open>The function and the superclass among the arguments of \<open>Class(...)\<close>.\<close>

definition class_arguments :: "VALUE list \<Rightarrow> (VALUE \<times> VALUE) oprog" where
  "class_arguments ARGS = (case ARGS of
      [] \<Rightarrow> pret (0, 0)
    | [a] \<Rightarrow> pbind (typeof a) (\<lambda>t.
        if t = SN_FUNCTION_TYPE then pret (a, 0)
        else if t = SN_CLASS_TYPE then pret (0, a)
        else pfail Trap)
    | a # b # _ \<Rightarrow> pret (b, a))"

definition class_new_class :: "nat \<Rightarrow> env \<Rightarrow> VALUE \<Rightarrow> SnArguments option \<Rightarrow> VALUE oprog" where
  "class_new_class n env self args =
     pbind (assert_type self SN_CLASS_TYPE) (\<lambda>_.
     pbind (snow_create_class n env ''<Anonymous Class>'') (\<lambda>new_class.
     pbind (class_arguments (case arg_values args of None \<Rightarrow> [] | Some vs \<Rightarrow> vs)) (\<lambda>(yield, superclass).
     pbind (class_of new_class) (\<lambda>c.
     pbind (if superclass \<noteq> 0
            then pbind (passert (is_object superclass)) (\<lambda>_.
                 pbind (assert_type superclass SN_CLASS_TYPE) (\<lambda>_.
                 pbind (class_of superclass) (\<lambda>sup.
                 update (instance_prototype c) (\<lambda>ob. ob\<lparr>o_prototype := instance_prototype sup\<rparr>))))
            else pret ()) (\<lambda>_.
     pbind (if yield \<noteq> 0
            then pbind (passert (is_object yield)) (\<lambda>_.
                 pbind (assert_type yield SN_FUNCTION_TYPE) (\<lambda>_.
                 pbind (snow_call n env (instance_prototype c) yield []) (\<lambda>_. pret ())))
            else pret ()) (\<lambda>_.
     pret new_class))))))"

definition class_instance_prototype :: "VALUE \<Rightarrow> VALUE oprog" where
  "class_instance_prototype self =
     pbind (assert_type self SN_CLASS_TYPE) (\<lambda>_.
     pbind (class_of self) (\<lambda>c. pret (instance_prototype c)))"

subsection \<open>Lemmas\<close>

lemma typeof_normal:
  "store_wf s \<Longrightarrow> objs s p = Some ob \<Longrightarrow> typeof p s = Inr (o_type ob, s)"
  using store_wfD(5) normal_type by (simp add: typeof_def)

text \<open>The four types of normal objects.\<close>

definition normal_type_of :: "SnObjectType \<Rightarrow> bool" where
  "normal_type_of t \<longleftrightarrow> t \<in> {SN_OBJECT_TYPE, SN_CLASS_TYPE, SN_FUNCTION_TYPE, SN_EXCEPTION_TYPE}"

lemma get_closest_normal:
  assumes "store_wf s" "objs s p = Some ob" "normal_type_of (o_type ob)"
  shows "get_closest_object p s = Inr (p, s)"
  using typeof_normal [OF assms(1,2)] store_wfD(5) [OF assms(1,2)] assms(3)
  by (auto simp: get_closest_object_def normal_type_of_def SN_NORMAL_OBJECT_TYPE_BASE_def)

lemma snow_get_member_normal:
  assumes "store_wf s" "objs s p = Some ob" "normal_type_of (o_type ob)"
  shows "snow_get_member n call p name s = snow_object_get_member n call p p name s"
  using get_closest_normal [OF assms] by (simp add: snow_get_member_def)

lemma push_args_positional:
  "args_wf args \<Longrightarrow> length (pairs_of args) + length vs < 2 ^ 31 \<Longrightarrow>
   \<exists>args'. push_args args vs = Inr args' \<and> args_wf args' \<and> pairs_of args' = pairs_of args @ map (Pair SN_NIL) vs"
proof (induction vs arbitrary: args)
  case (Cons v vs)
  have "length (pairs_of args) < 2 ^ 31" using Cons.prems(2) by simp
  then obtain a where a: "snow_arguments_push args v = Inr (a, v)" "args_wf a" "pairs_of a = pairs_of args @ [(SN_NIL, v)]"
    using arguments_push_ok [OF Cons.prems(1)] by blast
  have "length (pairs_of a) + length vs < 2 ^ 31" using Cons.prems(2) a(3) by simp
  then show ?case using Cons.IH [OF a(2)] a(1,3) by simp
qed simp

lemma module_loop_empty:
  "objs s p = Some ob \<Longrightarrow> a_size (included_modules ob) = 0 \<Longrightarrow> 0 < k \<Longrightarrow> module_loop look p k 0 s = Inr (0, s)"
  by (cases k) (simp_all add: deref_def array_size_def)

lemma get_without_prototype_absent:
  assumes "store_wf s" "objs s p = Some ob" "elems (included_modules ob) = []" "entry_of s name p = Nothing"
  shows "get_without_prototype (Suc n) call p self name s = Inr (0, s)"
proof -
  note w = store_wfD [OF assms(1,2)]
  obtain v where v: "own_member ob name = Inr v" using own_member_ok [OF assms(1,2)] by blast
  have n: "symbol_to_value name \<notin> set (elems (property_names ob))" "v = 0"
    using assms(2,4) v by (auto simp: entry_of_def split: option.splits if_splits)
  have "a_size (included_modules ob) = 0" using assms(3) length_elems [OF w(3)] by simp
  then have "module_loop look p (2 ^ 32) 0 s = Inr (0, s)" for look
    using module_loop_empty [OF assms(2)] by simp
  then show ?thesis using assms(2) n v w(1) by (simp add: deref_def property_index_def array_find_ok)
qed

lemma get_without_prototype_member:
  assumes "store_wf s" "objs s p = Some ob" "symbol_to_value name \<notin> set (elems (property_names ob))"
    "own_member ob name = Inr v" "v \<noteq> 0"
  shows "get_without_prototype (Suc n) call p self name s = Inr (v, s)"
  using assms store_wfD(1) [OF assms(1,2)] by (simp add: deref_def property_index_def array_find_ok)

lemma call_function:
  assumes "store_wf s" "objs s f = Some ob" "o_type ob = SN_FUNCTION_TYPE"
  shows "snow_call_with_args (Suc (Suc n)) env self f args s = e_invoke env f self args s"
proof -
  have "snow_eval_truth f"
    using store_wfD(5) [OF assms(1,2)]
    by (auto simp: snow_eval_truth_def is_object_def kTypeMask_def SN_NIL_def SN_FALSE_def)
  then show ?thesis using typeof_normal [OF assms(1,2)] assms(3) by simp
qed

lemma class_of_ok: "classes s kl = Some c \<Longrightarrow> class_of kl s = Inr (c, s)"
  by (simp add: class_of_def)

lemma assert_type_ok: "store_wf s \<Longrightarrow> objs s p = Some ob \<Longrightarrow> assert_type p (o_type ob) s = Inr ((), s)"
  by (simp add: assert_type_def typeof_normal)

lemma linear_cong:
  "(\<And>q. is_getter (entry_of s' name q) = is_getter (entry_of s name q)) \<Longrightarrow> (\<And>q. modules_of s' q = modules_of s q) \<Longrightarrow>
   linear n s' name p = linear n s name p"
proof (induction n arbitrary: p)
  case (Suc n)
  then have "linear n s' name = linear n s name" by (simp add: fun_eq_iff)
  with Suc.prems show ?case by simp
qed simp

lemma look_in_one:
  "\<forall>q \<in> set xs. entry_of s name q = Nothing \<or> entry_of s name q = Plain v \<Longrightarrow>
   look_in call self name xs s = Inr (0, s) \<or> look_in call self name xs s = Inr (v, s)"
  by (induction xs) auto

text \<open>
  C4. Method dispatch: a method is defined on a class whose instance prototype, with the
  prototypes it has explicitly, has no property of the name.  Calling that name on an object
  whose prototype is the instance prototype then runs the method's function on that object, with
  the given arguments as positional ones, when neither the object nor any module it includes,
  directly or through others, knows the name.  The fuel is above the number of objects.
\<close>

theorem method_dispatch:
  assumes wf: "store_wf s"
    and K: "objs s K = Some kob" "o_type kob = SN_CLASS_TYPE" "classes s K = Some c"
    and ip: "objs s (instance_prototype c) = Some pob" "no_property n s (e_sym env name) (instance_prototype c)"
    and obj: "objs s p = Some ob" "p \<noteq> instance_prototype c" "o_prototype ob = instance_prototype c" "normal_type_of (o_type ob)"
    and absent: "\<forall>q \<in> set (linear (Suc (Suc m)) s (e_sym env name) p). entry_of s (e_sym env name) q = Nothing"
    and f: "objs s f = Some fob" "o_type fob = SN_FUNCTION_TYPE" and vs: "length vs < 2 ^ 31" and m: "card (dom (objs s)) \<le> m"
  shows "\<exists>s' args. snow_define_method n env K name (pret f) s = Inr (f, s') \<and> store_wf s' \<and>
    args_wf args \<and> pairs_of args = map (Pair SN_NIL) vs \<and>
    snow_call_method (Suc (Suc m)) env p (e_sym env name) vs s' = e_invoke env f p args s'"
proof -
  let ?ip = "instance_prototype c" and ?n = "e_sym env name"
  note wp = store_wfD [OF wf ip(1)]
  obtain mm where mm: "snow_object_set_member n (snow_call n env) ?ip ?ip ?n f s =
      Inr (f, s\<lparr>objs := (objs s)(?ip \<mapsto> pob\<lparr>o_members := Some mm\<rparr>)\<rparr>)" "default_map mm"
      "\<And>k. snow_map_get mm k = (if take_bit 32 k = take_bit 32 (symbol_to_value ?n) then Inr f
            else snow_map_get (own_map pob) k)"
    using set_member_ok [OF wf ip, of "snow_call n env" ?ip f] by blast
  let ?pob = "pob\<lparr>o_members := Some mm\<rparr>"
  define s' where "s' = s\<lparr>objs := (objs s)(?ip \<mapsto> ?pob)\<rparr>"
  have wf': "store_wf s'" unfolding s'_def by (rule store_wf_members [OF wf ip(1) mm(2)])
  have nz: "?ip \<noteq> 0" using wp(5) by (simp add: is_object_def)
  have fnz: "f \<noteq> 0" using store_wfD(5) [OF wf f(1)] by (simp add: is_object_def)
  have "is_normal s ?ip" using wp(5) ip(1) by (simp add: is_normal_def)
  then have def_ok: "snow_define_method n env K name (pret f) s = Inr (f, s')"
    using assert_type_ok [OF wf K(1)] class_of_ok [OF K(3)] K(2) nz mm(1) wp(5)
    by (simp add: snow_define_method_def snow_set_member_def s'_def)
  have p': "objs s' p = Some ob" using obj(1,2) by (simp add: s'_def)
  have ip': "objs s' ?ip = Some ?pob" by (simp add: s'_def)
  obtain fob' where f': "objs s' f = Some fob'" "o_type fob' = SN_FUNCTION_TYPE"
    using f ip(1) by (cases "f = ?ip") (auto simp: s'_def)
  have noprop: "symbol_to_value ?n \<notin> set (elems (property_names ?pob))" using ip by (cases n) auto
  have here: "get_without_prototype (Suc m) call ?ip p ?n s' = Inr (f, s')" for call
    by (rule get_without_prototype_member [OF wf' ip' noprop]) (use mm(3) fnz in \<open>simp_all add: own_member_def\<close>)
  have proto: "prototype_of p s' = Inr (?ip, s')"
    using p' obj(3) nz by (simp add: prototype_of_def deref_def)
  have entry: "entry_of s' ?n q = (if q = ?ip then Plain f else entry_of s ?n q)" for q
  proof (cases "q = ?ip")
    case True
    have "own_member ?pob ?n = Inr f" using mm(3) by (simp add: own_member_def)
    moreover have "index_of (symbol_to_value ?n) (elems (property_names ?pob)) = None"
      using noprop by (simp add: index_of_notin)
    ultimately show ?thesis using True ip' fnz by (simp add: entry_of_def)
  qed (simp add: entry_of_def s'_def)
  have "\<not> is_getter (entry_of s ?n ?ip)"
    using noprop ip by (auto simp: entry_of_def is_getter_def index_of_notin split: option.split sum.split)
  then have "is_getter (entry_of s' ?n q) = is_getter (entry_of s ?n q)" for q
    unfolding entry by (simp add: is_getter_def)
  moreover have "modules_of s' q = modules_of s q" for q by (simp add: s'_def modules_of_def ip(1))
  ultimately have lin: "linear k s' ?n q = linear k s ?n q" for k q by (rule linear_cong)
  have own: "get_without_prototype (Suc (Suc m)) call p p ?n s' \<in> {Inr (0, s'), Inr (f, s')}" for call
  proof -
    have "dom (objs s') = dom (objs s)" using ip(1) by (auto simp: s'_def)
    then have "rank (mods s') p < Suc (Suc m)" using mods_bound(1) [OF wf', of p] m by simp
    moreover have e: "\<forall>q \<in> set (linear (Suc (Suc m)) s ?n p). entry_of s' ?n q = Nothing \<or> entry_of s' ?n q = Plain f"
      using absent entry by (metis (full_types))
    then have "null_keeps call p ?n s' (set (linear (Suc (Suc m)) s ?n p))" unfolding null_keeps_def by (metis entry.distinct)
    ultimately have "get_without_prototype (Suc (Suc m)) call p p ?n s' = look_in call p ?n (linear (Suc (Suc m)) s ?n p) s'"
      using get_without_prototype_ok [OF wf', of p "Suc (Suc m)" call p ?n] p' unfolding lin by simp
    with look_in_one [OF e] show ?thesis by simp
  qed
  have up: "snow_object_get_member (Suc m) call ?ip p ?n s' = Inr (f, s')" for call
    using here fnz by (simp del: get_without_prototype.simps)
  have get: "snow_get_member (Suc (Suc m)) call p ?n s' = Inr (f, s')" for call
    unfolding snow_get_member_normal [OF wf' p' obj(4)]
    by (subst snow_object_get_member.simps(2))
      (use own [of call] up [of call] proto obj(2) [symmetric] fnz in \<open>auto simp: prog_simps simp del: get_without_prototype.simps snow_object_get_member.simps\<close>)
  obtain args where args: "push_args (snow_create_arguments_with_size (length vs)) vs = Inr args" "args_wf args"
      "pairs_of args = map (Pair SN_NIL) vs"
    using push_args_positional [of "snow_create_arguments_with_size (length vs)" vs] vs by auto
  have "snow_call_method (Suc (Suc m)) env p ?n vs s' = e_invoke env f p args s'"
    using get fnz args(1) call_function [OF wf' f']
    by (simp add: snow_call_method_def snow_call_def snow_call_va_def del: snow_call_with_args.simps)
  then show ?thesis using def_ok wf' args by blast
qed

text \<open>
  A class (48) with its instance prototype (32), an object of it (16), a function (64)
  and an object without a prototype of its own (80).
\<close>

definition plain_object :: "SnObjectType \<Rightarrow> VALUE \<Rightarrow> SnObject" where
  "plain_object t proto = snow_object_init (snow_alloc_any_object t) proto"

definition one_class :: store where
  "one_class = \<lparr>objs = [16 \<mapsto> plain_object SN_OBJECT_TYPE 32, 32 \<mapsto> plain_object SN_OBJECT_TYPE 0,
      48 \<mapsto> plain_object SN_CLASS_TYPE 32, 64 \<mapsto> plain_object SN_FUNCTION_TYPE 32,
      80 \<mapsto> plain_object SN_OBJECT_TYPE 0],
    classes = [48 \<mapsto> \<lparr>c_name = 9, instance_prototype = 32\<rparr>], strings = Map.empty,
    thin_type = (\<lambda>_. SN_STRING_TYPE), basic_classes = (\<lambda>_. 48)\<rparr>"

lemma one_class_objs:
  "objs one_class 16 = Some (plain_object SN_OBJECT_TYPE 32)" "objs one_class 32 = Some (plain_object SN_OBJECT_TYPE 0)"
  "objs one_class 48 = Some (plain_object SN_CLASS_TYPE 32)" "objs one_class 64 = Some (plain_object SN_FUNCTION_TYPE 32)"
  "objs one_class 80 = Some (plain_object SN_OBJECT_TYPE 0)"
  "classes one_class 48 = Some \<lparr>c_name = 9, instance_prototype = 32\<rparr>"
  by (simp_all add: one_class_def)

lemma plain_object_simps [simp]:
  "o_type (plain_object t q) = t" "o_prototype (plain_object t q) = q" "o_members (plain_object t q) = None"
  "property_names (plain_object t q) = array_init" "property_data (plain_object t q) = array_init"
  "included_modules (plain_object t q) = array_init" "o_flags (plain_object t q) = SN_FLAG_ASSIGNED"
  by (simp_all add: plain_object_def snow_object_init_def snow_alloc_any_object_def)

lemma one_class_wf: "store_wf one_class"
proof -
  have "mods one_class = {}" by (auto simp: mods_def modules_of_def one_class_def split: if_splits)
  moreover have "protos one_class = {(16, 32), (48, 32), (64, 32), (80, 32)}"
    by (auto simp: protos_def proto_of_def class_prototype_def one_class_def split: if_splits)
  moreover have "acyclic {(16 :: VALUE, 32), (48, 32), (64, 32), (80, 32)}"
    by (rule acyclicI_order [where f = "\<lambda>v. if v = 32 then 0 else 1 :: nat"]) auto
  ultimately show ?thesis unfolding store_wf_def
    by (auto simp: object_wf_def is_normal_def one_class_def class_prototype_def is_object_def kTypeMask_def
        split: if_splits)
qed

definition class_env :: env where
  "class_env = \<lparr>e_sym = (\<lambda>str. of_nat (length str)), e_name = (\<lambda>_. ''f''), e_alloc = (\<lambda>_. 80),
     e_invoke = (\<lambda>f self args s. Inr (self, s))\<rparr>"

lemma method_dispatch_witness:
  "\<exists>s'. snow_define_method 1 class_env 48 ''f'' (pret 64) one_class = Inr (64, s') \<and>
    snow_call_method 7 class_env 16 (e_sym class_env ''f'') [3] s' = Inr (16, s')"
proof -
  have "no_property 1 one_class (e_sym class_env ''f'') 32" by (simp add: one_class_objs)
  moreover have "entry_of one_class (e_sym class_env ''f'') 16 = Nothing"
    by (simp add: entry_of_def one_class_objs own_member_def)
  moreover have "linear (Suc (Suc 5)) one_class (e_sym class_env ''f'') 16 = [16]"
    unfolding linear.simps by (simp add: modules_of_def one_class_objs)
  moreover have "card (dom (objs one_class)) \<le> 5"
    by (simp add: one_class_def)
  ultimately have "\<exists>s' args. snow_define_method 1 class_env 48 ''f'' (pret 64) one_class = Inr (64, s') \<and> store_wf s' \<and>
      args_wf args \<and> pairs_of args = map (Pair SN_NIL) [3] \<and>
      snow_call_method (Suc (Suc 5)) class_env 16 (e_sym class_env ''f'') [3] s' = e_invoke class_env 64 16 args s'"
    by (intro method_dispatch [OF one_class_wf one_class_objs(3) _ one_class_objs(6) _ _ one_class_objs(1) _ _ _ _ one_class_objs(4)])
      (simp_all add: normal_type_of_def one_class_objs)
  moreover have "e_invoke class_env f self args s = Inr (self, s)" for f self args s by (simp add: class_env_def)
  moreover have "Suc (Suc 5) = (7 :: nat)" by simp
  ultimately show ?thesis by auto
qed

text \<open>
  C35. \<open>is_a?\<close> follows the explicit prototypes only: an object without a prototype of its own
  and without modules is no instance of the class of its type, whose instance prototype
  every lookup on it falls back to.
\<close>

theorem is_a_ignores_default_prototype:
  assumes wf: "store_wf s" and p: "objs s p = Some ob" "normal_type_of (o_type ob)" "o_prototype ob = 0"
      "elems (included_modules ob) = []"
    and K: "basic_classes s (o_type ob) = K" "objs s K = Some kob" "o_type kob = SN_CLASS_TYPE" "classes s K = Some c"
    and ne: "p \<noteq> instance_prototype c" "p \<noteq> K" and args: "arg_values args = Some [K]"
  shows "object_is_a (Suc (Suc n)) p args s = Inr (SN_FALSE, s) \<and> prototype_of p s = Inr (instance_prototype c, s)"
proof
  note w = store_wfD [OF wf p(1)]
  have norm: "is_normal s p" "is_normal s K"
    using p(1) K(2) w(5) store_wfD(5) [OF wf K(2)] by (simp_all add: is_normal_def)
  have chain: "snow_prototype_chain_contains (Suc (Suc n)) p q s = Inr (False, s)" if "p \<noteq> q" for q
    using get_closest_normal [OF wf p(1,2)] norm(1) p that
    by (simp add: snow_prototype_chain_contains_def deref_def)
  have "snow_object_is_included (Suc (Suc n)) p K s = Inr (False, s)" using p ne(2) by (simp add: deref_def)
  then show "object_is_a (Suc (Suc n)) p args s = Inr (SN_FALSE, s)"
    using typeof_normal [OF wf K(2)] K chain ne norm args
    by (simp add: object_is_a_def require_def del: snow_object_is_included.simps)
  show "prototype_of p s = Inr (instance_prototype c, s)"
    using proto_normal(2) [OF wf p(1)] p K by (simp add: proto_of_def class_prototype_def)
qed

definition class_args :: SnArguments where
  "class_args = \<lparr>arg_names = \<lparr>a_data = [SN_NIL], a_size = 1, a_alloc = 1\<rparr>,
     arg_data = \<lparr>a_data = [48], a_size = 1, a_alloc = 1\<rparr>\<rparr>"

lemma is_a_ignores_default_prototype_witness:
  "object_is_a 2 80 (Some class_args) one_class = Inr (SN_FALSE, one_class) \<and>
   prototype_of 80 one_class = Inr (32, one_class)"
proof -
  have "basic_classes one_class SN_OBJECT_TYPE = 48" by (simp add: one_class_def)
  moreover have "arg_values (Some class_args) = Some [48]" by (simp add: arg_values_def class_args_def elems_def)
  ultimately have "object_is_a (Suc (Suc 0)) 80 (Some class_args) one_class = Inr (SN_FALSE, one_class) \<and>
      prototype_of 80 one_class = Inr (32, one_class)"
    using is_a_ignores_default_prototype [OF one_class_wf one_class_objs(5) _ _ _ _ one_class_objs(3) _ one_class_objs(6),
        of "Some class_args" 0]
    by (simp add: normal_type_of_def)
  moreover have "Suc (Suc 0) = 2" by simp
  ultimately show ?thesis by metis
qed

end
