(* ===== verification/Contexts.thy ===== *)
theory Contexts
  imports Symbols
begin

text \<open>
  Contexts, functions and scopes (snow/context.c, snow/function.c and the globals of
  snow/snow.c).  The state maps addresses to contexts, function descriptions, functions,
  arrays and argument lists, because they are shared: the names of the locals of a context are
  the array of the description of its function.  \<open>run\<close> runs the code of a function on a
  context; \<open>missing\<close> is the message \<open>local_missing\<close> to a function object.
\<close>

record SnContext =
  static_parent :: VALUE
  c_function :: VALUE
  c_self :: VALUE
  local_names :: VALUE
  locals :: VALUE
  c_args :: VALUE

record SnFunctionDescription =
  d_func :: VALUE
  d_name :: SnSymbol
  defined_locals :: VALUE
  argument_names :: VALUE
  variable_reference_descriptions :: "(nat \<times> nat) list"

record SnFunction =
  f_desc :: VALUE
  declaration_context :: VALUE
  variable_references :: "(VALUE \<times> nat) list"

record scopes =
  contexts :: "VALUE \<rightharpoonup> SnContext"
  descs :: "VALUE \<rightharpoonup> SnFunctionDescription"
  funcs :: "VALUE \<rightharpoonup> SnFunction"
  arrays :: "VALUE \<rightharpoonup> array_t"
  arguments :: "VALUE \<rightharpoonup> SnArguments"
  global_context :: VALUE

type_synonym 'a sprog = "('a, scopes) prog"

text \<open>Addresses of fresh objects, the symbol table, running code, a missing local.\<close>

record scope_env =
  s_alloc :: "scopes \<Rightarrow> VALUE"
  s_sym :: "string \<Rightarrow> SnSymbol"
  s_name :: "SnSymbol \<Rightarrow> string"
  s_run :: "VALUE \<Rightarrow> VALUE \<Rightarrow> VALUE sprog"
  s_missing :: "VALUE \<Rightarrow> SnSymbol \<Rightarrow> VALUE \<Rightarrow> VALUE sprog"
  s_get_member :: "VALUE \<Rightarrow> SnSymbol \<Rightarrow> VALUE sprog"
  s_function_prototype :: VALUE

subsection \<open>Reading and writing through pointers\<close>

definition here :: "('b \<Rightarrow> VALUE \<rightharpoonup> 'c) \<Rightarrow> VALUE \<Rightarrow> ('c, 'b) prog" where
  "here field p s = (case field s p of Some x \<Rightarrow> Inr (x, s) | None \<Rightarrow> Inl Undef)"

definition put_context :: "VALUE \<Rightarrow> SnContext \<Rightarrow> unit sprog" where
  "put_context p c s = Inr ((), s\<lparr>contexts := (contexts s)(p \<mapsto> c)\<rparr>)"

definition put_desc :: "VALUE \<Rightarrow> SnFunctionDescription \<Rightarrow> unit sprog" where
  "put_desc p d s = Inr ((), s\<lparr>descs := (descs s)(p \<mapsto> d)\<rparr>)"

definition put_func :: "VALUE \<Rightarrow> SnFunction \<Rightarrow> unit sprog" where
  "put_func p f s = Inr ((), s\<lparr>funcs := (funcs s)(p \<mapsto> f)\<rparr>)"

definition put_array :: "VALUE \<Rightarrow> array_t \<Rightarrow> unit sprog" where
  "put_array p a s = Inr ((), s\<lparr>arrays := (arrays s)(p \<mapsto> a)\<rparr>)"

definition put_arguments :: "VALUE \<Rightarrow> SnArguments \<Rightarrow> unit sprog" where
  "put_arguments p a s = Inr ((), s\<lparr>arguments := (arguments s)(p \<mapsto> a)\<rparr>)"

definition create_array :: "scope_env \<Rightarrow> nat \<Rightarrow> VALUE sprog" where
  "create_array env n = pbind pget (\<lambda>s.
     pbind (put_array (s_alloc env s) (array_init_with_size n)) (\<lambda>_. pret (s_alloc env s)))"

text \<open>\<open>snow_array_find\<close>, \<open>snow_array_get\<close>, \<open>snow_array_set\<close>, \<open>snow_array_find_or_add\<close>.\<close>

definition sn_array_find :: "VALUE \<Rightarrow> VALUE \<Rightarrow> int sprog" where
  "sn_array_find p v = pbind (here arrays p) (\<lambda>a. plift (array_find a v))"

definition sn_array_get :: "VALUE \<Rightarrow> int \<Rightarrow> VALUE sprog" where
  "sn_array_get p i = pbind (here arrays p) (\<lambda>a. plift (array_get a i))"

definition sn_array_set :: "VALUE \<Rightarrow> int \<Rightarrow> VALUE \<Rightarrow> VALUE sprog" where
  "sn_array_set p i v =
     pbind (here arrays p) (\<lambda>a. pbind (plift (array_set a i v)) (\<lambda>(a, v). pbind (put_array p a) (\<lambda>_. pret v)))"

definition sn_array_find_or_add :: "VALUE \<Rightarrow> VALUE \<Rightarrow> int sprog" where
  "sn_array_find_or_add p v =
     pbind (here arrays p) (\<lambda>a. pbind (plift (array_find_or_add a v)) (\<lambda>(a, i). pbind (put_array p a) (\<lambda>_. pret i)))"

definition sn_array_size :: "VALUE \<Rightarrow> nat sprog" where
  "sn_array_size p = pbind (here arrays p) (\<lambda>a. pret (array_size a))"

definition sassert :: "bool \<Rightarrow> unit sprog" where
  "sassert b = plift (assert_ok b)"

subsection \<open>Contexts\<close>

definition snow_create_context :: "scope_env \<Rightarrow> VALUE \<Rightarrow> VALUE sprog" where
  "snow_create_context env parent =
     pbind pget (\<lambda>s. let ctx = s_alloc env s
       in pbind (put_context ctx \<lparr>static_parent = parent, c_function = 0, c_self = 0, local_names = 0,
                   locals = uninit, c_args = 0\<rparr>) (\<lambda>_.
          pbind (create_array env 0) (\<lambda>ls.
          pbind (here contexts ctx) (\<lambda>c. pbind (put_context ctx (c\<lparr>locals := ls\<rparr>)) (\<lambda>_. pret ctx)))))"

definition snow_create_context_for_function :: "scope_env \<Rightarrow> VALUE \<Rightarrow> VALUE sprog" where
  "snow_create_context_for_function env func =
     pbind pget (\<lambda>s. let ctx = s_alloc env s
       in pbind (here funcs func) (\<lambda>f.
          pbind (here descs (f_desc f)) (\<lambda>d.
          pbind (put_context ctx \<lparr>static_parent = declaration_context f, c_function = func, c_self = 0,
                   local_names = defined_locals d, locals = uninit, c_args = 0\<rparr>) (\<lambda>_.
          pbind (sn_array_size (defined_locals d)) (\<lambda>n.
          pbind (create_array env n) (\<lambda>ls.
          pbind (here contexts ctx) (\<lambda>c. pbind (put_context ctx (c\<lparr>locals := ls\<rparr>)) (\<lambda>_. pret ctx))))))))"

definition snow_context_get_local_local :: "VALUE \<Rightarrow> SnSymbol \<Rightarrow> VALUE sprog" where
  "snow_context_get_local_local ctx name =
     pbind (here contexts ctx) (\<lambda>c.
       if local_names c \<noteq> 0 \<and> locals c \<noteq> 0
       then pbind (sn_array_find (local_names c) (symbol_to_value name)) (\<lambda>idx.
            if to_int32 idx \<ge> 0 then sn_array_get (locals c) (to_int32 idx) else pret 0)
       else pret 0)"

definition snow_context_local_missing :: "scope_env \<Rightarrow> VALUE \<Rightarrow> SnSymbol \<Rightarrow> VALUE sprog" where
  "snow_context_local_missing env ctx name =
     pbind (here contexts ctx) (\<lambda>c.
       s_missing env (if c_function c = 0 then s_function_prototype env else c_function c) name (c_self c))"

text \<open>The loop over the static parents: a value found, or the last context of the chain.\<close>

fun get_local_loop :: "nat \<Rightarrow> VALUE \<Rightarrow> SnSymbol \<Rightarrow> VALUE \<Rightarrow> (VALUE \<times> VALUE) sprog" where
  "get_local_loop 0 ctx name last_ctx = pfail Undef"
| "get_local_loop (Suc n) ctx name last_ctx =
     (if ctx = 0 then pret (0, last_ctx)
      else pbind (snow_context_get_local_local ctx name) (\<lambda>val.
           if val \<noteq> 0 then pret (val, last_ctx)
           else pbind (here contexts ctx) (\<lambda>c. get_local_loop n (static_parent c) name ctx)))"

text \<open>
  The call on the global context, when the chain did not end there: its own loop ends in the
  global context, or the recursion does not end.
\<close>

fun snow_context_get_local :: "nat \<Rightarrow> scope_env \<Rightarrow> VALUE \<Rightarrow> SnSymbol \<Rightarrow> VALUE sprog" where
  "snow_context_get_local 0 env ctx name = pfail Undef"
| "snow_context_get_local (Suc n) env ctx name =
     pbind (get_local_loop (Suc n) ctx name 0) (\<lambda>(val, last_ctx).
       if val \<noteq> 0 then pret val
       else pbind pget (\<lambda>s.
            if last_ctx \<noteq> global_context s then snow_context_get_local n env (global_context s) name
            else snow_context_local_missing env ctx name))"

definition snow_context_set_local_local :: "scope_env \<Rightarrow> VALUE \<Rightarrow> SnSymbol \<Rightarrow> VALUE \<Rightarrow> VALUE sprog" where
  "snow_context_set_local_local env ctx name val =
     pbind (here contexts ctx) (\<lambda>c.
     pbind (if local_names c = 0
            then pbind (sassert (c_function c = 0)) (\<lambda>_. pbind (create_array env 0) (\<lambda>ns.
                 pbind (put_context ctx (c\<lparr>local_names := ns\<rparr>)) (\<lambda>_. pret (c\<lparr>local_names := ns\<rparr>))))
            else pret c) (\<lambda>c.
     pbind (if locals c = 0
            then pbind (create_array env 0) (\<lambda>ls.
                 pbind (put_context ctx (c\<lparr>locals := ls\<rparr>)) (\<lambda>_. pret (c\<lparr>locals := ls\<rparr>)))
            else pret c) (\<lambda>c.
     pbind (sn_array_find_or_add (local_names c) (symbol_to_value name)) (\<lambda>idx.
     sn_array_set (locals c) idx val))))"

fun set_local_loop :: "nat \<Rightarrow> VALUE \<Rightarrow> SnSymbol \<Rightarrow> VALUE \<Rightarrow> VALUE option sprog" where
  "set_local_loop 0 ctx name val = pfail Undef"
| "set_local_loop (Suc n) ctx name val =
     (if ctx = 0 then pret None
      else pbind (here contexts ctx) (\<lambda>c.
           pbind (if local_names c \<noteq> 0 \<and> locals c \<noteq> 0
                  then sn_array_find (local_names c) (symbol_to_value name) else pret (-1)) (\<lambda>idx.
             if idx \<ge> 0 then pbind (sn_array_set (locals c) idx val) (\<lambda>v. pret (Some v))
             else set_local_loop n (static_parent c) name val)))"

definition snow_context_set_local :: "nat \<Rightarrow> scope_env \<Rightarrow> VALUE \<Rightarrow> SnSymbol \<Rightarrow> VALUE \<Rightarrow> VALUE sprog" where
  "snow_context_set_local n env ctx name val =
     pbind (set_local_loop n ctx name val) (\<lambda>r. case r of
       Some v \<Rightarrow> pret v
     | None \<Rightarrow> snow_context_set_local_local env ctx name val)"

subsection \<open>Globals\<close>

definition snow_get_global :: "SnSymbol \<Rightarrow> VALUE sprog" where
  "snow_get_global name = pbind pget (\<lambda>s. snow_context_get_local_local (global_context s) name)"

definition snow_get_global_from_context :: "scope_env \<Rightarrow> SnSymbol \<Rightarrow> VALUE \<Rightarrow> VALUE sprog" where
  "snow_get_global_from_context env name ctx =
     pbind (snow_get_global name) (\<lambda>val. if val \<noteq> 0 then pret val else snow_context_local_missing env ctx name)"

definition snow_set_global :: "scope_env \<Rightarrow> SnSymbol \<Rightarrow> VALUE \<Rightarrow> VALUE sprog" where
  "snow_set_global env name val = pbind pget (\<lambda>s. snow_context_set_local_local env (global_context s) name val)"

definition snow_set_global_from_context :: "scope_env \<Rightarrow> SnSymbol \<Rightarrow> VALUE \<Rightarrow> VALUE \<Rightarrow> VALUE sprog" where
  "snow_set_global_from_context env name val ctx = snow_set_global env name val"

definition snow_get_unspecified_local_from_context :: "scope_env \<Rightarrow> SnSymbol \<Rightarrow> VALUE \<Rightarrow> VALUE sprog" where
  "snow_get_unspecified_local_from_context env name ctx =
     pbind (here contexts ctx) (\<lambda>c.
     pbind (if c_self c \<noteq> 0 then s_get_member env (c_self c) name else pret 0) (\<lambda>member.
       if member \<noteq> 0 then pret member
       else pbind (snow_get_global name) (\<lambda>member.
            if member \<noteq> 0 then pret member else snow_context_local_missing env ctx name)))"

definition context_get_function :: "VALUE \<Rightarrow> VALUE sprog" where
  "context_get_function self = pbind (here contexts self) (\<lambda>c. pret (c_function c))"

definition context_get_arguments :: "VALUE \<Rightarrow> VALUE sprog" where
  "context_get_arguments self = pbind (here contexts self) (\<lambda>c. pret (c_args c))"

subsection \<open>Functions\<close>

definition snow_create_function_description :: "scope_env \<Rightarrow> VALUE \<Rightarrow> VALUE sprog" where
  "snow_create_function_description env func =
     pbind pget (\<lambda>s. let desc = s_alloc env s
       in pbind (put_desc desc \<lparr>d_func = func, d_name = s_sym env ''<unnamed>'', defined_locals = uninit,
                   argument_names = uninit, variable_reference_descriptions = []\<rparr>) (\<lambda>_.
          pbind (create_array env 0) (\<lambda>ls.
          pbind (here descs desc) (\<lambda>d.
          pbind (put_desc desc (d\<lparr>defined_locals := ls, argument_names := 0\<rparr>)) (\<lambda>_. pret desc)))))"

definition snow_function_description_define_local :: "VALUE \<Rightarrow> SnSymbol \<Rightarrow> int sprog" where
  "snow_function_description_define_local desc name =
     pbind (here descs desc) (\<lambda>d.
     pbind (sn_array_find (defined_locals d) (symbol_to_value name)) (\<lambda>idx.
       if idx < 0
       then pbind (here arrays (defined_locals d)) (\<lambda>a.
            pbind (plift (array_push a (symbol_to_value name))) (\<lambda>(a', _).
            pbind (put_array (defined_locals d) a') (\<lambda>_. pret (int (array_size a)))))
       else pret idx))"

definition snow_function_description_get_local_index :: "VALUE \<Rightarrow> SnSymbol \<Rightarrow> int sprog" where
  "snow_function_description_get_local_index desc name =
     pbind (here descs desc) (\<lambda>d. sn_array_find (defined_locals d) (symbol_to_value name))"

text \<open>The number of references is a 16-bit counter; the block is reallocated to its size.\<close>

definition snow_function_description_add_variable_reference :: "VALUE \<Rightarrow> nat \<Rightarrow> nat \<Rightarrow> nat sprog" where
  "snow_function_description_add_variable_reference desc level index =
     pbind (here descs desc) (\<lambda>d.
       let idx = length (variable_reference_descriptions d)
       in if idx + 1 < 2 ^ 16
          then pbind (put_desc desc (d\<lparr>variable_reference_descriptions :=
                 variable_reference_descriptions d @ [(level mod 2 ^ 32, index mod 2 ^ 32)]\<rparr>)) (\<lambda>_. pret idx)
          else pfail Undef)"

definition snow_create_function_from_description :: "scope_env \<Rightarrow> VALUE \<Rightarrow> VALUE sprog" where
  "snow_create_function_from_description env desc =
     pbind (here descs desc) (\<lambda>d.
     pbind (sassert (d_func d \<noteq> 0)) (\<lambda>_.
     pbind pget (\<lambda>s. let func = s_alloc env s
       in pbind (put_func func \<lparr>f_desc = desc, declaration_context = 0,
            variable_references = replicate (length (variable_reference_descriptions d)) (0, 0)\<rparr>) (\<lambda>_. pret func))))"

definition snow_create_function :: "scope_env \<Rightarrow> VALUE \<Rightarrow> VALUE sprog" where
  "snow_create_function env func =
     pbind (snow_create_function_description env func) (snow_create_function_from_description env)"

definition snow_create_function_with_name :: "scope_env \<Rightarrow> VALUE \<Rightarrow> string \<Rightarrow> VALUE sprog" where
  "snow_create_function_with_name env func name =
     pbind (snow_create_function_description env func) (\<lambda>desc.
     pbind (here descs desc) (\<lambda>d.
     pbind (put_desc desc (d\<lparr>d_name := s_sym env name\<rparr>)) (\<lambda>_.
     snow_create_function_from_description env desc)))"

text \<open>\<open>for (i = 1; i < level; ++i)\<close>: \<open>k\<close> turns.\<close>

primrec up_levels :: "nat \<Rightarrow> VALUE \<Rightarrow> VALUE sprog" where
  "up_levels 0 ctx = pret ctx"
| "up_levels (Suc k) ctx =
     pbind (sassert (ctx \<noteq> 0)) (\<lambda>_.
     pbind (here contexts ctx) (\<lambda>c.
     pbind (here funcs (c_function c)) (\<lambda>f. up_levels k (declaration_context f))))"

definition context_at_level :: "VALUE \<Rightarrow> nat \<Rightarrow> VALUE sprog" where
  "context_at_level level1 level = up_levels (level - 1) level1"

text \<open>The loop over the references; the index kept is 16 bits wide.\<close>

fun resolve_references :: "VALUE \<Rightarrow> VALUE \<Rightarrow> (nat \<times> nat) list \<Rightarrow> nat \<Rightarrow> unit sprog" where
  "resolve_references func context [] i = pret ()"
| "resolve_references func context ((level, index) # ds) i =
     pbind (sassert (level \<noteq> 0)) (\<lambda>_.
     pbind (context_at_level context level) (\<lambda>ctx.
     pbind (here funcs func) (\<lambda>f.
     pbind (plift (write_slot (variable_references f) i (ctx, index mod 2 ^ 16))) (\<lambda>refs.
     pbind (put_func func (f\<lparr>variable_references := refs\<rparr>)) (\<lambda>_.
     resolve_references func context ds (Suc i))))))"

definition snow_function_declared_in_context :: "VALUE \<Rightarrow> VALUE \<Rightarrow> unit sprog" where
  "snow_function_declared_in_context func context =
     pbind (here funcs func) (\<lambda>f.
     pbind (put_func func (f\<lparr>declaration_context := context\<rparr>)) (\<lambda>_.
     pbind (here descs (f_desc f)) (\<lambda>d.
     resolve_references func context (variable_reference_descriptions d) 0)))"

definition snow_function_get_referenced_variable :: "VALUE \<Rightarrow> nat \<Rightarrow> VALUE sprog" where
  "snow_function_get_referenced_variable func idx =
     pbind (here funcs func) (\<lambda>f.
     pbind (sassert (idx < length (variable_references f))) (\<lambda>_.
     pbind (here contexts (fst (variable_references f ! idx))) (\<lambda>c.
     pbind (sn_array_get (locals c) (int (snd (variable_references f ! idx)))) (\<lambda>var.
     pbind (sassert (var \<noteq> 0)) (\<lambda>_. pret var)))))"

definition snow_function_set_referenced_variable :: "VALUE \<Rightarrow> nat \<Rightarrow> VALUE \<Rightarrow> VALUE sprog" where
  "snow_function_set_referenced_variable func idx val =
     pbind (here funcs func) (\<lambda>f.
     pbind (sassert (idx < length (variable_references f))) (\<lambda>_.
     pbind (here contexts (fst (variable_references f ! idx))) (\<lambda>c.
     sn_array_set (locals c) (int (snd (variable_references f ! idx))) val)))"

subsection \<open>Calls\<close>

text \<open>The loop that binds the named arguments; the size is read again at every turn.\<close>

fun bind_arguments :: "scope_env \<Rightarrow> VALUE \<Rightarrow> VALUE \<Rightarrow> nat \<Rightarrow> nat \<Rightarrow> unit sprog" where
  "bind_arguments env context names 0 i = pfail Undef"
| "bind_arguments env context names (Suc k) i =
     pbind (sn_array_size names) (\<lambda>n.
       if \<not> i < n then pret ()
       else pbind (sn_array_get names (int i)) (\<lambda>vsym.
            pbind (sassert (is_symbol vsym)) (\<lambda>_.
            pbind (here contexts context) (\<lambda>c.
            pbind (here arguments (c_args c)) (\<lambda>args.
            pbind (plift (snow_arguments_add_name args (value_to_symbol vsym))) (\<lambda>(args, idx).
            pbind (put_arguments (c_args c) args) (\<lambda>_.
            pbind (plift (snow_arguments_get_by_index args idx)) (\<lambda>arg.
            pbind (snow_context_set_local_local env context (value_to_symbol vsym) (if arg \<noteq> 0 then arg else SN_NIL)) (\<lambda>_.
            bind_arguments env context names k (Suc i))))))))))"

definition function_setup_context :: "scope_env \<Rightarrow> VALUE \<Rightarrow> VALUE \<Rightarrow> unit sprog" where
  "function_setup_context env func context =
     pbind (sassert (context \<noteq> 0)) (\<lambda>_.
     pbind (here contexts context) (\<lambda>c.
     pbind (if c_args c \<noteq> 0
            then pbind (here arguments (c_args c)) (\<lambda>args. plift (snow_arguments_get_by_index args 0))
            else pret 0) (\<lambda>it.
     pbind (snow_context_set_local_local env context (s_sym env ''it'') (if it \<noteq> 0 then it else SN_NIL)) (\<lambda>_.
     pbind (here contexts context) (\<lambda>c.
     pbind (here funcs func) (\<lambda>f.
     pbind (if c_self c = 0 \<and> declaration_context f \<noteq> 0
            then pbind (here contexts (declaration_context f)) (\<lambda>d. put_context context (c\<lparr>c_self := c_self d\<rparr>))
            else pret ()) (\<lambda>_.
     pbind (here descs (f_desc f)) (\<lambda>d.
       if argument_names d \<noteq> 0 then bind_arguments env context (argument_names d) (2 ^ 32) 0 else pret ()))))))))"

definition snow_function_call :: "scope_env \<Rightarrow> VALUE \<Rightarrow> VALUE \<Rightarrow> VALUE sprog" where
  "snow_function_call env func context =
     pbind (function_setup_context env func context) (\<lambda>_.
     pbind (here funcs func) (\<lambda>f.
     pbind (here descs (f_desc f)) (\<lambda>d.
     pbind (s_run env (d_func d) context) (\<lambda>ret. pret (if ret \<noteq> 0 then ret else SN_NIL)))))"

definition function_local_missing :: "scope_env \<Rightarrow> VALUE list option \<Rightarrow> VALUE sprog" where
  "function_local_missing env args =
     pbind (plift (require_args args 2)) (\<lambda>ARGS.
     pbind (sassert (is_symbol (ARGS ! 0))) (\<lambda>_.
     let self = ARGS ! 1; name = value_to_symbol (ARGS ! 0)
     in pbind (if self \<noteq> 0 then s_get_member env self name else pret 0) (\<lambda>member.
          if member \<noteq> 0 then pret member
          else pbind (snow_get_global name) (\<lambda>member.
               if member \<noteq> 0 then pret member
               else pfail (Raise (''Local missing: `'' @ s_name env name @ [CHR 0x27]))))))"

text \<open>
  The body of \<open>snow_invoke_parallel_threads\<close> for one function: it runs in a context of its
  own with the receiver and the arguments of the context it was called in.
\<close>

definition invoke_parallel_thread_function :: "scope_env \<Rightarrow> VALUE list \<Rightarrow> nat \<Rightarrow> VALUE \<Rightarrow> VALUE sprog" where
  "invoke_parallel_thread_function env functions idx context =
     pbind (plift (read_slot functions idx)) (\<lambda>desc.
     pbind (snow_create_function_from_description env desc) (\<lambda>func.
     pbind (snow_function_declared_in_context func context) (\<lambda>_.
     pbind (snow_create_context_for_function env func) (\<lambda>ctx.
     pbind (here contexts context) (\<lambda>outer.
     pbind (here contexts ctx) (\<lambda>c.
     pbind (put_context ctx (c\<lparr>c_self := c_self outer, c_args := c_args outer\<rparr>)) (\<lambda>_.
     snow_function_call env func ctx)))))))"

subsection \<open>Scopes\<close>

definition array_at :: "scopes \<Rightarrow> VALUE \<Rightarrow> bool" where
  "array_at s p \<longleftrightarrow> (case arrays s p of Some a \<Rightarrow> array_wf a \<and> a_size a < 2 ^ 31 | None \<Rightarrow> False)"

definition elems_at :: "scopes \<Rightarrow> VALUE \<Rightarrow> VALUE list" where
  "elems_at s p = (case arrays s p of Some a \<Rightarrow> elems a | None \<Rightarrow> [])"

text \<open>
  Names may be shared by the contexts of one function; the values of the locals of a context
  are its own.
\<close>

definition scopes_wf :: "scopes \<Rightarrow> bool" where
  "scopes_wf s \<longleftrightarrow> (\<forall>p c. contexts s p = Some c \<longrightarrow>
     array_at s (local_names c) \<and> array_at s (locals c) \<and> local_names c \<noteq> 0 \<and> locals c \<noteq> 0 \<and>
     (\<forall>q d. contexts s q = Some d \<longrightarrow> locals c \<noteq> local_names d \<and> (q \<noteq> p \<longrightarrow> locals c \<noteq> locals d)))"

definition slot_of :: "scopes \<Rightarrow> VALUE \<Rightarrow> SnSymbol \<Rightarrow> nat option" where
  "slot_of s p name = (case contexts s p of
      Some c \<Rightarrow> index_of (symbol_to_value name) (elems_at s (local_names c)) | None \<Rightarrow> None)"

definition values_of :: "scopes \<Rightarrow> VALUE \<Rightarrow> VALUE list" where
  "values_of s p = (case contexts s p of Some c \<Rightarrow> elems_at s (locals c) | None \<Rightarrow> [])"

definition local_of :: "scopes \<Rightarrow> VALUE \<Rightarrow> SnSymbol \<Rightarrow> VALUE" where
  "local_of s p name = (case slot_of s p name of
      Some i \<Rightarrow> if i < length (values_of s p) then values_of s p ! i else 0 | None \<Rightarrow> 0)"

fun static_chain :: "scopes \<Rightarrow> VALUE \<Rightarrow> VALUE list \<Rightarrow> bool" where
  "static_chain s p [] \<longleftrightarrow> p = 0"
| "static_chain s p (q # qs) \<longleftrightarrow> p = q \<and> p \<noteq> 0 \<and>
     (case contexts s p of Some c \<Rightarrow> static_chain s (static_parent c) qs | None \<Rightarrow> False)"

lemma scopes_wfD:
  assumes "scopes_wf s" "contexts s p = Some c"
  obtains ns ls where "arrays s (local_names c) = Some ns" "array_wf ns" "a_size ns < 2 ^ 31"
    "arrays s (locals c) = Some ls" "array_wf ls" "a_size ls < 2 ^ 31" "local_names c \<noteq> 0" "locals c \<noteq> 0"
proof -
  have "array_at s (local_names c)" "array_at s (locals c)" "local_names c \<noteq> 0" "locals c \<noteq> 0"
    using assms by (auto simp: scopes_wf_def)
  then show thesis using that by (auto simp: array_at_def split: option.splits)
qed

lemma index_of_less: "index_of x xs = Some i \<Longrightarrow> i < length xs"
  using index_of_SomeD by metis

lemma list_get_set:
  "list_get (list_set xs (int i) v) (int j) =
     (if j = i then v else if j < length xs then xs ! j else if j < i then SN_NIL else 0)"
  by (auto simp: list_get_def list_set_def list_grow_def norm_idx_def nth_append nth_list_update Let_def)

lemma list_get_nat: "list_get xs (int i) = (if i < length xs then xs ! i else 0)"
  by (simp add: list_get_def norm_idx_def)

lemma local_eq: "local_of s q m = (case slot_of s q m of Some i \<Rightarrow> list_get (values_of s q) (int i) | None \<Rightarrow> 0)"
  by (simp add: local_of_def list_get_nat split: option.split)

lemma find_local_ok:
  assumes "scopes_wf s" "contexts s p = Some c"
  shows "sn_array_find (local_names c) (symbol_to_value name) s =
      Inr (case slot_of s p name of Some i \<Rightarrow> int i | None \<Rightarrow> -1, s)"
    "slot_of s p name = Some i \<Longrightarrow> i < 2 ^ 31"
proof -
  obtain ns where ns: "arrays s (local_names c) = Some ns" "array_wf ns" "a_size ns < 2 ^ 31"
    using scopes_wfD [OF assms] by blast
  show "sn_array_find (local_names c) (symbol_to_value name) s =
      Inr (case slot_of s p name of Some i \<Rightarrow> int i | None \<Rightarrow> -1, s)"
    using ns assms(2) by (simp add: sn_array_find_def here_def slot_of_def elems_at_def array_find_ok split: option.split)
  show "i < 2 ^ 31" if "slot_of s p name = Some i"
    using index_of_less [of "symbol_to_value name" "elems ns" i] that ns assms(2) length_elems [OF ns(2)]
    by (simp add: slot_of_def elems_at_def)
qed

lemma get_local_local_ok:
  assumes "scopes_wf s" "contexts s p = Some c"
  shows "snow_context_get_local_local p name s = Inr (local_of s p name, s)"
proof -
  obtain ls where ls: "arrays s (locals c) = Some ls" "array_wf ls" "local_names c \<noteq> 0" "locals c \<noteq> 0"
    using scopes_wfD [OF assms] by blast
  show ?thesis
  proof (cases "slot_of s p name")
    case None
    then show ?thesis using assms(2) ls find_local_ok(1) [OF assms, of name]
      by (simp add: snow_context_get_local_local_def here_def local_of_def)
  next
    case (Some i)
    then have "to_int32 (int i) = int i" using find_local_ok(2) [OF assms Some] by simp
    then show ?thesis using Some assms(2) ls find_local_ok(1) [OF assms, of name]
      by (simp add: snow_context_get_local_local_def here_def local_of_def values_of_def elems_at_def sn_array_get_def
          array_get_ok list_get_nat)
  qed
qed

lemma get_local_loop_ok:
  assumes wf: "scopes_wf s"
  shows "static_chain s p (ds @ d # es) \<Longrightarrow> \<forall>x \<in> set ds. local_of s x name = 0 \<Longrightarrow> local_of s d name \<noteq> 0 \<Longrightarrow>
    length ds < n \<Longrightarrow> \<exists>l. get_local_loop n p name l0 s = Inr ((local_of s d name, l), s)"
proof (induction ds arbitrary: p n l0)
  case Nil
  then obtain c where "contexts s p = Some c" "p = d" "p \<noteq> 0" by (auto split: option.splits)
  then show ?case using get_local_local_ok [OF wf, of p c name] Nil by (cases n) simp_all
next
  case (Cons x ds)
  then obtain c where c: "contexts s p = Some c" "p = x" "p \<noteq> 0" "static_chain s (static_parent c) (ds @ d # es)"
    by (auto split: option.splits)
  obtain m where m: "n = Suc m" "length ds < m" using Cons.prems(4) by (cases n) auto
  have "\<exists>l. get_local_loop m (static_parent c) name p s = Inr ((local_of s d name, l), s)"
    using Cons.IH [OF c(4)] Cons.prems(2,3) m(2) by simp
  then show ?case using get_local_local_ok [OF wf c(1), of name] c Cons.prems(2) m(1) by (auto simp: here_def)
qed

definition store_local :: "VALUE \<Rightarrow> nat \<Rightarrow> VALUE \<Rightarrow> scopes \<Rightarrow> scopes \<Rightarrow> bool" where
  "store_local d i val s s' \<longleftrightarrow> (\<exists>c a. contexts s d = Some c \<and> array_wf a \<and> a_size a < 2 ^ 31 \<and>
     elems a = list_set (elems_at s (locals c)) (int i) val \<and> s' = s\<lparr>arrays := (arrays s)(locals c \<mapsto> a)\<rparr>)"

lemma set_local_loop_ok:
  assumes wf: "scopes_wf s"
  shows "static_chain s p (ds @ d # es) \<Longrightarrow> \<forall>x \<in> set ds. slot_of s x name = None \<Longrightarrow> slot_of s d name = Some i \<Longrightarrow>
    length ds < n \<Longrightarrow> i < 2 ^ 31 - 1 \<Longrightarrow>
    \<exists>s'. set_local_loop n p name val s = Inr (Some val, s') \<and> store_local d i val s s'"
proof (induction ds arbitrary: p n)
  case Nil
  then obtain c where c: "contexts s p = Some c" "p = d" "p \<noteq> 0" by (auto split: option.splits)
  obtain ls where ls: "arrays s (locals c) = Some ls" "array_wf ls" "a_size ls < 2 ^ 31" "local_names c \<noteq> 0" "locals c \<noteq> 0"
    using scopes_wfD [OF wf c(1)] by blast
  obtain a where a: "array_set ls (int i) val = Inr (a, val)" "array_wf a" "elems a = list_set (elems ls) (int i) val"
    using array_set_ok [OF ls(2), of "int i" val] Nil.prems(5) by auto
  have "length (elems a) < 2 ^ 31"
    unfolding a(3) using ls(3) Nil.prems(5) length_elems [OF ls(2)] by (simp add: list_set_def norm_idx_def)
  then have "a_size a < 2 ^ 31" using length_elems [OF a(2)] by simp
  then have "store_local d i val s (s\<lparr>arrays := (arrays s)(locals c \<mapsto> a)\<rparr>)"
    unfolding store_local_def using c ls(1) a by (auto simp: elems_at_def)
  moreover have "set_local_loop n p name val s = Inr (Some val, s\<lparr>arrays := (arrays s)(locals c \<mapsto> a)\<rparr>)"
    using Nil.prems(3,4) c ls a find_local_ok(1) [OF wf c(1), of name]
    by (cases n) (simp_all add: here_def sn_array_set_def put_array_def)
  ultimately show ?case by blast
next
  case (Cons x ds)
  then obtain c where c: "contexts s p = Some c" "p = x" "p \<noteq> 0" "static_chain s (static_parent c) (ds @ d # es)"
    by (auto split: option.splits)
  obtain m where m: "n = Suc m" "length ds < m" using Cons.prems(4) by (cases n) auto
  obtain s' where s': "set_local_loop m (static_parent c) name val s = Inr (Some val, s')" "store_local d i val s s'"
    using Cons.IH [OF c(4)] Cons.prems(2,3,5) m(2) by auto
  have "local_names c \<noteq> 0" "locals c \<noteq> 0" using scopes_wfD [OF wf c(1)] by auto
  then have "set_local_loop n p name val s = Inr (Some val, s')"
    using s'(1) find_local_ok(1) [OF wf c(1), of name] c Cons.prems(2) m(1) by (simp add: here_def)
  then show ?case using s'(2) by blast
qed

lemma store_local_effect:
  assumes wf: "scopes_wf s" and st: "store_local d i val s s'"
  shows "scopes_wf s'" "contexts s' = contexts s" "slot_of s' q m = slot_of s q m"
    "local_of s' q m = (if q = d then (case slot_of s d m of None \<Rightarrow> 0 | Some j \<Rightarrow>
        if j = i then val else if j < length (values_of s d) then values_of s d ! j else if j < i then SN_NIL else 0)
      else local_of s q m)"
proof -
  obtain c a where c: "contexts s d = Some c" "array_wf a" "a_size a < 2 ^ 31"
      "elems a = list_set (elems_at s (locals c)) (int i) val" "s' = s\<lparr>arrays := (arrays s)(locals c \<mapsto> a)\<rparr>"
    using st by (auto simp: store_local_def)
  have sep: "locals c \<noteq> local_names e" "q \<noteq> d \<Longrightarrow> locals c \<noteq> locals e" if "contexts s q = Some e" for q e
    using wf c(1) that by (auto simp: scopes_wf_def)
  show ctx: "contexts s' = contexts s" by (simp add: c(5))
  have at: "array_at s' p" if "array_at s p" for p using that c by (auto simp: array_at_def)
  show "scopes_wf s'" unfolding scopes_wf_def ctx using wf at by (auto simp: scopes_wf_def)
  have "((arrays s)(locals c \<mapsto> a)) (local_names e) = arrays s (local_names e)" if "contexts s q = Some e" for q e
    using sep(1) [OF that] by simp
  then have slot: "slot_of s' q m = slot_of s q m" for q
    by (auto simp: slot_of_def ctx elems_at_def c(5) split: option.split)
  show "slot_of s' q m = slot_of s q m" by (rule slot)
  have v: "values_of s' d = list_set (values_of s d) (int i) val"
    using c by (simp add: values_of_def elems_at_def)
  have "((arrays s)(locals c \<mapsto> a)) (locals e) = arrays s (locals e)" if "contexts s q = Some e" "q \<noteq> d" for q e
    using sep(2) [OF that] by simp
  then have v': "values_of s' q = values_of s q" if "q \<noteq> d"
    using that by (auto simp: values_of_def ctx elems_at_def c(5) split: option.split)
  show "local_of s' q m = (if q = d then (case slot_of s d m of None \<Rightarrow> 0 | Some j \<Rightarrow>
        if j = i then val else if j < length (values_of s d) then values_of s d ! j else if j < i then SN_NIL else 0)
      else local_of s q m)"
  proof (cases "q = d")
    case True
    then show ?thesis by (simp add: local_eq slot v list_get_set split: option.split)
  next
    case False
    then show ?thesis using v' by (simp add: local_eq slot split: option.split)
  qed
qed


subsection \<open>Properties\<close>

text \<open>
  C11. Assignment to a local: it goes to the nearest context on the static chain that
  declares the name, a read of that name through the same chain then gives the value (which is not the null word,
  that no Snow value is), and no other context changes; in that context, every other local that
  had a value keeps it, and a declared local without a value before the assigned one becomes nil.
\<close>

theorem context_set_then_get:
  assumes wf: "scopes_wf s" and chain: "static_chain s p (ds @ d # es)"
    and decl: "\<forall>x \<in> set ds. slot_of s x name = None" "slot_of s d name = Some i"
    and bounds: "length ds < n" "i < 2 ^ 31 - 1" "val \<noteq> 0"
  shows "\<exists>s'. snow_context_set_local n env p name val s = Inr (val, s') \<and> scopes_wf s' \<and>
    snow_context_get_local n env p name s' = Inr (val, s') \<and>
    (\<forall>q m. q \<noteq> d \<longrightarrow> local_of s' q m = local_of s q m) \<and>
    (\<forall>m j. slot_of s d m = Some j \<longrightarrow> j \<noteq> i \<longrightarrow>
       local_of s' d m = (if local_of s d m = 0 \<and> length (values_of s d) \<le> j \<and> j < i then SN_NIL else local_of s d m))"
proof -
  obtain s' where s': "set_local_loop n p name val s = Inr (Some val, s')" "store_local d i val s s'"
    using set_local_loop_ok [OF wf chain decl bounds(1,2)] by blast
  note e = store_local_effect [OF wf s'(2)]
  have chain': "static_chain s' p (ds @ d # es)"
  proof -
    have "static_chain s' q qs = static_chain s q qs" for q qs
      by (induction qs arbitrary: q) (auto simp: e(2) split: option.split)
    then show ?thesis using chain by simp
  qed
  have "local_of s' x name = 0" if "x \<in> set ds" for x
  proof -
    have "slot_of s' x name = None" using decl(1) that e(3) by simp
    then show ?thesis by (simp add: local_of_def)
  qed
  moreover have d: "local_of s' d name = val" using e(4) [of d name] decl(2) by simp
  ultimately obtain l where l: "get_local_loop n p name 0 s' = Inr ((val, l), s')"
    using get_local_loop_ok [OF e(1) chain', of name n 0] bounds(1,3) by auto
  have get: "snow_context_get_local n env p name s' = Inr (val, s')"
    using l bounds(1,3) by (cases n) (simp_all del: get_local_loop.simps)
  have "local_of s' d m = (if local_of s d m = 0 \<and> length (values_of s d) \<le> j \<and> j < i then SN_NIL else local_of s d m)"
    if "slot_of s d m = Some j" "j \<noteq> i" for m j
    using e(4) [of d m] that by (auto simp: local_of_def)
  moreover have "local_of s' q m = local_of s q m" if "q \<noteq> d" for q m using e(4) [of q m] that by simp
  ultimately show ?thesis
    using s'(1) e(1) get by (intro exI [of _ s']) (simp add: snow_context_set_local_def)
qed

text \<open>A function context (16) with locals of two names, declared in a global context (32).\<close>

definition one_array :: "VALUE list \<Rightarrow> array_t" where
  "one_array vs = \<lparr>a_data = vs, a_size = length vs, a_alloc = length vs\<rparr>"

definition two_contexts :: scopes where
  "two_contexts = \<lparr>
    contexts = [16 \<mapsto> \<lparr>static_parent = 32, c_function = 48, c_self = 0, local_names = 112, locals = 128, c_args = 0\<rparr>,
                32 \<mapsto> \<lparr>static_parent = 0, c_function = 0, c_self = 0, local_names = 144, locals = 160, c_args = 0\<rparr>],
    descs = Map.empty,
    funcs = [48 \<mapsto> \<lparr>f_desc = 64, declaration_context = 32, variable_references = []\<rparr>],
    arrays = [112 \<mapsto> one_array [symbol_to_value 1, symbol_to_value 2], 128 \<mapsto> one_array [],
              144 \<mapsto> one_array [symbol_to_value 1], 160 \<mapsto> one_array [7]],
    arguments = Map.empty, global_context = 32\<rparr>"

lemma one_array_wf [simp]: "length vs < 2 ^ 32 \<Longrightarrow> array_wf (one_array vs)" "elems (one_array vs) = vs"
  "a_size (one_array vs) = length vs"
  by (simp_all add: one_array_def array_wf_def elems_def)

lemma two_contexts_wf: "scopes_wf two_contexts" "static_chain two_contexts 16 [16, 32]"
  "slot_of two_contexts 16 1 = Some 0" "slot_of two_contexts 16 2 = Some 1" "values_of two_contexts 16 = []"
proof -
  have "symbol_to_value 1 \<noteq> symbol_to_value 2" using symbol_to_value_inj [of 1 2] by simp
  then show "slot_of two_contexts 16 1 = Some 0" "slot_of two_contexts 16 2 = Some 1" "values_of two_contexts 16 = []"
    by (simp_all add: two_contexts_def slot_of_def values_of_def elems_at_def)
  show "scopes_wf two_contexts" by (auto simp: scopes_wf_def two_contexts_def array_at_def split: if_splits)
  show "static_chain two_contexts 16 [16, 32]" by (simp add: two_contexts_def)
qed

text \<open>
  Assigning the second local of the function makes the first one nil, although it had no
  value and a read of it gave the global one (7).
\<close>

lemma context_set_then_get_witness:
  "\<forall>env. \<exists>s'. snow_context_set_local 3 env 16 2 9 two_contexts = Inr (9, s') \<and>
    snow_context_get_local 3 env 16 2 s' = Inr (9, s') \<and> local_of two_contexts 16 1 = 0 \<and> local_of s' 16 1 = SN_NIL"
proof
  fix env
  have "local_of two_contexts 16 1 = 0" using two_contexts_wf(3,5) by (simp add: local_of_def)
  then show "\<exists>s'. snow_context_set_local 3 env 16 2 9 two_contexts = Inr (9, s') \<and>
      snow_context_get_local 3 env 16 2 s' = Inr (9, s') \<and> local_of two_contexts 16 1 = 0 \<and> local_of s' 16 1 = SN_NIL"
    using context_set_then_get [OF two_contexts_wf(1), of 16 "[]" 16 "[32]" 2 1 3 9 env] two_contexts_wf(2-5)
    by fastforce
qed

end
