(* ===== verification/Strings.thy ===== *)
theory Strings
  imports Symbols LinkBuffer
begin

text \<open>
  Strings and string buffers (snow/str.c).  The heap maps addresses to strings and arrays;
  calls into the program, member access, the symbol table and \<open>mblen\<close> of the C library
  (the length of the character at the start of some bytes) are parameters.  A byte is a
  character; a buffer on the stack is a list of fixed length, and a copy past its end has no
  meaning.
\<close>

record SnString =
  s_data :: string
  s_size :: nat
  s_length :: nat

record heap =
  h_strings :: "VALUE \<rightharpoonup> SnString"
  h_arrays :: "VALUE \<rightharpoonup> array_t"
  h_maps :: "VALUE \<rightharpoonup> SnMap"
  h_arguments :: "VALUE \<rightharpoonup> SnArguments"
  h_type :: "VALUE \<Rightarrow> SnObjectType"

type_synonym 'a hprog = "('a, heap) prog"

record henv =
  h_alloc :: "heap \<Rightarrow> VALUE"
  h_call :: "VALUE \<Rightarrow> VALUE \<Rightarrow> VALUE list \<Rightarrow> VALUE hprog"
  h_method :: "VALUE \<Rightarrow> string \<Rightarrow> VALUE list \<Rightarrow> VALUE hprog"
  h_get_member :: "VALUE \<Rightarrow> string \<Rightarrow> VALUE hprog"
  h_set_member :: "VALUE \<Rightarrow> string \<Rightarrow> VALUE \<Rightarrow> VALUE hprog"
  h_global :: "string \<Rightarrow> VALUE hprog"
  h_symbol_name :: "SnSymbol \<Rightarrow> string"
  mblen :: "string \<Rightarrow> int"

definition hassert :: "bool \<Rightarrow> unit hprog" where
  "hassert b = plift (assert_ok b)"

definition load :: "(heap \<Rightarrow> VALUE \<rightharpoonup> 'c) \<Rightarrow> VALUE \<Rightarrow> 'c hprog" where
  "load field p s = (case field s p of Some x \<Rightarrow> Inr (x, s) | None \<Rightarrow> Inl Undef)"

definition htypeof :: "VALUE \<Rightarrow> SnObjectType hprog" where
  "htypeof v = pbind pget (\<lambda>s. plift (snow_typeof (h_type s) v))"

definition hassert_type :: "VALUE \<Rightarrow> SnObjectType \<Rightarrow> unit hprog" where
  "hassert_type v t = pbind (htypeof v) (\<lambda>t'. hassert (t' = t))"

definition put_string :: "VALUE \<Rightarrow> SnString \<Rightarrow> unit hprog" where
  "put_string p str s = Inr ((), s\<lparr>h_strings := (h_strings s)(p \<mapsto> str), h_type := (h_type s)(p := SN_STRING_TYPE)\<rparr>)"

definition put_harray :: "VALUE \<Rightarrow> array_t \<Rightarrow> unit hprog" where
  "put_harray p a s = Inr ((), s\<lparr>h_arrays := (h_arrays s)(p \<mapsto> a), h_type := (h_type s)(p := SN_ARRAY_TYPE)\<rparr>)"

subsection \<open>Creating strings\<close>

text \<open>
  The number of characters: \<open>i\<close> is the position in the bytes, \<open>n\<close> the bytes left; both are
  moved by what \<open>mblen\<close> returns, \<open>-1\<close> for an invalid sequence and 0 for a null
  character included.  No fuel is left only when the loop takes longer.
\<close>

fun strlen_loop :: "nat \<Rightarrow> (string \<Rightarrow> int) \<Rightarrow> string \<Rightarrow> int \<Rightarrow> int \<Rightarrow> nat \<Rightarrow> nat option" where
  "strlen_loop 0 mb data i n len = None"
| "strlen_loop (Suc k) mb data i n len =
     (if n = 0 then Some len
      else let char_size = mb (take (nat n) (drop (nat i) data))
           in strlen_loop k mb data (i + char_size) (n - char_size) (Suc len))"

definition strlen_locale :: "henv \<Rightarrow> string \<Rightarrow> nat \<Rightarrow> nat result" where
  "strlen_locale env data num_bytes = (case strlen_loop (num_bytes + 1) (mblen env) data 0 (int num_bytes) 0 of
      Some n \<Rightarrow> Inr n | None \<Rightarrow> Inl Undef)"

definition new_string :: "henv \<Rightarrow> string \<Rightarrow> VALUE hprog" where
  "new_string env bytes =
     pbind pget (\<lambda>s. let p = h_alloc env s
       in pbind (plift (strlen_locale env bytes (length bytes))) (\<lambda>n.
          pbind (put_string p \<lparr>s_data = bytes, s_size = length bytes mod 2 ^ 32, s_length = n mod 2 ^ 32\<rparr>) (\<lambda>_. pret p)))"

text \<open>A C string ends at its first null byte.\<close>

definition c_string :: "string \<Rightarrow> string" where
  "c_string cs = takeWhile (\<lambda>c. c \<noteq> CHR 0x00) cs"

definition snow_create_string :: "henv \<Rightarrow> string \<Rightarrow> VALUE hprog" where
  "snow_create_string env cstr_utf8 = new_string env (c_string cstr_utf8)"

definition snow_create_string_from_data :: "henv \<Rightarrow> string \<Rightarrow> nat \<Rightarrow> VALUE hprog" where
  "snow_create_string_from_data env bytes num_bytes =
     (if num_bytes \<le> length bytes then new_string env (take num_bytes bytes) else pfail Undef)"

definition snow_create_string_from_linkbuffer :: "henv \<Rightarrow> SnLinkBuffer \<Rightarrow> VALUE hprog" where
  "snow_create_string_from_linkbuffer env buffer =
     (let len = snow_linkbuffer_size buffer
      in pbind (plift (snow_linkbuffer_copy_data buffer (replicate (len + 1) 0xcd) len)) (\<lambda>(bytes, _).
         new_string env (map (\<lambda>b. char_of (unat b)) (take len bytes))))"

subsection \<open>Buffers on the stack\<close>

definition vla :: "nat \<Rightarrow> string" where
  "vla n = replicate n (CHR 0xcd)"

definition blit :: "string \<Rightarrow> nat \<Rightarrow> string \<Rightarrow> string result" where
  "blit buf p bytes = (if p + length bytes \<le> length buf
     then Inr (take p buf @ bytes @ drop (p + length bytes) buf) else Inl Undef)"

subsection \<open>Formatting\<close>

fun count_insertions :: "string \<Rightarrow> nat" where
  "count_insertions [] = 0"
| "count_insertions [c] = 0"
| "count_insertions (c # d # cs) =
     (if c = CHR ''%'' \<and> d = CHR ''@'' then Suc (count_insertions cs) else count_insertions (d # cs))"

fun format_args :: "henv \<Rightarrow> VALUE list \<Rightarrow> string list hprog" where
  "format_args env [] = pret []"
| "format_args env (v # vs) =
     pbind (h_method env v ''to_string'' []) (\<lambda>p. pbind (load h_strings p) (\<lambda>str.
     pbind (format_args env vs) (\<lambda>rest. pret (s_data str # rest))))"

text \<open>\<open>for (i = 0; i < result_len;)\<close>; past the end of the format it reads other memory.\<close>

fun format_fill :: "string \<Rightarrow> string list \<Rightarrow> string \<Rightarrow> nat \<Rightarrow> nat \<Rightarrow> string result" where
  "format_fill [] ins buf i n = (if i < n then Inl Undef else Inr buf)"
| "format_fill [c] ins buf i n =
     (if i < n then rbind (blit buf i [c]) (\<lambda>buf. format_fill [] ins buf (i + 1) n) else Inr buf)"
| "format_fill (c # d # cs) ins buf i n =
     (if \<not> i < n then Inr buf
      else if c = CHR ''%'' \<and> d = CHR ''@''
      then (case ins of [] \<Rightarrow> Inl Undef
            | x # ins \<Rightarrow> rbind (blit buf i x) (\<lambda>buf. format_fill cs ins buf (i + length x) n))
      else rbind (blit buf i [c]) (\<lambda>buf. format_fill (d # cs) ins buf (i + 1) n))"

definition snow_format_string :: "henv \<Rightarrow> string \<Rightarrow> VALUE list \<Rightarrow> VALUE hprog" where
  "snow_format_string env format vs =
     (let num_insertions = count_insertions format
      in if length vs < num_insertions then pfail Undef
         else pbind (format_args env (take num_insertions vs)) (\<lambda>insertions.
              let result_len = (length format - num_insertions * 2) + sum_list (map length insertions)
              in pbind (plift (format_fill format insertions (vla (result_len + 1)) 0 result_len)) (\<lambda>buffer.
                 pbind (plift (blit buffer result_len [CHR 0x00])) (\<lambda>buffer.
                 snow_create_string_from_data env buffer result_len))))"

subsection \<open>Methods of strings\<close>

text \<open>Only the sign of \<open>strcmp\<close> is specified; bytes compare as unsigned.\<close>

fun strcmp :: "string \<Rightarrow> string \<Rightarrow> int" where
  "strcmp [] [] = 0"
| "strcmp [] (d # ds) = -1"
| "strcmp (c # cs) [] = 1"
| "strcmp (c # cs) (d # ds) =
     (if of_char c < (of_char d :: nat) then -1 else if of_char d < (of_char c :: nat) then 1 else strcmp cs ds)"

definition snow_string_compare :: "VALUE \<Rightarrow> VALUE \<Rightarrow> int hprog" where
  "snow_string_compare a b =
     pbind (load h_strings a) (\<lambda>a. pbind (load h_strings b) (\<lambda>b.
     pret (strcmp (c_string (s_data a)) (c_string (s_data b)))))"

definition snow_string_concatenate :: "henv \<Rightarrow> VALUE \<Rightarrow> VALUE \<Rightarrow> VALUE hprog" where
  "snow_string_concatenate env a b =
     pbind (load h_strings a) (\<lambda>sa. pbind (load h_strings b) (\<lambda>sb.
     pbind (plift (blit (vla (s_size sa + s_size sb + 1)) 0 (take (s_size sa) (s_data sa)))) (\<lambda>buf.
     pbind (plift (blit buf (s_size sa) (take (s_size sb) (s_data sb)))) (\<lambda>buf.
     pbind (plift (blit buf (s_size sa + s_size sb) [CHR 0x00])) (\<lambda>buf.
     new_string env (take (s_size sa + s_size sb) buf))))))"

definition string_to_string :: "VALUE \<Rightarrow> VALUE hprog" where
  "string_to_string self = pbind (hassert_type self SN_STRING_TYPE) (\<lambda>_. pret self)"

definition string_inspect :: "henv \<Rightarrow> VALUE \<Rightarrow> VALUE hprog" where
  "string_inspect env self =
     pbind (hassert_type self SN_STRING_TYPE) (\<lambda>_.
     pbind (load h_strings self) (\<lambda>str. let len = s_size str
       in pbind (plift (blit (vla (len + 3)) 1 (take len (s_data str)))) (\<lambda>buf.
          pbind (plift (blit buf 0 [CHR 0x22])) (\<lambda>buf.
          pbind (plift (blit buf (len + 1) [CHR 0x22])) (\<lambda>buf.
          pbind (plift (blit buf (len + 2) [CHR 0x00])) (\<lambda>buf.
          snow_create_string env buf))))))"

definition string_compare :: "VALUE \<Rightarrow> VALUE list option \<Rightarrow> VALUE hprog" where
  "string_compare self args =
     pbind (hassert_type self SN_STRING_TYPE) (\<lambda>_.
     pbind (plift (require_args args 1)) (\<lambda>ARGS.
     pbind (hassert_type (ARGS ! 0) SN_STRING_TYPE) (\<lambda>_.
     pbind (snow_string_compare self (ARGS ! 0)) (\<lambda>n. pret (int_to_value (word_of_int n))))))"

definition string_equals :: "henv \<Rightarrow> VALUE \<Rightarrow> VALUE list option \<Rightarrow> VALUE hprog" where
  "string_equals env self args =
     pbind (plift (require_args args 1)) (\<lambda>ARGS.
     pbind (h_method env self ''<=>'' [ARGS ! 0]) (\<lambda>comparison.
     pret (boolean_to_value (comparison = int_to_value 0))))"

definition string_size :: "VALUE \<Rightarrow> VALUE hprog" where
  "string_size self =
     pbind (hassert_type self SN_STRING_TYPE) (\<lambda>_.
     pbind (load h_strings self) (\<lambda>str. pret (int_to_value (of_nat (s_size str)))))"

definition string_length :: "VALUE \<Rightarrow> VALUE hprog" where
  "string_length self =
     pbind (hassert_type self SN_STRING_TYPE) (\<lambda>_.
     pbind (load h_strings self) (\<lambda>str. pret (int_to_value (of_nat (s_length str)))))"

text \<open>\<open>+\<close> makes a string buffer of the two.\<close>

definition string_concatenate :: "henv \<Rightarrow> VALUE \<Rightarrow> VALUE list option \<Rightarrow> VALUE hprog" where
  "string_concatenate env self args =
     pbind (hassert_type self SN_STRING_TYPE) (\<lambda>_.
     pbind (plift (require_args args 1)) (\<lambda>ARGS.
     pbind (h_global env ''StringBuffer'') (\<lambda>buffer_class.
     h_call env 0 buffer_class [self, ARGS ! 0])))"

definition call_to_string :: "henv \<Rightarrow> VALUE \<Rightarrow> VALUE hprog" where
  "call_to_string env self =
     pbind (htypeof self) (\<lambda>t.
     pbind (if t = SN_STRING_TYPE then pret self else h_method env self ''to_string'' []) (\<lambda>str.
     pbind (hassert_type str SN_STRING_TYPE) (\<lambda>_. pret str)))"

subsection \<open>Arrays of values\<close>

definition snow_create_array :: "henv \<Rightarrow> VALUE hprog" where
  "snow_create_array env = pbind pget (\<lambda>s. pbind (put_harray (h_alloc env s) array_init) (\<lambda>_. pret (h_alloc env s)))"

definition snow_create_array_with_size :: "henv \<Rightarrow> nat \<Rightarrow> VALUE hprog" where
  "snow_create_array_with_size env n =
     pbind (snow_create_array env) (\<lambda>p.
     pbind (put_harray p (array_init_with_size (if n = 0 then 8 else n))) (\<lambda>_. pret p))"

definition snow_array_get :: "VALUE \<Rightarrow> int \<Rightarrow> VALUE hprog" where
  "snow_array_get p idx = pbind (load h_arrays p) (\<lambda>a. plift (array_get a idx))"

definition snow_array_set :: "VALUE \<Rightarrow> int \<Rightarrow> VALUE \<Rightarrow> VALUE hprog" where
  "snow_array_set p idx v =
     pbind (load h_arrays p) (\<lambda>a. pbind (plift (array_set a idx v)) (\<lambda>(a, v). pbind (put_harray p a) (\<lambda>_. pret v)))"

definition snow_array_size :: "VALUE \<Rightarrow> nat hprog" where
  "snow_array_size p = pbind (load h_arrays p) (\<lambda>a. pret (array_size a))"

definition snow_array_push :: "VALUE \<Rightarrow> VALUE \<Rightarrow> VALUE hprog" where
  "snow_array_push p v = pbind (snow_array_size p) (\<lambda>n. snow_array_set p (int n) v)"

definition snow_array_clear :: "VALUE \<Rightarrow> unit hprog" where
  "snow_array_clear p = pbind (load h_arrays p) (\<lambda>a. pbind (plift (array_clear a)) (put_harray p))"

primrec push_strings :: "henv \<Rightarrow> VALUE \<Rightarrow> VALUE list \<Rightarrow> unit hprog" where
  "push_strings env p [] = pret ()"
| "push_strings env p (v # vs) =
     pbind (call_to_string env v) (\<lambda>str. pbind (snow_array_push p str) (\<lambda>_. push_strings env p vs))"

subsection \<open>String buffers\<close>

definition string_buffer_initialize :: "henv \<Rightarrow> VALUE \<Rightarrow> VALUE list \<Rightarrow> VALUE hprog" where
  "string_buffer_initialize env self args =
     pbind (snow_create_array_with_size env (length args)) (\<lambda>strings.
     pbind (push_strings env strings args) (\<lambda>_.
     pbind (h_set_member env self ''_strings'' strings) (\<lambda>_. pret self)))"

definition string_buffer_append :: "henv \<Rightarrow> VALUE \<Rightarrow> VALUE list \<Rightarrow> VALUE hprog" where
  "string_buffer_append env self args =
     pbind (h_get_member env self ''_strings'') (\<lambda>strings.
     pbind (hassert_type strings SN_ARRAY_TYPE) (\<lambda>_.
     pbind (push_strings env strings args) (\<lambda>_. pret self)))"

text \<open>The strings of an array, each checked; the loops over them read the array as it is.\<close>

fun load_strings :: "VALUE list \<Rightarrow> SnString list hprog" where
  "load_strings [] = pret []"
| "load_strings (p # ps) =
     pbind (hassert_type p SN_STRING_TYPE) (\<lambda>_.
     pbind (load h_strings p) (\<lambda>str. pbind (load_strings ps) (\<lambda>strs. pret (str # strs))))"

fun copy_strings :: "SnString list \<Rightarrow> string \<Rightarrow> nat \<Rightarrow> (string \<times> nat) result" where
  "copy_strings [] buf p = Inr (buf, p)"
| "copy_strings (str # strs) buf p =
     rbind (blit buf p (take (s_size str) (s_data str))) (\<lambda>buf. copy_strings strs buf (p + s_size str))"

definition string_buffer_to_string :: "henv \<Rightarrow> VALUE \<Rightarrow> VALUE hprog" where
  "string_buffer_to_string env self =
     pbind (h_get_member env self ''_strings'') (\<lambda>strings.
     pbind (hassert_type strings SN_ARRAY_TYPE) (\<lambda>_.
     pbind (load h_arrays strings) (\<lambda>a.
     pbind (load_strings (elems a)) (\<lambda>strs.
     let total = sum_list (map s_size strs)
     in pbind (plift (copy_strings strs (vla (total + 1)) 0)) (\<lambda>(buffer, _).
        pbind (plift (blit buffer total [CHR 0x00])) (\<lambda>buffer.
        pbind (snow_create_string_from_data env buffer total) (\<lambda>result.
        pbind (snow_create_array_with_size env 1) (\<lambda>strings.
        pbind (snow_array_push strings result) (\<lambda>_.
        pbind (h_set_member env self ''_strings'' strings) (\<lambda>_. pret result))))))))))"

definition string_buffer_length :: "henv \<Rightarrow> VALUE \<Rightarrow> VALUE hprog" where
  "string_buffer_length env self =
     pbind (h_get_member env self ''_strings'') (\<lambda>strings.
     pbind (hassert_type strings SN_ARRAY_TYPE) (\<lambda>_.
     pbind (load h_arrays strings) (\<lambda>a.
     pbind (load_strings (elems a)) (\<lambda>strs. pret (int_to_value (of_nat (sum_list (map s_size strs))))))))"

definition string_buffer_clear :: "henv \<Rightarrow> VALUE \<Rightarrow> VALUE hprog" where
  "string_buffer_clear env self =
     pbind (h_get_member env self ''_strings'') (\<lambda>strings.
     pbind (hassert_type strings SN_ARRAY_TYPE) (\<lambda>_.
     pbind (snow_array_clear strings) (\<lambda>_. pret SN_NIL)))"

end
