(* ===== verification/Collections.thy ===== *)
theory Collections
  imports Strings
begin

text \<open>
  The methods of arrays (snow/array.c), the join of an array and the printing of maps and
  argument lists, on the heap of \<open>Strings\<close>.  A closure is called between two reads of an
  array and may change it, so every loop reads the array from the heap again; the loops run
  as long as the index is below the size, at most \<open>2 ^ 32\<close> turns.
\<close>

subsection \<open>Arrays\<close>

definition snow_copy_array :: "henv \<Rightarrow> VALUE list \<Rightarrow> VALUE hprog" where
  "snow_copy_array env data =
     pbind (snow_create_array_with_size env (length data)) (\<lambda>p.
     pbind (load h_arrays p) (\<lambda>a.
     pbind (plift (rfor 0 (length data) (\<lambda>i d. write_slot d i (data ! i)) (a_data a))) (\<lambda>d.
     pbind (put_harray p (a\<lparr>a_data := d, a_size := length data mod 2 ^ 32\<rparr>)) (\<lambda>_. pret p))))"

text \<open>An array over memory that belongs to the caller.\<close>

definition snow_ref_array :: "henv \<Rightarrow> VALUE list \<Rightarrow> nat \<Rightarrow> VALUE hprog" where
  "snow_ref_array env data n =
     pbind (snow_create_array env) (\<lambda>p.
     pbind (put_harray p \<lparr>a_data = data, a_size = n mod 2 ^ 32, a_alloc = 0\<rparr>) (\<lambda>_. pret p))"

definition snow_array_pop :: "VALUE \<Rightarrow> VALUE hprog" where
  "snow_array_pop p =
     pbind (load h_arrays p) (\<lambda>a. pbind (plift (array_pop a)) (\<lambda>(a, v). pbind (put_harray p a) (\<lambda>_. pret v)))"

definition snow_array_find :: "VALUE \<Rightarrow> VALUE \<Rightarrow> int hprog" where
  "snow_array_find p v = pbind (load h_arrays p) (\<lambda>a. plift (array_find a v))"

definition snow_array_find_or_add :: "VALUE \<Rightarrow> VALUE \<Rightarrow> int hprog" where
  "snow_array_find_or_add p v =
     pbind (load h_arrays p) (\<lambda>a. pbind (plift (array_find_or_add a v)) (\<lambda>(a, i). pbind (put_harray p a) (\<lambda>_. pret i)))"

text \<open>The data pointer read at an index, without a check.\<close>

definition data_at :: "VALUE \<Rightarrow> nat \<Rightarrow> VALUE hprog" where
  "data_at p i = pbind (load h_arrays p) (\<lambda>a. plift (read_slot (a_data a) i))"

text \<open>
  \<open>for (i = 0; i < array_size(array); ++i) step\<close>: the step gives a result that ends the
  loop, or none.
\<close>

fun array_loop :: "VALUE \<Rightarrow> (nat \<Rightarrow> 'a option hprog) \<Rightarrow> nat \<Rightarrow> nat \<Rightarrow> 'a option hprog" where
  "array_loop p step 0 i = pfail Undef"
| "array_loop p step (Suc k) i =
     pbind (snow_array_size p) (\<lambda>n.
       if i < n
       then pbind (step i) (\<lambda>r. case r of Some x \<Rightarrow> pret (Some x) | None \<Rightarrow> array_loop p step k (Suc i))
       else pret None)"

definition for_array :: "VALUE \<Rightarrow> (nat \<Rightarrow> 'a option hprog) \<Rightarrow> 'a option hprog" where
  "for_array p step = array_loop p step (2 ^ 32) 0"

subsection \<open>Methods\<close>

text \<open>A method of arrays: the receiver is an array, and there are \<open>n\<close> arguments.\<close>

definition array_method :: "VALUE \<Rightarrow> VALUE list option \<Rightarrow> nat \<Rightarrow> VALUE list hprog" where
  "array_method self args n =
     pbind (hassert_type self SN_ARRAY_TYPE) (\<lambda>_. plift (require_args args n))"

fun set_all :: "VALUE \<Rightarrow> VALUE list \<Rightarrow> nat \<Rightarrow> unit hprog" where
  "set_all p [] i = pret ()"
| "set_all p (v # vs) i = pbind (snow_array_set p (int i) v) (\<lambda>_. set_all p vs (Suc i))"

definition m_array_new :: "henv \<Rightarrow> VALUE list option \<Rightarrow> VALUE hprog" where
  "m_array_new env args =
     (let vs = (case args of None \<Rightarrow> [] | Some vs \<Rightarrow> vs)
      in pbind (snow_create_array_with_size env (length vs)) (\<lambda>p. pbind (set_all p vs 0) (\<lambda>_. pret p)))"

definition m_array_get :: "VALUE \<Rightarrow> VALUE list option \<Rightarrow> VALUE hprog" where
  "m_array_get self args =
     pbind (array_method self args 1) (\<lambda>ARGS.
     pbind (hassert (is_integer (ARGS ! 0))) (\<lambda>_.
     pbind (snow_array_get self (sint (value_to_int (ARGS ! 0)))) (\<lambda>v.
     pret (if v \<noteq> 0 then v else SN_NIL))))"

definition m_array_set :: "VALUE \<Rightarrow> VALUE list option \<Rightarrow> VALUE hprog" where
  "m_array_set self args =
     pbind (array_method self args 2) (\<lambda>ARGS.
     pbind (hassert (is_integer (ARGS ! 0))) (\<lambda>_.
     snow_array_set self (sint (value_to_int (ARGS ! 0))) (ARGS ! 1)))"

definition m_array_push :: "VALUE \<Rightarrow> VALUE list option \<Rightarrow> VALUE hprog" where
  "m_array_push self args = pbind (array_method self args 1) (\<lambda>ARGS. snow_array_push self (ARGS ! 0))"

definition m_array_pop :: "VALUE \<Rightarrow> VALUE hprog" where
  "m_array_pop self = pbind (hassert_type self SN_ARRAY_TYPE) (\<lambda>_. snow_array_pop self)"

text \<open>The number of turns of this loop is fixed before it starts.\<close>

fun equals_loop :: "henv \<Rightarrow> VALUE \<Rightarrow> VALUE \<Rightarrow> nat \<Rightarrow> nat \<Rightarrow> VALUE hprog" where
  "equals_loop env self other 0 i = pret SN_TRUE"
| "equals_loop env self other (Suc k) i =
     pbind (snow_array_get self (int i)) (\<lambda>left.
     pbind (snow_array_get other (int i)) (\<lambda>right.
     pbind (h_method env left ''='' [right]) (\<lambda>comparison.
       if snow_eval_truth comparison then equals_loop env self other k (Suc i) else pret SN_FALSE)))"

definition m_array_equals :: "henv \<Rightarrow> VALUE \<Rightarrow> VALUE list option \<Rightarrow> VALUE hprog" where
  "m_array_equals env self args =
     pbind (array_method self args 1) (\<lambda>ARGS. let other = ARGS ! 0
       in pbind (htypeof other) (\<lambda>t.
          if t \<noteq> SN_ARRAY_TYPE then pret SN_FALSE
          else pbind (snow_array_size self) (\<lambda>n.
               pbind (snow_array_size other) (\<lambda>m.
                 if n \<noteq> m then pret SN_FALSE else equals_loop env self other n 0))))"

definition m_array_length :: "VALUE \<Rightarrow> VALUE hprog" where
  "m_array_length self =
     pbind (hassert_type self SN_ARRAY_TYPE) (\<lambda>_.
     pbind (snow_array_size self) (\<lambda>n. pret (int_to_value (of_nat n))))"

definition m_array_any :: "VALUE \<Rightarrow> VALUE hprog" where
  "m_array_any self =
     pbind (hassert_type self SN_ARRAY_TYPE) (\<lambda>_.
     pbind (snow_array_size self) (\<lambda>n. pret (boolean_to_value (0 < n))))"

text \<open>The text of a value (\<open>snow_value_to_cstr\<close>: \<open>to_string\<close> twice).\<close>

definition value_cstr :: "henv \<Rightarrow> VALUE \<Rightarrow> string hprog" where
  "value_cstr env v =
     pbind (h_method env v ''to_string'' []) (\<lambda>v.
     pbind (h_method env v ''to_string'' []) (\<lambda>p.
     pbind (hassert_type p SN_STRING_TYPE) (\<lambda>_.
     pbind (load h_strings p) (\<lambda>str. pret (c_string (s_data str))))))"

text \<open>The text grows by \<open>", "\<close> and the next element; there is none before the first.\<close>

fun inspect_loop :: "henv \<Rightarrow> VALUE \<Rightarrow> nat \<Rightarrow> nat \<Rightarrow> string option \<Rightarrow> string option hprog" where
  "inspect_loop env p 0 i res = pfail Undef"
| "inspect_loop env p (Suc k) i res =
     pbind (load h_arrays p) (\<lambda>a.
       if i < array_size a
       then pbind (plift (array_get a (int i))) (\<lambda>x.
            pbind (h_method env x ''inspect'' []) (\<lambda>v.
            pbind (value_cstr env v) (\<lambda>converted.
            inspect_loop env p k (Suc i) (Some (case res of None \<Rightarrow> converted | Some old \<Rightarrow> old @ '', '' @ converted)))))
       else pret res)"

definition m_array_inspect :: "henv \<Rightarrow> VALUE \<Rightarrow> VALUE hprog" where
  "m_array_inspect env self =
     pbind (hassert_type self SN_ARRAY_TYPE) (\<lambda>_.
     pbind (inspect_loop env self (2 ^ 32) 0 None) (\<lambda>res.
     snow_create_string env (''@('' @ (case res of None \<Rightarrow> [] | Some t \<Rightarrow> t) @ '')'')))"

definition m_array_each :: "henv \<Rightarrow> VALUE \<Rightarrow> VALUE list option \<Rightarrow> VALUE hprog" where
  "m_array_each env self args =
     pbind (array_method self args 1) (\<lambda>ARGS.
     pbind (for_array self (\<lambda>i. pbind (snow_array_get self (int i)) (\<lambda>x.
              pbind (h_call env 0 (ARGS ! 0) [x, int_to_value (of_nat i)]) (\<lambda>_. pret (None :: unit option))))) (\<lambda>_.
     pret self))"

definition m_array_map :: "henv \<Rightarrow> VALUE \<Rightarrow> VALUE list option \<Rightarrow> VALUE hprog" where
  "m_array_map env self args =
     pbind (array_method self args 1) (\<lambda>ARGS.
     pbind (snow_array_size self) (\<lambda>n.
     pbind (snow_create_array_with_size env n) (\<lambda>new_array.
     pbind (for_array self (\<lambda>i. pbind (snow_array_get self (int i)) (\<lambda>x.
              pbind (h_call env 0 (ARGS ! 0) [x]) (\<lambda>y.
              pbind (snow_array_set new_array (int i) y) (\<lambda>_. pret (None :: unit option)))))) (\<lambda>_.
     pret new_array))))"

text \<open>The turns of the parallel loops, which \<open>snow_parallel_for_each\<close> runs in any order.\<close>

definition array_each_parallel_callback :: "henv \<Rightarrow> VALUE list \<Rightarrow> nat \<Rightarrow> VALUE \<Rightarrow> VALUE hprog" where
  "array_each_parallel_callback env data i closure =
     pbind (plift (read_slot data i)) (\<lambda>x. h_call env 0 closure [x, int_to_value (of_nat i)])"

definition array_map_parallel_callback :: "henv \<Rightarrow> VALUE list \<Rightarrow> nat \<Rightarrow> VALUE \<Rightarrow> VALUE \<Rightarrow> unit hprog" where
  "array_map_parallel_callback env data i closure new_array =
     pbind (plift (read_slot data i)) (\<lambda>x.
     pbind (h_call env 0 closure [x, int_to_value (of_nat i)]) (\<lambda>y.
     pbind (snow_array_set new_array (int i) y) (\<lambda>_. pret ())))"

text \<open>
  \<open>select\<close> and \<open>reject\<close>: the element is read again after the call, from the data
  pointer the array has then.
\<close>

definition filter_loop :: "henv \<Rightarrow> VALUE \<Rightarrow> VALUE \<Rightarrow> VALUE \<Rightarrow> bool \<Rightarrow> unit option hprog" where
  "filter_loop env self closure new_array keep =
     for_array self (\<lambda>i.
       pbind (data_at self i) (\<lambda>x.
       pbind (h_call env 0 closure [x, int_to_value (of_nat i)]) (\<lambda>b.
         if snow_eval_truth b = keep
         then pbind (data_at self i) (\<lambda>x. pbind (snow_array_push new_array x) (\<lambda>_. pret None))
         else pret None)))"

definition m_array_select :: "henv \<Rightarrow> VALUE \<Rightarrow> VALUE list option \<Rightarrow> VALUE hprog" where
  "m_array_select env self args =
     pbind (array_method self args 1) (\<lambda>ARGS.
     pbind (snow_array_size self) (\<lambda>n.
     pbind (snow_create_array_with_size env n) (\<lambda>new_array.
     pbind (filter_loop env self (ARGS ! 0) new_array True) (\<lambda>_. pret new_array))))"

definition m_array_reject :: "henv \<Rightarrow> VALUE \<Rightarrow> VALUE list option \<Rightarrow> VALUE hprog" where
  "m_array_reject env self args =
     pbind (array_method self args 1) (\<lambda>ARGS.
     pbind (snow_array_size self) (\<lambda>n.
     pbind (snow_create_array_with_size env n) (\<lambda>new_array.
     pbind (filter_loop env self (ARGS ! 0) new_array False) (\<lambda>_. pret new_array))))"

text \<open>The length is read once; a closure that shortens the array is not noticed.\<close>

fun inject_loop :: "henv \<Rightarrow> VALUE \<Rightarrow> VALUE \<Rightarrow> nat \<Rightarrow> nat \<Rightarrow> VALUE \<Rightarrow> VALUE hprog" where
  "inject_loop env self closure 0 i carry = pret carry"
| "inject_loop env self closure (Suc k) i carry =
     pbind (data_at self i) (\<lambda>x.
     pbind (h_call env 0 closure [carry, x, int_to_value (of_nat i)]) (\<lambda>carry.
     inject_loop env self closure k (Suc i) carry))"

definition m_array_inject :: "henv \<Rightarrow> VALUE \<Rightarrow> VALUE list option \<Rightarrow> VALUE hprog" where
  "m_array_inject env self args =
     pbind (array_method self args 1) (\<lambda>ARGS.
     pbind (snow_array_size self) (\<lambda>len.
       if len > 0 then pbind (data_at self 0) (\<lambda>carry. inject_loop env self (ARGS ! 0) (len - 1) 1 carry)
       else pret SN_NIL))"

definition m_array_detect :: "henv \<Rightarrow> VALUE \<Rightarrow> VALUE list option \<Rightarrow> VALUE hprog" where
  "m_array_detect env self args =
     pbind (array_method self args 1) (\<lambda>ARGS.
     pbind (for_array self (\<lambda>i. pbind (snow_array_get self (int i)) (\<lambda>x.
              pbind (h_call env 0 (ARGS ! 0) [x]) (\<lambda>b.
              pret (if snow_eval_truth b then Some x else None))))) (\<lambda>r.
     pret (case r of Some x \<Rightarrow> x | None \<Rightarrow> SN_NIL)))"

text \<open>The index of an equal element, not a truth value.\<close>

definition m_array_includes_p :: "henv \<Rightarrow> VALUE \<Rightarrow> VALUE list option \<Rightarrow> VALUE hprog" where
  "m_array_includes_p env self args =
     pbind (plift (require_args args 1)) (\<lambda>ARGS.
     pbind (hassert_type self SN_ARRAY_TYPE) (\<lambda>_.
     pbind (for_array self (\<lambda>i. pbind (snow_array_get self (int i)) (\<lambda>x.
              pbind (h_method env x ''='' [ARGS ! 0]) (\<lambda>b.
              pret (if snow_eval_truth b then Some i else None))))) (\<lambda>r.
     pret (case r of Some i \<Rightarrow> int_to_value (of_nat i) | None \<Rightarrow> SN_FALSE))))"

subsection \<open>Joining\<close>

fun join_strings :: "henv \<Rightarrow> VALUE \<Rightarrow> nat \<Rightarrow> nat \<Rightarrow> SnString list hprog" where
  "join_strings env p 0 i = pret []"
| "join_strings env p (Suc k) i =
     pbind (snow_array_get p (int i)) (\<lambda>x.
     pbind (htypeof x) (\<lambda>t.
     pbind (if t = SN_STRING_TYPE then pret x
            else pbind (snow_array_get p (int i)) (\<lambda>x. h_method env x ''to_string'' [])) (\<lambda>q.
     pbind (load h_strings q) (\<lambda>str. pbind (join_strings env p k (Suc i)) (\<lambda>strs. pret (str # strs))))))"

fun join_copy :: "SnString list \<Rightarrow> string \<Rightarrow> string \<Rightarrow> nat \<Rightarrow> (string \<times> nat) result" where
  "join_copy [] sep buf p = Inr (buf, p)"
| "join_copy (str # strs) sep buf p =
     rbind (blit buf p (take (s_size str) (s_data str))) (\<lambda>buf.
       if strs = [] then Inr (buf, p + s_size str)
       else rbind (blit buf (p + s_size str) sep) (\<lambda>buf. join_copy strs sep buf (p + s_size str + length sep)))"

text \<open>
  The buffer has no room for the terminator that is written after the last copy; for an empty
  array its size is that of minus one separator, as an unsigned number.
\<close>

definition snow_array_join :: "henv \<Rightarrow> VALUE \<Rightarrow> string option \<Rightarrow> VALUE hprog" where
  "snow_array_join env p sep =
     (let sep = c_string (case sep of None \<Rightarrow> [] | Some sep \<Rightarrow> sep)
      in pbind (snow_array_size p) (\<lambda>num_strings.
         pbind (join_strings env p num_strings 0) (\<lambda>strs.
         let strings_len = sum_list (map s_size strs)
         in if num_strings = 0 \<and> sep \<noteq> [] then pfail Undef
            else pbind (plift (join_copy strs sep (vla (strings_len + (num_strings - 1) * length sep)) 0)) (\<lambda>(buffer, q).
                 pbind (plift (blit buffer q [CHR 0x00])) (\<lambda>buffer.
                 snow_create_string_from_data env buffer q)))))"

definition m_array_join :: "henv \<Rightarrow> VALUE \<Rightarrow> VALUE list option \<Rightarrow> VALUE hprog" where
  "m_array_join env self args =
     pbind (hassert_type self SN_ARRAY_TYPE) (\<lambda>_.
     pbind (case args of
        Some (a # _) \<Rightarrow> pbind (h_method env a ''to_string'' []) (\<lambda>q.
          if q = 0 then pret None
          else pbind (hassert_type q SN_STRING_TYPE) (\<lambda>_. pbind (load h_strings q) (\<lambda>str. pret (Some (s_data str)))))
      | _ \<Rightarrow> pret None) (\<lambda>sep. snow_array_join env self sep))"

subsection \<open>Printing maps and arguments\<close>

definition call_inspect :: "henv \<Rightarrow> VALUE \<Rightarrow> string hprog" where
  "call_inspect env self =
     pbind (h_method env self ''inspect'' []) (\<lambda>p.
     pbind (hassert_type p SN_STRING_TYPE) (\<lambda>_.
     pbind (load h_strings p) (\<lambda>str. pret (c_string (s_data str)))))"

fun map_inspect_loop :: "henv \<Rightarrow> VALUE \<Rightarrow> VALUE \<Rightarrow> nat \<Rightarrow> nat \<Rightarrow> unit hprog" where
  "map_inspect_loop env self strings 0 i = pfail Undef"
| "map_inspect_loop env self strings (Suc k) i =
     pbind (load h_maps self) (\<lambda>m.
       if \<not> i < m_size m then pret ()
       else pbind (plift (read_slot (m_data m) i)) (\<lambda>(key, _).
            pbind (call_inspect env key) (\<lambda>ks.
            pbind (load h_maps self) (\<lambda>m.
            pbind (plift (read_slot (m_data m) i)) (\<lambda>(_, val).
            pbind (call_inspect env val) (\<lambda>vs.
            pbind (snow_create_string env (ks @ '' => '' @ vs)) (\<lambda>str.
            pbind (snow_array_push strings str) (\<lambda>_. map_inspect_loop env self strings k (Suc i)))))))))"

definition map_inspect :: "henv \<Rightarrow> VALUE \<Rightarrow> VALUE hprog" where
  "map_inspect env self =
     pbind (hassert_type self SN_MAP_TYPE) (\<lambda>_.
     pbind (load h_maps self) (\<lambda>m.
     pbind (snow_create_array_with_size env (m_size m)) (\<lambda>strings.
     pbind (map_inspect_loop env self strings (2 ^ 32) 0) (\<lambda>_.
     pbind (snow_array_join env strings (Some '', '')) (\<lambda>joined.
     pbind (snow_array_clear strings) (\<lambda>_.
     pbind (snow_create_string env ''Map('') (\<lambda>open_str.
     pbind (snow_array_push strings open_str) (\<lambda>_.
     pbind (snow_array_push strings joined) (\<lambda>_.
     pbind (snow_create_string env '')'') (\<lambda>close_str.
     pbind (snow_array_push strings close_str) (\<lambda>_.
     snow_array_join env strings None)))))))))))"

fun arguments_inspect_loop :: "henv \<Rightarrow> VALUE \<Rightarrow> VALUE \<Rightarrow> VALUE \<Rightarrow> VALUE \<Rightarrow> nat \<Rightarrow> nat \<Rightarrow> unit hprog" where
  "arguments_inspect_loop env self parts colon comma 0 i = pfail Undef"
| "arguments_inspect_loop env self parts colon comma (Suc k) i =
     pbind (load h_arguments self) (\<lambda>a.
       if \<not> i < array_size (arg_names a) then pret ()
       else pbind (plift (array_get (arg_names a) (int i))) (\<lambda>name.
            pbind (plift (array_get (arg_data a) (int i))) (\<lambda>val.
            pbind (if i > 0 then pbind (snow_array_push parts comma) (\<lambda>_. pret ()) else pret ()) (\<lambda>_.
            pbind (if \<not> is_nil name
                   then pbind (snow_array_push parts name) (\<lambda>_. pbind (snow_array_push parts colon) (\<lambda>_. pret ()))
                   else pret ()) (\<lambda>_.
            pbind (h_method env val ''inspect'' []) (\<lambda>str.
            pbind (snow_array_push parts str) (\<lambda>_. arguments_inspect_loop env self parts colon comma k (Suc i))))))))"

definition arguments_inspect :: "henv \<Rightarrow> VALUE \<Rightarrow> VALUE hprog" where
  "arguments_inspect env self =
     pbind (hassert_type self SN_ARGUMENTS_TYPE) (\<lambda>_.
     pbind (load h_arguments self) (\<lambda>a.
     pbind (snow_create_array_with_size env (array_size (arg_names a) * 2 + 2)) (\<lambda>parts.
     pbind (snow_create_string env '':'') (\<lambda>colon.
     pbind (snow_create_string env '', '') (\<lambda>comma.
     pbind (snow_create_string env ''<Arguments '') (\<lambda>start.
     pbind (snow_array_push parts start) (\<lambda>_.
     pbind (arguments_inspect_loop env self parts colon comma (2 ^ 32) 0) (\<lambda>_.
     pbind (snow_create_string env ''>'') (\<lambda>stop.
     pbind (snow_array_push parts stop) (\<lambda>_.
     snow_array_join env parts (Some [])))))))))))"

subsection \<open>Formatting\<close>

text \<open>The text of a format: every \<open>%@\<close> stands for the next insertion.\<close>

fun format_spec :: "string \<Rightarrow> string list \<Rightarrow> string" where
  "format_spec [] ins = []"
| "format_spec [c] ins = [c]"
| "format_spec (c # d # cs) ins =
     (if c = CHR ''%'' \<and> d = CHR ''@'' then hd ins @ format_spec cs (tl ins) else c # format_spec (d # cs) ins)"

lemma blit_ok:
  "p + length bytes \<le> length buf \<Longrightarrow> \<exists>buf'. blit buf p bytes = Inr buf' \<and> length buf' = length buf \<and>
     take (p + length bytes) buf' = take p buf @ bytes \<and> drop (p + length bytes) buf' = drop (p + length bytes) buf"
  by (cases bytes) (auto simp: blit_def)

lemma format_insertion:
  assumes "c = CHR ''%'' \<and> d = CHR ''@''"
  shows "count_insertions (c # d # cs) = Suc (count_insertions cs)"
    "format_spec (c # d # cs) ins = hd ins @ format_spec cs (tl ins)"
    "i < n \<Longrightarrow> format_fill (c # d # cs) (x # xs) buf i n =
       rbind (blit buf i x) (\<lambda>buf. format_fill cs xs buf (i + length x) n)"
  using assms by simp_all

lemma format_character:
  assumes "\<not> (c = CHR ''%'' \<and> d = CHR ''@'')"
  shows "count_insertions (c # d # cs) = count_insertions (d # cs)"
    "format_spec (c # d # cs) ins = c # format_spec (d # cs) ins"
    "i < n \<Longrightarrow> format_fill (c # d # cs) ins buf i n = rbind (blit buf i [c]) (\<lambda>buf. format_fill (d # cs) ins buf (i + 1) n)"
  using assms by auto

lemma format_fill_done: "\<not> i < n \<Longrightarrow> format_fill fmt ins buf i n = Inr buf"
  by (cases "(fmt, ins, buf, i, n)" rule: format_fill.cases) auto

declare count_insertions.simps(3) [simp del]
declare format_spec.simps(3) [simp del]
declare format_fill.simps(3) [simp del]

lemma format_spec_length:
  "length ins = count_insertions fmt \<Longrightarrow>
   length (format_spec fmt ins) + 2 * count_insertions fmt = length fmt + sum_list (map length ins)"
proof (induction fmt ins rule: format_spec.induct)
  case (3 c d cs ins)
  show ?case
  proof (cases "c = CHR ''%'' \<and> d = CHR ''@''")
    case True
    then obtain x xs where "ins = x # xs" using 3(3) by (cases ins) (auto simp: format_insertion)
    then show ?thesis using 3(1) [OF True] 3(3) format_insertion [OF True] by simp
  next
    case False
    then show ?thesis using 3(2) [OF False] 3(3) format_character [OF False] by simp
  qed
qed simp_all

lemma format_fill_ok:
  "length ins = count_insertions fmt \<Longrightarrow> i + length (format_spec fmt ins) = n \<Longrightarrow> n \<le> length buf \<Longrightarrow>
   \<exists>buf'. format_fill fmt ins buf i n = Inr buf' \<and> length buf' = length buf \<and>
     take n buf' = take i buf @ format_spec fmt ins"
proof (induction fmt ins arbitrary: i buf rule: format_spec.induct)
  case (2 c ins)
  obtain b where "blit buf i [c] = Inr b" "length b = length buf" "take (i + 1) b = take i buf @ [c]"
    using blit_ok [of i "[c]" buf] 2 by auto
  then show ?case using 2 by auto
next
  case (3 c d cs ins)
  show ?case
  proof (cases "i < n")
    case lt: True
    show ?thesis
    proof (cases "c = CHR ''%'' \<and> d = CHR ''@''")
      case True
      note f = format_insertion [OF True]
      obtain x xs where ins: "ins = x # xs" using 3(3) f(1) by (cases ins) auto
      obtain b where b: "blit buf i x = Inr b" "length b = length buf" "take (i + length x) b = take i buf @ x"
        using blit_ok [of i x buf] 3(4,5) ins f(2) by auto
      obtain b' where "format_fill cs xs b (i + length x) n = Inr b'" "length b' = length b"
          "take n b' = take (i + length x) b @ format_spec cs xs"
        using 3(1) [OF True, of "i + length x" b] 3(3-5) ins f b(2) by auto
      then show ?thesis using f(2) f(3) [OF lt] b ins by simp
    next
      case False
      note f = format_character [OF False]
      obtain b where b: "blit buf i [c] = Inr b" "length b = length buf" "take (i + 1) b = take i buf @ [c]"
        using blit_ok [of i "[c]" buf] 3(4,5) f(2) by auto
      obtain b' where "format_fill (d # cs) ins b (i + 1) n = Inr b'" "length b' = length b"
          "take n b' = take (i + 1) b @ format_spec (d # cs) ins"
        using 3(2) [OF False, of "i + 1" b] 3(3-5) f b(2) by auto
      then show ?thesis using f(2) f(3) [OF lt] b by simp
    qed
  next
    case False
    then have "format_spec (c # d # cs) ins = []" "i = n" using 3(4) by auto
    then show ?thesis using format_fill_done [OF False] by simp
  qed
qed auto

subsection \<open>The length of a string\<close>

lemma strlen_loop_ok:
  "(\<And>i. i < length data \<Longrightarrow> 0 < mb (drop i data) \<and> mb (drop i data) \<le> int (length data - i)) \<Longrightarrow>
   i \<le> length data \<Longrightarrow> length data - i < k \<Longrightarrow>
   \<exists>m. strlen_loop k mb data (int i) (int (length data - i)) len = Some m \<and> len \<le> m \<and> m \<le> len + (length data - i)"
proof (induction k arbitrary: i len)
  case (Suc k)
  show ?case
  proof (cases "i = length data")
    case False
    let ?c = "mb (drop i data)"
    have c: "0 < ?c" "?c \<le> int (length data - i)" using Suc.prems(1,2) False by auto
    define j where "j = i + nat ?c"
    have j: "int i + ?c = int j" "int (length data - i) - ?c = int (length data - j)" "j \<le> length data"
        "length data - j < k" "i < j"
      using c Suc.prems(2,3) by (auto simp: j_def)
    obtain m where "strlen_loop k mb data (int j) (int (length data - j)) (Suc len) = Some m" "Suc len \<le> m"
        "m \<le> Suc len + (length data - j)"
      using Suc.IH [OF Suc.prems(1) j(3,4)] by blast
    moreover have "strlen_loop (Suc k) mb data (int i) (int (length data - i)) len =
        strlen_loop k mb data (int i + ?c) (int (length data - i) - ?c) (Suc len)"
      using False Suc.prems(2) by (simp add: Let_def)
    moreover have "m \<le> len + (length data - i)" using calculation(3) j(3,5) by simp
    ultimately show ?thesis unfolding j(1,2) by (intro exI [of _ m]) simp
  qed simp
qed simp

lemma strlen_loop_stuck:
  "n \<noteq> 0 \<Longrightarrow> mb (take (nat n) (drop (nat i) data)) = 0 \<Longrightarrow> strlen_loop k mb data i n len = None"
  by (induction k arbitrary: len) (simp_all add: Let_def)

subsection \<open>Joining\<close>

fun join_spec :: "string list \<Rightarrow> string \<Rightarrow> string" where
  "join_spec [] sep = []"
| "join_spec (x # xs) sep = (if xs = [] then x else x @ sep @ join_spec xs sep)"

definition text_of :: "SnString \<Rightarrow> string" where
  "text_of str = take (s_size str) (s_data str)"

definition string_wf :: "SnString \<Rightarrow> bool" where
  "string_wf str \<longleftrightarrow> s_size str \<le> length (s_data str)"

lemma length_text: "string_wf str \<Longrightarrow> length (text_of str) = s_size str"
  by (simp add: text_of_def string_wf_def)

lemma join_spec_length:
  "list_all string_wf strs \<Longrightarrow>
   length (join_spec (map text_of strs) sep) = sum_list (map s_size strs) + (length strs - 1) * length sep"
  by (induction strs) (auto simp: length_text neq_Nil_conv)

lemma join_copy_ok:
  "list_all string_wf strs \<Longrightarrow> p + length (join_spec (map text_of strs) sep) \<le> length buf \<Longrightarrow>
   \<exists>buf'. join_copy strs sep buf p = Inr (buf', p + length (join_spec (map text_of strs) sep)) \<and>
     length buf' = length buf \<and>
     take (p + length (join_spec (map text_of strs) sep)) buf' = take p buf @ join_spec (map text_of strs) sep"
proof (induction strs arbitrary: p buf)
  case (Cons str strs)
  have n: "length (text_of str) = s_size str" using Cons.prems(1) by (simp add: length_text)
  have "p + length (text_of str) \<le> length buf" using Cons.prems(2) by (auto split: if_splits)
  then obtain b where b: "blit buf p (text_of str) = Inr b" "length b = length buf"
      "take (p + s_size str) b = take p buf @ text_of str"
    using blit_ok n by metis
  show ?case
  proof (cases "strs = []")
    case True
    then show ?thesis using b n by (simp add: text_of_def)
  next
    case False
    then have "p + s_size str + length sep \<le> length b" using Cons.prems(2) b(2) n by simp
    then obtain c where c: "blit b (p + s_size str) sep = Inr c" "length c = length b"
        "take (p + s_size str + length sep) c = take (p + s_size str) b @ sep"
      using blit_ok by metis
    have "p + s_size str + length sep + length (join_spec (map text_of strs) sep) \<le> length c"
      using Cons.prems(2) b(2) c(2) n False by simp
    then obtain d where "join_copy strs sep c (p + s_size str + length sep) =
          Inr (d, p + s_size str + length sep + length (join_spec (map text_of strs) sep))" "length d = length c"
        "take (p + s_size str + length sep + length (join_spec (map text_of strs) sep)) d =
          take (p + s_size str + length sep) c @ join_spec (map text_of strs) sep"
      using Cons.IH [of "p + s_size str + length sep" c] Cons.prems(1) by auto
    then show ?thesis using False b c n by (simp add: add.assoc flip: text_of_def)
  qed
qed simp


subsection \<open>Loops over an array\<close>

lemma array_loop_pure:
  "h_arrays s p = Some a \<Longrightarrow> (\<And>i. i < a_size a \<Longrightarrow> step i s = Inr (g i, s)) \<Longrightarrow> i \<le> a_size a \<Longrightarrow> a_size a < i + k \<Longrightarrow>
   array_loop p step k i s = Inr (case filter (\<lambda>j. g j \<noteq> None) [i..<a_size a] of [] \<Rightarrow> None | j # _ \<Rightarrow> g j, s)"
proof (induction k arbitrary: i)
  case (Suc k)
  show ?case
  proof (cases "i < a_size a")
    case True
    then have "[i..<a_size a] = i # [Suc i..<a_size a]" by (simp add: upt_conv_Cons)
    then show ?thesis using Suc.IH [of "Suc i"] Suc.prems True
      by (cases "g i") (auto simp: snow_array_size_def load_def array_size_def)
  qed (use Suc.prems in \<open>simp add: snow_array_size_def load_def array_size_def\<close>)
qed simp

lemma for_array_pure:
  "h_arrays s p = Some a \<Longrightarrow> array_wf a \<Longrightarrow> (\<And>i. i < a_size a \<Longrightarrow> step i s = Inr (g i, s)) \<Longrightarrow>
   for_array p step s = Inr (case filter (\<lambda>j. g j \<noteq> None) [0..<a_size a] of [] \<Rightarrow> None | j # _ \<Rightarrow> g j, s)"
  unfolding for_array_def by (rule array_loop_pure) (auto simp: array_wf_def)

lemma first_index:
  "(case filter (\<lambda>j. P (xs ! j)) [i..<length xs] of [] \<Rightarrow> None | j # _ \<Rightarrow> Some (xs ! j)) = find P (drop i xs)"
proof (cases "i \<le> length xs")
  case True
  then show ?thesis
  proof (induction i rule: inc_induct)
    case (step i)
    then have "[i..<length xs] = i # [Suc i..<length xs]" "drop i xs = xs ! i # drop (Suc i) xs"
      by (simp_all add: upt_conv_Cons Cons_nth_drop_Suc)
    then show ?case using step by simp
  qed simp
qed simp

lemma inject_loop_ok:
  "h_arrays s p = Some a \<Longrightarrow> array_wf a \<Longrightarrow> (\<And>args. h_call env 0 f args s = Inr (F args, s)) \<Longrightarrow> i + k = a_size a \<Longrightarrow>
   inject_loop env p f k i c s =
     Inr (fold (\<lambda>j c. F [c, elems a ! j, int_to_value (of_nat j)]) [i..<a_size a] c, s)"
proof (induction k arbitrary: i c)
  case (Suc k)
  have "[i..<a_size a] = i # [Suc i..<a_size a]" using Suc.prems(4) by (simp add: upt_conv_Cons)
  moreover have "i < length (a_data a)" "a_data a ! i = elems a ! i"
    using Suc.prems(2,4) by (auto simp: array_wf_def elems_def)
  ultimately show ?case using Suc by (simp add: data_at_def load_def)
qed simp

subsection \<open>Properties\<close>

text \<open>
  C21. Formatting is substitution: for the insertions that the format counts, filling the
  buffer of the computed length writes the format with every \<open>%@\<close> replaced by the next
  insertion, within the buffer.
\<close>

theorem format_string_substitutes:
  assumes "length ins = count_insertions fmt"
    "n = (length fmt - count_insertions fmt * 2) + sum_list (map length ins)"
  shows "\<exists>buf. format_fill fmt ins (vla (n + 1)) 0 n = Inr buf \<and> take n buf = format_spec fmt ins \<and> length buf = n + 1"
proof -
  have "2 * count_insertions fmt \<le> length fmt" by (induction fmt rule: count_insertions.induct) (auto simp: count_insertions.simps(3))
  then have "n = length (format_spec fmt ins)" using format_spec_length [OF assms(1)] assms(2) by simp
  then show ?thesis using format_fill_ok [OF assms(1), of 0 n "vla (n + 1)"] by (auto simp: vla_def)
qed

lemma format_string_substitutes_witness:
  "\<exists>buf. format_fill ''a%@b'' [''xyz''] (vla 6) 0 5 = Inr buf \<and> take 5 buf = ''axyzb''"
  using format_string_substitutes [of "[''xyz'']" "''a%@b''" 5]
  by (simp add: count_insertions.simps(3) format_spec.simps(3)) blast

text \<open>
  Creating a string counts its characters: when \<open>mblen\<close> finds a character at every
  position, the loop ends and counts at most as many characters as bytes; at a null
  character inside the data, for which \<open>mblen\<close> is 0, it never ends, whatever the fuel.
\<close>

theorem strlen_terminates:
  "((\<forall>i < length data. 0 < mblen env (drop i data) \<and> mblen env (drop i data) \<le> int (length data - i)) \<longrightarrow>
      (\<exists>m. strlen_locale env data (length data) = Inr m \<and> m \<le> length data)) \<and>
   (data \<noteq> [] \<and> mblen env data = 0 \<longrightarrow> strlen_loop k (mblen env) data 0 (int (length data)) 0 = None)"
proof (intro conjI impI)
  assume ok: "\<forall>i < length data. 0 < mblen env (drop i data) \<and> mblen env (drop i data) \<le> int (length data - i)"
  show "\<exists>m. strlen_locale env data (length data) = Inr m \<and> m \<le> length data"
    using strlen_loop_ok [of data "mblen env" 0 "length data + 1" 0] ok by (auto simp: strlen_locale_def)
next
  assume stuck: "data \<noteq> [] \<and> mblen env data = 0"
  show "strlen_loop k (mblen env) data 0 (int (length data)) 0 = None"
    by (rule strlen_loop_stuck) (use stuck in simp_all)
qed

text \<open>A program that gives back its first argument, on ASCII strings.\<close>

definition ascii_env :: henv where
  "ascii_env = \<lparr>h_alloc = (\<lambda>_. 96), h_call = (\<lambda>self f args. pret (hd args)), h_method = (\<lambda>self name args. pret self),
     h_get_member = (\<lambda>self name. pret 0), h_set_member = (\<lambda>self name v. pret v), h_global = (\<lambda>name. pret 0),
     h_symbol_name = (\<lambda>_. ''f''), mblen = (\<lambda>cs. if hd cs = CHR 0x00 then 0 else 1)\<rparr>"

lemma strlen_terminates_witness:
  "(\<exists>m. strlen_locale ascii_env ''ab'' 2 = Inr m \<and> m \<le> 2) \<and>
   strlen_loop 1000 (mblen ascii_env) (CHR 0x00 # ''b'') 0 2 0 = None"
proof -
  have "\<forall>i < length ''ab''. 0 < mblen ascii_env (drop i ''ab'') \<and> mblen ascii_env (drop i ''ab'') \<le> int (length ''ab'' - i)"
    by (auto simp: ascii_env_def less_Suc_eq)
  moreover have "mblen ascii_env (CHR 0x00 # ''b'') = 0" by (simp add: ascii_env_def)
  ultimately show ?thesis
    using strlen_terminates [of "''ab''" ascii_env 0] strlen_terminates [of "CHR 0x00 # ''b''" ascii_env 1000]
    by (simp add: numeral_2_eq_2)
qed

text \<open>
  C26. Joining an array of strings: the copies put the strings, with the separator between
  them, exactly into the buffer, and the terminator is then written one byte past its end.
\<close>

theorem array_join_overrun:
  assumes "snow_array_size p s = Inr (n, s)" "join_strings env p n 0 s = Inr (strs, s')" "0 < n" "length strs = n"
    "list_all string_wf strs" "list_all (\<lambda>c. c \<noteq> CHR 0x00) sep"
  shows "snow_array_join env p (Some sep) s = Inl Undef \<and>
    (\<exists>buf. join_copy strs sep (vla (sum_list (map s_size strs) + (n - 1) * length sep)) 0 = Inr (buf, length buf) \<and>
       buf = join_spec (map text_of strs) sep)"
proof -
  have c: "c_string sep = sep" using assms(6) by (simp add: c_string_def list_all_iff)
  let ?n = "sum_list (map s_size strs) + (n - 1) * length sep"
  have len: "length (join_spec (map text_of strs) sep) = ?n" using join_spec_length [OF assms(5), of sep] assms(4) by simp
  then obtain buf where "join_copy strs sep (vla ?n) 0 = Inr (buf, ?n)" "length buf = ?n"
      "take ?n buf = join_spec (map text_of strs) sep"
    using join_copy_ok [OF assms(5), of 0 sep "vla ?n"] by (auto simp: vla_def)
  then show ?thesis using assms(1-3) c by (simp add: snow_array_join_def Let_def blit_def)
qed

text \<open>Two strings (16, 32), a function (64) and an array of the strings (48).\<close>

definition two_strings :: heap where
  "two_strings = \<lparr>h_strings = [16 \<mapsto> \<lparr>s_data = ''ab'', s_size = 2, s_length = 2\<rparr>,
      32 \<mapsto> \<lparr>s_data = ''c'', s_size = 1, s_length = 1\<rparr>],
    h_arrays = [48 \<mapsto> \<lparr>a_data = [16, 32], a_size = 2, a_alloc = 2\<rparr>], h_maps = Map.empty, h_arguments = Map.empty,
    h_type = (\<lambda>p. if p = 48 then SN_ARRAY_TYPE else SN_STRING_TYPE)\<rparr>"

lemma array_join_overrun_witness:
  "snow_array_join ascii_env 48 (Some '', '') two_strings = Inl Undef \<and>
   (\<exists>buf. join_copy [\<lparr>s_data = ''ab'', s_size = 2, s_length = 2\<rparr>, \<lparr>s_data = ''c'', s_size = 1, s_length = 1\<rparr>] '', ''
      (vla 5) 0 = Inr (buf, 5) \<and> buf = ''ab, c'')"
proof -
  let ?strs = "[\<lparr>s_data = ''ab'', s_size = 2, s_length = 2\<rparr>, \<lparr>s_data = ''c'', s_size = 1, s_length = 1\<rparr>]"
  have obj: "is_object 16" "is_object 32" by (simp_all add: is_object_def kTypeMask_def)
  have join: "join_strings ascii_env 48 (Suc (Suc 0)) 0 two_strings = Inr (?strs, two_strings)"
    by (simp add: snow_array_get_def load_def two_strings_def array_get_def Let_def htypeof_def snow_typeof_def obj)
  have "snow_array_size 48 two_strings = Inr (Suc (Suc 0), two_strings)"
    by (simp add: snow_array_size_def load_def two_strings_def array_size_def)
  from array_join_overrun [OF this join, of "'', ''"] show ?thesis
    by (auto simp: string_wf_def text_of_def)
qed

text \<open>
  Queries with a closure that changes nothing: \<open>detect\<close> gives the first element the
  closure accepts, or nil; \<open>inject\<close> folds the closure over the elements after the first, with
  their indices, and is nil for an empty array.
\<close>

theorem array_queries:
  assumes a: "h_arrays s p = Some a" "array_wf a" "h_type s p = SN_ARRAY_TYPE" "is_object p"
    and call: "\<And>args. h_call env 0 f args s = Inr (F args, s)"
  shows "m_array_detect env p (Some [f]) s =
      Inr (case find (\<lambda>x. snow_eval_truth (F [x])) (elems a) of Some x \<Rightarrow> x | None \<Rightarrow> SN_NIL, s) \<and>
    m_array_inject env p (Some [f]) s =
      Inr (if elems a = [] then SN_NIL
           else fold (\<lambda>i c. F [c, elems a ! i, int_to_value (of_nat i)]) [1..<length (elems a)] (elems a ! 0), s)"
proof
  have pre: "array_method p (Some [f]) 1 s = Inr ([f], s)"
    using a by (simp add: array_method_def hassert_type_def htypeof_def snow_typeof_def hassert_def)
  have get: "snow_array_get p (int i) s = Inr (elems a ! i, s)" if "i < a_size a" for i
    using a that by (simp add: snow_array_get_def load_def array_get_ok list_get_def norm_idx_def length_elems)
  let ?P = "\<lambda>x. snow_eval_truth (F [x])"
  let ?g = "\<lambda>i. if ?P (elems a ! i) then Some (elems a ! i) else None"
  have "for_array p (\<lambda>i. pbind (snow_array_get p (int i)) (\<lambda>x. pbind (h_call env 0 ([f] ! 0) [x]) (\<lambda>b.
      pret (if snow_eval_truth b then Some x else None)))) s =
      Inr (case filter (\<lambda>j. ?g j \<noteq> None) [0..<a_size a] of [] \<Rightarrow> None | j # _ \<Rightarrow> ?g j, s)"
    by (rule for_array_pure [OF a(1,2)]) (simp add: get call)
  moreover have "(case filter (\<lambda>j. ?g j \<noteq> None) [0..<a_size a] of [] \<Rightarrow> None | j # _ \<Rightarrow> ?g j) = find ?P (elems a)"
    using first_index [where P = ?P and xs = "elems a" and i = 0] length_elems [OF a(2)]
    by (auto split: list.splits dest: filter_eq_ConsD)
  ultimately show "m_array_detect env p (Some [f]) s =
      Inr (case find ?P (elems a) of Some x \<Rightarrow> x | None \<Rightarrow> SN_NIL, s)"
    using pre by (simp add: m_array_detect_def)
  show "m_array_inject env p (Some [f]) s = Inr (if elems a = [] then SN_NIL
      else fold (\<lambda>i c. F [c, elems a ! i, int_to_value (of_nat i)]) [1..<length (elems a)] (elems a ! 0), s)"
  proof (cases "a_size a = 0")
    case True
    then show ?thesis using pre a length_elems [OF a(2)]
      by (simp add: m_array_inject_def snow_array_size_def load_def array_size_def)
  next
    case False
    then have "data_at p 0 s = Inr (elems a ! 0, s)"
      using a(1,2) by (auto simp: data_at_def load_def array_wf_def elems_def)
    then show ?thesis using pre a(1) False length_elems [OF a(2)] inject_loop_ok [OF a(1,2) call, of 1 "a_size a - 1"]
      by (auto simp: m_array_inject_def snow_array_size_def load_def array_size_def)
  qed
qed

lemma array_queries_witness:
  "m_array_detect ascii_env 48 (Some [64]) two_strings = Inr (16, two_strings) \<and>
   m_array_inject ascii_env 48 (Some [64]) two_strings = Inr (16, two_strings)"
proof -
  have a: "h_arrays two_strings 48 = Some \<lparr>a_data = [16, 32], a_size = 2, a_alloc = 2\<rparr>" "h_type two_strings 48 = SN_ARRAY_TYPE"
    by (simp_all add: two_strings_def)
  have w: "array_wf \<lparr>a_data = [16, 32], a_size = 2, a_alloc = 2\<rparr>" "is_object 48"
      "elems \<lparr>a_data = [16, 32], a_size = 2, a_alloc = 2\<rparr> = [16, 32]"
    by (simp_all add: array_wf_def is_object_def kTypeMask_def elems_def)
  have "h_call ascii_env 0 64 args two_strings = Inr (hd args, two_strings)" for args by (simp add: ascii_env_def)
  from array_queries [OF a(1) w(1) a(2) w(2) this] show ?thesis unfolding w(3)
    by (simp add: snow_eval_truth_def SN_NIL_def SN_FALSE_def upt_rec)
qed

end
