(* ===== verification/GcMemory.thy ===== *)
theory GcMemory
  imports GcHeap
begin

text \<open>
  The collector's view of memory (snow/gc.c): words of 64 bits at addresses that are multiples
  of 8, the header and the tail around every allocation, finding the allocation a pointer
  points into, and allocating one.  A word outside every chunk is not mapped, and touching it
  is \<open>Undef\<close>.  \<open>g_malloc\<close> gives the address of the next chunk, \<open>g_finalizer\<close> runs the
  finaliser at an address on an object.
\<close>

record gstate =
  mem :: "addr \<rightharpoonup> 64 word"
  info :: gc_info
  nurseries :: "SnGCHeap list"
  adults :: "SnGCHeap list"
  biggies :: "SnGCHeap list"
  unkillables :: "SnGCHeap list"
  graveyard :: "SnGCHeap list"
  new_adults :: "SnGCHeap list"
  new_unkillables :: "SnGCHeap list"
  my_nursery :: "nat option"
  num_minor :: nat
  st_survived :: nat
  st_freed :: nat
  st_moved :: nat
  st_indefinites :: nat
  st_total :: nat

type_synonym 'a gprog = "('a, gstate) prog"

record genv =
  g_malloc :: "gstate \<Rightarrow> nat \<Rightarrow> addr"
  g_finalizer :: "64 word \<Rightarrow> addr \<Rightarrow> unit gprog"
  g_stacks :: "(addr \<times> addr) list"
  g_definite :: "addr list"

definition gassert :: "bool \<Rightarrow> unit gprog" where
  "gassert b = plift (assert_ok b)"

lemma gassert_simps [simp]: "gassert True s = Inr ((), s)" "gassert False s = Inl Trap"
  by (simp_all add: gassert_def)

subsection \<open>Words in memory\<close>

text \<open>A word at an address that is no multiple of 8 is made of the two it lies in.\<close>

definition read_word :: "(addr \<rightharpoonup> 64 word) \<Rightarrow> addr \<Rightarrow> 64 word option" where
  "read_word m p = (if p mod 8 = 0 then m p
     else case (m (p - p mod 8), m (p - p mod 8 + 8)) of
       (Some a, Some b) \<Rightarrow> Some (drop_bit (8 * (p mod 8)) a OR push_bit (64 - 8 * (p mod 8)) b)
     | _ \<Rightarrow> None)"

definition rd :: "addr \<Rightarrow> (64 word) gprog" where
  "rd p s = (case read_word (mem s) p of Some w \<Rightarrow> Inr (w, s) | None \<Rightarrow> Inl Undef)"

definition wr :: "addr \<Rightarrow> 64 word \<Rightarrow> unit gprog" where
  "wr p w s = (if p mod 8 = 0 \<and> mem s p \<noteq> None then Inr ((), s\<lparr>mem := (mem s)(p \<mapsto> w)\<rparr>) else Inl Undef)"

definition map_chunk :: "addr \<Rightarrow> nat \<Rightarrow> (addr \<rightharpoonup> 64 word) \<Rightarrow> (addr \<rightharpoonup> 64 word)" where
  "map_chunk p n m = (\<lambda>a. if p \<le> a \<and> a + 8 \<le> p + n \<and> a mod 8 = 0 then Some 0xcdcdcdcdcdcdcdcd else m a)"

definition unmap_chunk :: "addr \<Rightarrow> nat \<Rightarrow> (addr \<rightharpoonup> 64 word) \<Rightarrow> (addr \<rightharpoonup> 64 word)" where
  "unmap_chunk p n m = (\<lambda>a. if p \<le> a \<and> a < p + n then None else m a)"

primrec fill_words :: "addr \<Rightarrow> nat \<Rightarrow> 64 word \<Rightarrow> unit gprog" where
  "fill_words p 0 w = pret ()"
| "fill_words p (Suc k) w = pbind (wr p w) (\<lambda>_. fill_words (p + 8) k w)"

primrec copy_words :: "addr \<Rightarrow> addr \<Rightarrow> nat \<Rightarrow> unit gprog" where
  "copy_words dst src 0 = pret ()"
| "copy_words dst src (Suc k) = pbind (rd src) (\<lambda>w. pbind (wr dst w) (\<lambda>_. copy_words (dst + 8) (src + 8) k))"

subsection \<open>Allocation headers\<close>

text \<open>
  \<open>SnGCAllocInfo\<close> as the word it is: 32 bits of size, 24 of index, 2 of type, 6 of checksum.
\<close>

definition GC_INVALID :: "64 word" where "GC_INVALID = 0"
definition GC_OBJECT :: "64 word" where "GC_OBJECT = 1"
definition GC_BLOB :: "64 word" where "GC_BLOB = 2"
definition GC_ATOMIC :: "64 word" where "GC_ATOMIC = 3"

definition GC_MARK :: SnGCFlags where "GC_MARK = 1"
definition GC_TRANSPLANTED :: SnGCFlags where "GC_TRANSPLANTED = 2"
definition GC_UPDATED :: SnGCFlags where "GC_UPDATED = 4"
definition GC_INDEFINITE :: SnGCFlags where "GC_INDEFINITE = 8"

definition ai_size :: "64 word \<Rightarrow> nat" where "ai_size w = unat (take_bit 32 w)"
definition ai_index :: "64 word \<Rightarrow> nat" where "ai_index w = unat (take_bit 24 (drop_bit 32 w))"
definition ai_type :: "64 word \<Rightarrow> 64 word" where "ai_type w = take_bit 2 (drop_bit 56 w)"
definition ai_checksum :: "64 word \<Rightarrow> nat" where "ai_checksum w = unat (drop_bit 58 w)"

definition ai_fields :: "nat \<Rightarrow> nat \<Rightarrow> 64 word \<Rightarrow> 64 word" where
  "ai_fields n i t = take_bit 32 (of_nat n) OR push_bit 32 (take_bit 24 (of_nat i)) OR push_bit 56 (take_bit 2 t)"

definition ai_set_type :: "64 word \<Rightarrow> 64 word \<Rightarrow> 64 word" where
  "ai_set_type w t = take_bit 56 w OR push_bit 56 (take_bit 2 t) OR push_bit 58 (drop_bit 58 w)"

definition snow_popcount64 :: "64 word \<Rightarrow> nat" where
  "snow_popcount64 w = length (filter (bit w) [0..<64])"

definition gc_compute_checksum :: "64 word \<Rightarrow> 64 word" where
  "gc_compute_checksum w = (let w = take_bit 58 w in w OR push_bit 58 (take_bit 6 (of_nat (snow_popcount64 w))))"

definition gc_check_checksum :: "64 word \<Rightarrow> bool" where
  "gc_check_checksum w \<longleftrightarrow> snow_popcount64 (take_bit 58 w) = ai_checksum w"

definition MAGIC_BEAD_HEAD :: "64 word" where "MAGIC_BEAD_HEAD = 0xbe4dbeedbaadb3ad"
definition MAGIC_BEAD_TAIL :: "64 word" where "MAGIC_BEAD_TAIL = 0xb3adbaadbeedbe4d"

definition snow_gc_round :: "nat \<Rightarrow> nat" where
  "snow_gc_round n = n + (SNOW_GC_ALIGNMENT - n mod SNOW_GC_ALIGNMENT) mod SNOW_GC_ALIGNMENT"

definition gc_calculate_total_size :: "nat \<Rightarrow> nat" where
  "gc_calculate_total_size n = n + (sizeof_head + sizeof_tail)"

definition gc_init_allocation :: "addr \<Rightarrow> nat \<Rightarrow> 64 word \<Rightarrow> nat \<Rightarrow> 64 word \<Rightarrow> addr gprog" where
  "gc_init_allocation ptr rounded_size alloc_type object_index free_func =
     (let data = ptr + sizeof_head; tail = data + rounded_size
      in pbind (wr (ptr + 8) MAGIC_BEAD_HEAD) (\<lambda>_.
         pbind (wr (tail + 8) MAGIC_BEAD_TAIL) (\<lambda>_.
         pbind (wr ptr (gc_compute_checksum (ai_fields rounded_size object_index alloc_type))) (\<lambda>_.
         pbind (wr tail free_func) (\<lambda>_. pret data)))))"

subsection \<open>Heaps\<close>

datatype space = Nursery | Adults | Biggies | Unkillables | Graveyard | NewAdults | NewUnkillables

type_synonym heap_ref = "space \<times> nat"

fun heaps_of :: "gstate \<Rightarrow> space \<Rightarrow> SnGCHeap list" where
  "heaps_of s Nursery = nurseries s"
| "heaps_of s Adults = adults s"
| "heaps_of s Biggies = biggies s"
| "heaps_of s Unkillables = unkillables s"
| "heaps_of s Graveyard = graveyard s"
| "heaps_of s NewAdults = new_adults s"
| "heaps_of s NewUnkillables = new_unkillables s"

fun set_heaps :: "space \<Rightarrow> SnGCHeap list \<Rightarrow> gstate \<Rightarrow> gstate" where
  "set_heaps Nursery hs s = s\<lparr>nurseries := hs\<rparr>"
| "set_heaps Adults hs s = s\<lparr>adults := hs\<rparr>"
| "set_heaps Biggies hs s = s\<lparr>biggies := hs\<rparr>"
| "set_heaps Unkillables hs s = s\<lparr>unkillables := hs\<rparr>"
| "set_heaps Graveyard hs s = s\<lparr>graveyard := hs\<rparr>"
| "set_heaps NewAdults hs s = s\<lparr>new_adults := hs\<rparr>"
| "set_heaps NewUnkillables hs s = s\<lparr>new_unkillables := hs\<rparr>"

definition get_heap :: "heap_ref \<Rightarrow> SnGCHeap gprog" where
  "get_heap r = pbind pget (\<lambda>s. plift (read_slot (heaps_of s (fst r)) (snd r)))"

definition put_heap :: "heap_ref \<Rightarrow> SnGCHeap \<Rightarrow> unit gprog" where
  "put_heap r h s = (if snd r < length (heaps_of s (fst r))
     then Inr ((), set_heaps (fst r) ((heaps_of s (fst r))[snd r := h]) s) else Inl Undef)"

definition put_heaps :: "space \<Rightarrow> SnGCHeap list \<Rightarrow> unit gprog" where
  "put_heaps sp hs s = Inr ((), set_heaps sp hs s)"

text \<open>The search over the lists, in their order; the lists of a running collection are not searched.\<close>

definition find_in :: "space \<Rightarrow> gstate \<Rightarrow> addr \<Rightarrow> heap_ref option" where
  "find_in sp s p = map_option (Pair sp) (gc_heap_list_find_heap (heaps_of s sp) p)"

definition gc_find_heap :: "gstate \<Rightarrow> addr \<Rightarrow> heap_ref option" where
  "gc_find_heap s root =
     (if \<not> gc_maybe_contains (info s) root then None
      else case find_in Nursery s root of Some r \<Rightarrow> Some r
      | None \<Rightarrow> case find_in Adults s root of Some r \<Rightarrow> Some r
      | None \<Rightarrow> case find_in Biggies s root of Some r \<Rightarrow> Some r
      | None \<Rightarrow> case find_in Unkillables s root of Some r \<Rightarrow> Some r
      | None \<Rightarrow> find_in Graveyard s root)"

definition gc_looks_like_allocation :: "addr \<Rightarrow> bool gprog" where
  "gc_looks_like_allocation ptr =
     pbind (rd ptr) (\<lambda>w. let data_end = ptr + sizeof_head + ai_size w
       in pbind (rd (ptr + 8)) (\<lambda>bead.
          if bead \<noteq> MAGIC_BEAD_HEAD then pret False
          else if \<not> gc_check_checksum w then pret False
          else pbind pget (\<lambda>s.
               if \<not> gc_maybe_contains (info s) data_end then pret False
               else pbind (rd (data_end + 8)) (\<lambda>tail. pret (tail = MAGIC_BEAD_TAIL)))))"

text \<open>The loop goes down by 16 bytes from an address, so its turns are bounded by the address.\<close>

fun find_start_loop :: "nat \<Rightarrow> heap_ref \<Rightarrow> addr \<Rightarrow> addr gprog" where
  "find_start_loop 0 r ptr = pfail Undef"
| "find_start_loop (Suc k) r ptr =
     pbind (get_heap r) (\<lambda>h.
       if \<not> gc_heap_contains h ptr then pret ptr
       else pbind (gc_looks_like_allocation ptr) (\<lambda>b.
            if b then pret ptr
            else pbind pget (\<lambda>s. pbind (gassert (gc_maybe_contains (info s) (ptr - SNOW_GC_ALIGNMENT))) (\<lambda>_.
                 find_start_loop k r (ptr - SNOW_GC_ALIGNMENT)))))"

text \<open>The start of the object, and the addresses of its header and its tail.\<close>

definition gc_find_object_start :: "heap_ref \<Rightarrow> addr \<Rightarrow> (addr \<times> addr \<times> addr) gprog" where
  "gc_find_object_start r data =
     (let ptr = data - data mod SNOW_GC_ALIGNMENT
      in pbind (find_start_loop (Suc (ptr div SNOW_GC_ALIGNMENT)) r ptr) (\<lambda>ptr.
         pbind (rd ptr) (\<lambda>w.
         pret (ptr + sizeof_head, ptr, ptr + sizeof_head + ai_size w))))"

definition heap_flags_of :: "heap_ref \<Rightarrow> nat \<Rightarrow> SnGCFlags gprog" where
  "heap_flags_of r i = pbind (get_heap r) (\<lambda>h. plift (gc_heap_get_flags h i))"

definition set_heap_flags :: "heap_ref \<Rightarrow> nat \<Rightarrow> SnGCFlags \<Rightarrow> unit gprog" where
  "set_heap_flags r i f = pbind (get_heap r) (\<lambda>h. pbind (plift (gc_heap_set_flags h i f)) (put_heap r))"

text \<open>
  Allocating in a heap or in a list of heaps; memory for a new heap is mapped.
\<close>

definition alloc_in_heap :: "genv \<Rightarrow> heap_ref \<Rightarrow> nat \<Rightarrow> nat \<Rightarrow> (addr \<times> nat) option gprog" where
  "alloc_in_heap env r total_size heap_size =
     pbind (get_heap r) (\<lambda>h. pbind pget (\<lambda>s. let chunk = g_malloc env s heap_size
       in pbind (plift (gc_heap_alloc chunk h total_size heap_size (info s))) (\<lambda>(h', g, res).
          pbind (pput (s\<lparr>info := g, mem := (if h_start h = 0 then map_chunk chunk heap_size (mem s) else mem s)\<rparr>)) (\<lambda>_.
          pbind (put_heap r h') (\<lambda>_. pret res)))))"

definition alloc_in_list :: "genv \<Rightarrow> space \<Rightarrow> nat \<Rightarrow> nat \<Rightarrow> (addr \<times> nat) gprog" where
  "alloc_in_list env sp total_size heap_size =
     pbind pget (\<lambda>s. let chunk = g_malloc env s heap_size; hs = heaps_of s sp
       in pbind (plift (gc_heap_list_alloc chunk hs total_size heap_size (info s))) (\<lambda>(hs', g, p, idx).
          pbind (pput (s\<lparr>info := g, mem := (if first_fitting hs total_size = None then map_chunk chunk heap_size (mem s)
                                          else mem s)\<rparr>)) (\<lambda>_.
          pbind (put_heaps sp hs') (\<lambda>_. pret (p, idx)))))"

definition free_heap :: "SnGCHeap \<Rightarrow> SnGCHeap gprog" where
  "free_heap h = pbind pget (\<lambda>s. let (h', g) = gc_heap_finalize h (info s)
     in pbind (pput (s\<lparr>info := g, mem := unmap_chunk (h_start h) (h_end h - h_start h) (mem s)\<rparr>)) (\<lambda>_. pret h'))"

subsection \<open>Nurseries\<close>

definition GC_NURSERY_SIZE :: nat where "GC_NURSERY_SIZE = 0x100000"
definition GC_ADULT_SIZE :: nat where "GC_ADULT_SIZE = 0x800000"
definition GC_BIG_ALLOCATION_SIZE_LIMIT :: nat where "GC_BIG_ALLOCATION_SIZE_LIMIT = 0x1000"

text \<open>A new nursery goes to the head of the list, and the others move down.\<close>

definition add_nursery :: "unit gprog" where
  "add_nursery = pbind pget (\<lambda>s.
     pput (s\<lparr>nurseries := gc_heap_init fresh_heap # nurseries s, my_nursery := Some 0\<rparr>))"

definition gc_my_nursery :: "heap_ref gprog" where
  "gc_my_nursery = pbind pget (\<lambda>s. case my_nursery s of
      Some i \<Rightarrow> pret (Nursery, i)
    | None \<Rightarrow> pbind add_nursery (\<lambda>_. pret (Nursery, 0)))"

definition gc_finalize_nursery :: "nat \<Rightarrow> unit gprog" where
  "gc_finalize_nursery i =
     pbind (get_heap (Nursery, i)) (\<lambda>h. pbind pget (\<lambda>s.
       pput (s\<lparr>adults := gc_heap_list_push_heap (adults s) (Some h),
              nurseries := take i (nurseries s) @ drop (Suc i) (nurseries s)\<rparr>)))"

subsection \<open>Allocation\<close>

text \<open>\<open>collect\<close> is \<open>snow_gc\<close>, called when the nursery is full.\<close>

definition gc_alloc :: "genv \<Rightarrow> unit gprog \<Rightarrow> nat \<Rightarrow> 64 word \<Rightarrow> addr gprog" where
  "gc_alloc env collect n alloc_type =
     pbind (gassert (n \<noteq> 0)) (\<lambda>_.
     let rounded_size = snow_gc_round n; total_size = gc_calculate_total_size rounded_size
     in pbind (if total_size > GC_BIG_ALLOCATION_SIZE_LIMIT
               then alloc_in_list env Biggies total_size total_size
               else pbind gc_my_nursery (\<lambda>r.
                    pbind (alloc_in_heap env r total_size GC_NURSERY_SIZE) (\<lambda>res. case res of
                      Some x \<Rightarrow> pret x
                    | None \<Rightarrow> pbind collect (\<lambda>_.
                        pbind gc_my_nursery (\<lambda>r.
                        pbind (alloc_in_heap env r total_size GC_NURSERY_SIZE) (\<lambda>res. case res of
                          Some x \<Rightarrow> pret x | None \<Rightarrow> pfail Trap)))))) (\<lambda>(ptr, object_index).
        pbind (gc_init_allocation ptr rounded_size alloc_type object_index 0) (\<lambda>data.
        pbind pget (\<lambda>s. pbind (pput (s\<lparr>st_total := (st_total s + 1) mod 2 ^ 32\<rparr>)) (\<lambda>_. pret data)))))"

definition snow_gc_alloc_object :: "genv \<Rightarrow> unit gprog \<Rightarrow> nat \<Rightarrow> addr gprog" where
  "snow_gc_alloc_object env collect n = gc_alloc env collect n GC_OBJECT"

definition snow_gc_alloc_blob :: "genv \<Rightarrow> unit gprog \<Rightarrow> nat \<Rightarrow> addr gprog" where
  "snow_gc_alloc_blob env collect n = gc_alloc env collect n GC_BLOB"

definition snow_gc_alloc_atomic :: "genv \<Rightarrow> unit gprog \<Rightarrow> nat \<Rightarrow> addr gprog" where
  "snow_gc_alloc_atomic env collect n = gc_alloc env collect n GC_ATOMIC"

text \<open>The heap of an address and what is found there; an address outside every heap traps.\<close>

definition find_allocation :: "addr \<Rightarrow> (heap_ref \<times> addr \<times> addr \<times> addr) gprog" where
  "find_allocation p = pbind pget (\<lambda>s. case gc_find_heap s p of
      None \<Rightarrow> pfail Trap
    | Some r \<Rightarrow> pbind (gc_find_object_start r p) (\<lambda>x. pret (r, x)))"

definition snow_gc_set_free_func :: "addr \<Rightarrow> 64 word \<Rightarrow> unit gprog" where
  "snow_gc_set_free_func data free_func =
     pbind (find_allocation data) (\<lambda>(r, obj, head, tail). wr tail free_func)"

definition snow_gc_allocated_size :: "addr \<Rightarrow> nat gprog" where
  "snow_gc_allocated_size data =
     pbind (find_allocation data) (\<lambda>(r, obj, head, tail). pbind (rd head) (\<lambda>w. pret (ai_size w)))"

definition snow_gc_realloc :: "genv \<Rightarrow> unit gprog \<Rightarrow> addr \<Rightarrow> nat \<Rightarrow> addr gprog" where
  "snow_gc_realloc env collect ptr n =
     pbind (find_allocation ptr) (\<lambda>(r, obj, head, tail).
     pbind (gassert (obj = ptr)) (\<lambda>_.
     pbind (rd head) (\<lambda>w.
       if n > ai_size w
       then pbind (gc_alloc env collect n (ai_type w)) (\<lambda>new_ptr.
            pbind (rd tail) (\<lambda>f.
            pbind (if f \<noteq> 0 then pbind (rd tail) (snow_gc_set_free_func new_ptr) else pret ()) (\<lambda>_. pret new_ptr)))
       else pret ptr)))"

end
