(* ===== verification/GcCollect.thy ===== *)
theory GcCollect
  imports GcMemory Values
begin

text \<open>
  The collection (snow/gc.c): the roots, marking, sweeping, moving objects and updating the
  pointers to them, the minor and the major collection.  Marking and updating recur over the
  objects, and take fuel for the depth of the recursion.
\<close>

subsection \<open>Roots\<close>

type_synonym action = "addr \<Rightarrow> bool \<Rightarrow> unit gprog"

primrec with_words :: "(addr \<Rightarrow> unit gprog) \<Rightarrow> addr \<Rightarrow> nat \<Rightarrow> unit gprog" where
  "with_words act p 0 = pret ()"
| "with_words act p (Suc k) = pbind (act p) (\<lambda>_. with_words act (p + 8) k)"

primrec with_list :: "(addr \<Rightarrow> unit gprog) \<Rightarrow> addr list \<Rightarrow> unit gprog" where
  "with_list act [] = pret ()"
| "with_list act (p # ps) = pbind (act p) (\<lambda>_. with_list act ps)"

text \<open>\<open>while (p < end)\<close> by words, from an aligned bottom to an aligned top.\<close>

definition gc_with_stack_do :: "addr \<Rightarrow> addr \<Rightarrow> action \<Rightarrow> unit gprog" where
  "gc_with_stack_do bottom stack_top act =
     pbind (gassert (bottom mod SNOW_GC_ALIGNMENT = 0)) (\<lambda>_.
     pbind (gassert (stack_top mod SNOW_GC_ALIGNMENT = 0)) (\<lambda>_.
     with_words (\<lambda>p. pbind (rd p) (\<lambda>w. pbind pget (\<lambda>s.
       if gc_maybe_contains (info s) (unat w) then act p True else pret ()))) bottom ((stack_top - bottom) div 8)))"

definition gc_with_definite_roots_do :: "genv \<Rightarrow> action \<Rightarrow> unit gprog" where
  "gc_with_definite_roots_do env act = with_list (\<lambda>p. act p False) (g_definite env)"

definition do_task_stack :: "addr \<times> addr \<Rightarrow> action \<Rightarrow> unit gprog" where
  "do_task_stack st act = pbind (gassert (fst st \<noteq> 0 \<and> snd st \<noteq> 0)) (\<lambda>_. gc_with_stack_do (fst st) (snd st) act)"

primrec with_stacks :: "action \<Rightarrow> (addr \<times> addr) list \<Rightarrow> unit gprog" where
  "with_stacks act [] = pret ()"
| "with_stacks act (st # sts) = pbind (do_task_stack st act) (\<lambda>_. with_stacks act sts)"

definition gc_with_everything_do :: "genv \<Rightarrow> action \<Rightarrow> unit gprog" where
  "gc_with_everything_do env act =
     pbind (with_stacks act (g_stacks env)) (\<lambda>_. gc_with_definite_roots_do env act)"

text \<open>
  The pointers inside an object, by the offsets of the fields in the structures; the type is
  the low half of its first word.
\<close>

definition members_of_normal :: "nat list" where
  "members_of_normal = [8, 16, 24, 40, 56]"

definition object_type :: "addr \<Rightarrow> nat gprog" where
  "object_type p = pbind (rd p) (\<lambda>w. pret (unat (take_bit 32 w)))"

text \<open>References of a function: their count is the word at 88, they start at 96, 16 bytes each.\<close>

primrec with_references :: "(addr \<Rightarrow> unit gprog) \<Rightarrow> addr \<Rightarrow> nat \<Rightarrow> unit gprog" where
  "with_references act p 0 = pret ()"
| "with_references act p (Suc k) = pbind (act p) (\<lambda>_. with_references act (p + 16) k)"

definition thin_members :: "nat \<Rightarrow> nat list option" where
  "thin_members t =
     (if t = type_code SN_CONTINUATION_TYPE then Some [112, 120, 128]
      else if t = type_code SN_CONTEXT_TYPE then Some [8, 16, 24, 32, 40, 48]
      else if t = type_code SN_ARGUMENTS_TYPE then Some [8, 24]
      else if t = type_code SN_FUNCTION_DESCRIPTION_TYPE then Some [24, 32]
      else if t = type_code SN_STRING_TYPE then Some [8]
      else if t = type_code SN_ARRAY_TYPE then Some [8]
      else if t = type_code SN_MAP_TYPE then Some [16]
      else if t = type_code SN_CODEGEN_TYPE then Some [8, 16, 24, 40]
      else if t = type_code SN_POINTER_TYPE then Some [8]
      else None)"

definition gc_with_object_do :: "addr \<Rightarrow> action \<Rightarrow> unit gprog" where
  "gc_with_object_do obj act =
     (let fields = with_list (\<lambda>p. act p False)
      in pbind (gassert (is_object (of_nat obj))) (\<lambda>_.
         pbind (object_type obj) (\<lambda>t.
           if SN_NORMAL_OBJECT_TYPE_BASE \<le> t \<and> t < SN_NORMAL_OBJECT_TYPE_MAX
           then pbind (fields (map ((+) obj) members_of_normal)) (\<lambda>_.
                pbind (object_type obj) (\<lambda>t.
                  if t = type_code SN_OBJECT_TYPE then pret ()
                  else if t = type_code SN_CLASS_TYPE then fields [obj + 80]
                  else if t = type_code SN_FUNCTION_TYPE
                  then pbind (fields [obj + 72, obj + 80]) (\<lambda>_.
                       pbind (rd (obj + 88)) (\<lambda>w.
                       with_references (\<lambda>p. act p False) (obj + 96) (unat (take_bit 32 w))))
                  else if t = type_code SN_EXCEPTION_TYPE then fields [obj + 72, obj + 80]
                  else pfail Trap))
           else if t = type_code SN_AST_TYPE
           then pbind (rd (obj + 8)) (\<lambda>w. with_words (\<lambda>p. act p False) (obj + 16) (unat w))
           else case thin_members t of
                  Some offsets \<Rightarrow> fields (map ((+) obj) offsets)
                | None \<Rightarrow> pfail Trap)))"

subsection \<open>Marking\<close>

definition count_mark :: "heap_ref \<Rightarrow> SnGCFlags \<Rightarrow> unit gprog" where
  "count_mark r new_flags =
     pbind (get_heap r) (\<lambda>h. pbind pget (\<lambda>s.
       let ind = new_flags AND GC_INDEFINITE \<noteq> 0; mrk = new_flags AND GC_MARK \<noteq> 0
       in pbind (put_heap r (h\<lparr>num_indefinite := (if ind then (num_indefinite h + 1) mod 2 ^ 32 else num_indefinite h),
                              num_reachable := (if mrk then (num_reachable h + 1) mod 2 ^ 32 else num_reachable h)\<rparr>)) (\<lambda>_.
          pbind pget (\<lambda>s.
          pput (s\<lparr>st_indefinites := (if ind then (st_indefinites s + 1) mod 2 ^ 32 else st_indefinites s),
                 st_survived := (if mrk then (st_survived s + 1) mod 2 ^ 32 else st_survived s)\<rparr>)))))"

fun gc_mark_root :: "nat \<Rightarrow> action" where
  "gc_mark_root 0 root_p on_stack = pfail Undef"
| "gc_mark_root (Suc n) root_p on_stack =
     pbind (rd root_p) (\<lambda>root. pbind pget (\<lambda>s.
       case gc_find_heap s (unat root) of
         None \<Rightarrow> pret ()
       | Some r \<Rightarrow>
           pbind (gc_find_object_start r (unat root)) (\<lambda>(obj, head, tail).
           pbind (rd head) (\<lambda>w.
             if ai_type w = GC_INVALID then pret ()
             else pbind (heap_flags_of r (ai_index w)) (\<lambda>flags.
                  let new_flags = flags OR GC_MARK OR (if on_stack then GC_INDEFINITE else 0)
                  in pbind (if flags \<noteq> new_flags
                            then pbind (set_heap_flags r (ai_index w) new_flags) (\<lambda>_. count_mark r new_flags)
                            else pret ()) (\<lambda>_.
                     if flags AND GC_MARK \<noteq> 0 then pret ()
                     else if ai_type w = GC_OBJECT then gc_with_object_do obj (gc_mark_root n)
                     else if ai_type w = GC_BLOB
                     then with_words (\<lambda>p. gc_mark_root n p False) obj (ai_size w div 8)
                     else pret ()))))))"

subsection \<open>Sweeping\<close>

text \<open>An action on an object gets the address of the object, of its header and of its tail.\<close>

fun each_object_loop :: "nat \<Rightarrow> heap_ref \<Rightarrow> (addr \<Rightarrow> addr \<Rightarrow> addr \<Rightarrow> unit gprog) \<Rightarrow> addr \<Rightarrow> unit gprog" where
  "each_object_loop 0 r act p = pfail Undef"
| "each_object_loop (Suc k) r act p =
     pbind (get_heap r) (\<lambda>h.
       if \<not> p < h_current h then pret ()
       else pbind (gc_looks_like_allocation p) (\<lambda>b. pbind (gassert b) (\<lambda>_.
            pbind (rd p) (\<lambda>w. let obj = p + sizeof_head; tail = obj + ai_size w
              in pbind (act obj p tail) (\<lambda>_. each_object_loop k r act (tail + sizeof_tail))))))"

definition gc_with_each_object_in_heap_do :: "heap_ref \<Rightarrow> (addr \<Rightarrow> addr \<Rightarrow> addr \<Rightarrow> unit gprog) \<Rightarrow> unit gprog" where
  "gc_with_each_object_in_heap_do r act =
     pbind (get_heap r) (\<lambda>h. each_object_loop (Suc (h_current h - h_start h)) r act (h_start h))"

definition gc_finalize_object :: "genv \<Rightarrow> addr \<Rightarrow> addr \<Rightarrow> addr \<Rightarrow> unit gprog" where
  "gc_finalize_object env obj head tail =
     pbind (rd tail) (\<lambda>f.
     pbind (if f \<noteq> 0 then pbind (g_finalizer env f obj) (\<lambda>_. wr tail 0) else pret ()) (\<lambda>_.
     pbind (rd head) (\<lambda>w.
     pbind (fill_words obj (ai_size w div 8) 0xefefefefefefefef) (\<lambda>_.
     pbind (wr head (gc_compute_checksum (ai_set_type w GC_INVALID))) (\<lambda>_.
     pbind pget (\<lambda>s. pput (s\<lparr>st_freed := (st_freed s + 1) mod 2 ^ 32\<rparr>)))))))"

definition gc_transplant :: "genv \<Rightarrow> addr \<Rightarrow> addr \<Rightarrow> addr \<Rightarrow> space \<Rightarrow> unit gprog" where
  "gc_transplant env obj head tail transplant_to =
     pbind (rd head) (\<lambda>w. let n = ai_size w
       in pbind (gassert (n mod SNOW_GC_ALIGNMENT = 0)) (\<lambda>_.
          pbind (alloc_in_list env transplant_to (gc_calculate_total_size n) GC_ADULT_SIZE) (\<lambda>(new_ptr, object_index).
          pbind (rd tail) (\<lambda>f.
          pbind (gc_init_allocation new_ptr n (ai_type w) object_index f) (\<lambda>new_object.
          pbind (copy_words new_object obj (n div 8)) (\<lambda>_.
          pbind (fill_words obj (n div 8) 0xefefefefefefefef) (\<lambda>_.
          pbind (wr obj (of_nat new_object)) (\<lambda>_.
          pbind pget (\<lambda>s. pput (s\<lparr>st_moved := (st_moved s + 1) mod 2 ^ 32\<rparr>))))))))))"

definition gc_invalidate_transplanted :: "heap_ref \<Rightarrow> addr \<Rightarrow> addr \<Rightarrow> addr \<Rightarrow> unit gprog" where
  "gc_invalidate_transplanted r obj head tail =
     pbind (rd head) (\<lambda>w.
     pbind (heap_flags_of r (ai_index w)) (\<lambda>flags.
       if flags AND GC_TRANSPLANTED \<noteq> 0 then wr head (gc_compute_checksum (ai_set_type w GC_INVALID)) else pret ()))"

definition gc_transplant_or_finalize_object ::
    "genv \<Rightarrow> space \<Rightarrow> heap_ref \<Rightarrow> addr \<Rightarrow> addr \<Rightarrow> addr \<Rightarrow> unit gprog" where
  "gc_transplant_or_finalize_object env transplant_to r obj head tail =
     pbind (rd head) (\<lambda>w.
     pbind (heap_flags_of r (ai_index w)) (\<lambda>flags.
       if flags AND GC_MARK \<noteq> 0
       then if flags AND GC_INDEFINITE \<noteq> 0 then pret ()
            else pbind (gc_transplant env obj head tail transplant_to) (\<lambda>_.
                 pbind (set_heap_flags r (ai_index w) GC_TRANSPLANTED) (\<lambda>_.
                 pbind (get_heap r) (\<lambda>h.
                 put_heap r (h\<lparr>num_reachable := (num_reachable h + (2 ^ 32 - 1)) mod 2 ^ 32\<rparr>))))
       else gc_finalize_object env obj head tail))"

definition gc_sweep_heap :: "genv \<Rightarrow> heap_ref \<Rightarrow> space \<Rightarrow> unit gprog" where
  "gc_sweep_heap env r transplant_to =
     gc_with_each_object_in_heap_do r (gc_transplant_or_finalize_object env transplant_to r)"

text \<open>Over the nurseries from the first: position \<open>i\<close>, \<open>k\<close> left.\<close>

primrec sweep_nurseries_from :: "genv \<Rightarrow> nat \<Rightarrow> nat \<Rightarrow> unit gprog" where
  "sweep_nurseries_from env i 0 = pret ()"
| "sweep_nurseries_from env i (Suc k) =
     pbind (get_heap (Nursery, i)) (\<lambda>h.
     pbind (if h_start h = 0 then pret () else gc_sweep_heap env (Nursery, i) Adults) (\<lambda>_.
     sweep_nurseries_from env (Suc i) k))"

definition gc_sweep_nurseries :: "genv \<Rightarrow> unit gprog" where
  "gc_sweep_nurseries env = pbind pget (\<lambda>s. sweep_nurseries_from env 0 (length (nurseries s)))"

primrec reset_or_save_from :: "nat \<Rightarrow> nat \<Rightarrow> unit gprog" where
  "reset_or_save_from i 0 = pret ()"
| "reset_or_save_from i (Suc k) =
     pbind (get_heap (Nursery, i)) (\<lambda>h.
     pbind (if num_indefinite h > 0
            then pbind pget (\<lambda>s. pbind (put_heaps Unkillables (gc_heap_list_push_heap (unkillables s) (Some h))) (\<lambda>_.
                 put_heap (Nursery, i) zero_heap))
            else pbind (free_heap h) (put_heap (Nursery, i))) (\<lambda>_.
     reset_or_save_from (Suc i) k))"

definition gc_reset_or_save_nurseries :: "unit gprog" where
  "gc_reset_or_save_nurseries = pbind pget (\<lambda>s. reset_or_save_from 0 (length (nurseries s)))"

definition gc_clear_flags :: "unit gprog" where
  "gc_clear_flags = pbind pget (\<lambda>s. pput (s\<lparr>nurseries := map gc_heap_clear_flags (nurseries s),
     adults := gc_heap_list_clear_flags (adults s), biggies := gc_heap_list_clear_flags (biggies s),
     unkillables := gc_heap_list_clear_flags (unkillables s)\<rparr>))"

subsection \<open>Updating\<close>

text \<open>
  A pointer to a moved object becomes the pointer to its copy, with the same distance to its
  start; the copy is found in the heap it went to.
\<close>

fun gc_update_root :: "nat \<Rightarrow> action" where
  "gc_update_root 0 root_p on_stack = pfail Undef"
| "gc_update_root (Suc n) root_p on_stack =
     pbind (rd root_p) (\<lambda>root. pbind pget (\<lambda>s.
       case gc_find_heap s (unat root) of
         None \<Rightarrow> pret ()
       | Some r \<Rightarrow>
           pbind (gc_find_object_start r (unat root)) (\<lambda>(obj, head, tail).
           pbind (rd head) (\<lambda>w.
           pbind (gassert (on_stack \<or> ai_type w \<noteq> GC_INVALID)) (\<lambda>_.
           pbind (heap_flags_of r (ai_index w)) (\<lambda>flags.
           pbind (if flags AND GC_TRANSPLANTED \<noteq> 0
                  then pbind (gassert (\<not> on_stack)) (\<lambda>_.
                       pbind (gassert (flags AND GC_INDEFINITE = 0)) (\<lambda>_.
                       pbind (rd obj) (\<lambda>new. let diff = root - of_nat obj
                         in pbind (wr root_p (new + diff)) (\<lambda>_.
                            pbind pget (\<lambda>s. case gc_find_heap s (unat (new + diff)) of
                              None \<Rightarrow> pfail Undef
                            | Some r \<Rightarrow> pbind (gc_find_object_start r (unat new)) (\<lambda>(obj', head, tail).
                                pret (r, unat new, head)))))))
                  else pret (r, obj, head)) (\<lambda>(r, obj, head).
             if flags AND GC_UPDATED \<noteq> 0 then pret ()
             else pbind (rd head) (\<lambda>w.
                  pbind (set_heap_flags r (ai_index w) GC_UPDATED) (\<lambda>_.
                    if ai_type w = GC_OBJECT then gc_with_object_do obj (gc_update_root n)
                    else if ai_type w = GC_BLOB
                    then with_words (\<lambda>p. gc_update_root n p False) obj (ai_size w div 8)
                    else pret ())))))))))"

subsection \<open>Collections\<close>

primrec invalidate_unkillables :: "nat \<Rightarrow> nat \<Rightarrow> unit gprog" where
  "invalidate_unkillables i 0 = pret ()"
| "invalidate_unkillables i (Suc k) =
     pbind (gc_with_each_object_in_heap_do (Unkillables, i) (gc_invalidate_transplanted (Unkillables, i))) (\<lambda>_.
     invalidate_unkillables (Suc i) k)"

definition gc_minor :: "nat \<Rightarrow> genv \<Rightarrow> unit gprog" where
  "gc_minor n env =
     pbind (gc_with_everything_do env (gc_mark_root n)) (\<lambda>_.
     pbind (gc_sweep_nurseries env) (\<lambda>_.
     pbind (gc_with_everything_do env (gc_update_root n)) (\<lambda>_.
     pbind gc_reset_or_save_nurseries (\<lambda>_.
     pbind pget (\<lambda>s. invalidate_unkillables 0 (length (unkillables s)))))))"

text \<open>
  Moving a heap to another list: the list is given a copy, the heap is cleared and its node
  erased, which frees nothing then.
\<close>

definition erase_heap :: "heap_ref \<Rightarrow> unit gprog" where
  "erase_heap r =
     pbind (put_heap r zero_heap) (\<lambda>_. pbind pget (\<lambda>s.
     pbind (plift (gc_heap_list_erase (heaps_of s (fst r)) (snd r) (info s))) (\<lambda>(hs, g).
     pbind (pput (s\<lparr>info := g\<rparr>)) (\<lambda>_. put_heaps (fst r) hs))))"

definition push_heap_to :: "space \<Rightarrow> SnGCHeap \<Rightarrow> unit gprog" where
  "push_heap_to sp h = pbind pget (\<lambda>s. put_heaps sp (gc_heap_list_push_heap (heaps_of s sp) (Some h)))"

primrec sweep_adults :: "genv \<Rightarrow> nat \<Rightarrow> unit gprog" where
  "sweep_adults env 0 = pret ()"
| "sweep_adults env (Suc k) =
     pbind (gc_sweep_heap env (Adults, 0) NewAdults) (\<lambda>_.
     pbind (get_heap (Adults, 0)) (\<lambda>h.
     pbind (push_heap_to (if num_indefinite h > 0 then NewUnkillables else Graveyard) h) (\<lambda>_.
     pbind (erase_heap (Adults, 0)) (\<lambda>_. sweep_adults env k))))"

primrec sweep_unkillables :: "genv \<Rightarrow> nat \<Rightarrow> nat \<Rightarrow> unit gprog" where
  "sweep_unkillables env i 0 = pret ()"
| "sweep_unkillables env i (Suc k) =
     pbind (gc_sweep_heap env (Unkillables, i) Adults) (\<lambda>_.
     pbind (get_heap (Unkillables, i)) (\<lambda>h.
       if num_indefinite h > 0 then sweep_unkillables env (Suc i) k
       else pbind (push_heap_to Graveyard h) (\<lambda>_.
            pbind (erase_heap (Unkillables, i)) (\<lambda>_. sweep_unkillables env i k))))"

primrec append_unkillables :: "nat \<Rightarrow> unit gprog" where
  "append_unkillables 0 = pret ()"
| "append_unkillables (Suc k) =
     pbind (get_heap (NewUnkillables, 0)) (\<lambda>h.
     pbind (push_heap_to Unkillables h) (\<lambda>_.
     pbind (erase_heap (NewUnkillables, 0)) (\<lambda>_. append_unkillables k)))"

primrec scrap_graveyard :: "nat \<Rightarrow> unit gprog" where
  "scrap_graveyard 0 = pret ()"
| "scrap_graveyard (Suc k) =
     pbind (get_heap (Graveyard, 0)) (\<lambda>h.
     pbind (free_heap h) (\<lambda>_.
     pbind (erase_heap (Graveyard, 0)) (\<lambda>_. scrap_graveyard k)))"

definition gc_major :: "nat \<Rightarrow> genv \<Rightarrow> unit gprog" where
  "gc_major n env =
     pbind (gc_minor n env) (\<lambda>_.
     pbind gc_clear_flags (\<lambda>_.
     pbind (gc_with_everything_do env (gc_mark_root n)) (\<lambda>_.
     pbind pget (\<lambda>s. pbind (pput (s\<lparr>new_adults := [], new_unkillables := []\<rparr>)) (\<lambda>_.
     pbind (sweep_adults env (length (adults s))) (\<lambda>_.
     pbind pget (\<lambda>s. pbind (gassert (adults s = [])) (\<lambda>_.
     pbind (pput (s\<lparr>adults := new_adults s, new_adults := []\<rparr>)) (\<lambda>_.
     pbind pget (\<lambda>s. pbind (sweep_unkillables env 0 (length (unkillables s))) (\<lambda>_.
     pbind pget (\<lambda>s. pbind (append_unkillables (length (new_unkillables s))) (\<lambda>_.
     pbind (gc_with_everything_do env (gc_update_root n)) (\<lambda>_.
     pbind pget (\<lambda>s. pbind (scrap_graveyard (length (graveyard s))) (\<lambda>_.
     pbind pget (\<lambda>s. invalidate_unkillables 0 (length (unkillables s)))))))))))))))))))"

text \<open>No other collection is running: the lock is free.\<close>

definition snow_gc :: "nat \<Rightarrow> genv \<Rightarrow> unit gprog" where
  "snow_gc n env =
     pbind pget (\<lambda>s.
     pbind (if num_minor s > 10
            then pbind (gc_major n env) (\<lambda>_. pbind pget (\<lambda>s. pput (s\<lparr>num_minor := 0\<rparr>)))
            else pbind (gc_minor n env) (\<lambda>_. pbind pget (\<lambda>s. pput (s\<lparr>num_minor := (num_minor s + 1) mod 2 ^ 16\<rparr>)))) (\<lambda>_.
     pbind gc_clear_flags (\<lambda>_. pbind pget (\<lambda>s.
     pput (s\<lparr>st_survived := 0, st_freed := 0, st_moved := 0, st_indefinites := 0, st_total := 0\<rparr>)))))"

end
