(* ===== verification/GcMark.thy ===== *)
theory GcMark
  imports GcCollect
begin

text \<open>
  What marking needs of one object (snow/gc.c): what a mark changes in a heap, the programs
  that only read what it leaves alone, and the fields of an object as a list of addresses.
\<close>

subsection \<open>Shapes and readers\<close>

text \<open>
  Marking changes the flags and the counters of heaps only: the memory, the bounds and the
  extent of every heap stay the same.
\<close>

definition hshape :: "SnGCHeap \<Rightarrow> addr \<times> addr \<times> addr \<times> nat" where
  "hshape h = (h_start h, h_current h, h_end h, num_objects h)"

definition same_shape :: "gstate \<Rightarrow> gstate \<Rightarrow> bool" where
  "same_shape s s' \<longleftrightarrow> mem s' = mem s \<and> info s' = info s \<and>
     (\<forall>sp. map hshape (heaps_of s' sp) = map hshape (heaps_of s sp))"

lemma same_shape_refl [simp]: "same_shape s s"
  by (simp add: same_shape_def)

lemma same_shape_trans: "same_shape s t \<Longrightarrow> same_shape t u \<Longrightarrow> same_shape s u"
  by (simp add: same_shape_def)

lemma heaps_of_set [simp]: "heaps_of (set_heaps sp hs s) sp' = (if sp' = sp then hs else heaps_of s sp')"
  by (cases sp; cases sp') simp_all

lemma set_heaps_fields [simp]: "mem (set_heaps sp hs s) = mem s" "info (set_heaps sp hs s) = info s"
  by (cases sp; simp)+

lemma heaps_of_counters [simp]:
  "heaps_of (s\<lparr>st_indefinites := a\<rparr>) sp = heaps_of s sp" "heaps_of (s\<lparr>st_survived := a\<rparr>) sp = heaps_of s sp"
  by (cases sp; simp)+

definition heap_at :: "gstate \<Rightarrow> heap_ref \<Rightarrow> SnGCHeap" where
  "heap_at s r = heaps_of s (fst r) ! snd r"

definition ref_ok :: "gstate \<Rightarrow> heap_ref \<Rightarrow> bool" where
  "ref_ok s r \<longleftrightarrow> snd r < length (heaps_of s (fst r))"

lemma shape_heap:
  assumes "same_shape s s'" "ref_ok s r"
  shows "ref_ok s' r" "hshape (heap_at s' r) = hshape (heap_at s r)"
proof -
  have m: "map hshape (heaps_of s' (fst r)) = map hshape (heaps_of s (fst r))" using assms(1) by (simp add: same_shape_def)
  then have l: "length (heaps_of s' (fst r)) = length (heaps_of s (fst r))" by (rule map_eq_imp_length_eq)
  then show "ref_ok s' r" using assms(2) by (simp add: ref_ok_def)
  have "map hshape (heaps_of s' (fst r)) ! snd r = map hshape (heaps_of s (fst r)) ! snd r" using m by simp
  then show "hshape (heap_at s' r) = hshape (heap_at s r)" using assms(2) l by (simp add: heap_at_def ref_ok_def)
qed

text \<open>A program that only reads what marking leaves alone.\<close>

definition reader :: "'a gprog \<Rightarrow> bool" where
  "reader f \<longleftrightarrow> (\<forall>s s'. same_shape s s' \<longrightarrow>
     (\<forall>e. f s = Inl e \<longrightarrow> f s' = Inl e) \<and> (\<forall>x t. f s = Inr (x, t) \<longrightarrow> t = s \<and> f s' = Inr (x, s')))"

lemma readerI:
  "(\<And>s s' e. same_shape s s' \<Longrightarrow> f s = Inl e \<Longrightarrow> f s' = Inl e) \<Longrightarrow>
   (\<And>s s' x t. same_shape s s' \<Longrightarrow> f s = Inr (x, t) \<Longrightarrow> t = s \<and> f s' = Inr (x, s')) \<Longrightarrow> reader f"
  by (simp add: reader_def)

lemma readerD:
  assumes "reader f" "same_shape s s'"
  shows "f s = Inl e \<Longrightarrow> f s' = Inl e" "f s = Inr (x, t) \<Longrightarrow> t = s \<and> f s' = Inr (x, s')"
  using assms by (auto simp: reader_def)

lemma reader_bind:
  assumes "reader m" "\<And>x. reader (k x)"
  shows "reader (pbind m k)"
proof (rule readerI)
  fix s s' e assume sh: "same_shape s s'" and f: "pbind m k s = Inl e"
  show "pbind m k s' = Inl e"
  proof (cases "m s")
    case (Inl a)
    then show ?thesis using f readerD(1) [OF assms(1) sh] by simp
  next
    case (Inr r)
    obtain x t where r: "r = (x, t)" by force
    have "t = s \<and> m s' = Inr (x, s')" using readerD(2) [OF assms(1) sh] Inr r by simp
    then show ?thesis using f Inr r readerD(1) [OF assms(2) sh] by simp
  qed
next
  fix s s' y u assume sh: "same_shape s s'" and f: "pbind m k s = Inr (y, u)"
  then obtain x t where m: "m s = Inr (x, t)" "k x t = Inr (y, u)" by auto
  then have "t = s \<and> m s' = Inr (x, s')" using readerD(2) [OF assms(1) sh] by blast
  then show "u = s \<and> pbind m k s' = Inr (y, s')" using m(2) readerD(2) [OF assms(2) sh] by simp
qed

lemma reader_pret: "reader (pret x)" and reader_pfail: "reader (pfail e)" and reader_rd: "reader (rd p)"
  and reader_assert: "reader (gassert b)"
  by (auto simp: reader_def rd_def same_shape_def gassert_def assert_ok_def split: option.splits)

lemma reader_info:
  assumes "\<And>g. reader (K g)"
  shows "reader (pbind pget (\<lambda>s. K (info s)))"
proof (rule readerI)
  fix s s' e assume sh: "same_shape s s'" and f: "pbind pget (\<lambda>s. K (info s)) s = Inl e"
  then show "pbind pget (\<lambda>s. K (info s)) s' = Inl e"
    using readerD(1) [OF assms sh] by (simp add: same_shape_def)
next
  fix s s' x t assume sh: "same_shape s s'" and f: "pbind pget (\<lambda>s. K (info s)) s = Inr (x, t)"
  then show "t = s \<and> pbind pget (\<lambda>s. K (info s)) s' = Inr (x, s')"
    using readerD(2) [OF assms sh] by (simp add: same_shape_def)
qed

lemma get_heap_eq: "get_heap r s = (if ref_ok s r then Inr (heap_at s r, s) else Inl Undef)"
  by (simp add: get_heap_def ref_ok_def heap_at_def)

lemma shape_ref: "same_shape s s' \<Longrightarrow> ref_ok s' r = ref_ok s r"
  by (simp add: ref_ok_def same_shape_def) (metis map_eq_imp_length_eq)

lemma reader_heap:
  assumes "\<And>h h'. hshape h = hshape h' \<Longrightarrow> K h = K h'" "\<And>h. reader (K h)"
  shows "reader (pbind (get_heap r) K)"
proof (rule readerI)
  fix s s' e assume sh: "same_shape s s'" and f: "pbind (get_heap r) K s = Inl e"
  show "pbind (get_heap r) K s' = Inl e"
  proof (cases "ref_ok s r")
    case True
    then have "K (heap_at s' r) = K (heap_at s r)" using shape_heap(2) [OF sh] assms(1) by blast
    then show ?thesis using f True shape_ref [OF sh] readerD(1) [OF assms(2) sh] by (simp add: get_heap_eq)
  qed (use f shape_ref [OF sh] in \<open>simp add: get_heap_eq\<close>)
next
  fix s s' x t assume sh: "same_shape s s'" and f: "pbind (get_heap r) K s = Inr (x, t)"
  then have r: "ref_ok s r" by (auto simp: get_heap_eq split: if_splits)
  then have "K (heap_at s' r) = K (heap_at s r)" using shape_heap(2) [OF sh] assms(1) by blast
  then show "t = s \<and> pbind (get_heap r) K s' = Inr (x, s')"
    using f r shape_ref [OF sh] readerD(2) [OF assms(2) sh] by (simp add: get_heap_eq)
qed

lemma reader_if: "(b \<Longrightarrow> reader f) \<Longrightarrow> (\<not> b \<Longrightarrow> reader g) \<Longrightarrow> reader (if b then f else g)"
  by simp

lemma reader_looks: "reader (gc_looks_like_allocation p)"
proof -
  have i: "reader (pbind pget (\<lambda>s. if \<not> gc_maybe_contains (info s) d then pret False
      else pbind (rd (d + 8)) (\<lambda>tail. pret (tail = MAGIC_BEAD_TAIL))))" for d
    by (rule reader_info [where K = "\<lambda>g. if \<not> gc_maybe_contains g d then pret False
      else pbind (rd (d + 8)) (\<lambda>tail. pret (tail = MAGIC_BEAD_TAIL))"])
      (intro reader_if reader_bind reader_rd reader_pret)
  show ?thesis unfolding gc_looks_like_allocation_def Let_def
    by (intro reader_bind reader_rd reader_if reader_pret i)
qed

lemma reader_find_loop: "reader (find_start_loop k r p)"
proof (induction k arbitrary: p)
  case (Suc k)
  have i: "reader (pbind pget (\<lambda>s. pbind (gassert (gc_maybe_contains (info s) q)) (\<lambda>_. find_start_loop k r q)))" for q
    by (rule reader_info [where K = "\<lambda>g. pbind (gassert (gc_maybe_contains g q)) (\<lambda>_. find_start_loop k r q)"])
      (intro reader_bind reader_assert Suc)
  show ?case unfolding find_start_loop.simps
  proof (rule reader_heap)
    fix h h' assume "hshape h = hshape h'"
    then have "gc_heap_contains h p = gc_heap_contains h' p" by (simp add: hshape_def gc_heap_contains_def)
    then show "(if \<not> gc_heap_contains h p then pret p else pbind (gc_looks_like_allocation p) (\<lambda>b. if b then pret p
        else pbind pget (\<lambda>s. pbind (gassert (gc_maybe_contains (info s) (p - SNOW_GC_ALIGNMENT)))
          (\<lambda>_. find_start_loop k r (p - SNOW_GC_ALIGNMENT))))) =
      (if \<not> gc_heap_contains h' p then pret p else pbind (gc_looks_like_allocation p) (\<lambda>b. if b then pret p
        else pbind pget (\<lambda>s. pbind (gassert (gc_maybe_contains (info s) (p - SNOW_GC_ALIGNMENT)))
          (\<lambda>_. find_start_loop k r (p - SNOW_GC_ALIGNMENT)))))" by simp
  qed (intro reader_if reader_bind reader_pret reader_looks i)
qed (simp add: reader_pfail)

lemma reader_find_start: "reader (gc_find_object_start r p)"
  unfolding gc_find_object_start_def Let_def by (intro reader_bind reader_find_loop reader_rd reader_pret)

lemma list_find_shape:
  "map hshape hs = map hshape hs' \<Longrightarrow> gc_heap_list_find_heap hs p = gc_heap_list_find_heap hs' p"
proof (induction hs arbitrary: hs')
  case (Cons h hs)
  then obtain h' hs'' where e: "hs' = h' # hs''" "hshape h = hshape h'" "map hshape hs = map hshape hs''"
    by (cases hs') auto
  then have "gc_heap_contains h p = gc_heap_contains h' p" by (simp add: hshape_def gc_heap_contains_def)
  then show ?case using e Cons.IH [of hs''] by simp
qed simp

lemma find_heap_shape: "same_shape s s' \<Longrightarrow> gc_find_heap s' p = gc_find_heap s p"
proof -
  assume sh: "same_shape s s'"
  then have f: "find_in sp s' p = find_in sp s p" for sp
    using list_find_shape [of "heaps_of s' sp" "heaps_of s sp" p] by (simp add: same_shape_def find_in_def)
  have "info s' = info s" using sh by (simp add: same_shape_def)
  then show ?thesis unfolding gc_find_heap_def f by simp
qed

lemma list_find_less: "gc_heap_list_find_heap hs p = Some i \<Longrightarrow> i < length hs"
  by (induction hs arbitrary: i) (auto split: if_splits)

lemma find_heap_ref_ok: "gc_find_heap s p = Some r \<Longrightarrow> ref_ok s r"
  by (auto simp: gc_find_heap_def find_in_def ref_ok_def dest: list_find_less split: if_splits option.splits)


subsection \<open>Flags\<close>

definition flags_ready :: "SnGCHeap \<Rightarrow> bool" where
  "flags_ready h \<longleftrightarrow> flags_wf h \<and> num_objects h < 2 ^ 31 \<and> (h_flags h = None \<or> num_objects h \<le> num_flags h)"

definition flags_inv :: "gstate \<Rightarrow> bool" where
  "flags_inv s \<longleftrightarrow> (\<forall>sp. \<forall>h \<in> set (heaps_of s sp). flags_ready h)"

lemma flags_inv_at: "flags_inv s \<Longrightarrow> ref_ok s r \<Longrightarrow> flags_ready (heap_at s r)"
  unfolding flags_inv_def ref_ok_def heap_at_def using nth_mem by blast

lemma counters_flags [simp]:
  "flags_ready (h\<lparr>num_indefinite := a, num_reachable := b\<rparr>) = flags_ready h"
  "hshape (h\<lparr>num_indefinite := a, num_reachable := b\<rparr>) = hshape h"
  "flag_of (h\<lparr>num_indefinite := a, num_reachable := b\<rparr>) i = flag_of h i"
  by (auto simp: flags_ready_def flags_wf_def hshape_def flag_of_def split: option.splits)

lemma get_flags_ready:
  "flags_ready h \<Longrightarrow> i < num_objects h \<Longrightarrow> gc_heap_get_flags h i = Inr (flag_of h i)"
  by (auto simp: flags_ready_def flags_wf_def gc_heap_get_flags_def flag_of_def split: option.splits)

lemma heap_flags_of_ok:
  "flags_inv s \<Longrightarrow> ref_ok s r \<Longrightarrow> i < num_objects (heap_at s r) \<Longrightarrow>
   heap_flags_of r i s = Inr (flag_of (heap_at s r) i, s)"
  using get_flags_ready [OF flags_inv_at] by (simp add: heap_flags_of_def get_heap_eq)

lemma put_heap_ok:
  assumes r: "ref_ok s r" and sh: "hshape h = hshape (heap_at s r)"
  defines "s' \<equiv> set_heaps (fst r) ((heaps_of s (fst r))[snd r := h]) s"
  shows "put_heap r h s = Inr ((), s')" "same_shape s s'" "ref_ok s' q = ref_ok s q"
    "heap_at s' q = (if q = r then h else heap_at s q)" "flags_inv s \<Longrightarrow> flags_ready h \<Longrightarrow> flags_inv s'"
proof -
  show "put_heap r h s = Inr ((), s')" using r by (simp add: put_heap_def ref_ok_def s'_def)
  have "map hshape ((heaps_of s (fst r))[snd r := h]) = map hshape (heaps_of s (fst r))"
    using r sh by (simp add: map_update ref_ok_def heap_at_def flip: sh) (metis heap_at_def list_update_id map_update nth_map ref_ok_def sh)
  then show same: "same_shape s s'" by (simp add: same_shape_def s'_def)
  show "ref_ok s' q = ref_ok s q" by (rule shape_ref [OF same])
  show "heap_at s' q = (if q = r then h else heap_at s q)"
    using r by (cases q; cases r) (auto simp: heap_at_def ref_ok_def s'_def nth_list_update)
  show "flags_inv s'" if "flags_inv s" "flags_ready h"
    using that by (auto simp: flags_inv_def s'_def dest!: subsetD [OF set_update_subset_insert])
qed

lemma mark_step:
  assumes inv: "flags_inv s" and r: "ref_ok s r" and i: "i < num_objects (heap_at s r)"
  shows "\<exists>s'. pbind (set_heap_flags r i nf) (\<lambda>_. count_mark r nf) s = Inr ((), s') \<and> same_shape s s' \<and> flags_inv s' \<and>
    (\<forall>q j. ref_ok s q \<longrightarrow> flag_of (heap_at s' q) j =
       (if q = r \<and> j = i then flag_of (heap_at s q) j OR nf else flag_of (heap_at s q) j))"
proof -
  have ready: "flags_ready (heap_at s r)" by (rule flags_inv_at [OF inv r])
  then obtain h where h: "gc_heap_set_flags (heap_at s r) i nf = Inr h" "flags_wf h" "num_objects h = num_objects (heap_at s r)"
      "num_objects h \<le> num_flags h" "\<forall>j. flag_of h j = (if j = i then flag_of (heap_at s r) i OR nf else flag_of (heap_at s r) j)"
    using set_flags_ok [of "heap_at s r" i nf] i by (auto simp: flags_ready_def)
  have "hshape h = hshape (heap_at s r)" and rh: "flags_ready h"
    using h ready by (auto simp: flags_ready_def hshape_def gc_heap_set_flags_def grow_flags_def Let_def split: option.splits if_splits)
  note p = put_heap_ok [OF r this(1)]
  let ?s1 = "set_heaps (fst r) ((heaps_of s (fst r))[snd r := h]) s"
  let ?h = "h\<lparr>num_indefinite := (if nf AND GC_INDEFINITE \<noteq> 0 then (num_indefinite h + 1) mod 2 ^ 32 else num_indefinite h),
     num_reachable := (if nf AND GC_MARK \<noteq> 0 then (num_reachable h + 1) mod 2 ^ 32 else num_reachable h)\<rparr>"
  have at: "heap_at ?s1 r = h" "ref_ok ?s1 r" using p(3,4) r by simp_all
  have "hshape ?h = hshape (heap_at ?s1 r)" "flags_ready ?h"
    using rh at(1) by simp_all
  note p2 = put_heap_ok [OF at(2) this(1)]
  let ?s2 = "set_heaps (fst r) ((heaps_of ?s1 (fst r))[snd r := ?h]) ?s1"
  let ?s3 = "?s2\<lparr>st_indefinites := (if nf AND GC_INDEFINITE \<noteq> 0 then (st_indefinites ?s2 + 1) mod 2 ^ 32 else st_indefinites ?s2),
     st_survived := (if nf AND GC_MARK \<noteq> 0 then (st_survived ?s2 + 1) mod 2 ^ 32 else st_survived ?s2)\<rparr>"
  have run: "pbind (set_heap_flags r i nf) (\<lambda>_. count_mark r nf) s = Inr ((), ?s3)"
    using r h(1) p(1) at p2(1) by (simp add: set_heap_flags_def count_mark_def get_heap_eq Let_def)
  have sh: "same_shape ?s2 ?s3" by (simp add: same_shape_def)
  have "same_shape s ?s3" using same_shape_trans [OF same_shape_trans [OF p(2) p2(2)] sh] .
  moreover have "flags_inv ?s3"
    using p2(5) [OF p(5) [OF inv rh] \<open>flags_ready ?h\<close>] unfolding flags_inv_def heaps_of_counters .
  moreover have "flag_of (heap_at ?s3 q) j = (if q = r \<and> j = i then flag_of (heap_at s q) j OR nf else flag_of (heap_at s q) j)" for q j
  proof -
    have "heap_at ?s3 q = heap_at ?s2 q" by (simp add: heap_at_def)
    moreover have "flag_of ?h j = flag_of h j" by (rule counters_flags)
    ultimately show ?thesis using p(4) p2(4) h(5) by simp
  qed
  ultimately show ?thesis using run by blast
qed


subsection \<open>Objects and their slots\<close>

text \<open>The object a value points into: its heap, the address of its header, and the header.\<close>

type_synonym node = "heap_ref \<times> addr \<times> 64 word"

definition object_at :: "gstate \<Rightarrow> addr \<Rightarrow> node option" where
  "object_at s p = (case gc_find_heap s p of None \<Rightarrow> None | Some r \<Rightarrow>
     (case gc_find_object_start r p s of Inl e \<Rightarrow> None | Inr ((obj, head, tail), _) \<Rightarrow>
       (case read_word (mem s) head of None \<Rightarrow> None | Some w \<Rightarrow>
          if ai_type w = GC_INVALID then None else Some (r, head, w))))"

lemma object_at_shape: "same_shape s s' \<Longrightarrow> object_at s' = object_at s"
proof
  fix p assume sh: "same_shape s s'"
  have m: "mem s' = mem s" using sh by (simp add: same_shape_def)
  show "object_at s' p = object_at s p"
  proof (cases "gc_find_heap s p")
    case (Some r)
    then have r: "gc_find_heap s' p = Some r" using find_heap_shape [OF sh] by simp
    show ?thesis
    proof (cases "gc_find_object_start r p s")
      case (Inl e)
      then show ?thesis using readerD(1) [OF reader_find_start sh Inl] Some r by (simp add: object_at_def)
    next
      case (Inr x)
      obtain a t where x: "x = (a, t)" by (cases x)
      then show ?thesis using readerD(2) [OF reader_find_start sh, of r p a t] Inr Some r m by (simp add: object_at_def)
    qed
  qed (use find_heap_shape [OF sh] in \<open>simp add: object_at_def\<close>)
qed

definition slots_from :: "addr \<Rightarrow> nat \<Rightarrow> nat \<Rightarrow> addr list" where
  "slots_from p step k = map (\<lambda>i. p + step * i) [0..<k]"

lemma slots_from_simps [simp]:
  "slots_from p d 0 = []" "slots_from p d (Suc k) = p # slots_from (p + d) d k"
proof -
  show "slots_from p d 0 = []" by (simp add: slots_from_def)
  show "slots_from p d (Suc k) = p # slots_from (p + d) d k"
    unfolding slots_from_def by (simp only: upt_conv_Cons [of 0 "Suc k"] zero_less_Suc map_Suc_upt [symmetric])
      (simp add: algebra_simps)
qed

lemma with_words_list: "with_words act p k = with_list act (slots_from p 8 k)"
  by (induction k arbitrary: p) simp_all

lemma with_references_list: "with_references act p k = with_list act (slots_from p 16 k)"
  by (induction k arbitrary: p) simp_all

lemma with_list_append: "with_list act (ps @ qs) s = pbind (with_list act ps) (\<lambda>_. with_list act qs) s"
proof (induction ps arbitrary: s)
  case (Cons p ps)
  show ?case by (cases "act p s") (auto simp: Cons)
qed simp

definition object_slots :: "(addr \<rightharpoonup> 64 word) \<Rightarrow> addr \<Rightarrow> addr list option" where
  "object_slots m obj = (case read_word m obj of None \<Rightarrow> None | Some w \<Rightarrow>
     let t = unat (take_bit 32 w)
     in if SN_NORMAL_OBJECT_TYPE_BASE \<le> t \<and> t < SN_NORMAL_OBJECT_TYPE_MAX
        then map_option ((@) (map ((+) obj) members_of_normal))
          (if t = type_code SN_OBJECT_TYPE then Some []
           else if t = type_code SN_CLASS_TYPE then Some [obj + 80]
           else if t = type_code SN_FUNCTION_TYPE
           then (case read_word m (obj + 88) of None \<Rightarrow> None
                 | Some w \<Rightarrow> Some ([obj + 72, obj + 80] @ slots_from (obj + 96) 16 (unat (take_bit 32 w))))
           else if t = type_code SN_EXCEPTION_TYPE then Some [obj + 72, obj + 80]
           else None)
        else if t = type_code SN_AST_TYPE
        then (case read_word m (obj + 8) of None \<Rightarrow> None | Some w \<Rightarrow> Some (slots_from (obj + 16) 8 (unat w)))
        else map_option (map ((+) obj)) (thin_members t))"

definition keeps_mem :: "(addr \<Rightarrow> unit gprog) \<Rightarrow> bool" where
  "keeps_mem act \<longleftrightarrow> (\<forall>p s s'. act p s = Inr ((), s') \<longrightarrow> mem s' = mem s)"

lemma with_list_mem: "keeps_mem act \<Longrightarrow> with_list act ps s = Inr ((), s') \<Longrightarrow> mem s' = mem s"
proof (induction ps arbitrary: s)
  case (Cons p ps)
  then obtain s1 where "act p s = Inr ((), s1)" "with_list act ps s1 = Inr ((), s')" by auto
  then show ?case using Cons.IH [of s1] Cons.prems(1) by (simp add: keeps_mem_def)
qed simp

lemma then_same:
  assumes "keeps_mem act" "\<And>t. mem t = mem s \<Longrightarrow> k t = with_list act qs t"
  shows "pbind (with_list act ps) (\<lambda>_. k) s = with_list act (ps @ qs) s"
proof (cases "with_list act ps s")
  case (Inr x)
  then have "mem (snd x) = mem s" using with_list_mem [OF assms(1), of ps s "snd x"] by (cases x) simp
  then show ?thesis using assms(2) Inr by (cases x) (simp add: with_list_append)
qed (simp add: with_list_append)

lemma with_object_slots:
  assumes k: "keeps_mem (\<lambda>p. act p False)" and obj: "is_object (of_nat obj)" and ps: "object_slots (mem s) obj = Some ps"
  shows "gc_with_object_do obj act s = with_list (\<lambda>p. act p False) ps s"
proof -
  obtain w where w: "read_word (mem s) obj = Some w" using ps by (auto simp: object_slots_def split: option.splits)
  define t where "t = unat (take_bit 32 w)"
  let ?f = "\<lambda>p. act p False"
  have ty: "object_type obj u = Inr (t, u)" if "mem u = mem s" for u
    using w that by (simp add: object_type_def rd_def t_def)
  show ?thesis
  proof (cases "SN_NORMAL_OBJECT_TYPE_BASE \<le> t \<and> t < SN_NORMAL_OBJECT_TYPE_MAX")
    case True
    then obtain qs where qs: "ps = map ((+) obj) members_of_normal @ qs"
        "(if t = type_code SN_OBJECT_TYPE then Some []
           else if t = type_code SN_CLASS_TYPE then Some [obj + 80]
           else if t = type_code SN_FUNCTION_TYPE
           then (case read_word (mem s) (obj + 88) of None \<Rightarrow> None
                 | Some w \<Rightarrow> Some ([obj + 72, obj + 80] @ slots_from (obj + 96) 16 (unat (take_bit 32 w))))
           else if t = type_code SN_EXCEPTION_TYPE then Some [obj + 72, obj + 80]
           else None) = Some qs"
      using ps w by (auto simp: object_slots_def Let_def simp flip: t_def)
    define K where "K = pbind (object_type obj) (\<lambda>t.
        if t = type_code SN_OBJECT_TYPE then pret ()
        else if t = type_code SN_CLASS_TYPE then with_list ?f [obj + 80]
        else if t = type_code SN_FUNCTION_TYPE
        then pbind (with_list ?f [obj + 72, obj + 80]) (\<lambda>_. pbind (rd (obj + 88)) (\<lambda>w.
             with_references ?f (obj + 96) (unat (take_bit 32 w))))
        else if t = type_code SN_EXCEPTION_TYPE then with_list ?f [obj + 72, obj + 80]
        else pfail Trap)"
    have "K u = with_list ?f qs u" if u: "mem u = mem s" for u
    proof (cases "t = type_code SN_FUNCTION_TYPE")
      case fn: True
      obtain v where v: "read_word (mem s) (obj + 88) = Some v"
          "qs = [obj + 72, obj + 80] @ slots_from (obj + 96) 16 (unat (take_bit 32 v))"
        using qs(2) fn by (auto split: option.splits)
      have "pbind (with_list ?f [obj + 72, obj + 80]) (\<lambda>_. pbind (rd (obj + 88)) (\<lambda>w.
          with_references ?f (obj + 96) (unat (take_bit 32 w)))) u = with_list ?f qs u"
        unfolding v(2) by (rule then_same [OF k]) (use v(1) u in \<open>simp add: rd_def with_references_list\<close>)
      then show ?thesis unfolding K_def prog_simps ty [OF u] using fn by simp
    next
      case False
      then show ?thesis unfolding K_def prog_simps ty [OF u] using qs(2) by (auto split: if_splits)
    qed
    then have "pbind (with_list ?f (map ((+) obj) members_of_normal)) (\<lambda>_. K) s = with_list ?f ps s"
      unfolding qs(1) by (rule then_same [OF k])
    moreover have "gc_with_object_do obj act s = pbind (with_list ?f (map ((+) obj) members_of_normal)) (\<lambda>_. K) s"
      unfolding gc_with_object_do_def Let_def K_def pbind_def [of "gassert _"] pbind_def [of "object_type obj" "\<lambda>t. if SN_NORMAL_OBJECT_TYPE_BASE \<le> t \<and> _ t then _ t else _ t"]
      using True obj ty [of s] by simp
    ultimately show ?thesis by simp
  next
    case False
    show ?thesis
    proof (cases "t = type_code SN_AST_TYPE")
      case True
      then obtain v where "read_word (mem s) (obj + 8) = Some v" "ps = slots_from (obj + 16) 8 (unat v)"
        using ps w False by (auto simp: object_slots_def Let_def simp flip: t_def split: option.splits)
      then show ?thesis unfolding gc_with_object_do_def Let_def
        using False True obj ty [of s] by (auto simp: rd_def with_words_list)
    next
      case ast: False
      then obtain os where "thin_members t = Some os" "ps = map ((+) obj) os"
        using ps w False by (auto simp: object_slots_def Let_def simp flip: t_def)
      then show ?thesis unfolding gc_with_object_do_def Let_def using False ast obj ty [of s] by auto
    qed
  qed
qed

end
