(* ===== verification/GcHeader.thy ===== *)
theory GcHeader
  imports GcCollect
begin

text \<open>
  The words the collector puts around an allocation and the search for them (snow/gc.c):
  the header packs and checks, and an address inside an allocation leads back to its start.
\<close>

subsection \<open>Header words\<close>

unbundle bit_operations_syntax

lemma ai_fields_bit:
  "bit (ai_fields n i t) k \<longleftrightarrow> k < 58 \<and> (if k < 32 then bit n k else if k < 56 then bit i (k - 32) else bit t (k - 56))"
  by (auto simp: ai_fields_def bit_or_iff bit_take_bit_iff bit_push_bit_iff bit_of_nat_iff)

lemma header_bit:
  "bit (gc_compute_checksum w) k \<longleftrightarrow> (if k < 58 then bit w k else k < 64 \<and> bit (snow_popcount64 (take_bit 58 w)) (k - 58))"
  by (auto simp: gc_compute_checksum_def Let_def bit_or_iff bit_take_bit_iff bit_push_bit_iff bit_of_nat_iff)

lemma ai_field:
  assumes "v < 2 ^ k" "k \<le> 64" "\<And>j. bit w j \<longleftrightarrow> j < k \<and> bit v j"
  shows "unat (w :: 64 word) = v"
proof -
  have "v < 2 ^ 64" using assms(1,2) power_increasing [of k 64 "2 :: nat"] by (meson less_le_trans one_le_numeral)
  moreover have "w = of_nat v"
  proof (rule bit_word_eqI)
    fix j assume "j < LENGTH(64)"
    moreover have "bit v j \<Longrightarrow> j < k" using assms(1) by (metis bit_take_bit_iff take_bit_nat_eq_self)
    ultimately show "bit w j = bit (of_nat v :: 64 word) j" using assms(3) by (auto simp: bit_of_nat_iff)
  qed
  ultimately show ?thesis by (simp add: unat_of_nat take_bit_nat_eq_self flip: take_bit_eq_mod)
qed

lemma header_fields:
  fixes t :: "64 word"
  assumes "n < 2 ^ 32" "i < 2 ^ 24"
  defines "w \<equiv> gc_compute_checksum (ai_fields n i t)"
  shows "ai_size w = n" "ai_index w = i" "ai_type w = take_bit 2 t"
proof -
  show "ai_size w = n" unfolding ai_size_def
    by (rule ai_field [OF assms(1)]) (auto simp: w_def bit_take_bit_iff header_bit ai_fields_bit)
  show "ai_index w = i" unfolding ai_index_def
    by (rule ai_field [OF assms(2)]) (auto simp: w_def bit_take_bit_iff bit_drop_bit_eq header_bit ai_fields_bit)
  show "ai_type w = take_bit 2 t" unfolding ai_type_def
    by (rule bit_word_eqI) (auto simp: w_def bit_take_bit_iff bit_drop_bit_eq header_bit ai_fields_bit)
qed

lemma popcount_le: "snow_popcount64 (take_bit 58 w) \<le> 58"
proof -
  have "filter (bit (take_bit 58 w)) [0..<64] = filter (bit (take_bit 58 w)) [0..<58]"
    using upt_add_eq_append [of 0 58 6] by (simp add: bit_take_bit_iff)
  then show ?thesis unfolding snow_popcount64_def by (metis diff_zero length_filter_le length_upt)
qed

lemma header_checksum: "gc_check_checksum (gc_compute_checksum w)"
proof -
  have "take_bit 58 (gc_compute_checksum w) = take_bit 58 w"
    by (rule bit_word_eqI) (auto simp: bit_take_bit_iff header_bit)
  moreover have "ai_checksum (gc_compute_checksum w) = snow_popcount64 (take_bit 58 w)"
  proof -
    have l: "snow_popcount64 (take_bit 58 w) < 2 ^ 6" using popcount_le [of w] by simp
    have "bit (snow_popcount64 (take_bit 58 w)) j \<Longrightarrow> j < 6" for j
      using l by (metis bit_take_bit_iff take_bit_nat_eq_self)
    then show ?thesis unfolding ai_checksum_def
      by (intro ai_field [OF l]) (auto simp: bit_drop_bit_eq header_bit)
  qed
  ultimately show ?thesis by (simp add: gc_check_checksum_def)
qed

text \<open>One flipped bit of a header is detected.\<close>

lemma popcount_card: "snow_popcount64 w = card {k. bit w k}"
proof -
  have "{k. bit w k} = set (filter (bit w) [0..<64])" by (auto dest: bit_imp_le_length)
  moreover have "card (set (filter (bit w) [0..<64])) = length (filter (bit w) [0..<64])"
    by (rule distinct_card) simp
  ultimately show ?thesis by (simp only: snow_popcount64_def)
qed

lemma header_flip:
  assumes w: "gc_check_checksum w" and k: "k < 64"
  shows "\<not> gc_check_checksum (flip_bit k w)"
proof (cases "k < 58")
  case True
  have "drop_bit 58 (flip_bit k w) = drop_bit 58 w"
    by (rule bit_word_eqI) (use True in \<open>auto simp: bit_drop_bit_eq bit_flip_bit_iff dest: bit_imp_le_length\<close>)
  then have same: "ai_checksum (flip_bit k w) = ai_checksum w" by (simp add: ai_checksum_def)
  define A where "A = {j. bit (take_bit 58 w) j}"
  have fin: "finite A" by (rule finite_subset [of _ "{..<58}"]) (auto simp: A_def bit_take_bit_iff)
  have flip: "bit (take_bit 58 (flip_bit k w)) j \<longleftrightarrow> (if j = k then k \<notin> A else j \<in> A)" for j
    using True by (auto simp: A_def bit_take_bit_iff bit_flip_bit_iff)
  have "{j. bit (take_bit 58 (flip_bit k w)) j} = (if k \<in> A then A - {k} else insert k A)"
    unfolding flip by auto
  then have "card {j. bit (take_bit 58 (flip_bit k w)) j} \<noteq> card A"
    using fin card_Diff1_less [of A k] by (cases "k \<in> A") simp_all
  then show ?thesis using w same by (simp add: gc_check_checksum_def popcount_card A_def)
next
  case False
  have "take_bit 58 (flip_bit k w) = take_bit 58 w"
    by (rule bit_word_eqI) (use False in \<open>auto simp: bit_take_bit_iff bit_flip_bit_iff\<close>)
  moreover have "drop_bit 58 (flip_bit k w) \<noteq> drop_bit 58 w"
  proof
    assume "drop_bit 58 (flip_bit k w) = drop_bit 58 w"
    then have "bit (drop_bit 58 (flip_bit k w)) (k - 58) = bit (drop_bit 58 w) (k - 58)" by simp
    then show False using False k by (simp add: bit_drop_bit_eq bit_flip_bit_iff)
  qed
  then have "ai_checksum (flip_bit k w) \<noteq> ai_checksum w"
    unfolding ai_checksum_def using unsigned_word_eqI by blast
  ultimately show ?thesis using w by (simp add: gc_check_checksum_def)
qed

text \<open>
  C37. The header of an allocation: the size (below 2 ^ 32), the index (below 2 ^ 24) and the
  type packed into it read back, its checksum is accepted, and after any one of its 64 bits is
  flipped it is refused.
\<close>
theorem header_roundtrip:
  assumes "n < 2 ^ 32" "i < 2 ^ 24"
  shows "let w = gc_compute_checksum (ai_fields n i t)
     in ai_size w = n \<and> ai_index w = i \<and> ai_type w = take_bit 2 t \<and> gc_check_checksum w \<and>
       (\<forall>k < 64. \<not> gc_check_checksum (flip_bit k w))"
  using header_fields [OF assms] header_checksum header_flip [OF header_checksum] by (simp add: Let_def)

theorem header_roundtrip_witness:
  "let w = gc_compute_checksum (ai_fields 48 7 GC_BLOB)
   in ai_size w = 48 \<and> ai_index w = 7 \<and> ai_type w = take_bit 2 GC_BLOB \<and> gc_check_checksum w \<and>
     (\<forall>k < 64. \<not> gc_check_checksum (flip_bit k w))"
  by (rule header_roundtrip) simp_all

subsection \<open>Finding the start of an allocation\<close>

lemma wr_Inr: "wr p w s = Inr (x, t) \<longleftrightarrow> p mod 8 = 0 \<and> mem s p \<noteq> None \<and> x = () \<and> t = s\<lparr>mem := (mem s)(p \<mapsto> w)\<rparr>"
  by (auto simp: wr_def)

lemma rd_aligned: "p mod 8 = 0 \<Longrightarrow> mem s p = Some w \<Longrightarrow> rd p s = Inr (w, s)"
  by (simp add: rd_def read_word_def)

lemma mod16_8: "p mod SNOW_GC_ALIGNMENT = 0 \<Longrightarrow> p mod 8 = (0 :: nat)" "p mod SNOW_GC_ALIGNMENT = 0 \<Longrightarrow> (p + 8) mod 8 = (0 :: nat)"
  unfolding SNOW_GC_ALIGNMENT_def by presburger+

lemma mod16_step: "p mod SNOW_GC_ALIGNMENT = 0 \<Longrightarrow> n mod SNOW_GC_ALIGNMENT = 0 \<Longrightarrow> (p + sizeof_head + n) mod SNOW_GC_ALIGNMENT = (0 :: nat)"
  unfolding SNOW_GC_ALIGNMENT_def sizeof_head_def by presburger

lemma mod16_less: "p mod SNOW_GC_ALIGNMENT = 0 \<Longrightarrow> q mod SNOW_GC_ALIGNMENT = 0 \<Longrightarrow> p < q \<Longrightarrow> p + 16 \<le> (q :: nat)"
  unfolding SNOW_GC_ALIGNMENT_def by presburger

text \<open>Where an allocation begins, and where none does: the words an address shows to the search.\<close>

definition begins :: "gstate \<Rightarrow> addr \<Rightarrow> 64 word \<Rightarrow> bool" where
  "begins s p w \<longleftrightarrow> mem s p = Some w \<and> mem s (p + 8) = Some MAGIC_BEAD_HEAD \<and> gc_check_checksum w \<and>
     ai_size w mod SNOW_GC_ALIGNMENT = 0 \<and>
     mem s (p + sizeof_head + ai_size w + 8) = Some MAGIC_BEAD_TAIL"

definition no_bead :: "gstate \<Rightarrow> addr \<Rightarrow> bool" where
  "no_bead s q \<longleftrightarrow> mem s q \<noteq> None \<and> (\<exists>v. mem s (q + 8) = Some v \<and> v \<noteq> MAGIC_BEAD_HEAD)"

lemma looks_begins:
  assumes b: "begins s p w" and p: "p mod SNOW_GC_ALIGNMENT = 0" and g: "gc_maybe_contains (info s) (p + sizeof_head + ai_size w)"
  shows "gc_looks_like_allocation p s = Inr (True, s)"
proof -
  have e: "(p + sizeof_head + ai_size w) mod SNOW_GC_ALIGNMENT = 0"
    using p b by (intro mod16_step) (simp_all add: begins_def)
  have "rd p s = Inr (w, s)" "rd (p + 8) s = Inr (MAGIC_BEAD_HEAD, s)"
      "rd (p + sizeof_head + ai_size w + 8) s = Inr (MAGIC_BEAD_TAIL, s)"
    using b rd_aligned mod16_8 [OF p] mod16_8 [OF e] by (simp_all add: begins_def)
  then show ?thesis using b g by (simp add: gc_looks_like_allocation_def Let_def begins_def)
qed

lemma looks_no_bead:
  assumes "no_bead s q" "q mod SNOW_GC_ALIGNMENT = 0"
  shows "gc_looks_like_allocation q s = Inr (False, s)"
proof -
  obtain w v where "mem s q = Some w" "mem s (q + 8) = Some v" "v \<noteq> MAGIC_BEAD_HEAD"
    using assms(1) by (auto simp: no_bead_def)
  then have "rd q s = Inr (w, s)" "rd (q + 8) s = Inr (v, s)" "v \<noteq> MAGIC_BEAD_HEAD"
    using rd_aligned mod16_8 [OF assms(2)] by simp_all
  then show ?thesis by (simp add: gc_looks_like_allocation_def Let_def)
qed

text \<open>
  The search from an address of a heap goes down to the nearest place where an allocation
  begins, when no bead is in the way; the first allocation of the heap, which the heap does not
  \<open>contain\<close>, ends it by itself.
\<close>

lemma find_loop_down:
  assumes h: "get_heap r s = Inr (h, s)" and al: "h_start h mod SNOW_GC_ALIGNMENT = 0" "p mod SNOW_GC_ALIGNMENT = 0"
    and start: "h_start h \<le> p" "h_start h \<noteq> 0" and room: "p + sizeof_head + ai_size w + sizeof_tail \<le> h_end h"
    and bounds: "lower_bound (info s) \<le> h_start h" "h_end h \<le> upper_bound (info s)" and b: "begins s p w"
  shows "q = p + SNOW_GC_ALIGNMENT * j \<Longrightarrow> q < h_end h - sizeof_tail \<Longrightarrow> j < k \<Longrightarrow>
    (\<forall>i \<le> j. i \<noteq> 0 \<longrightarrow> no_bead s (p + SNOW_GC_ALIGNMENT * i)) \<Longrightarrow> find_start_loop k r q s = Inr (p, s)"
proof (induction j arbitrary: q k)
  case 0
  then obtain k' where k: "k = Suc k'" by (cases k) auto
  have "gc_maybe_contains (info s) (p + sizeof_head + ai_size w)"
    using start(1) room bounds by (simp add: gc_maybe_contains_def)
  then have "gc_looks_like_allocation p s = Inr (True, s)" by (rule looks_begins [OF b al(2)])
  then show ?case using 0 h k by simp
next
  case (Suc j)
  then obtain k' where k: "k = Suc k'" by (cases k) auto
  have q: "q - SNOW_GC_ALIGNMENT = p + SNOW_GC_ALIGNMENT * j" "q \<ge> h_start h + sizeof_head"
    using Suc.prems(1) start(1) by (simp_all add: sizeof_head_def SNOW_GC_ALIGNMENT_def)
  have qm: "q mod SNOW_GC_ALIGNMENT = 0" using al(2) unfolding Suc.prems(1) by (simp only: mod_mult_self2)
  have "gc_heap_contains h q" using q start(2) Suc.prems(2) by (simp add: gc_heap_contains_def)
  moreover have "gc_looks_like_allocation q s = Inr (False, s)"
    using Suc.prems(1,4) qm by (intro looks_no_bead) auto
  moreover have "gc_maybe_contains (info s) (q - SNOW_GC_ALIGNMENT)"
    using q(1) start(1) Suc.prems(1,2) bounds by (simp add: gc_maybe_contains_def)
  moreover have "find_start_loop k' r (q - SNOW_GC_ALIGNMENT) s = Inr (p, s)"
    using Suc.prems k by (intro Suc.IH [OF q(1)]) simp_all
  ultimately show ?case using h k by simp
qed

lemma find_start_down:
  assumes h: "get_heap r s = Inr (h, s)" and al: "h_start h mod SNOW_GC_ALIGNMENT = 0" "p mod SNOW_GC_ALIGNMENT = 0"
    and start: "h_start h \<le> p" "h_start h \<noteq> 0" and room: "p + sizeof_head + ai_size w + sizeof_tail \<le> h_end h"
    and bounds: "lower_bound (info s) \<le> h_start h" "h_end h \<le> upper_bound (info s)" and b: "begins s p w"
    and a: "p \<le> a" "a < h_end h - sizeof_tail"
    and free: "\<And>q. p < q \<Longrightarrow> q \<le> a \<Longrightarrow> q mod SNOW_GC_ALIGNMENT = 0 \<Longrightarrow> no_bead s q"
  shows "gc_find_object_start r a s = Inr ((p + sizeof_head, p, p + sizeof_head + ai_size w), s)"
proof -
  define q where "q = a - a mod SNOW_GC_ALIGNMENT"
  define j where "j = (q - p) div SNOW_GC_ALIGNMENT"
  have d: "16 dvd p" "16 dvd q" "q \<le> a" using al(2) by (auto simp: q_def SNOW_GC_ALIGNMENT_def)
  have "p div 16 \<le> a div 16" using a(1) by (rule div_le_mono)
  then have "p \<le> q" using d(1) by (auto simp: q_def SNOW_GC_ALIGNMENT_def minus_mod_eq_div_mult)
  then have q: "q = p + SNOW_GC_ALIGNMENT * j" using d by (simp add: j_def SNOW_GC_ALIGNMENT_def)
  have "no_bead s (p + SNOW_GC_ALIGNMENT * i)" if "i \<le> j" "i \<noteq> 0" for i
  proof (rule free)
    have "SNOW_GC_ALIGNMENT * i \<le> SNOW_GC_ALIGNMENT * j" using that(1) by simp
    then show "p + SNOW_GC_ALIGNMENT * i \<le> a" using q d(3) by linarith
  qed (use that(2) al(2) in \<open>simp_all add: SNOW_GC_ALIGNMENT_def\<close>)
  moreover have "j < Suc (q div SNOW_GC_ALIGNMENT)" using div_le_mono [of "q - p" q] by (simp add: j_def less_Suc_eq_le)
  ultimately have "find_start_loop (Suc (q div SNOW_GC_ALIGNMENT)) r q s = Inr (p, s)"
    using find_loop_down [OF h al start room bounds b q] a(2) d(3) by (meson le_less_trans)
  moreover have "rd p s = Inr (w, s)" using b rd_aligned mod16_8 [OF al(2)] by (simp add: begins_def)
  ultimately show ?thesis by (simp add: gc_find_object_start_def Let_def flip: q_def del: find_start_loop.simps)
qed

lemma heaps_of_mem [simp]: "heaps_of (s\<lparr>mem := m\<rparr>) sp = heaps_of s sp"
  by (cases sp; simp)

lemma find_heap_mem [simp]: "gc_find_heap (s\<lparr>mem := m\<rparr>) p = gc_find_heap s p"
proof -
  have "find_in sp (s\<lparr>mem := m\<rparr>) p = find_in sp s p" for sp by (simp add: find_in_def)
  then show ?thesis by (simp only: gc_find_heap_def) simp
qed

lemma init_allocation_ok:
  assumes init: "gc_init_allocation p n t i f s = Inr (data, s1)"
    and al: "p mod SNOW_GC_ALIGNMENT = 0" "n mod SNOW_GC_ALIGNMENT = 0" and size: "n < 2 ^ 32" "i < 2 ^ 24"
  defines "w \<equiv> gc_compute_checksum (ai_fields n i t)"
  shows "data = p + sizeof_head" "begins s1 p w" "ai_size w = n" "mem s1 (data + n) = Some f"
    "s1 = s\<lparr>mem := mem s1\<rparr>" "\<And>q. q < p \<or> data \<le> q \<and> q < data + n \<or> data + n + sizeof_tail \<le> q \<Longrightarrow> mem s1 q = mem s q"
proof -
  have m: "data = p + sizeof_head" "s1 = s\<lparr>mem := (mem s)(p + 8 \<mapsto> MAGIC_BEAD_HEAD, p + sizeof_head + n + 8 \<mapsto> MAGIC_BEAD_TAIL,
      p \<mapsto> w, p + sizeof_head + n \<mapsto> f)\<rparr>"
    using init by (auto simp: gc_init_allocation_def Let_def wr_Inr w_def)
  have w: "ai_size w = n" "gc_check_checksum w"
    unfolding w_def by (rule header_fields [OF size]) (rule header_checksum)
  show "data = p + sizeof_head" "ai_size w = n" "mem s1 (data + n) = Some f" "s1 = s\<lparr>mem := mem s1\<rparr>"
    using m w by simp_all
  show "begins s1 p w" unfolding begins_def using m w al(2) by (simp add: sizeof_head_def)
  show "mem s1 q = mem s q" if "q < p \<or> data \<le> q \<and> q < data + n \<or> data + n + sizeof_tail \<le> q" for q
    using that m by (auto simp: sizeof_head_def sizeof_tail_def)
qed

text \<open>
  C12. An allocation is found from any address inside it: after \<open>gc_init_allocation\<close> wrote the
  header and the tail of a block in a heap, the search from an address between the start and
  the end of its data gives its start, its header and its tail, and \<open>snow_gc_allocated_size\<close>
  of the address its size, as long as the data below the address does not hold the bead of a
  header.
\<close>
theorem allocation_found:
  assumes h: "get_heap r s = Inr (h, s)" "h_start h \<noteq> 0" "h_start h mod SNOW_GC_ALIGNMENT = 0"
    and bounds: "lower_bound (info s) \<le> h_start h" "h_end h \<le> upper_bound (info s)"
    and block: "h_start h \<le> p" "p + gc_calculate_total_size n \<le> h_end h" "p mod SNOW_GC_ALIGNMENT = 0"
      "n mod SNOW_GC_ALIGNMENT = 0" "n < 2 ^ 32" "i < 2 ^ 24"
    and init: "gc_init_allocation p n t i f s = Inr (data, s1)"
    and a: "data \<le> a" "a < data + n"
    and free: "\<forall>q. data \<le> q \<and> q \<le> a \<and> q mod SNOW_GC_ALIGNMENT = 0 \<longrightarrow> no_bead s q"
  shows "gc_find_object_start r a s1 = Inr ((data, p, data + n), s1) \<and>
    (gc_find_heap s a = Some r \<longrightarrow> snow_gc_allocated_size a s1 = Inr (n, s1))"
proof -
  define w where "w = gc_compute_checksum (ai_fields n i t)"
  note ok = init_allocation_ok [OF init block(3-6), folded w_def]
  obtain m where m: "s1 = s\<lparr>mem := m\<rparr>" using ok(5) by blast
  have fields: "get_heap r s1 = Inr (h, s1)" "info s1 = info s" "gc_find_heap s1 a = gc_find_heap s a"
    using h(1) by (auto simp: m get_heap_def)
  have no: "no_bead s1 q" if "p < q" "q \<le> a" "q mod SNOW_GC_ALIGNMENT = 0" for q
  proof -
    have "(data + n) mod SNOW_GC_ALIGNMENT = 0" using mod16_step [OF block(3,4)] ok(1) by simp
    then have "p + 16 \<le> q" "q + 16 \<le> data + n" using mod16_less [OF block(3) that(3,1)] mod16_less [OF that(3)] that(2) a(2) by simp_all
    then have d: "data \<le> q" "q + 8 < data + n" using ok(1) by (simp_all add: sizeof_head_def)
    then show ?thesis using free that ok(6) [of q] ok(6) [of "q + 8"] by (simp add: no_bead_def)
  qed
  have room: "p + sizeof_head + ai_size w + sizeof_tail \<le> h_end h" "a < h_end h - sizeof_tail"
    using block(2) ok(1,3) a(2) by (simp_all add: gc_calculate_total_size_def)
  have "p \<le> a" using a(1) ok(1) by simp
  then have "gc_find_object_start r a s1 = Inr ((p + sizeof_head, p, p + sizeof_head + ai_size w), s1)"
    using bounds unfolding fields(2) [symmetric]
    by (intro find_start_down [OF fields(1) h(3) block(3,1) h(2) room(1) _ _ ok(2) _ room(2) no]) simp_all
  then have start: "gc_find_object_start r a s1 = Inr ((data, p, data + n), s1)" using ok(1,3) by simp
  have "rd p s1 = Inr (w, s1)" using ok(2) rd_aligned mod16_8 [OF block(3)] by (simp add: begins_def)
  then show ?thesis
    using start fields(3) ok(3) by (simp add: snow_gc_allocated_size_def find_allocation_def)
qed

text \<open>A nursery of 96 bytes at 4096.\<close>

definition small_heap :: SnGCHeap where
  "small_heap = zero_heap\<lparr>h_start := 4096, h_current := 4096, h_end := 4192\<rparr>"

definition one_nursery :: gstate where
  "one_nursery = \<lparr>mem = map_chunk 4096 96 Map.empty,
     info = gc_alloc_chunk 4096 96 gc_info_init,
     nurseries = [small_heap], adults = [], biggies = [], unkillables = [], graveyard = [], new_adults = [],
     new_unkillables = [], my_nursery = Some 0, num_minor = 0, st_survived = 0, st_freed = 0, st_moved = 0,
     st_indefinites = 0, st_total = 0\<rparr>"

lemma one_nursery_simps:
  "mem one_nursery = map_chunk 4096 96 Map.empty" "lower_bound (info one_nursery) = 4096"
  "upper_bound (info one_nursery) = 4192" "heaps_of one_nursery Nursery = [small_heap]"
  "nurseries one_nursery = [small_heap]" "h_start small_heap = 4096" "h_end small_heap = 4192"
  by (simp_all add: one_nursery_def small_heap_def gc_alloc_chunk_def gc_info_init_def)

theorem allocation_found_witness:
  "\<exists>s1. gc_init_allocation 4096 32 GC_BLOB 0 0 one_nursery = Inr (4112, s1) \<and>
     gc_find_object_start (Nursery, 0) 4139 s1 = Inr ((4112, 4096, 4112 + 32), s1) \<and>
     snow_gc_allocated_size 4139 s1 = Inr (32, s1)"
proof -
  obtain s1 where s1: "gc_init_allocation 4096 32 GC_BLOB 0 0 one_nursery = Inr (4112, s1)"
    by (simp add: gc_init_allocation_def Let_def wr_def sizeof_head_def one_nursery_simps map_chunk_def)
  have "no_bead one_nursery q" if "4112 \<le> q \<and> q \<le> 4139 \<and> q mod SNOW_GC_ALIGNMENT = 0" for q
    using that mod16_8 [of q] by (auto simp: no_bead_def one_nursery_simps map_chunk_def MAGIC_BEAD_HEAD_def)
  then have "gc_find_object_start (Nursery, 0) 4139 s1 = Inr ((4112, 4096, 4112 + 32), s1) \<and>
      (gc_find_heap one_nursery 4139 = Some (Nursery, 0) \<longrightarrow> snow_gc_allocated_size 4139 s1 = Inr (32, s1))"
    by (intro allocation_found [where h = small_heap, OF _ _ _ _ _ _ _ _ _ _ _ s1])
      (simp_all add: get_heap_def one_nursery_simps SNOW_GC_ALIGNMENT_def gc_calculate_total_size_def sizeof_head_def sizeof_tail_def)
  moreover have "gc_find_heap one_nursery 4139 = Some (Nursery, 0)"
    by (simp add: gc_find_heap_def find_in_def gc_maybe_contains_def gc_heap_contains_def sizeof_head_def sizeof_tail_def
      one_nursery_def small_heap_def gc_alloc_chunk_def gc_info_init_def)
  ultimately show ?thesis using s1 by blast
qed

end
