(* ===== verification/GcReach.thy ===== *)
theory GcReach
  imports GcMark GcHeader
begin

text \<open>
  Marking marks what the roots reach (snow/gc.c): the graph of the objects of a heap, what one
  call of the recursion does to the marks, and the whole marking.
\<close>

subsection \<open>The graph of objects\<close>

definition slots_of :: "(addr \<rightharpoonup> 64 word) \<Rightarrow> node \<Rightarrow> addr list option" where
  "slots_of m = (\<lambda>(r, head, w).
     if ai_type w = GC_OBJECT then object_slots m (head + sizeof_head)
     else if ai_type w = GC_BLOB then Some (slots_from (head + sizeof_head) 8 (ai_size w div 8))
     else Some [])"

definition nodes :: "gstate \<Rightarrow> node set" where
  "nodes s = {nd. \<exists>p. object_at s p = Some nd}"

definition targets :: "gstate \<Rightarrow> addr \<Rightarrow> node set" where
  "targets s p = {nd. \<exists>v. read_word (mem s) p = Some v \<and> object_at s (unat v) = Some nd}"

definition points :: "gstate \<Rightarrow> node \<Rightarrow> node \<Rightarrow> bool" where
  "points s nd nd' \<longleftrightarrow> (\<exists>ps. slots_of (mem s) nd = Some ps \<and> (\<exists>p \<in> set ps. nd' \<in> targets s p))"

definition is_marked :: "gstate \<Rightarrow> node \<Rightarrow> bool" where
  "is_marked s nd \<longleftrightarrow> flag_of (heap_at s (fst nd)) (ai_index (snd (snd nd))) AND GC_MARK \<noteq> 0"

definition marks :: "gstate \<Rightarrow> node set" where
  "marks s = {nd \<in> nodes s. is_marked s nd}"

text \<open>
  What marking relies on: an address in a heap leads to the header of an allocation, the
  indices in the headers of a heap are different and below its number of objects, and the
  fields of every object are mapped.
\<close>

definition node_ok :: "gstate \<Rightarrow> node \<Rightarrow> bool" where
  "node_ok s = (\<lambda>(r, head, w). ref_ok s r \<and> ai_index w < num_objects (heap_at s r) \<and>
     (ai_type w = GC_OBJECT \<longrightarrow> is_object (of_nat (head + sizeof_head))) \<and>
     (\<exists>ps. slots_of (mem s) (r, head, w) = Some ps \<and> (\<forall>p \<in> set ps. read_word (mem s) p \<noteq> None)))"

definition gc_wf :: "gstate \<Rightarrow> bool" where
  "gc_wf s \<longleftrightarrow> flags_inv s \<and>
     (\<forall>p r. gc_find_heap s p = Some r \<longrightarrow> (\<exists>x. gc_find_object_start r p s = Inr (x, s))) \<and>
     (\<forall>nd \<in> nodes s. node_ok s nd) \<and>
     (\<forall>nd \<in> nodes s. \<forall>nd' \<in> nodes s. fst nd = fst nd' \<and> ai_index (snd (snd nd)) = ai_index (snd (snd nd')) \<longrightarrow> nd = nd')"

lemma shape_graph:
  assumes "same_shape s s'"
  shows "nodes s' = nodes s" "targets s' = targets s" "points s' = points s"
proof -
  have m: "mem s' = mem s" using assms by (simp add: same_shape_def)
  show n: "nodes s' = nodes s" by (simp add: nodes_def object_at_shape [OF assms])
  show t: "targets s' = targets s" by (simp add: targets_def object_at_shape [OF assms] m fun_eq_iff)
  show "points s' = points s" by (simp add: points_def t m fun_eq_iff)
qed

lemma object_at_SomeE:
  assumes "object_at s p = Some nd"
  obtains r obj head tail w u where "gc_find_heap s p = Some r" "gc_find_object_start r p s = Inr ((obj, head, tail), u)"
    "read_word (mem s) head = Some w" "ai_type w \<noteq> GC_INVALID" "nd = (r, head, w)"
proof -
  obtain r where r: "gc_find_heap s p = Some r" using assms by (cases "gc_find_heap s p") (simp_all add: object_at_def)
  obtain x where x: "gc_find_object_start r p s = Inr x"
    using assms r by (cases "gc_find_object_start r p s") (simp_all add: object_at_def)
  obtain obj head tail u where x': "x = ((obj, head, tail), u)" by (cases x) auto
  obtain w where w: "read_word (mem s) head = Some w"
    using assms r x x' by (cases "read_word (mem s) head") (simp_all add: object_at_def)
  then show thesis using assms r x x' that by (simp add: object_at_def split: if_splits)
qed

lemma node_ref: "nd \<in> nodes s \<Longrightarrow> ref_ok s (fst nd)"
  unfolding nodes_def by (auto elim!: object_at_SomeE intro: find_heap_ref_ok)

lemma shape_wf:
  assumes "same_shape s s'" "gc_wf s" "flags_inv s'"
  shows "gc_wf s'"
proof -
  have m: "mem s' = mem s" using assms(1) by (simp add: same_shape_def)
  have ok: "node_ok s' nd" if "nd \<in> nodes s" for nd
  proof -
    obtain r h w where nd: "nd = (r, h, w)" by (cases nd)
    have r: "ref_ok s r" using node_ref [OF that] nd by simp
    have "num_objects (heap_at s' r) = num_objects (heap_at s r)"
      using shape_heap(2) [OF assms(1) r] by (simp add: hshape_def)
    moreover have "node_ok s nd" using assms(2) that by (simp add: gc_wf_def)
    ultimately show ?thesis using shape_heap(1) [OF assms(1) r] by (simp add: node_ok_def nd m)
  qed
  have st: "\<exists>x. gc_find_object_start r p s' = Inr (x, s')" if h: "gc_find_heap s' p = Some r" for p r
  proof -
    have "gc_find_heap s p = Some r" using h find_heap_shape [OF assms(1)] by simp
    then obtain x where "gc_find_object_start r p s = Inr (x, s)" using assms(2) unfolding gc_wf_def by blast
    then show ?thesis using readerD(2) [OF reader_find_start assms(1)] by blast
  qed
  show ?thesis unfolding gc_wf_def shape_graph(1) [OF assms(1)]
    using ok st assms(3) assms(2) by (simp add: gc_wf_def)
qed

lemma find_start_ok:
  assumes "gc_find_object_start r p s = Inr (x, s)"
  obtains head w where "x = (head + sizeof_head, head, head + sizeof_head + ai_size w)" "read_word (mem s) head = Some w"
proof -
  obtain q s1 where q: "find_start_loop (Suc ((p - p mod SNOW_GC_ALIGNMENT) div SNOW_GC_ALIGNMENT)) r (p - p mod SNOW_GC_ALIGNMENT) s = Inr (q, s1)"
    "pbind (rd q) (\<lambda>w. pret (q + sizeof_head, q, q + sizeof_head + ai_size w)) s1 = Inr (x, s)"
    using assms by (auto simp: gc_find_object_start_def Let_def)
  then have "s1 = s" using readerD(2) [OF reader_find_loop same_shape_refl] by blast
  then show thesis using q(2) that by (auto simp: rd_def split: option.splits)
qed

lemma finite_nodes:
  assumes "gc_wf s"
  shows "finite (nodes s)"
proof -
  let ?key = "\<lambda>nd :: node. (fst nd, ai_index (snd (snd nd)))"
  have sp: "finite (UNIV :: space set)"
  proof -
    have "(UNIV :: space set) = {Nursery, Adults, Biggies, Unkillables, Graveyard, NewAdults, NewUnkillables}"
      using space.exhaust by blast
    then show ?thesis by (metis finite.emptyI finite_insert)
  qed
  let ?refs = "SIGMA sp : UNIV. {..<length (heaps_of s sp)}"
  let ?R = "SIGMA r : ?refs. {..<num_objects (heap_at s r)}"
  have "inj_on ?key (nodes s)"
  proof (rule inj_onI)
    fix x y assume "x \<in> nodes s" "y \<in> nodes s" "?key x = ?key y"
    then show "x = y" using assms unfolding gc_wf_def by (metis prod.inject)
  qed
  moreover have "?key ` nodes s \<subseteq> ?R"
  proof
    fix k assume "k \<in> ?key ` nodes s"
    then obtain nd where nd: "nd \<in> nodes s" "k = ?key nd" by blast
    then have "node_ok s nd" using assms by (simp add: gc_wf_def)
    then have "ref_ok s (fst nd)" "ai_index (snd (snd nd)) < num_objects (heap_at s (fst nd))"
      by (simp_all add: node_ok_def split_beta)
    then show "k \<in> ?R" unfolding nd(2) ref_ok_def by (cases "fst nd") simp
  qed
  moreover have "finite ?R" by (intro finite_SigmaI sp finite_lessThan)
  ultimately show ?thesis using finite_imageD finite_subset by blast
qed

subsection \<open>Marking keeps the memory\<close>

definition keeps :: "'a gprog \<Rightarrow> bool" where
  "keeps f \<longleftrightarrow> (\<forall>s x s'. f s = Inr (x, s') \<longrightarrow> mem s' = mem s)"

lemma keeps_bind:
  assumes m: "keeps m" and k: "\<And>x. keeps (k x)"
  shows "keeps (pbind m k)"
  unfolding keeps_def
proof (intro allI impI)
  fix s y s' assume f: "pbind m k s = Inr (y, s')"
  then obtain x t where x: "m s = Inr (x, t)" "k x t = Inr (y, s')" by auto
  have "mem t = mem s" using m x(1) unfolding keeps_def by blast
  moreover have "mem s' = mem t" using k x(2) unfolding keeps_def by blast
  ultimately show "mem s' = mem s" by simp
qed

lemma keeps_get: "(\<And>x. keeps (k x)) \<Longrightarrow> keeps (pbind pget k)"
  by (simp add: keeps_def)

lemma keeps_reader: "reader f \<Longrightarrow> keeps f"
  by (auto simp: keeps_def dest: readerD(2) [OF _ same_shape_refl])

lemma keeps_prims: "keeps (pret x)" "keeps (pfail e)" "keeps (rd p)" "keeps (gassert b)" "keeps (plift r)" "keeps (get_heap q)"
    "keeps (put_heap q h)"
  by (auto simp: keeps_def rd_def gassert_def plift_def put_heap_def get_heap_eq assert_ok_def
    split: option.splits sum.splits if_splits)

lemma keeps_list: "(\<And>p. keeps (act p)) \<Longrightarrow> keeps (with_list act ps)"
  by (induction ps) (auto intro!: keeps_bind keeps_prims)

lemma keeps_object: "(\<And>p b. keeps (act p b)) \<Longrightarrow> keeps (gc_with_object_do obj act)"
  unfolding gc_with_object_do_def Let_def object_type_def with_words_list with_references_list
  by (intro keeps_bind keeps_prims keeps_list reader_if) (auto intro!: keeps_bind keeps_prims keeps_list split: option.split)

lemma keeps_if: "keeps f \<Longrightarrow> keeps g \<Longrightarrow> keeps (if b then f else g)"
  by simp

lemma keeps_pput:
  assumes "\<And>s. mem (f s) = mem s"
  shows "keeps (pbind pget (\<lambda>s. pput (f s)))"
  using assms by (simp add: keeps_def)

lemma keeps_flags: "keeps (set_heap_flags r i nf)" "keeps (count_mark r nf)" "keeps (heap_flags_of r i)"
proof -
  show "keeps (set_heap_flags r i nf)" unfolding set_heap_flags_def by (intro keeps_bind keeps_prims)
  show "keeps (heap_flags_of r i)" unfolding heap_flags_of_def by (intro keeps_bind keeps_prims)
  show "keeps (count_mark r nf)" unfolding count_mark_def Let_def
    by (intro keeps_bind keeps_get keeps_prims keeps_pput) simp
qed

lemma keeps_mark: "keeps (gc_mark_root n p b)"
proof (induction n arbitrary: p b)
  case 0
  show ?case unfolding gc_mark_root.simps by (rule keeps_prims)
next
  case (Suc n)
  let ?go = "\<lambda>obj w. if ai_type w = GC_OBJECT then gc_with_object_do obj (gc_mark_root n)
      else if ai_type w = GC_BLOB then with_words (\<lambda>p. gc_mark_root n p False) obj (ai_size w div 8) else pret ()"
  have go: "keeps (?go obj w)" for obj w
    unfolding with_words_list by (intro keeps_if keeps_object keeps_list keeps_prims Suc)
  have "keeps (pbind (heap_flags_of r i) (\<lambda>flags.
      let new_flags = flags OR GC_MARK OR (if b then GC_INDEFINITE else 0)
      in pbind (if flags \<noteq> new_flags then pbind (set_heap_flags r i new_flags) (\<lambda>_. count_mark r new_flags) else pret ()) (\<lambda>_.
         if flags AND GC_MARK \<noteq> 0 then pret () else ?go obj w)))" for r i obj w
    unfolding Let_def by (intro keeps_bind keeps_if keeps_flags keeps_prims go)
  then have "keeps (case gc_find_heap s q of None \<Rightarrow> pret () | Some r \<Rightarrow>
      pbind (gc_find_object_start r q) (\<lambda>(obj, head, tail). pbind (rd head) (\<lambda>w.
        if ai_type w = GC_INVALID then pret () else pbind (heap_flags_of r (ai_index w)) (\<lambda>flags.
          let new_flags = flags OR GC_MARK OR (if b then GC_INDEFINITE else 0)
          in pbind (if flags \<noteq> new_flags then pbind (set_heap_flags r (ai_index w) new_flags) (\<lambda>_. count_mark r new_flags) else pret ()) (\<lambda>_.
             if flags AND GC_MARK \<noteq> 0 then pret () else ?go obj w)))))" for s q
    by (cases "gc_find_heap s q") (auto intro!: keeps_bind keeps_prims keeps_reader [OF reader_find_start])
  then show ?case unfolding gc_mark_root.simps by (intro keeps_bind keeps_get keeps_prims)
qed

lemma mark_keeps_mem: "keeps_mem (\<lambda>p. gc_mark_root n p b)"
  using keeps_mark unfolding keeps_mem_def keeps_def by blast

subsection \<open>Marking marks what can be reached\<close>

abbreviation reaches :: "gstate \<Rightarrow> node \<Rightarrow> node \<Rightarrow> bool" where
  "reaches s \<equiv> (points s)\<^sup>*\<^sup>*"

definition marked_from :: "gstate \<Rightarrow> node set \<Rightarrow> gstate \<Rightarrow> bool" where
  "marked_from s A s' \<longleftrightarrow> same_shape s s' \<and> flags_inv s' \<and> marks s \<union> A \<subseteq> marks s' \<and>
     (\<forall>nd \<in> marks s' - marks s. (\<forall>nd'. points s nd nd' \<longrightarrow> nd' \<in> marks s') \<and> (\<exists>a \<in> A. reaches s a nd))"

lemma marked_from_refl: "flags_inv s \<Longrightarrow> A \<subseteq> marks s \<Longrightarrow> marked_from s A s"
  by (simp add: marked_from_def)

lemma marked_from_trans:
  assumes "marked_from s A t" "marked_from t B u"
  shows "marked_from s (A \<union> B) u"
proof -
  have sh: "same_shape s t" using assms(1) by (simp add: marked_from_def)
  note g = shape_graph(3) [OF sh]
  have st: "same_shape s u" using same_shape_trans [OF sh] assms(2) by (simp add: marked_from_def)
  have m: "marks s \<subseteq> marks t" "marks t \<subseteq> marks u" using assms by (simp_all add: marked_from_def)
  show ?thesis unfolding marked_from_def
  proof (intro conjI ballI)
    show "marks s \<union> (A \<union> B) \<subseteq> marks u" using assms m by (auto simp: marked_from_def)
    fix nd assume nd: "nd \<in> marks u - marks s"
    show "\<forall>nd'. points s nd nd' \<longrightarrow> nd' \<in> marks u" "\<exists>a \<in> A \<union> B. reaches s a nd"
      using nd assms m unfolding marked_from_def g by blast+
  qed (use st assms(2) in \<open>simp_all add: marked_from_def\<close>)
qed

lemma marked_from_node:
  assumes sh: "same_shape s t" and m: "marks t = insert nd (marks s)"
    and step: "\<And>nd'. points s nd nd' \<longleftrightarrow> nd' \<in> A" and from_t: "marked_from t A u"
  shows "marked_from s {nd} u"
proof -
  note g = shape_graph(3) [OF sh]
  have st: "same_shape s u" using same_shape_trans [OF sh] from_t by (simp add: marked_from_def)
  show ?thesis unfolding marked_from_def
  proof (intro conjI ballI)
    show "marks s \<union> {nd} \<subseteq> marks u" using from_t m by (auto simp: marked_from_def)
    fix x assume x: "x \<in> marks u - marks s"
    show "\<forall>nd'. points s x nd' \<longrightarrow> nd' \<in> marks u"
    proof (cases "x = nd")
      case True
      then show ?thesis using step from_t by (auto simp: marked_from_def)
    next
      case False
      then show ?thesis using x m from_t unfolding marked_from_def g by blast
    qed
    show "\<exists>a \<in> {nd}. reaches s a x"
    proof (cases "x = nd")
      case False
      then obtain a where "a \<in> A" "reaches s a x" using x m from_t unfolding marked_from_def g by blast
      then show ?thesis using step converse_rtranclp_into_rtranclp [of "points s" nd a x] by blast
    qed simp
  qed (use st from_t in \<open>simp_all add: marked_from_def\<close>)
qed

lemma mark_bit: "x AND GC_MARK \<noteq> 0 \<longleftrightarrow> bit x 0"
  by (simp add: GC_MARK_def and_one_eq bit_0 mod_2_eq_odd)

lemma mark_flags_step:
  fixes b :: bool
  assumes wf: "gc_wf s" and nd: "(r, h, w) \<in> nodes s"
  defines "f \<equiv> flag_of (heap_at s r) (ai_index w)"
  defines "nf \<equiv> f OR GC_MARK OR (if b then GC_INDEFINITE else 0)"
  shows "\<exists>t. (if f \<noteq> nf then pbind (set_heap_flags r (ai_index w) nf) (\<lambda>_. count_mark r nf) else pret ()) s = Inr ((), t) \<and>
    same_shape s t \<and> flags_inv t \<and> marks t = insert (r, h, w) (marks s)"
proof -
  have inv: "flags_inv s" and ok: "node_ok s (r, h, w)" using wf nd by (simp_all add: gc_wf_def)
  have one: "bit nf 0" by (simp add: nf_def GC_MARK_def bit_or_iff bit_1_iff)
  show ?thesis
  proof (cases "f = nf")
    case True
    then have "is_marked s (r, h, w)" using one by (simp add: is_marked_def mark_bit f_def)
    then have "marks s = insert (r, h, w) (marks s)" using nd by (auto simp: marks_def)
    then show ?thesis using True inv by simp
  next
    case False
    obtain t where t: "pbind (set_heap_flags r (ai_index w) nf) (\<lambda>_. count_mark r nf) s = Inr ((), t)" "same_shape s t"
        "flags_inv t" and fl: "\<And>q j. ref_ok s q \<Longrightarrow> flag_of (heap_at t q) j =
          (if q = r \<and> j = ai_index w then flag_of (heap_at s q) j OR nf else flag_of (heap_at s q) j)"
      using mark_step [OF inv, of r "ai_index w" nf] ok by (auto simp: node_ok_def)
    have "marks t = insert (r, h, w) (marks s)"
    proof (intro set_eqI)
      fix x :: node
      obtain q h' w' where x: "x = (q, h', w')" by (cases x)
      show "x \<in> marks t \<longleftrightarrow> x \<in> insert (r, h, w) (marks s)"
      proof (cases "x \<in> nodes s")
        case True
        have same: "q = r \<and> ai_index w' = ai_index w \<longleftrightarrow> x = (r, h, w)"
          using wf True nd x unfolding gc_wf_def by (metis fst_conv snd_conv)
        have rq: "ref_ok s q" using node_ref [OF True] x by simp
        show ?thesis
        proof (cases "x = (r, h, w)")
          case eq: True
          then have "is_marked t x" using fl [OF rq] one x by (simp add: is_marked_def mark_bit bit_or_iff)
          then show ?thesis using eq True shape_graph(1) [OF t(2)] by (simp add: marks_def)
        next
          case ne: False
          then have "is_marked t x = is_marked s x" using fl [OF rq] same x by (auto simp: is_marked_def)
          then show ?thesis using ne shape_graph(1) [OF t(2)] by (simp add: marks_def)
        qed
      next
        case False
        then show ?thesis using nd shape_graph(1) [OF t(2)] by (auto simp: marks_def)
      qed
    qed
    then show ?thesis using False t by auto
  qed
qed

declare gc_mark_root.simps [simp del]

lemma pbind_step: "m s = Inr (x, t) \<Longrightarrow> pbind m k s = k x t"
  by simp

lemma mark_root_none:
  assumes wf: "gc_wf s" and v: "read_word (mem s) p = Some v" and none: "object_at s (unat v) = None"
  shows "gc_mark_root (Suc n) p b s = Inr ((), s)"
proof (cases "gc_find_heap s (unat v)")
  case None
  then show ?thesis unfolding gc_mark_root.simps prog_simps using v by (simp add: rd_def)
next
  case (Some r)
  then obtain x where x: "gc_find_object_start r (unat v) s = Inr (x, s)" using wf unfolding gc_wf_def by blast
  then obtain h w where h: "x = (h + sizeof_head, h, h + sizeof_head + ai_size w)" "read_word (mem s) h = Some w"
    using find_start_ok by blast
  then have "ai_type w = GC_INVALID" using none Some x by (simp add: object_at_def split: if_splits)
  then show ?thesis unfolding gc_mark_root.simps prog_simps using v Some x h by (simp add: rd_def)
qed

lemma mark_root_some:
  fixes b :: bool
  assumes wf: "gc_wf s" and v: "read_word (mem s) p = Some v" and at: "object_at s (unat v) = Some (r, h, w)"
    and ps: "slots_of (mem s) (r, h, w) = Some ps"
  obtains t where "same_shape s t" "flags_inv t" "marks t = insert (r, h, w) (marks s)"
    "gc_mark_root (Suc n) p b s =
       (if (r, h, w) \<in> marks s then Inr ((), t) else with_list (\<lambda>p. gc_mark_root n p False) ps t)"
proof -
  have nd: "(r, h, w) \<in> nodes s" using at by (auto simp: nodes_def)
  have inv: "flags_inv s" and ok: "node_ok s (r, h, w)" using wf nd by (simp_all add: gc_wf_def)
  let ?f = "flag_of (heap_at s r) (ai_index w)"
  let ?nf = "?f OR GC_MARK OR (if b then GC_INDEFINITE else 0)"
  obtain obj tail u where st: "gc_find_heap s (unat v) = Some r"
      "gc_find_object_start r (unat v) s = Inr ((obj, h, tail), u)" "read_word (mem s) h = Some w" "ai_type w \<noteq> GC_INVALID"
    using object_at_SomeE [OF at] by (metis prod.inject)
  have "\<exists>x. gc_find_object_start r (unat v) s = Inr (x, s)" using wf st(1) unfolding gc_wf_def by blast
  then have u: "gc_find_object_start r (unat v) s = Inr ((obj, h, tail), s)" using st(2) by auto
  then obtain h' w' where "(obj, h, tail) = (h' + sizeof_head, h', h' + sizeof_head + ai_size w')"
    using find_start_ok by blast
  then have obj: "obj = h + sizeof_head" by simp
  obtain t where t: "(if ?f \<noteq> ?nf then pbind (set_heap_flags r (ai_index w) ?nf) (\<lambda>_. count_mark r ?nf) else pret ()) s = Inr ((), t)"
      "same_shape s t" "flags_inv t" "marks t = insert (r, h, w) (marks s)"
    using mark_flags_step [OF wf nd] by blast
  have m: "mem t = mem s" using t(2) by (simp add: same_shape_def)
  let ?go = "if ai_type w = GC_OBJECT then gc_with_object_do obj (gc_mark_root n)
      else if ai_type w = GC_BLOB then with_words (\<lambda>p. gc_mark_root n p False) obj (ai_size w div 8) else pret ()"
  have go: "?go t = with_list (\<lambda>p. gc_mark_root n p False) ps t"
  proof (cases "ai_type w = GC_OBJECT")
    case True
    then show ?thesis using with_object_slots [where act = "gc_mark_root n" and obj = obj and s = t and ps = ps, OF mark_keeps_mem] ok ps m
      by (simp add: node_ok_def slots_of_def obj)
  next
    case False
    then show ?thesis using ps by (auto simp: slots_of_def obj with_words_list split: if_splits)
  qed
  have marked: "(r, h, w) \<in> marks s \<longleftrightarrow> ?f AND GC_MARK \<noteq> 0" using nd by (simp add: marks_def is_marked_def)
  have fl: "heap_flags_of r (ai_index w) s = Inr (?f, s)"
    using heap_flags_of_ok [OF inv, of r] ok by (simp add: node_ok_def)
  have rdp: "rd p s = Inr (v, s)" and rdh: "rd h s = Inr (w, s)" and get: "pget s = Inr (s, s)"
    using v st(3) by (simp_all add: rd_def)
  have "gc_mark_root (Suc n) p b s =
      pbind (if ?f \<noteq> ?nf then pbind (set_heap_flags r (ai_index w) ?nf) (\<lambda>_. count_mark r ?nf) else pret ())
        (\<lambda>_. if ?f AND GC_MARK \<noteq> 0 then pret () else ?go) s"
    using st(4) by (simp only: gc_mark_root.simps pbind_step [where m = "rd p", OF rdp] pbind_step [where m = pget, OF get]
      pbind_step [where m = "gc_find_object_start r (unat v)", OF u] pbind_step [where m = "rd h", OF rdh]
      pbind_step [where m = "heap_flags_of r (ai_index w)", OF fl] st(1) option.case prod.case if_False Let_def)
  then have "gc_mark_root (Suc n) p b s =
       (if (r, h, w) \<in> marks s then Inr ((), t) else with_list (\<lambda>p. gc_mark_root n p False) ps t)"
    unfolding marked pbind_def t(1) using go by simp
  then show thesis using that t by blast
qed

text \<open>Marking from several places, one after the other.\<close>

lemma marked_from_wf: "gc_wf s \<Longrightarrow> marked_from s A t \<Longrightarrow> gc_wf t"
  using shape_wf unfolding marked_from_def by blast

lemma with_list_marks:
  assumes "gc_wf s"
    and "\<And>p t. p \<in> set ps \<Longrightarrow> gc_wf t \<Longrightarrow> same_shape s t \<Longrightarrow> marks s \<subseteq> marks t \<Longrightarrow>
      \<exists>u. act p t = Inr ((), u) \<and> marked_from t (T p) u"
  shows "\<exists>u. with_list act ps s = Inr ((), u) \<and> marked_from s (\<Union>p \<in> set ps. T p) u"
  using assms
proof (induction ps arbitrary: s)
  case Nil
  then show ?case using marked_from_refl [of s "{}"] by (simp add: gc_wf_def)
next
  case (Cons p ps)
  obtain t where t: "act p s = Inr ((), t)" "marked_from s (T p) t" using Cons.prems(2) [of p s] Cons.prems(1) by auto
  have sh: "same_shape s t" "marks s \<subseteq> marks t" using t(2) by (simp_all add: marked_from_def)
  have "\<exists>u. with_list act ps t = Inr ((), u) \<and> marked_from t (\<Union>p \<in> set ps. T p) u"
  proof (rule Cons.IH [OF marked_from_wf [OF Cons.prems(1) t(2)]])
    fix q v assume "q \<in> set ps" "gc_wf v" "same_shape t v" "marks t \<subseteq> marks v"
    then show "\<exists>u. act q v = Inr ((), u) \<and> marked_from v (T q) u"
      using Cons.prems(2) [of q v] same_shape_trans [OF sh(1)] sh(2) by auto
  qed
  then obtain u where "with_list act ps t = Inr ((), u)" "marked_from t (\<Union>p \<in> set ps. T p) u" by blast
  then show ?case using t marked_from_trans [OF t(2)] by auto
qed

definition unmarked :: "gstate \<Rightarrow> nat" where
  "unmarked s = card (nodes s - marks s)"

lemma unmarked_mono:
  assumes "gc_wf s" "same_shape s t" "marks s \<subseteq> marks t"
  shows "unmarked t \<le> unmarked s"
  unfolding unmarked_def shape_graph(1) [OF assms(2)]
  by (intro card_mono) (use finite_nodes [OF assms(1)] assms(3) in auto)

lemma mark_root_ok:
  assumes "gc_wf s" "read_word (mem s) p = Some v" "unmarked s < n"
  shows "\<exists>u. gc_mark_root n p b s = Inr ((), u) \<and> marked_from s (targets s p) u"
  using assms
proof (induction n arbitrary: s p v b)
  case (Suc n)
  have inv: "flags_inv s" using Suc.prems(1) by (simp add: gc_wf_def)
  show ?case
  proof (cases "object_at s (unat v)")
    case None
    then have "targets s p = {}" using Suc.prems(2) by (simp add: targets_def)
    then show ?thesis using mark_root_none [OF Suc.prems(1,2) None] marked_from_refl [OF inv] by simp
  next
    case (Some nd)
    obtain r h w where nd: "nd = (r, h, w)" by (cases nd)
    have tg: "targets s p = {nd}" using Some Suc.prems(2) by (auto simp: targets_def)
    have n: "nd \<in> nodes s" using Some by (auto simp: nodes_def)
    then have "node_ok s nd" using Suc.prems(1) by (simp add: gc_wf_def)
    then obtain ps where ps: "slots_of (mem s) nd = Some ps" "\<forall>p \<in> set ps. read_word (mem s) p \<noteq> None"
      by (auto simp: node_ok_def nd)
    obtain t where t: "same_shape s t" "flags_inv t" "marks t = insert nd (marks s)"
      "gc_mark_root (Suc n) p b s = (if nd \<in> marks s then Inr ((), t) else with_list (\<lambda>p. gc_mark_root n p False) ps t)"
      using mark_root_some [OF Suc.prems(1,2), of r h w ps n b] Some ps(1) unfolding nd by blast
    have wft: "gc_wf t" by (rule shape_wf [OF t(1) Suc.prems(1) t(2)])
    show ?thesis
    proof (cases "nd \<in> marks s")
      case True
      have "marks t = marks s" using True t(3) by auto
      then have "marked_from s {nd} t" using t(1,2) True by (simp add: marked_from_def)
      then show ?thesis using True t(4) tg by simp
    next
      case False
      have "nodes t - marks t = (nodes s - marks s) - {nd}" using t(3) shape_graph(1) [OF t(1)] by blast
      moreover have "card ((nodes s - marks s) - {nd}) < card (nodes s - marks s)"
        using finite_nodes [OF Suc.prems(1)] n False by (intro card_Diff1_less) simp_all
      ultimately have less: "unmarked t < n" using Suc.prems(3) unfolding unmarked_def by simp
      have "\<exists>u. with_list (\<lambda>p. gc_mark_root n p False) ps t = Inr ((), u) \<and> marked_from t (\<Union>p \<in> set ps. targets s p) u"
      proof (rule with_list_marks [OF wft])
        fix q v assume q: "q \<in> set ps" and v: "gc_wf v" "same_shape t v" "marks t \<subseteq> marks v"
        have sv: "same_shape s v" by (rule same_shape_trans [OF t(1) v(2)])
        then have "mem v = mem s" by (simp add: same_shape_def)
        then obtain x where "read_word (mem v) q = Some x" using ps(2) q by auto
        moreover have "unmarked v < n" using unmarked_mono [OF wft v(2,3)] less by simp
        ultimately show "\<exists>u. gc_mark_root n q False v = Inr ((), u) \<and> marked_from v (targets s q) u"
          using Suc.IH [OF v(1)] shape_graph(2) [OF sv] by metis
      qed
      then obtain u where u: "with_list (\<lambda>p. gc_mark_root n p False) ps t = Inr ((), u)"
        "marked_from t (\<Union>p \<in> set ps. targets s p) u" by blast
      have "marked_from s {nd} u"
        by (rule marked_from_node [OF t(1,3) _ u(2)]) (use ps(1) in \<open>auto simp: points_def\<close>)
      then show ?thesis using False t(4) u(1) tg by simp
    qed
  qed
qed simp

subsection \<open>Marking from the roots\<close>

definition stack_slots :: "genv \<Rightarrow> addr list" where
  "stack_slots env = concat (map (\<lambda>(bottom, top). slots_from bottom 8 ((top - bottom) div 8)) (g_stacks env))"

definition root_slots :: "genv \<Rightarrow> addr list" where
  "root_slots env = stack_slots env @ g_definite env"

definition roots_ok :: "genv \<Rightarrow> gstate \<Rightarrow> bool" where
  "roots_ok env s \<longleftrightarrow>
     (\<forall>(bottom, top) \<in> set (g_stacks env). bottom \<noteq> 0 \<and> top \<noteq> 0 \<and>
        bottom mod SNOW_GC_ALIGNMENT = 0 \<and> top mod SNOW_GC_ALIGNMENT = 0) \<and>
     (\<forall>p \<in> set (root_slots env). read_word (mem s) p \<noteq> None)"

definition mark_stack_word :: "nat \<Rightarrow> addr \<Rightarrow> unit gprog" where
  "mark_stack_word n p = pbind (rd p) (\<lambda>w. pbind pget (\<lambda>s.
     if gc_maybe_contains (info s) (unat w) then gc_mark_root n p True else pret ()))"

lemma with_stacks_list:
  assumes "\<forall>(b, t) \<in> set sts. b \<noteq> 0 \<and> t \<noteq> 0 \<and> b mod SNOW_GC_ALIGNMENT = 0 \<and> t mod SNOW_GC_ALIGNMENT = 0"
  shows "with_stacks (gc_mark_root n) sts s =
    with_list (mark_stack_word n) (concat (map (\<lambda>(bottom, top). slots_from bottom 8 ((top - bottom) div 8)) sts)) s"
  using assms
proof (induction sts arbitrary: s)
  case (Cons st sts)
  obtain b t where st: "st = (b, t)" by (cases st)
  have "do_task_stack st (gc_mark_root n) = with_list (mark_stack_word n) (slots_from b 8 ((t - b) div 8))"
    using Cons.prems by (simp add: fun_eq_iff st do_task_stack_def gc_with_stack_do_def with_words_list mark_stack_word_def [abs_def])
  moreover have "with_stacks (gc_mark_root n) sts =
      with_list (mark_stack_word n) (concat (map (\<lambda>(bottom, top). slots_from bottom 8 ((top - bottom) div 8)) sts))"
    using Cons by (simp add: fun_eq_iff)
  ultimately show ?case unfolding with_stacks.simps by (simp add: st with_list_append del: prog_simps)
qed simp

lemma find_heap_contains: "gc_find_heap s p = Some r \<Longrightarrow> gc_maybe_contains (info s) p"
  by (simp add: gc_find_heap_def split: if_splits)

lemma mark_stack_ok:
  assumes "gc_wf s" "read_word (mem s) p = Some v" "unmarked s < n"
  shows "\<exists>u. mark_stack_word n p s = Inr ((), u) \<and> marked_from s (targets s p) u"
proof (cases "gc_maybe_contains (info s) (unat v)")
  case True
  then show ?thesis using mark_root_ok [OF assms, of True] assms(2) by (simp add: mark_stack_word_def rd_def)
next
  case False
  then have "gc_find_heap s (unat v) = None" using find_heap_contains by (cases "gc_find_heap s (unat v)") auto
  then have "targets s p = {}" using assms(2) by (simp add: targets_def object_at_def)
  then show ?thesis using False assms(1,2) marked_from_refl [of s "{}"]
    by (simp add: mark_stack_word_def rd_def gc_wf_def)
qed

text \<open>
  C2. Marking marks exactly what can be reached: from a heap without marks where addresses lead
  to allocations, objects have indices of their own and mapped fields, and with aligned, mapped
  stacks and roots, marking from all the roots ends for any depth of recursion above the number
  of objects, changes neither the memory nor the extent of a heap, and the objects marked are
  those that a chain of fields (or words of a blob) reaches from an object that a word of a
  stack or a root points into.
\<close>
theorem marking_reaches:
  assumes wf: "gc_wf s" and roots: "roots_ok env s" and fresh: "marks s = {}" and n: "card (nodes s) < n"
  shows "\<exists>u. gc_with_everything_do env (gc_mark_root n) s = Inr ((), u) \<and> same_shape s u \<and>
    marks u = {nd. \<exists>p \<in> set (root_slots env). \<exists>root \<in> targets s p. reaches s root nd}"
proof -
  have less: "unmarked v < n" if "gc_wf v" "same_shape s v" for v
    using that n card_mono [OF finite_nodes [OF wf], of "nodes s - marks v"] shape_graph(1) [OF that(2)]
    by (auto simp: unmarked_def)
  have mapped: "\<exists>x. read_word (mem v) p = Some x" if "p \<in> set (root_slots env)" "same_shape s v" for p v
    using roots that by (auto simp: roots_ok_def same_shape_def)
  have stack: "\<exists>u. with_list (mark_stack_word n) (stack_slots env) s = Inr ((), u) \<and>
      marked_from s (\<Union>p \<in> set (stack_slots env). targets s p) u"
  proof (rule with_list_marks [OF wf])
    fix p v assume p: "p \<in> set (stack_slots env)" and v: "gc_wf v" "same_shape s v"
    then obtain x where "read_word (mem v) p = Some x" using mapped [of p v] by (auto simp: root_slots_def)
    then show "\<exists>u. mark_stack_word n p v = Inr ((), u) \<and> marked_from v (targets s p) u"
      using mark_stack_ok [OF v(1) _ less [OF v]] shape_graph(2) [OF v(2)] by metis
  qed
  then obtain t where t: "with_list (mark_stack_word n) (stack_slots env) s = Inr ((), t)"
      "marked_from s (\<Union>p \<in> set (stack_slots env). targets s p) t" by blast
  have st: "same_shape s t" using t(2) by (simp add: marked_from_def)
  have "\<exists>u. with_list (\<lambda>p. gc_mark_root n p False) (g_definite env) t = Inr ((), u) \<and>
      marked_from t (\<Union>p \<in> set (g_definite env). targets s p) u"
  proof (rule with_list_marks [OF marked_from_wf [OF wf t(2)]])
    fix p v assume p: "p \<in> set (g_definite env)" and v: "gc_wf v" "same_shape t v"
    have sv: "same_shape s v" by (rule same_shape_trans [OF st v(2)])
    then obtain x where "read_word (mem v) p = Some x" using mapped [of p v] p by (auto simp: root_slots_def)
    then show "\<exists>u. gc_mark_root n p False v = Inr ((), u) \<and> marked_from v (targets s p) u"
      using mark_root_ok [OF v(1) _ less [OF v(1) sv]] shape_graph(2) [OF sv] by metis
  qed
  then obtain u where u: "with_list (\<lambda>p. gc_mark_root n p False) (g_definite env) t = Inr ((), u)"
      "marked_from t (\<Union>p \<in> set (g_definite env). targets s p) u" by blast
  let ?A = "\<Union>p \<in> set (root_slots env). targets s p"
  have "(\<Union>p \<in> set (stack_slots env). targets s p) \<union> (\<Union>p \<in> set (g_definite env). targets s p) = ?A"
    by (simp add: root_slots_def)
  then have m: "marked_from s ?A u" using marked_from_trans [OF t(2) u(2)] by simp
  have run: "gc_with_everything_do env (gc_mark_root n) s = Inr ((), u)"
    using with_stacks_list [of "g_stacks env" n s] roots t(1) u(1)
    by (simp add: gc_with_everything_do_def gc_with_definite_roots_do_def roots_ok_def stack_slots_def)
  have closed: "nd \<in> marks u" if "reaches s a nd" "a \<in> marks u" for a nd
    using that by (induction rule: rtranclp_induct) (use m fresh in \<open>auto simp: marked_from_def\<close>)
  have "marks u = {nd. \<exists>p \<in> set (root_slots env). \<exists>root \<in> targets s p. reaches s root nd}"
  proof (intro set_eqI iffI)
    fix nd assume "nd \<in> marks u"
    then have "\<exists>a \<in> ?A. reaches s a nd" using m fresh unfolding marked_from_def by blast
    then show "nd \<in> {nd. \<exists>p \<in> set (root_slots env). \<exists>root \<in> targets s p. reaches s root nd}" by blast
  next
    fix nd assume "nd \<in> {nd. \<exists>p \<in> set (root_slots env). \<exists>root \<in> targets s p. reaches s root nd}"
    then obtain a where "a \<in> ?A" "reaches s a nd" by blast
    then show "nd \<in> marks u" using closed m unfolding marked_from_def by blast
  qed
  then show ?thesis using run m by (auto simp: marked_from_def)
qed

subsection \<open>A small heap\<close>

text \<open>
  Three blobs of 16 bytes, one after the other in a nursery at 4096: the first points to the
  second, nothing points to the third.  A stack of two words at 8192 points into the first.
\<close>

definition blob_header :: "nat \<Rightarrow> 64 word" where
  "blob_header i = gc_compute_checksum (ai_fields 16 i GC_BLOB)"

definition blob_words :: "nat \<Rightarrow> 64 word \<Rightarrow> 64 word list" where
  "blob_words i v = [blob_header i, MAGIC_BEAD_HEAD, v, 0, 0, MAGIC_BEAD_TAIL]"

definition three_words :: "64 word list" where
  "three_words = blob_words 0 4160 @ blob_words 1 0 @ blob_words 2 0"

definition three_heap :: SnGCHeap where
  "three_heap = zero_heap\<lparr>h_start := 4096, h_current := 4240, h_end := 4240, num_objects := 3\<rparr>"

definition three_blobs :: gstate where
  "three_blobs = one_nursery\<lparr>info := gc_alloc_chunk 4096 144 gc_info_init, nurseries := [three_heap],
     mem := (\<lambda>p. if p mod 8 \<noteq> 0 then None
       else if 4096 \<le> p \<and> p < 4240 then Some (three_words ! ((p - 4096) div 8))
       else if p = 8192 then Some 4117 else if p = 8200 then Some 1 else None)\<rparr>"

definition two_words :: genv where
  "two_words = \<lparr>g_malloc = (\<lambda>s n. 65536), g_finalizer = (\<lambda>f p. pret ()), g_stacks = [(8192, 8208)], g_definite = []\<rparr>"

lemma blob_header_ok:
  assumes "i < 3"
  shows "ai_size (blob_header i) = 16" "ai_index (blob_header i) = i" "ai_type (blob_header i) = GC_BLOB"
    "gc_check_checksum (blob_header i)"
  using header_fields [of 16 i GC_BLOB] header_checksum assms by (simp_all add: blob_header_def GC_BLOB_def)

lemma three_heaps: "heaps_of three_blobs sp = (if sp = Nursery then [three_heap] else [])"
  by (cases sp) (simp_all add: three_blobs_def one_nursery_def)

lemma three_find:
  "gc_find_heap three_blobs p = (if 4112 \<le> p \<and> p < 4224 then Some (Nursery, 0) else None)"
  by (simp add: gc_find_heap_def find_in_def three_heaps three_blobs_def one_nursery_def gc_maybe_contains_def gc_alloc_chunk_def
    gc_info_init_def three_heap_def gc_heap_contains_def zero_heap_def sizeof_head_def sizeof_tail_def)

lemma three_mem:
  "i < 18 \<Longrightarrow> mem three_blobs (4096 + 8 * i) = Some (three_words ! i)"
  "mem three_blobs 8192 = Some 4117" "mem three_blobs 8200 = Some 1"
  by (simp_all add: three_blobs_def)

lemma three_begins:
  assumes "i < 3"
  shows "begins three_blobs (4096 + 48 * i) (blob_header i)"
proof -
  have m: "mem three_blobs (4096 + 48 * i + 8 * j) = Some (three_words ! (6 * i + j))" if "j < 6" for j
    using three_mem(1) [of "6 * i + j"] that assms by (simp add: algebra_simps)
  have "i = 0 \<or> i = 1 \<or> i = 2" using assms by auto
  then show ?thesis using m [of 0] m [of 1] m [of 5] blob_header_ok [OF assms]
    by (auto simp: begins_def three_words_def blob_words_def sizeof_head_def SNOW_GC_ALIGNMENT_def)
qed

lemma three_no_bead:
  assumes "i < 3" "4096 + 48 * i < q" "q \<le> 4096 + 48 * i + 47" "q mod SNOW_GC_ALIGNMENT = 0"
  shows "no_bead three_blobs q"
proof -
  have "q = 4096 + 48 * i + 16 \<or> q = 4096 + 48 * i + 32" using assms(2-4) unfolding SNOW_GC_ALIGNMENT_def by presburger
  moreover have "i = 0 \<or> i = 1 \<or> i = 2" using assms(1) by auto
  ultimately show ?thesis
    by (auto simp: no_bead_def three_blobs_def three_words_def blob_words_def MAGIC_BEAD_HEAD_def MAGIC_BEAD_TAIL_def)
qed

lemma three_start:
  assumes "i < 3" "4096 + 48 * i \<le> p" "p \<le> 4096 + 48 * i + 47" "p < 4224"
  shows "gc_find_object_start (Nursery, 0) p three_blobs =
    Inr ((4096 + 48 * i + 16, 4096 + 48 * i, 4096 + 48 * i + 32), three_blobs)"
proof -
  have h: "get_heap (Nursery, 0) three_blobs = Inr (three_heap, three_blobs)" using three_heaps [of Nursery] by (simp add: get_heap_eq ref_ok_def heap_at_def)
  have "gc_find_object_start (Nursery, 0) p three_blobs = Inr ((4096 + 48 * i + sizeof_head, 4096 + 48 * i,
      4096 + 48 * i + sizeof_head + ai_size (blob_header i)), three_blobs)"
    by (rule find_start_down [OF h _ _ _ _ _ _ _ three_begins [OF assms(1)] assms(2) _ three_no_bead [OF assms(1)]])
      (use assms blob_header_ok [OF assms(1)] in \<open>simp_all add: three_heap_def SNOW_GC_ALIGNMENT_def sizeof_head_def sizeof_tail_def
        three_blobs_def gc_alloc_chunk_def gc_info_init_def\<close>)
  then show ?thesis using blob_header_ok [OF assms(1)] by (simp add: sizeof_head_def)
qed

lemma three_object_at:
  "object_at three_blobs p = (if 4112 \<le> p \<and> p < 4224
     then Some ((Nursery, 0), 4096 + 48 * ((p - 4096) div 48), blob_header ((p - 4096) div 48)) else None)"
proof (cases "4112 \<le> p \<and> p < 4224")
  case True
  define i where "i = (p - 4096) div 48"
  have d: "48 * i + (p - 4096) mod 48 = p - 4096" "(p - 4096) mod 48 < 48" by (simp_all add: i_def)
  then have i: "i < 3" "4096 + 48 * i \<le> p" "p \<le> 4096 + 48 * i + 47" using True by linarith+
  have "read_word (mem three_blobs) (4096 + 48 * i) = Some (blob_header i)"
    using three_begins [OF i(1)] by (simp add: begins_def read_word_def)
  moreover have "ai_type (blob_header i) \<noteq> GC_INVALID" using blob_header_ok [OF i(1)] by (simp add: GC_BLOB_def GC_INVALID_def)
  ultimately show ?thesis using True three_find three_start [OF i] by (simp add: object_at_def i_def)
next
  case False
  then have "gc_find_heap three_blobs p = None" using three_find [of p] by auto
  then show ?thesis using False by (auto simp: object_at_def)
qed

definition blob_node :: "nat \<Rightarrow> node" where
  "blob_node i = ((Nursery, 0), 4096 + 48 * i, blob_header i)"

lemma three_nodes: "nodes three_blobs \<subseteq> blob_node ` {..<3}"
proof
  fix nd assume "nd \<in> nodes three_blobs"
  then obtain p where p: "object_at three_blobs p = Some nd" by (auto simp: nodes_def)
  then have r: "4112 \<le> p \<and> p < 4224" by (simp add: three_object_at split: if_splits)
  then have "(p - 4096) div 48 < 3" by (intro div_less_iff_less_mult [THEN iffD2]) auto
  moreover have "nd = blob_node ((p - 4096) div 48)" using p r by (simp add: three_object_at blob_node_def)
  ultimately show "nd \<in> blob_node ` {..<3}" by auto
qed

lemma three_wf: "gc_wf three_blobs"
proof -
  have heap: "ref_ok three_blobs (Nursery, 0)" "heap_at three_blobs (Nursery, 0) = three_heap"
    using three_heaps [of Nursery] by (simp_all add: ref_ok_def heap_at_def)
  have "flags_inv three_blobs" unfolding flags_inv_def three_heaps
    by (simp add: flags_ready_def flags_wf_def three_heap_def zero_heap_def)
  moreover have "\<exists>x. gc_find_object_start r p three_blobs = Inr (x, three_blobs)" if "gc_find_heap three_blobs p = Some r" for p r
  proof -
    have r: "4112 \<le> p \<and> p < 4224" "r = (Nursery, 0)" using that by (simp_all add: three_find split: if_splits)
    have "48 * ((p - 4096) div 48) + (p - 4096) mod 48 = p - 4096" "(p - 4096) mod 48 < 48" by simp_all
    then have "(p - 4096) div 48 < 3" "4096 + 48 * ((p - 4096) div 48) \<le> p" "p \<le> 4096 + 48 * ((p - 4096) div 48) + 47"
      using r(1) by linarith+
    then show ?thesis using three_start r by blast
  qed
  moreover have "node_ok three_blobs nd" if nd: "nd \<in> nodes three_blobs" for nd
  proof -
    obtain i where i: "nd = blob_node i" "i < 3" using subsetD [OF three_nodes nd] by auto
    have "4096 + 48 * i + 16 + 8 * j = 4096 + 8 * (6 * i + 2 + j)" for j by simp
    then have "\<forall>p \<in> set (slots_from (4096 + 48 * i + 16) 8 2). read_word (mem three_blobs) p \<noteq> None"
      using i(2) by (auto simp: slots_from_def read_word_def three_blobs_def)
    then show ?thesis using i heap blob_header_ok [OF i(2)]
      by (simp add: node_ok_def blob_node_def slots_of_def GC_BLOB_def GC_OBJECT_def sizeof_head_def three_heap_def)
  qed
  moreover have "nd = nd'" if nd: "nd \<in> nodes three_blobs" "nd' \<in> nodes three_blobs"
      and eq: "ai_index (snd (snd nd)) = ai_index (snd (snd nd'))" for nd nd'
  proof -
    obtain i j where "nd = blob_node i" "i < 3" "nd' = blob_node j" "j < 3"
      using subsetD [OF three_nodes nd(1)] subsetD [OF three_nodes nd(2)] by auto
    then show ?thesis using eq blob_header_ok(2) by (simp add: blob_node_def)
  qed
  ultimately show ?thesis unfolding gc_wf_def by blast
qed

theorem marking_reaches_witness:
  "\<exists>u. gc_with_everything_do two_words (gc_mark_root 4) three_blobs = Inr ((), u) \<and> same_shape three_blobs u \<and>
    marks u = {nd. \<exists>p \<in> set (root_slots two_words). \<exists>root \<in> targets three_blobs p. reaches three_blobs root nd}"
proof (rule marking_reaches [OF three_wf])
  show "roots_ok two_words three_blobs"
    by (simp add: roots_ok_def two_words_def root_slots_def stack_slots_def SNOW_GC_ALIGNMENT_def read_word_def three_mem
      numeral_2_eq_2 del: Suc_eq_plus1)
  have "is_marked three_blobs nd = False" if nd: "nd \<in> nodes three_blobs" for nd
  proof -
    obtain i where "nd = blob_node i" using subsetD [OF three_nodes nd] by auto
    then show ?thesis using three_heaps [of Nursery]
      by (simp add: is_marked_def blob_node_def heap_at_def flag_of_def three_heap_def zero_heap_def)
  qed
  then show "marks three_blobs = {}" by (simp add: marks_def)
  have "card (nodes three_blobs) \<le> card (blob_node ` {..<3})" by (intro card_mono three_nodes) simp
  also have "\<dots> \<le> 3" using card_image_le [of "{..<3}" blob_node] by simp
  finally show "card (nodes three_blobs) < 4" by simp
qed

end
