(* ===== verification/GcMove.thy ===== *)
theory GcMove
  imports GcHeader
begin

text \<open>
  Moving an object in a collection (snow/gc.c): copying and filling words, and what
  \<open>gc_transplant\<close> does to the words of the two blocks.
\<close>

subsection \<open>Copying and filling\<close>

lemma copy_words_ok:
  assumes "\<And>j. j < k \<Longrightarrow> mem s (dst + 8 * j) \<noteq> None" "\<And>j. j < k \<Longrightarrow> mem s (src + 8 * j) \<noteq> None"
    and "dst mod 8 = 0" "src mod 8 = 0" and "dst + 8 * k \<le> src \<or> src + 8 * k \<le> dst"
  shows "\<exists>m. copy_words dst src k s = Inr ((), s\<lparr>mem := m\<rparr>) \<and> (\<forall>j < k. m (dst + 8 * j) = mem s (src + 8 * j)) \<and>
    (\<forall>q. q < dst \<or> dst + 8 * k \<le> q \<longrightarrow> m q = mem s q)"
  using assms
proof (induction k arbitrary: dst src s)
  case 0
  then show ?case by (intro exI [of _ "mem s"]) simp
next
  case (Suc k)
  obtain w where w: "mem s src = Some w" using Suc.prems(2) [of 0] by auto
  let ?t = "s\<lparr>mem := (mem s)(dst \<mapsto> w)\<rparr>"
  have one: "rd src s = Inr (w, s)" "wr dst w s = Inr ((), ?t)"
    using w Suc.prems(1) [of 0] Suc.prems(3,4) by (simp_all add: rd_aligned wr_def)
  have "\<exists>m. copy_words (dst + 8) (src + 8) k ?t = Inr ((), ?t\<lparr>mem := m\<rparr>) \<and>
      (\<forall>j < k. m (dst + 8 + 8 * j) = mem ?t (src + 8 + 8 * j)) \<and> (\<forall>q. q < dst + 8 \<or> dst + 8 + 8 * k \<le> q \<longrightarrow> m q = mem ?t q)"
  proof (rule Suc.IH)
    fix j assume "j < k"
    then show "mem ?t (dst + 8 + 8 * j) \<noteq> None" "mem ?t (src + 8 + 8 * j) \<noteq> None"
      using Suc.prems(1) [of "Suc j"] Suc.prems(2) [of "Suc j"] by (auto simp: add.assoc)
  qed (use Suc.prems(3-5) in auto)
  then obtain m where m: "copy_words (dst + 8) (src + 8) k ?t = Inr ((), ?t\<lparr>mem := m\<rparr>)"
      "\<And>j. j < k \<Longrightarrow> m (dst + 8 + 8 * j) = mem ?t (src + 8 + 8 * j)"
      "\<And>q. q < dst + 8 \<or> dst + 8 + 8 * k \<le> q \<Longrightarrow> m q = mem ?t q" by blast
  have "m (dst + 8 * j) = mem s (src + 8 * j)" if "j < Suc k" for j
  proof (cases j)
    case 0
    then show ?thesis using m(3) [of dst] w by simp
  next
    case (Suc i)
    then have "src + 8 * j \<noteq> dst" using that Suc.prems(5) by auto
    then show ?thesis using m(2) [of i] Suc that by (simp add: add.assoc)
  qed
  moreover have "m q = mem s q" if "q < dst \<or> dst + 8 * Suc k \<le> q" for q
  proof -
    have "q < dst + 8 \<or> dst + 8 + 8 * k \<le> q" "q \<noteq> dst" using that by auto
    then show ?thesis using m(3) [of q] by simp
  qed
  moreover have "copy_words dst src (Suc k) s = Inr ((), s\<lparr>mem := m\<rparr>)" using one m(1) by simp
  ultimately show ?case by blast
qed

lemma fill_words_ok:
  assumes "\<And>j. j < k \<Longrightarrow> mem s (dst + 8 * j) \<noteq> None" "dst mod 8 = 0"
  shows "\<exists>m. fill_words dst k w s = Inr ((), s\<lparr>mem := m\<rparr>) \<and> (\<forall>j < k. m (dst + 8 * j) = Some w) \<and>
    (\<forall>q. q < dst \<or> dst + 8 * k \<le> q \<longrightarrow> m q = mem s q)"
  using assms
proof (induction k arbitrary: dst s)
  case 0
  then show ?case by (intro exI [of _ "mem s"]) simp
next
  case (Suc k)
  let ?t = "s\<lparr>mem := (mem s)(dst \<mapsto> w)\<rparr>"
  have one: "wr dst w s = Inr ((), ?t)" using Suc.prems(1) [of 0] Suc.prems(2) by (simp add: wr_def)
  have "\<exists>m. fill_words (dst + 8) k w ?t = Inr ((), ?t\<lparr>mem := m\<rparr>) \<and> (\<forall>j < k. m (dst + 8 + 8 * j) = Some w) \<and>
      (\<forall>q. q < dst + 8 \<or> dst + 8 + 8 * k \<le> q \<longrightarrow> m q = mem ?t q)"
  proof (rule Suc.IH)
    fix j assume "j < k"
    then show "mem ?t (dst + 8 + 8 * j) \<noteq> None" using Suc.prems(1) [of "Suc j"] by (auto simp: add.assoc)
  qed (use Suc.prems(2) in simp)
  then obtain m where m: "fill_words (dst + 8) k w ?t = Inr ((), ?t\<lparr>mem := m\<rparr>)"
      "\<And>j. j < k \<Longrightarrow> m (dst + 8 + 8 * j) = Some w" "\<And>q. q < dst + 8 \<or> dst + 8 + 8 * k \<le> q \<Longrightarrow> m q = mem ?t q" by blast
  have "m (dst + 8 * j) = Some w" if "j < Suc k" for j
    using m(3) [of dst] m(2) [of "j - 1"] that by (cases j) (simp_all add: add.assoc)
  moreover have "m q = mem s q" if "q < dst \<or> dst + 8 * Suc k \<le> q" for q
  proof -
    have "q < dst + 8 \<or> dst + 8 + 8 * k \<le> q" "q \<noteq> dst" using that by auto
    then show ?thesis using m(3) [of q] by simp
  qed
  moreover have "fill_words dst (Suc k) w s = Inr ((), s\<lparr>mem := m\<rparr>)" using one m(1) by simp
  ultimately show ?case by blast
qed

text \<open>The words of a block: its header, its data and its tail.\<close>

definition block_mapped :: "gstate \<Rightarrow> addr \<Rightarrow> nat \<Rightarrow> bool" where
  "block_mapped s p n \<longleftrightarrow> (\<forall>q. p \<le> q \<and> q + 8 \<le> p + gc_calculate_total_size n \<and> q mod 8 = 0 \<longrightarrow> mem s q \<noteq> None)"

lemma block_mappedD: "block_mapped s p n \<Longrightarrow> p \<le> q \<Longrightarrow> q + 8 \<le> p + gc_calculate_total_size n \<Longrightarrow> q mod 8 = 0 \<Longrightarrow> mem s q \<noteq> None"
  by (simp add: block_mapped_def)

lemma init_allocation_run:
  assumes m: "block_mapped s p n" and "p mod 8 = 0" "n mod 8 = 0"
  shows "\<exists>t. gc_init_allocation p n ty i f s = Inr (p + sizeof_head, t)"
proof -
  have "mem s (p + 8) \<noteq> None" "mem s p \<noteq> None" "mem s (p + (16 + n)) \<noteq> None" "mem s (p + (24 + n)) \<noteq> None"
    by (rule block_mappedD [OF m]; use assms(2,3) in \<open>simp add: gc_calculate_total_size_def sizeof_head_def sizeof_tail_def
      mod_add_eq mod_add_left_eq flip: mod_add_right_eq\<close>)+
  moreover have "(p + 8) mod 8 = 0" "(p + (16 + n)) mod 8 = 0" "(p + (24 + n)) mod 8 = 0" using assms(2,3) by presburger+
  ultimately show ?thesis using assms(2) by (simp add: gc_init_allocation_def Let_def wr_def sizeof_head_def add.assoc)
qed

text \<open>
  C13. Moving an object: when the block allocated for it does not overlap it and the allocation
  leaves its words alone, \<open>gc_transplant\<close> succeeds; the new block is an allocation of the same
  size and type with the same words and the same finaliser, and the first word of the old data
  is the address of the new.  The header and the finaliser of the old block stay as they were:
  when the old block is finalised later, the finaliser runs for the moved object once more.
\<close>
theorem transplant_copies:
  assumes head: "mem s p = Some w" "ai_size w = n" "p mod SNOW_GC_ALIGNMENT = 0" "n mod SNOW_GC_ALIGNMENT = 0" "n \<noteq> 0"
    and alloc: "alloc_in_list env target (gc_calculate_total_size n) GC_ADULT_SIZE s = Inr ((new, i), s0)"
    and new: "new mod SNOW_GC_ALIGNMENT = 0" "i < 2 ^ 24" "block_mapped s0 new n"
      "new + gc_calculate_total_size n \<le> p \<or> p + gc_calculate_total_size n \<le> new"
    and old: "block_mapped s p n" "\<forall>q. p \<le> q \<and> q < p + gc_calculate_total_size n \<longrightarrow> mem s0 q = mem s q"
      "mem s (p + sizeof_head + n) = Some f"
  shows "\<exists>s1 w'. gc_transplant env (p + sizeof_head) p (p + sizeof_head + n) target s = Inr ((), s1) \<and>
    begins s1 new w' \<and> ai_size w' = n \<and> ai_index w' = i \<and> ai_type w' = ai_type w \<and>
    (\<forall>j < n div 8. mem s1 (new + sizeof_head + 8 * j) = mem s (p + sizeof_head + 8 * j)) \<and>
    mem s1 (new + sizeof_head + n) = Some f \<and> mem s1 (p + sizeof_head) = Some (of_nat (new + sizeof_head)) \<and>
    mem s1 p = Some w \<and> mem s1 (p + sizeof_head + n) = Some f"
proof -
  note sz = gc_calculate_total_size_def sizeof_head_def sizeof_tail_def
  have n: "n < 2 ^ 32" using head(2) unfolding ai_size_def by (metis unsigned_take_bit_eq take_bit_nat_less_exp)
  have al: "p mod 8 = 0" "new mod 8 = 0" "n mod 8 = 0" "8 * (n div 8) = n" "16 \<le> n"
    using head(3-5) new(1) unfolding SNOW_GC_ALIGNMENT_def by presburger+
  let ?w = "gc_compute_checksum (ai_fields n i (ai_type w))" and ?k = "n div 8"
  let ?obj = "p + sizeof_head" and ?obj' = "new + sizeof_head"
  obtain sA where A: "gc_init_allocation new n (ai_type w) i f s0 = Inr (?obj', sA)"
    using init_allocation_run [OF new(3) al(2,3)] by blast
  note A_ok = init_allocation_ok [OF A new(1) head(4) n new(2)]
  obtain mA where mA: "sA = s0\<lparr>mem := mA\<rparr>" using A_ok(5) by blast
  have keepA: "mA q = mem s q" if "p \<le> q" "q < p + gc_calculate_total_size n" for q
    using A_ok(6) [of q] old(2) that new(4) mA by (auto simp: sz)
  have m8: "(?obj + 8 * j) mod 8 = 0" "(?obj' + 8 * j) mod 8 = 0" for j using al(1,2) unfolding sizeof_head_def by presburger+
  have dataA: "mA (?obj' + 8 * j) \<noteq> None" if "j < ?k" for j
    using A_ok(6) [of "?obj' + 8 * j"] block_mappedD [OF new(3) _ _ m8(2), of j] that al mA by (simp add: sz)
  have oldA: "mA (?obj + 8 * j) \<noteq> None" if "j < ?k" for j
    using keepA [of "?obj + 8 * j"] block_mappedD [OF old(1) _ _ m8(1), of j] that al by (simp add: sz)
  have "\<exists>m. copy_words ?obj' ?obj ?k sA = Inr ((), sA\<lparr>mem := m\<rparr>) \<and> (\<forall>j < ?k. m (?obj' + 8 * j) = mem sA (?obj + 8 * j)) \<and>
      (\<forall>q. q < ?obj' \<or> ?obj' + 8 * ?k \<le> q \<longrightarrow> m q = mem sA q)"
    by (rule copy_words_ok) (use dataA oldA mA al new(4) in \<open>auto simp: sz\<close>)
  then obtain mB where B: "copy_words ?obj' ?obj ?k sA = Inr ((), s0\<lparr>mem := mB\<rparr>)"
      "\<And>j. j < ?k \<Longrightarrow> mB (?obj' + 8 * j) = mA (?obj + 8 * j)" "\<And>q. q < ?obj' \<or> ?obj' + n \<le> q \<Longrightarrow> mB q = mA q"
    unfolding mA al(4) by auto
  have oldB: "mB (?obj + 8 * j) \<noteq> None" if "j < ?k" for j
    using B(3) [of "?obj + 8 * j"] oldA [OF that] that new(4) al by (auto simp: sz)
  have "\<exists>m. fill_words ?obj ?k 0xefefefefefefefef (s0\<lparr>mem := mB\<rparr>) = Inr ((), s0\<lparr>mem := mB\<rparr>\<lparr>mem := m\<rparr>) \<and>
      (\<forall>j < ?k. m (?obj + 8 * j) = Some 0xefefefefefefefef) \<and>
      (\<forall>q. q < ?obj \<or> ?obj + 8 * ?k \<le> q \<longrightarrow> m q = mem (s0\<lparr>mem := mB\<rparr>) q)"
    by (rule fill_words_ok) (use oldB al m8(1) [of 0] in \<open>simp_all add: sz\<close>)
  then obtain mC where C: "fill_words ?obj ?k 0xefefefefefefefef (s0\<lparr>mem := mB\<rparr>) = Inr ((), s0\<lparr>mem := mC\<rparr>)"
      "\<And>j. j < ?k \<Longrightarrow> mC (?obj + 8 * j) = Some 0xefefefefefefefef" "\<And>q. q < ?obj \<or> ?obj + n \<le> q \<Longrightarrow> mC q = mB q"
    unfolding al(4) by auto
  let ?mD = "mC(?obj \<mapsto> of_nat ?obj')"
  have D: "wr ?obj (of_nat ?obj') (s0\<lparr>mem := mC\<rparr>) = Inr ((), s0\<lparr>mem := ?mD\<rparr>)"
    using C(2) [of 0] m8(1) [of 0] al by (simp add: wr_def sizeof_head_def)
  have rd1: "rd p s = Inr (w, s)" using head(1) al(1) by (rule rd_aligned [rotated])
  have rd2: "rd (p + sizeof_head + n) s0 = Inr (f, s0)"
    using old(2,3) al by (intro rd_aligned) (auto simp: sz)
  have run: "gc_transplant env ?obj p (?obj + n) target s =
      Inr ((), s0\<lparr>mem := ?mD, st_moved := (st_moved s0 + 1) mod 2 ^ 32\<rparr>)"
    using rd1 rd2 alloc A B(1) C(1) D head(2,4) by (simp add: gc_transplant_def Let_def)
  have other: "?mD q = mA q" if "q < ?obj' \<or> ?obj' + n \<le> q" "q < ?obj \<or> ?obj + n \<le> q" for q
    using that B(3) C(3) al by auto
  let ?s1 = "s0\<lparr>mem := ?mD, st_moved := (st_moved s0 + 1) mod 2 ^ 32\<rparr>"
  have "mA new = Some ?w" "mA (new + 8) = Some MAGIC_BEAD_HEAD" "mA (?obj' + n + 8) = Some MAGIC_BEAD_TAIL" "gc_check_checksum ?w"
      "mA (?obj' + n) = Some f"
    using A_ok mA by (simp_all add: begins_def)
  moreover have "?mD new = mA new" "?mD (new + 8) = mA (new + 8)" "?mD (?obj' + n) = mA (?obj' + n)"
      "?mD (?obj' + n + 8) = mA (?obj' + n + 8)" "?mD p = mA p" "?mD (?obj + n) = mA (?obj + n)"
    by (rule other; use new(4) al in \<open>auto simp: sz\<close>)+
  ultimately have new_ok: "begins ?s1 new ?w" "?mD (?obj' + n) = Some f"
      and old_ok: "?mD p = Some w" "?mD (?obj + n) = Some f"
    using keepA [of p] keepA [of "?obj + n"] head(1,4) old(3) by (simp_all add: begins_def A_ok(3) sz del: fun_upd_apply)
  have data: "?mD (?obj' + 8 * j) = mem s (?obj + 8 * j)" if "j < ?k" for j
    using B(2) [OF that] C(3) [of "?obj' + 8 * j"] keepA [of "?obj + 8 * j"] that al new(4) by (auto simp: sz)
  have "ai_type ?w = ai_type w"
    using header_fields(3) [OF n new(2)] by (simp add: ai_type_def)
  then show ?thesis
    using run new_ok old_ok data A_ok(3) header_fields(2) [OF n new(2)] by (intro exI [of _ ?s1] exI [of _ ?w]) simp
qed

text \<open>An object of 16 bytes with a finaliser, moved to the first adult heap.\<close>

definition one_object :: gstate where
  "one_object = one_nursery\<lparr>mem := (mem one_nursery)(4096 \<mapsto> gc_compute_checksum (ai_fields 16 0 GC_BLOB), 4128 \<mapsto> 77)\<rparr>"

definition malloc_64k :: genv where
  "malloc_64k = \<lparr>g_malloc = (\<lambda>s n. 65536), g_finalizer = (\<lambda>f p. pret ()), g_stacks = [], g_definite = []\<rparr>"

theorem transplant_copies_witness:
  "\<exists>s1 w'. gc_transplant malloc_64k 4112 4096 4128 Adults one_object = Inr ((), s1) \<and>
    begins s1 65536 w' \<and> ai_size w' = 16 \<and> mem s1 65552 = mem one_object 4112 \<and>
    mem s1 65568 = Some 77 \<and> mem s1 4112 = Some 65552 \<and> mem s1 4128 = Some 77"
proof -
  let ?w = "gc_compute_checksum (ai_fields 16 0 GC_BLOB)"
  have w: "ai_size ?w = 16" using header_fields(1) [of 16 0 GC_BLOB] by simp
  obtain hs g where l: "gc_heap_list_alloc 65536 [] 48 GC_ADULT_SIZE (info one_object) = Inr (hs, g, 65536, 0)"
    by (simp add: gc_heap_list_alloc_def gc_heap_list_push_heap_def gc_heap_alloc_def gc_heap_init_def Let_def
      SNOW_GC_ALIGNMENT_def GC_ADULT_SIZE_def assert_ok_def)
  have a: "adults one_object = []" "g_malloc malloc_64k one_object GC_ADULT_SIZE = 65536" "gc_calculate_total_size 16 = 48"
    by (simp_all add: one_object_def one_nursery_def malloc_64k_def gc_calculate_total_size_def sizeof_head_def sizeof_tail_def)
  obtain s0 where s0: "alloc_in_list malloc_64k Adults (gc_calculate_total_size 16) GC_ADULT_SIZE one_object = Inr ((65536, 0), s0)"
      "mem s0 = map_chunk 65536 GC_ADULT_SIZE (mem one_object)"
    using l by (simp add: alloc_in_list_def Let_def a put_heaps_def)
  have "block_mapped s0 65536 16" "block_mapped one_object 4096 16"
    by (auto simp: block_mapped_def s0(2) map_chunk_def one_object_def one_nursery_simps gc_calculate_total_size_def
      sizeof_head_def sizeof_tail_def GC_ADULT_SIZE_def)
  then have "\<exists>s1 w'. gc_transplant malloc_64k (4096 + sizeof_head) 4096 (4096 + sizeof_head + 16) Adults one_object = Inr ((), s1) \<and>
    begins s1 65536 w' \<and> ai_size w' = 16 \<and> ai_index w' = 0 \<and> ai_type w' = ai_type ?w \<and>
    (\<forall>j < 16 div 8. mem s1 (65536 + sizeof_head + 8 * j) = mem one_object (4096 + sizeof_head + 8 * j)) \<and>
    mem s1 (65536 + sizeof_head + 16) = Some 77 \<and> mem s1 (4096 + sizeof_head) = Some (of_nat (65536 + sizeof_head)) \<and>
    mem s1 4096 = Some ?w \<and> mem s1 (4096 + sizeof_head + 16) = Some 77"
    by (intro transplant_copies [OF _ w _ _ _ s0(1)])
      (simp_all add: one_object_def one_nursery_simps s0(2) map_chunk_def SNOW_GC_ALIGNMENT_def gc_calculate_total_size_def
        sizeof_head_def sizeof_tail_def)
  then obtain s1 w' where s1: "gc_transplant malloc_64k (4096 + sizeof_head) 4096 (4096 + sizeof_head + 16) Adults one_object = Inr ((), s1)"
    "begins s1 65536 w'" "ai_size w' = 16" "\<forall>j < 2. mem s1 (65536 + sizeof_head + 8 * j) = mem one_object (4096 + sizeof_head + 8 * j)"
    "mem s1 (65536 + sizeof_head + 16) = Some 77" "mem s1 (4096 + sizeof_head) = Some (of_nat (65536 + sizeof_head))"
    "mem s1 (4096 + sizeof_head + 16) = Some 77" by auto
  then show ?thesis using spec [OF s1(4), of 0] by (auto simp: sizeof_head_def)
qed

end
