(* ===== verification/Ast.thy ===== *)
theory Ast
  imports Values
begin

text \<open>
  The syntax tree (snow/ast.h, snow/ast.c): a node has a type and as many children as the
  table of sizes says for it.  A child is the word the code keeps there: a value (null is
  \<open>C_value 0\<close>), another node, the array of a sequence, or a string.  \<open>C_unspecified\<close> is what
  \<open>va_arg\<close> reads past the arguments.
\<close>

datatype SnAstNodeType =
    SN_AST_LITERAL | SN_AST_SEQUENCE | SN_AST_FUNCTION | SN_AST_RETURN | SN_AST_BREAK | SN_AST_CONTINUE
  | SN_AST_SELF | SN_AST_CURRENT_SCOPE | SN_AST_LOCAL | SN_AST_MEMBER | SN_AST_LOCAL_ASSIGNMENT
  | SN_AST_MEMBER_ASSIGNMENT | SN_AST_IF_ELSE | SN_AST_CALL | SN_AST_LOOP | SN_AST_TRY | SN_AST_CATCH
  | SN_AST_AND | SN_AST_OR | SN_AST_XOR | SN_AST_NOT | SN_AST_PARALLEL_THREAD | SN_AST_PARALLEL_FORK

datatype SnAstNode = AstNode (ast_type: SnAstNodeType) (children: "ast_child list")
  and ast_child = C_value VALUE | C_node SnAstNode | C_array "ast_child list" | C_string string | C_unspecified

fun ast_size :: "SnAstNodeType \<Rightarrow> nat" where
  "ast_size SN_AST_LITERAL = 1"
| "ast_size SN_AST_SEQUENCE = 1"
| "ast_size SN_AST_FUNCTION = 4"
| "ast_size SN_AST_RETURN = 1"
| "ast_size SN_AST_BREAK = 0"
| "ast_size SN_AST_CONTINUE = 0"
| "ast_size SN_AST_SELF = 0"
| "ast_size SN_AST_CURRENT_SCOPE = 0"
| "ast_size SN_AST_LOCAL = 1"
| "ast_size SN_AST_MEMBER = 2"
| "ast_size SN_AST_LOCAL_ASSIGNMENT = 2"
| "ast_size SN_AST_MEMBER_ASSIGNMENT = 3"
| "ast_size SN_AST_IF_ELSE = 3"
| "ast_size SN_AST_CALL = 2"
| "ast_size SN_AST_LOOP = 2"
| "ast_size SN_AST_TRY = 3"
| "ast_size SN_AST_CATCH = 3"
| "ast_size SN_AST_AND = 2"
| "ast_size SN_AST_OR = 2"
| "ast_size SN_AST_XOR = 2"
| "ast_size SN_AST_NOT = 1"
| "ast_size SN_AST_PARALLEL_THREAD = 1"
| "ast_size SN_AST_PARALLEL_FORK = 1"

fun ast_name :: "SnAstNodeType \<Rightarrow> string" where
  "ast_name SN_AST_LITERAL = ''Literal''"
| "ast_name SN_AST_SEQUENCE = ''Sequence''"
| "ast_name SN_AST_FUNCTION = ''Function''"
| "ast_name SN_AST_RETURN = ''Return''"
| "ast_name SN_AST_BREAK = ''Break''"
| "ast_name SN_AST_CONTINUE = ''Continue''"
| "ast_name SN_AST_SELF = ''Self''"
| "ast_name SN_AST_CURRENT_SCOPE = ''Here''"
| "ast_name SN_AST_LOCAL = ''Local''"
| "ast_name SN_AST_MEMBER = ''Member''"
| "ast_name SN_AST_LOCAL_ASSIGNMENT = ''LocalAssignment''"
| "ast_name SN_AST_MEMBER_ASSIGNMENT = ''MemberAssignment''"
| "ast_name SN_AST_IF_ELSE = ''IfElse''"
| "ast_name SN_AST_CALL = ''Call''"
| "ast_name SN_AST_LOOP = ''Loop''"
| "ast_name SN_AST_TRY = ''Try''"
| "ast_name SN_AST_CATCH = ''Catch''"
| "ast_name SN_AST_AND = ''And''"
| "ast_name SN_AST_OR = ''Or''"
| "ast_name SN_AST_XOR = ''Xor''"
| "ast_name SN_AST_NOT = ''Not''"
| "ast_name SN_AST_PARALLEL_THREAD = ''ParallelThread''"
| "ast_name SN_AST_PARALLEL_FORK = ''ParallelFork''"

definition create_ast_node :: "SnAstNodeType \<Rightarrow> ast_child list \<Rightarrow> SnAstNode" where
  "create_ast_node type args =
     AstNode type (take (ast_size type) (args @ replicate (ast_size type) C_unspecified))"

definition node_or_null :: "SnAstNode option \<Rightarrow> ast_child" where
  "node_or_null n = (case n of None \<Rightarrow> C_value 0 | Some n \<Rightarrow> C_node n)"

subsection \<open>Constructors\<close>

definition snow_ast_literal :: "VALUE \<Rightarrow> SnAstNode" where
  "snow_ast_literal val = create_ast_node SN_AST_LITERAL [C_value val]"

definition snow_ast_sequence :: "ast_child list \<Rightarrow> SnAstNode" where
  "snow_ast_sequence args = create_ast_node SN_AST_SEQUENCE [C_array args]"

definition snow_ast_sequence_push :: "SnAstNode \<Rightarrow> ast_child \<Rightarrow> SnAstNode result" where
  "snow_ast_sequence_push s val =
     rbind (assert_ok (ast_type s = SN_AST_SEQUENCE)) (\<lambda>_.
     case children s of C_array xs # cs \<Rightarrow> Inr (AstNode (ast_type s) (C_array (xs @ [val]) # cs)) | _ \<Rightarrow> Inl Trap)"

definition is_sequence_or_null :: "SnAstNode option \<Rightarrow> bool" where
  "is_sequence_or_null n \<longleftrightarrow> (case n of None \<Rightarrow> True | Some n \<Rightarrow> ast_type n = SN_AST_SEQUENCE)"

definition snow_ast_function :: "string \<Rightarrow> string \<Rightarrow> SnAstNode option \<Rightarrow> SnAstNode \<Rightarrow> SnAstNode result" where
  "snow_ast_function name file seq_args seq_def =
     rbind (assert_ok (is_sequence_or_null seq_args)) (\<lambda>_.
     rbind (assert_ok (ast_type seq_def = SN_AST_SEQUENCE)) (\<lambda>_.
     Inr (create_ast_node SN_AST_FUNCTION [C_string name, C_string file, node_or_null seq_args, C_node seq_def])))"

definition snow_ast_return :: "SnAstNode option \<Rightarrow> SnAstNode" where
  "snow_ast_return n = create_ast_node SN_AST_RETURN [node_or_null n]"

definition snow_ast_break :: SnAstNode where "snow_ast_break = create_ast_node SN_AST_BREAK []"
definition snow_ast_continue :: SnAstNode where "snow_ast_continue = create_ast_node SN_AST_CONTINUE []"
definition snow_ast_self :: SnAstNode where "snow_ast_self = create_ast_node SN_AST_SELF []"
definition snow_ast_current_scope :: SnAstNode where "snow_ast_current_scope = create_ast_node SN_AST_CURRENT_SCOPE []"

definition snow_ast_local :: "SnSymbol \<Rightarrow> SnAstNode" where
  "snow_ast_local s = create_ast_node SN_AST_LOCAL [C_value (symbol_to_value s)]"

definition snow_ast_member :: "SnAstNode \<Rightarrow> SnSymbol \<Rightarrow> SnAstNode" where
  "snow_ast_member self member = create_ast_node SN_AST_MEMBER [C_node self, C_value (symbol_to_value member)]"

definition snow_ast_local_assign :: "SnSymbol \<Rightarrow> SnAstNode \<Rightarrow> SnAstNode" where
  "snow_ast_local_assign s n = create_ast_node SN_AST_LOCAL_ASSIGNMENT [C_value (symbol_to_value s), C_node n]"

definition snow_ast_member_assign :: "SnAstNode \<Rightarrow> SnAstNode \<Rightarrow> SnAstNode result" where
  "snow_ast_member_assign member n =
     rbind (assert_ok (ast_type member = SN_AST_MEMBER)) (\<lambda>_.
     Inr (create_ast_node SN_AST_MEMBER_ASSIGNMENT [C_node member, C_node n]))"

definition snow_ast_if_else :: "SnAstNode \<Rightarrow> SnAstNode option \<Rightarrow> SnAstNode option \<Rightarrow> SnAstNode" where
  "snow_ast_if_else expr body else_body =
     create_ast_node SN_AST_IF_ELSE [C_node expr, node_or_null body, node_or_null else_body]"

definition snow_ast_call :: "SnAstNode \<Rightarrow> SnAstNode option \<Rightarrow> SnAstNode result" where
  "snow_ast_call func seq_args =
     rbind (assert_ok (is_sequence_or_null seq_args)) (\<lambda>_.
     Inr (create_ast_node SN_AST_CALL [C_node func, node_or_null seq_args]))"

definition snow_ast_loop :: "SnAstNode \<Rightarrow> SnAstNode \<Rightarrow> SnAstNode" where
  "snow_ast_loop while_true body = create_ast_node SN_AST_LOOP [C_node while_true, C_node body]"

definition snow_ast_try :: "SnAstNode \<Rightarrow> SnAstNode option \<Rightarrow> SnAstNode option \<Rightarrow> SnAstNode" where
  "snow_ast_try body catch ensure = create_ast_node SN_AST_TRY [C_node body, node_or_null catch, node_or_null ensure]"

definition snow_ast_catch :: "VALUE \<Rightarrow> SnAstNode option \<Rightarrow> SnAstNode \<Rightarrow> SnAstNode" where
  "snow_ast_catch parameter condition body =
     create_ast_node SN_AST_CATCH [C_value parameter, node_or_null condition, C_node body]"

definition snow_ast_and :: "SnAstNode \<Rightarrow> SnAstNode \<Rightarrow> SnAstNode" where
  "snow_ast_and left right = create_ast_node SN_AST_AND [C_node left, C_node right]"

definition snow_ast_or :: "SnAstNode \<Rightarrow> SnAstNode \<Rightarrow> SnAstNode" where
  "snow_ast_or left right = create_ast_node SN_AST_OR [C_node left, C_node right]"

definition snow_ast_xor :: "SnAstNode \<Rightarrow> SnAstNode \<Rightarrow> SnAstNode" where
  "snow_ast_xor left right = create_ast_node SN_AST_XOR [C_node left, C_node right]"

definition snow_ast_not :: "SnAstNode \<Rightarrow> SnAstNode" where
  "snow_ast_not expr = create_ast_node SN_AST_NOT [C_node expr]"

definition snow_ast_parallel_thread :: "SnAstNode \<Rightarrow> SnAstNode" where
  "snow_ast_parallel_thread s = create_ast_node SN_AST_PARALLEL_THREAD [C_node s]"

definition snow_ast_parallel_fork :: "SnAstNode \<Rightarrow> SnAstNode" where
  "snow_ast_parallel_fork s = create_ast_node SN_AST_PARALLEL_FORK [C_node s]"

subsection \<open>Methods of nodes\<close>

text \<open>Names as strings: the symbols of the methods stand for them.\<close>

definition ast_inspect :: "SnAstNode \<Rightarrow> string" where
  "ast_inspect self = ''<AstNode('' @ ast_name (ast_type self) @ '')>''"

text \<open>
  What \<open>print\<close> writes; \<open>ins\<close> is \<open>snow_inspect_value\<close>.  The table gives a literal and a
  local one child.
\<close>

definition indentation :: "nat \<Rightarrow> string" where
  "indentation indent = replicate (indent * 4) CHR '' ''"

fun ast_pretty_print :: "(ast_child \<Rightarrow> string) \<Rightarrow> ast_child \<Rightarrow> nat \<Rightarrow> string result"
and pretty_print_children :: "(ast_child \<Rightarrow> string) \<Rightarrow> ast_child list \<Rightarrow> nat \<Rightarrow> string result"
and pretty_print_array :: "(ast_child \<Rightarrow> string) \<Rightarrow> ast_child list \<Rightarrow> nat \<Rightarrow> string result" where
  "ast_pretty_print ins (C_node (AstNode t cs)) indent =
     rbind (if t = SN_AST_LITERAL \<or> t = SN_AST_LOCAL
            then (case cs of [] \<Rightarrow> Inl Undef | c # _ \<Rightarrow> Inr (ins c @ ''>\<newline>''))
            else rbind (pretty_print_children ins cs (indent + 1)) (\<lambda>str.
                 Inr (''\<newline>'' @ str @ indentation indent @ ''>\<newline>''))) (\<lambda>str.
     Inr (indentation indent @ ''<'' @ ast_name t @ '' '' @ str))"
| "ast_pretty_print ins (C_array xs) indent =
     rbind (pretty_print_array ins xs indent) (\<lambda>str.
     Inr (indentation indent @ ''@(\<newline>'' @ str @ indentation indent @ '')\<newline>''))"
| "ast_pretty_print ins C_unspecified indent = Inl Undef"
| "ast_pretty_print ins (C_value v) indent = Inr (indentation indent @ ins (C_value v) @ ''\<newline>'')"
| "ast_pretty_print ins (C_string str) indent = Inr (indentation indent @ ins (C_string str) @ ''\<newline>'')"
| "pretty_print_children ins [] indent = Inr []"
| "pretty_print_children ins (c # cs) indent =
     rbind (ast_pretty_print ins c indent) (\<lambda>str.
     rbind (pretty_print_children ins cs indent) (\<lambda>rest. Inr (str @ rest)))"
| "pretty_print_array ins [] indent = Inr []"
| "pretty_print_array ins (c # cs) indent =
     rbind (ast_pretty_print ins c (indent + 1)) (\<lambda>str.
     rbind (pretty_print_array ins cs indent) (\<lambda>rest.
     Inr (str @ (if cs = [] then [] else indentation indent @ '',\<newline>'') @ rest)))"

definition ast_print :: "(ast_child \<Rightarrow> string) \<Rightarrow> SnAstNode \<Rightarrow> (string \<times> VALUE) result" where
  "ast_print ins self = rbind (ast_pretty_print ins (C_node self) 0) (\<lambda>str. Inr (str, SN_NIL))"

subsection \<open>Sizes\<close>

lemma create_ast_node_exact:
  "length args = ast_size t \<Longrightarrow> create_ast_node t args = AstNode t args"
  by (simp add: create_ast_node_def)

lemma member_assign_unspecified:
  "ast_type m = SN_AST_MEMBER \<Longrightarrow>
   snow_ast_member_assign m n = Inr (AstNode SN_AST_MEMBER_ASSIGNMENT [C_node m, C_node n, C_unspecified])"
  by (simp add: snow_ast_member_assign_def create_ast_node_def numeral_3_eq_3)

end
