(* ===== verification/Codegen.thy ===== *)
theory Codegen
  imports Ast Contexts Asm
begin

text \<open>
  The code generator (snow/codegen.c, snow/codegen-x86_64.c): every kind of node appends the
  machine code for it to the buffer of the function being compiled.  The state holds the
  generator of that function, the objects it makes (\<open>scopes\<close>), the store and the code
  installed so far.  A label is an index in the list of labels of the generator.  The recursion
  over the tree takes fuel for its depth.  It is the debug build, with bounds checks in the code.
\<close>

unbundle bit_operations_syntax

subsection \<open>State\<close>

text \<open>\<open>cg_parent\<close> holds the results of the generators of the enclosing functions, the nearest first.\<close>

record SnCodegenX =
  cg_parent :: "VALUE list"
  cg_result :: VALUE
  variable_reference_names :: array_t
  cg_root :: SnAstNode
  cg_buffer :: SnLinkBuffer
  cg_returns :: "SnLinkBuffer option"
  num_temporaries :: nat
  tmp_freelist :: "array_t option"
  cg_labels :: "int list"

record cgstate =
  cgx :: SnCodegenX
  cg_scopes :: scopes
  cg_store :: array_t
  cg_asts :: "VALUE \<rightharpoonup> SnAstNode"
  cg_code :: "VALUE \<rightharpoonup> byte list"

type_synonym 'a cprog = "('a, cgstate) prog"

text \<open>The functions of the runtime that code calls.\<close>

datatype c_function =
    F_snow_eval_truth | F_snow_array_get | F_snow_array_set | F_snow_store_get
  | F_snow_create_function_from_description | F_snow_function_declared_in_context
  | F_snow_function_get_referenced_variable | F_snow_function_set_referenced_variable
  | F_snow_get_unspecified_local_from_context | F_snow_set_global_from_context
  | F_snow_set_object_assigned | F_snow_get_member_with_fallback | F_snow_get_member_for_method_call
  | F_snow_set_member | F_snow_create_arguments_with_size | F_snow_arguments_push
  | F_snow_arguments_push_named | F_snow_call_with_args | F_snow_create_exception_handler
  | F_snow_push_exception_handler | F_snow_pop_exception_handler | F_snow_save_execution_state
  | F_snow_throw_exception | F_snow_current_exception_handler | F_snow_invoke_parallel_threads
  | F_snow_invoke_parallel_forks

text \<open>Their addresses, and the address of an executable copy of code.\<close>

record cg_env =
  c_scope :: scope_env
  c_addr :: "c_function \<Rightarrow> 64 word"
  c_install :: "cgstate \<Rightarrow> byte list \<Rightarrow> VALUE"

definition cassert :: "bool \<Rightarrow> unit cprog" where
  "cassert b = plift (assert_ok b)"

definition on_scopes :: "'a sprog \<Rightarrow> 'a cprog" where
  "on_scopes f s = rbind (f (cg_scopes s)) (\<lambda>(x, sc). Inr (x, s\<lparr>cg_scopes := sc\<rparr>))"

definition get_cgx :: "SnCodegenX cprog" where
  "get_cgx = pbind pget (\<lambda>s. pret (cgx s))"

definition set_cgx :: "SnCodegenX \<Rightarrow> unit cprog" where
  "set_cgx c = pbind pget (\<lambda>s. pput (s\<lparr>cgx := c\<rparr>))"

primrec run_all :: "unit cprog list \<Rightarrow> unit cprog" where
  "run_all [] = pret ()"
| "run_all (p # ps) = pbind p (\<lambda>_. run_all ps)"

primrec for_each :: "('a \<Rightarrow> unit cprog) \<Rightarrow> 'a list \<Rightarrow> unit cprog" where
  "for_each f [] = pret ()"
| "for_each f (x # xs) = pbind (f x) (\<lambda>_. for_each f xs)"

subsection \<open>Emitting\<close>

definition asm :: "emitter \<Rightarrow> unit cprog" where
  "asm f = pbind get_cgx (\<lambda>c. pbind (plift (f (cg_buffer c))) (\<lambda>lb. set_cgx (c\<lparr>cg_buffer := lb\<rparr>)))"

definition asm_value :: "(SnLinkBuffer \<Rightarrow> (SnLinkBuffer \<times> 'a) result) \<Rightarrow> 'a cprog" where
  "asm_value f = pbind get_cgx (\<lambda>c. pbind (plift (f (cg_buffer c))) (\<lambda>(lb, x).
     pbind (set_cgx (c\<lparr>cg_buffer := lb\<rparr>)) (\<lambda>_. pret x)))"

definition i_push :: "SnOp \<Rightarrow> unit cprog" where "i_push r = asm (\<lambda>lb. asm_push lb r)"
definition i_pop :: "SnOp \<Rightarrow> unit cprog" where "i_pop r = asm (\<lambda>lb. asm_pop lb r)"
definition i_mov :: "SnOp \<Rightarrow> SnOp \<Rightarrow> unit cprog" where "i_mov r rm = asm (\<lambda>lb. asm_mov lb r rm)"
definition i_mov_rev :: "SnOp \<Rightarrow> SnOp \<Rightarrow> unit cprog" where "i_mov_rev r rm = asm (\<lambda>lb. asm_mov_rev lb r rm)"
definition i_lea :: "SnOp \<Rightarrow> SnOp \<Rightarrow> unit cprog" where "i_lea r rm = asm (\<lambda>lb. asm_lea lb r rm)"
definition i_add :: "SnOp \<Rightarrow> SnOp \<Rightarrow> unit cprog" where "i_add r rm = asm (\<lambda>lb. asm_add lb r rm)"
definition i_and :: "SnOp \<Rightarrow> SnOp \<Rightarrow> unit cprog" where "i_and r rm = asm (\<lambda>lb. asm_and lb r rm)"
definition i_xor :: "SnOp \<Rightarrow> SnOp \<Rightarrow> unit cprog" where "i_xor r rm = asm (\<lambda>lb. asm_xor lb r rm)"
definition i_cmp :: "SnOp \<Rightarrow> SnOp \<Rightarrow> unit cprog" where "i_cmp r rm = asm (\<lambda>lb. asm_cmp lb r rm)"
definition i_imul_i :: "SnOp \<Rightarrow> SnOp \<Rightarrow> 32 word \<Rightarrow> unit cprog" where
  "i_imul_i r rm imm = asm (\<lambda>lb. asm_imul_i lb r rm imm)"
definition i_call :: "SnOp \<Rightarrow> unit cprog" where "i_call rm = asm (\<lambda>lb. asm_call lb rm)"

definition i_mov_id :: "64 word \<Rightarrow> SnOp \<Rightarrow> unit cprog" where
  "i_mov_id imm rm = pbind (asm_value (\<lambda>lb. asm_mov_id lb imm rm)) (\<lambda>_. pret ())"
definition i_add_id :: "64 word \<Rightarrow> SnOp \<Rightarrow> unit cprog" where
  "i_add_id imm rm = pbind (asm_value (\<lambda>lb. asm_add_id lb imm rm)) (\<lambda>_. pret ())"
definition i_cmp_id :: "64 word \<Rightarrow> SnOp \<Rightarrow> unit cprog" where
  "i_cmp_id imm rm = pbind (asm_value (\<lambda>lb. asm_cmp_id lb imm rm)) (\<lambda>_. pret ())"

definition new_label :: "nat cprog" where
  "new_label = pbind get_cgx (\<lambda>c. pbind (set_cgx (c\<lparr>cg_labels := cg_labels c @ [asm_label]\<rparr>)) (\<lambda>_.
     pret (length (cg_labels c))))"

definition bind_label :: "nat \<Rightarrow> unit cprog" where
  "bind_label l = pbind get_cgx (\<lambda>c. pbind (plift (asm_bind (cg_buffer c) (cg_labels c) l)) (\<lambda>ls.
     set_cgx (c\<lparr>cg_labels := ls\<rparr>)))"

definition link_ref :: "LabelRef \<Rightarrow> unit cprog" where
  "link_ref ref = pbind get_cgx (\<lambda>c. pbind (plift (asm_link (cg_buffer c) (cg_labels c) ref)) (\<lambda>lb.
     set_cgx (c\<lparr>cg_buffer := lb\<rparr>)))"

definition jump_if :: "COND \<Rightarrow> nat \<Rightarrow> LabelRef cprog" where
  "jump_if cc l = asm_value (\<lambda>lb. asm_j lb cc l)"

definition jump :: "nat \<Rightarrow> LabelRef cprog" where
  "jump l = asm_value (\<lambda>lb. asm_jmp lb l)"

subsection \<open>Temporaries\<close>

definition codegen_reserve_tmp :: "int cprog" where
  "codegen_reserve_tmp = pbind get_cgx (\<lambda>c.
     case tmp_freelist c of
       Some a \<Rightarrow>
         if array_size a > 0
         then pbind (plift (array_pop a)) (\<lambda>(a, v).
              pbind (set_cgx (c\<lparr>tmp_freelist := Some a\<rparr>)) (\<lambda>_. pret (sint (value_to_int v))))
         else pbind (set_cgx (c\<lparr>num_temporaries := num_temporaries c + 1\<rparr>)) (\<lambda>_. pret (int (num_temporaries c)))
     | None \<Rightarrow> pbind (set_cgx (c\<lparr>num_temporaries := num_temporaries c + 1\<rparr>)) (\<lambda>_. pret (int (num_temporaries c))))"

definition codegen_free_tmp :: "int \<Rightarrow> unit cprog" where
  "codegen_free_tmp tmp = pbind get_cgx (\<lambda>c.
     pbind (plift (array_push (case tmp_freelist c of Some a \<Rightarrow> a | None \<Rightarrow> array_init_with_size 32)
        (int_to_value (word_of_int tmp)))) (\<lambda>(a, _).
     set_cgx (c\<lparr>tmp_freelist := Some a\<rparr>)))"

definition TEMPORARY :: "int \<Rightarrow> SnOp" where
  "TEMPORARY tmp = ADDRESS RBP (word_of_int (- (tmp + 1) * 8))"

subsection \<open>Calls\<close>

text \<open>Truth and the elements of arrays are compiled in place: 8 is the offset of the \<open>array_t\<close>
  in an array, and its data and its size are at 0 and 8.\<close>

definition inline_eval_truth :: "unit cprog" where
  "inline_eval_truth =
     pbind new_label (\<lambda>was_true.
     pbind (run_all [i_mov RDI RAX, i_mov_id (NOT 6) RCX, i_and RCX RAX, i_xor RCX RCX, i_cmp RAX RCX]) (\<lambda>_.
     pbind (jump_if CC_NOT_EQUAL was_true) (\<lambda>was_true_jmp1.
     pbind (run_all [i_mov RDI RAX, i_mov_id SN_TRUE RCX, i_cmp RAX RCX]) (\<lambda>_.
     pbind (jump_if CC_EQUAL was_true) (\<lambda>was_true_jmp2.
     run_all [i_xor RAX RAX, bind_label was_true, link_ref was_true_jmp1, link_ref was_true_jmp2])))))"

definition inline_array_get :: "unit cprog" where
  "inline_array_get =
     pbind (run_all [i_lea RDI (ADDRESS RDI 8), i_xor RAX RAX]) (\<lambda>_.
     pbind new_label (\<lambda>out_of_bounds.
     pbind (run_all [i_mov_rev R8 (ADDRESS RDI 8), i_mov_id 0x00000000ffffffff R9, i_and R9 R8, i_cmp R8 RSI]) (\<lambda>_.
     pbind (jump_if CC_GREATER_EQUAL out_of_bounds) (\<lambda>out_of_bounds_jmp.
     run_all [i_mov_rev RAX (ADDRESS RDI 0), i_imul_i RSI RSI 8, i_add RSI RAX, i_mov_rev RAX (ADDRESS RAX 0),
       bind_label out_of_bounds, link_ref out_of_bounds_jmp]))))"

definition codegen_compile_call_with_inlining :: "cg_env \<Rightarrow> c_function \<Rightarrow> unit cprog" where
  "codegen_compile_call_with_inlining env f =
     (if f = F_snow_eval_truth then inline_eval_truth
      else if f = F_snow_array_get then inline_array_get
      else run_all [i_mov_id (c_addr env f) R10, i_call R10])"

abbreviation CALL :: "cg_env \<Rightarrow> c_function \<Rightarrow> unit cprog" where
  "CALL \<equiv> codegen_compile_call_with_inlining"

subsection \<open>Variables\<close>

text \<open>The loop over the generator and its parents for the level and the index of a local.\<close>

fun find_variable :: "VALUE list \<Rightarrow> SnSymbol \<Rightarrow> nat \<Rightarrow> (nat \<times> nat) option cprog" where
  "find_variable [] name level = pret None"
| "find_variable (desc # ds) name level =
     pbind (on_scopes (snow_function_description_get_local_index desc name)) (\<lambda>idx.
       if idx \<ge> 0 then pret (Some (level, nat idx)) else find_variable ds name (Suc level))"

definition codegen_variable_reference :: "SnSymbol \<Rightarrow> nat option cprog" where
  "codegen_variable_reference variable_name =
     pbind get_cgx (\<lambda>c. let vsym = symbol_to_value variable_name
       in pbind (plift (array_find (variable_reference_names c) vsym)) (\<lambda>idx.
          if idx \<ge> 0 then pret (Some (nat idx))
          else pbind (find_variable (cg_result c # cg_parent c) variable_name 0) (\<lambda>found. case found of
            None \<Rightarrow> pret None
          | Some (level, index) \<Rightarrow>
              pbind (on_scopes (snow_function_description_add_variable_reference (cg_result c) level index)) (\<lambda>out.
              pbind (cassert (array_size (variable_reference_names c) = out)) (\<lambda>_.
              pbind (plift (array_push (variable_reference_names c) vsym)) (\<lambda>(names, _).
              pbind (set_cgx (c\<lparr>variable_reference_names := names\<rparr>)) (\<lambda>_. pret (Some out))))))))"

subsection \<open>Children of nodes\<close>

definition child :: "SnAstNode \<Rightarrow> nat \<Rightarrow> ast_child cprog" where
  "child node i = plift (read_slot (children node) i)"

definition as_node :: "ast_child \<Rightarrow> SnAstNode cprog" where
  "as_node c = (case c of C_node n \<Rightarrow> pret n | _ \<Rightarrow> pfail Undef)"

definition child_node :: "SnAstNode \<Rightarrow> nat \<Rightarrow> SnAstNode cprog" where
  "child_node node i = pbind (child node i) as_node"

text \<open>\<open>if (node->children[i])\<close>.\<close>

definition optional_child :: "SnAstNode \<Rightarrow> nat \<Rightarrow> SnAstNode option cprog" where
  "optional_child node i = pbind (child node i) (\<lambda>c.
     if c = C_value 0 then pret None else pbind (as_node c) (\<lambda>n. pret (Some n)))"

definition as_symbol :: "ast_child \<Rightarrow> SnSymbol cprog" where
  "as_symbol c = (case c of
     C_value v \<Rightarrow> pbind (cassert (is_symbol v)) (\<lambda>_. pret (value_to_symbol v)) | _ \<Rightarrow> pfail Trap)"

definition child_symbol :: "SnAstNode \<Rightarrow> nat \<Rightarrow> SnSymbol cprog" where
  "child_symbol node i = pbind (child node i) as_symbol"

definition child_array :: "SnAstNode \<Rightarrow> nat \<Rightarrow> ast_child list cprog" where
  "child_array node i = pbind (child node i) (\<lambda>c. case c of C_array xs \<Rightarrow> pret xs | _ \<Rightarrow> pfail Trap)"

definition when_some :: "'a option \<Rightarrow> ('a \<Rightarrow> unit cprog) \<Rightarrow> unit cprog" where
  "when_some x f = (case x of None \<Rightarrow> pret () | Some x \<Rightarrow> f x)"

subsection \<open>Nodes\<close>

text \<open>
  One definition per kind of node; \<open>rec\<close> compiles a node with this generator and \<open>sub\<close> a
  function with a generator of its own, and gives its description.
\<close>

type_synonym compiler = "SnAstNode \<Rightarrow> unit cprog"

definition locals_offset :: "32 word" where "locals_offset = 40"
definition self_offset :: "32 word" where "self_offset = 24"
definition function_offset :: "32 word" where "function_offset = 16"

definition add_to_store :: "VALUE \<Rightarrow> VALUE cprog" where
  "add_to_store v = pbind pget (\<lambda>s. pbind (plift (snow_store_add (cg_store s) v)) (\<lambda>(st, key).
     pbind (pput (s\<lparr>cg_store := st\<rparr>)) (\<lambda>_. pret key)))"

definition compile_literal :: "cg_env \<Rightarrow> SnAstNode \<Rightarrow> unit cprog" where
  "compile_literal env node = pbind (child node 0) (\<lambda>c. case c of
     C_value val \<Rightarrow>
       if is_object val
       then pbind (add_to_store val) (\<lambda>key. run_all [i_mov_id key RDI, CALL env F_snow_store_get])
       else i_mov_id val RAX
   | _ \<Rightarrow> pfail Undef)"

definition compile_sequence :: "compiler \<Rightarrow> SnAstNode \<Rightarrow> unit cprog" where
  "compile_sequence rec node =
     pbind (child_array node 0) (\<lambda>xs. for_each (\<lambda>c. pbind (as_node c) rec) xs)"

definition compile_function :: "cg_env \<Rightarrow> (SnAstNode \<Rightarrow> VALUE cprog) \<Rightarrow> SnAstNode \<Rightarrow> unit cprog" where
  "compile_function env sub node =
     pbind (sub node) (\<lambda>desc. pbind (add_to_store desc) (\<lambda>key.
     run_all [i_mov_id key RDI, CALL env F_snow_store_get, i_mov RAX RDI,
       CALL env F_snow_create_function_from_description, i_mov RAX RBX, i_mov RAX RDI, i_mov R13 RSI,
       CALL env F_snow_function_declared_in_context, i_mov RBX RAX]))"

text \<open>The four bytes of the offset of a jump to the end of the function.\<close>

definition int32_bytes :: "int \<Rightarrow> byte list" where
  "int32_bytes n = map (\<lambda>i. ucast (drop_bit (8 * i) (word_of_int n :: 32 word))) [0..<4]"

definition compile_return :: "compiler \<Rightarrow> SnAstNode \<Rightarrow> unit cprog" where
  "compile_return rec node =
     pbind (optional_child node 0) (\<lambda>val.
     pbind (case val of Some n \<Rightarrow> rec n | None \<Rightarrow> i_mov_id SN_NIL RAX) (\<lambda>_.
     pbind (jump 0) (\<lambda>ref.
     pbind get_cgx (\<lambda>c.
     pbind (plift (snow_linkbuffer_push_data (case cg_returns c of Some lb \<Rightarrow> lb | None \<Rightarrow> snow_init_linkbuffer 16)
       (int32_bytes (ref_offset ref)))) (\<lambda>(lb, _).
     set_cgx (c\<lparr>cg_returns := Some lb\<rparr>))))))"

definition compile_local :: "cg_env \<Rightarrow> SnAstNode \<Rightarrow> unit cprog" where
  "compile_local env node =
     pbind (child_symbol node 0) (\<lambda>s.
     pbind get_cgx (\<lambda>c.
     pbind (on_scopes (snow_function_description_get_local_index (cg_result c) s)) (\<lambda>idx.
       if idx \<ge> 0
       then run_all [i_mov_rev RDI (ADDRESS R13 locals_offset), i_mov_id (word_of_int idx) RSI, CALL env F_snow_array_get]
       else pbind (codegen_variable_reference s) (\<lambda>ref. case ref of
         Some i \<Rightarrow> run_all [i_mov_rev RDI (ADDRESS R13 function_offset), i_mov_id (of_nat i) RSI,
             CALL env F_snow_function_get_referenced_variable]
       | None \<Rightarrow> run_all [i_mov_id s RDI, i_mov R13 RSI, CALL env F_snow_get_unspecified_local_from_context]))))"

definition compile_local_assignment :: "cg_env \<Rightarrow> compiler \<Rightarrow> SnAstNode \<Rightarrow> unit cprog" where
  "compile_local_assignment env rec node =
     pbind (child_symbol node 0) (\<lambda>s.
     pbind (child_node node 1) (\<lambda>val.
     pbind get_cgx (\<lambda>c.
     let store_local = (\<lambda>idx. run_all [i_mov_rev RDI (ADDRESS R13 locals_offset), i_mov_id (word_of_int idx) RSI,
           i_mov RAX RDX, CALL env F_snow_array_set])
     in pbind (on_scopes (snow_function_description_get_local_index (cg_result c) s)) (\<lambda>idx.
        pbind (if idx \<ge> 0 then pbind (rec val) (\<lambda>_. store_local idx)
          else pbind (codegen_variable_reference s) (\<lambda>ref. case ref of
            Some i \<Rightarrow> pbind (rec val) (\<lambda>_. run_all [i_mov_rev RDI (ADDRESS R13 function_offset), i_mov_id (of_nat i) RSI,
                i_mov RAX RDX, CALL env F_snow_function_set_referenced_variable])
          | None \<Rightarrow>
              if cg_parent c \<noteq> []
              then pbind (on_scopes (snow_function_description_define_local (cg_result c) s)) (\<lambda>idx.
                   pbind (rec val) (\<lambda>_. pbind (cassert (idx \<ge> 0)) (\<lambda>_. store_local idx)))
              else pbind (rec val) (\<lambda>_. run_all [i_mov_id s RDI, i_mov RAX RSI, i_mov R13 RDX,
                     CALL env F_snow_set_global_from_context]))) (\<lambda>_.
        run_all [i_mov RAX RDI, i_mov_id s RSI, i_xor RDX RDX, CALL env F_snow_set_object_assigned])))))"

definition compile_member :: "cg_env \<Rightarrow> compiler \<Rightarrow> SnAstNode \<Rightarrow> unit cprog" where
  "compile_member env rec node =
     pbind (child_node node 0) (\<lambda>self. pbind (child_symbol node 1) (\<lambda>s.
     run_all [rec self, i_mov RAX RDI, i_mov_id s RSI, CALL env F_snow_get_member_with_fallback]))"

definition compile_member_assignment :: "cg_env \<Rightarrow> compiler \<Rightarrow> SnAstNode \<Rightarrow> unit cprog" where
  "compile_member_assignment env rec node =
     pbind (child_node node 0) (\<lambda>member.
     pbind (child_node member 0) (\<lambda>self. pbind (child_symbol member 1) (\<lambda>s.
     pbind codegen_reserve_tmp (\<lambda>tmp_self.
     pbind (run_all [rec self, i_mov RAX (TEMPORARY tmp_self)]) (\<lambda>_.
     pbind (child_node node 1) (\<lambda>val.
     run_all [rec val, i_mov RAX RDX, i_mov_rev RDI (TEMPORARY tmp_self), i_mov_id s RSI, CALL env F_snow_set_member,
       i_mov RAX RDI, i_mov_id s RSI, i_mov_rev RDX (TEMPORARY tmp_self), CALL env F_snow_set_object_assigned,
       codegen_free_tmp tmp_self]))))))"

text \<open>The test of a condition in \<open>RAX\<close>, with a jump to \<open>l\<close> when it is false.\<close>

definition jump_if_false :: "cg_env \<Rightarrow> nat \<Rightarrow> LabelRef cprog" where
  "jump_if_false env l =
     pbind (run_all [i_mov RAX RDI, CALL env F_snow_eval_truth, i_xor RCX RCX, i_cmp RAX RCX]) (\<lambda>_. jump_if CC_EQUAL l)"

definition compile_if_else :: "cg_env \<Rightarrow> compiler \<Rightarrow> SnAstNode \<Rightarrow> unit cprog" where
  "compile_if_else env rec node =
     pbind new_label (\<lambda>if_false. pbind new_label (\<lambda>after.
     pbind (child_node node 0) (\<lambda>cond. pbind (rec cond) (\<lambda>_.
     pbind (jump_if_false env if_false) (\<lambda>false_jump.
     pbind (optional_child node 1) (\<lambda>body. pbind (when_some body rec) (\<lambda>_.
     pbind (jump after) (\<lambda>after_jump.
     pbind (bind_label if_false) (\<lambda>_.
     pbind (optional_child node 2) (\<lambda>else_body. pbind (when_some else_body rec) (\<lambda>_.
     run_all [bind_label after, link_ref false_jump, link_ref after_jump])))))))))))"

definition compile_loop :: "cg_env \<Rightarrow> compiler \<Rightarrow> SnAstNode \<Rightarrow> unit cprog" where
  "compile_loop env rec node =
     pbind new_label (\<lambda>cond. pbind new_label (\<lambda>after.
     pbind (bind_label cond) (\<lambda>_.
     pbind (child_node node 0) (\<lambda>c. pbind (rec c) (\<lambda>_.
     pbind (jump_if_false env after) (\<lambda>after_jmp.
     pbind (child_node node 1) (\<lambda>body. pbind (rec body) (\<lambda>_.
     pbind (jump cond) (\<lambda>cond_jmp.
     run_all [bind_label after, link_ref after_jmp, link_ref cond_jmp])))))))))"

definition compile_not :: "cg_env \<Rightarrow> compiler \<Rightarrow> SnAstNode \<Rightarrow> unit cprog" where
  "compile_not env rec node =
     pbind new_label (\<lambda>if_false. pbind new_label (\<lambda>after.
     pbind (child_node node 0) (\<lambda>n. pbind (rec n) (\<lambda>_.
     pbind (jump_if_false env if_false) (\<lambda>false_jump.
     pbind (i_mov_id SN_FALSE RAX) (\<lambda>_.
     pbind (jump after) (\<lambda>after_jump.
     run_all [bind_label if_false, i_mov_id SN_TRUE RAX, bind_label after, link_ref false_jump, link_ref after_jump])))))))"

text \<open>\<open>and\<close> and \<open>or\<close> differ in the condition that skips the right operand.\<close>

definition compile_and_or :: "COND \<Rightarrow> cg_env \<Rightarrow> compiler \<Rightarrow> SnAstNode \<Rightarrow> unit cprog" where
  "compile_and_or skip env rec node =
     pbind (child_node node 0) (\<lambda>left. pbind (child_node node 1) (\<lambda>right.
     pbind codegen_reserve_tmp (\<lambda>left_save.
     pbind new_label (\<lambda>done.
     pbind (run_all [rec left, i_mov RAX (TEMPORARY left_save), i_mov RAX RDI, CALL env F_snow_eval_truth,
       i_cmp_id 0 RAX, i_mov_rev RAX (TEMPORARY left_save), codegen_free_tmp left_save]) (\<lambda>_.
     pbind (jump_if skip done) (\<lambda>ref.
     run_all [rec right, bind_label done, link_ref ref]))))))"

definition compile_and :: "cg_env \<Rightarrow> compiler \<Rightarrow> SnAstNode \<Rightarrow> unit cprog" where
  "compile_and = compile_and_or CC_EQUAL"

definition compile_or :: "cg_env \<Rightarrow> compiler \<Rightarrow> SnAstNode \<Rightarrow> unit cprog" where
  "compile_or = compile_and_or CC_NOT_EQUAL"

text \<open>The two temporaries are not freed.\<close>

definition compile_xor :: "cg_env \<Rightarrow> compiler \<Rightarrow> SnAstNode \<Rightarrow> unit cprog" where
  "compile_xor env rec node =
     pbind (child_node node 0) (\<lambda>left. pbind (child_node node 1) (\<lambda>right.
     pbind new_label (\<lambda>both_true_or_false. pbind new_label (\<lambda>left_true. pbind new_label (\<lambda>done.
     pbind codegen_reserve_tmp (\<lambda>left_save. pbind codegen_reserve_tmp (\<lambda>right_save.
     pbind (run_all [rec left, i_mov RAX (TEMPORARY left_save), rec right, i_mov RAX (TEMPORARY right_save),
       i_mov RAX RDI, CALL env F_snow_eval_truth, i_mov RAX RBX, i_mov_rev RDI (TEMPORARY left_save),
       CALL env F_snow_eval_truth, i_cmp RAX RBX]) (\<lambda>_.
     pbind (jump_if CC_EQUAL both_true_or_false) (\<lambda>both_ref.
     pbind (i_cmp_id 0 RAX) (\<lambda>_.
     pbind (jump_if CC_NOT_EQUAL left_true) (\<lambda>left_ref.
     pbind (i_mov_rev RAX (TEMPORARY right_save)) (\<lambda>_.
     pbind (jump done) (\<lambda>done_ref1.
     pbind (run_all [bind_label left_true, i_mov_rev RAX (TEMPORARY left_save)]) (\<lambda>_.
     pbind (jump done) (\<lambda>done_ref2.
     run_all [bind_label both_true_or_false, i_mov_id SN_FALSE RAX, bind_label done, link_ref both_ref, link_ref left_ref,
       link_ref done_ref1, link_ref done_ref2])))))))))))))))"

text \<open>An argument that is an assignment is a named one.\<close>

definition compile_argument :: "cg_env \<Rightarrow> compiler \<Rightarrow> int \<Rightarrow> ast_child \<Rightarrow> unit cprog" where
  "compile_argument env rec tmp_args a =
     pbind (as_node a) (\<lambda>arg.
       if ast_type arg = SN_AST_LOCAL_ASSIGNMENT
       then pbind (child_symbol arg 0) (\<lambda>name. pbind (child_node arg 1) (\<lambda>val.
            run_all [rec val, i_mov_id name RSI, i_mov RAX RDX, i_mov_rev RDI (TEMPORARY tmp_args),
              CALL env F_snow_arguments_push_named]))
       else run_all [rec arg, i_mov RAX RSI, i_mov_rev RDI (TEMPORARY tmp_args), CALL env F_snow_arguments_push])"

definition compile_callee :: "cg_env \<Rightarrow> compiler \<Rightarrow> int \<Rightarrow> int \<Rightarrow> SnAstNode \<Rightarrow> unit cprog" where
  "compile_callee env rec tmp_self tmp_function func =
     (if ast_type func = SN_AST_MEMBER
      then pbind (child_node func 0) (\<lambda>self.
           pbind (run_all [rec self, i_mov RAX (TEMPORARY tmp_self)]) (\<lambda>_.
           pbind (child_symbol func 1) (\<lambda>s.
           run_all [i_mov RAX RDI, i_mov_id s RSI, CALL env F_snow_get_member_for_method_call,
             i_mov RAX (TEMPORARY tmp_function)])))
      else run_all [i_xor RAX RAX, i_mov RAX (TEMPORARY tmp_self), rec func, i_mov RAX (TEMPORARY tmp_function)])"

definition compile_call :: "cg_env \<Rightarrow> compiler \<Rightarrow> SnAstNode \<Rightarrow> unit cprog" where
  "compile_call env rec node =
     pbind codegen_reserve_tmp (\<lambda>tmp_self. pbind codegen_reserve_tmp (\<lambda>tmp_function.
     pbind (child_node node 0) (\<lambda>func.
     pbind (compile_callee env rec tmp_self tmp_function func) (\<lambda>_.
     pbind codegen_reserve_tmp (\<lambda>tmp_args.
     pbind (optional_child node 1) (\<lambda>args_seq.
     pbind (case args_seq of
         Some sq \<Rightarrow>
           pbind (cassert (ast_type sq = SN_AST_SEQUENCE)) (\<lambda>_.
           pbind (child_array sq 0) (\<lambda>args.
           run_all [i_mov_id (of_nat (length args)) RDI, CALL env F_snow_create_arguments_with_size,
             i_mov RAX (TEMPORARY tmp_args), for_each (compile_argument env rec tmp_args) args,
             i_mov_rev RDX (TEMPORARY tmp_args)]))
       | None \<Rightarrow> run_all [i_xor RDX RDX, i_mov RAX (TEMPORARY tmp_args)]) (\<lambda>_.
     run_all [i_mov_rev RDI (TEMPORARY tmp_self), i_mov_rev RSI (TEMPORARY tmp_function),
       CALL env F_snow_call_with_args, codegen_free_tmp tmp_args, codegen_free_tmp tmp_self,
       codegen_free_tmp tmp_function])))))))"

text \<open>
  The handler is three fields: the previous one at 0, the state at 8 and the exception at 72.
\<close>

definition handler_state :: "64 word" where "handler_state = 8"
definition handler_exception :: "32 word" where "handler_exception = 72"

text \<open>A handler in a temporary is made the current one, and its state saved; a jump to \<open>l\<close> is
  taken when the state is restored.\<close>

definition enter_handler :: "cg_env \<Rightarrow> int \<Rightarrow> nat \<Rightarrow> LabelRef cprog" where
  "enter_handler env tmp l =
     pbind (run_all [CALL env F_snow_push_exception_handler, i_mov_rev RDI (TEMPORARY tmp), i_add_id handler_state RDI,
       CALL env F_snow_save_execution_state, i_xor RCX RCX, i_cmp RAX RCX]) (\<lambda>_. jump_if CC_NOT_EQUAL l)"

definition note_exception :: "int \<Rightarrow> int \<Rightarrow> unit cprog" where
  "note_exception handler exception_to_propagate =
     run_all [i_mov_rev R10 (TEMPORARY handler), i_mov_rev R11 (ADDRESS R10 handler_exception),
       i_mov R11 (TEMPORARY exception_to_propagate)]"

definition compile_catch :: "cg_env \<Rightarrow> compiler \<Rightarrow> int \<Rightarrow> int \<Rightarrow> int \<Rightarrow> nat \<Rightarrow> SnAstNode \<Rightarrow> LabelRef cprog" where
  "compile_catch env rec return_value exception_handler exception_to_propagate ensure catch_node =
     pbind new_label (\<lambda>catch_catch.
     pbind codegen_reserve_tmp (\<lambda>catch_exception_handler.
     pbind (run_all [CALL env F_snow_create_exception_handler, i_mov RAX (TEMPORARY catch_exception_handler),
       i_mov_rev R10 (TEMPORARY exception_handler), i_mov_rev R11 (ADDRESS R10 handler_exception),
       i_mov R11 (ADDRESS RAX handler_exception), i_mov_rev RDI (TEMPORARY catch_exception_handler)]) (\<lambda>_.
     pbind (enter_handler env catch_exception_handler catch_catch) (\<lambda>catch_catch_jmp.
     pbind (child catch_node 0) (\<lambda>name.
     pbind (if name = C_value 0 then pret () else
            (case name of
               C_value v \<Rightarrow> rec (snow_ast_local_assign (value_to_symbol v)
                 (snow_ast_member (snow_ast_local (s_sym (c_scope env) ''Exception'')) (s_sym (c_scope env) ''current'')))
             | _ \<Rightarrow> pfail Undef)) (\<lambda>_.
     pbind (optional_child catch_node 1) (\<lambda>condition.
     pbind (case condition of
         None \<Rightarrow> pret None
       | Some n \<Rightarrow> pbind (rec n) (\<lambda>_. pbind (jump_if_false env catch_catch) (\<lambda>ref. pret (Some ref)))) (\<lambda>condition_failed.
     pbind (child_node catch_node 2) (\<lambda>body.
     pbind (run_all [rec body, i_mov RAX (TEMPORARY return_value), CALL env F_snow_pop_exception_handler]) (\<lambda>_.
     pbind (jump ensure) (\<lambda>inner_ensure_jmp.
     pbind (run_all [bind_label catch_catch, note_exception catch_exception_handler exception_to_propagate,
       CALL env F_snow_pop_exception_handler, link_ref catch_catch_jmp, when_some condition_failed link_ref,
       codegen_free_tmp catch_exception_handler]) (\<lambda>_.
     pret inner_ensure_jmp))))))))))))"

definition compile_try :: "cg_env \<Rightarrow> compiler \<Rightarrow> SnAstNode \<Rightarrow> unit cprog" where
  "compile_try env rec node =
     pbind (optional_child node 1) (\<lambda>catch_node.
     pbind new_label (\<lambda>catch. pbind new_label (\<lambda>ensure. pbind new_label (\<lambda>skip_propagation.
     pbind codegen_reserve_tmp (\<lambda>return_value. pbind codegen_reserve_tmp (\<lambda>exception_handler.
     pbind codegen_reserve_tmp (\<lambda>exception_to_propagate.
     pbind (run_all [i_mov_id 0 (TEMPORARY exception_to_propagate), i_mov_id SN_NIL (TEMPORARY return_value),
       CALL env F_snow_create_exception_handler, i_mov RAX (TEMPORARY exception_handler), i_mov RAX RDI]) (\<lambda>_.
     pbind (enter_handler env exception_handler catch) (\<lambda>catch_jmp.
     pbind (child_node node 0) (\<lambda>body.
     pbind (run_all [rec body, i_mov RAX (TEMPORARY return_value)]) (\<lambda>_.
     pbind (jump ensure) (\<lambda>outer_ensure_jmp.
     pbind (bind_label catch) (\<lambda>_.
     pbind (case catch_node of
         Some n \<Rightarrow> pbind (compile_catch env rec return_value exception_handler exception_to_propagate ensure n)
           (\<lambda>ref. pret (Some ref))
       | None \<Rightarrow> pbind (note_exception exception_handler exception_to_propagate) (\<lambda>_. pret None)) (\<lambda>inner_ensure_jmp.
     pbind (run_all [bind_label ensure, i_mov_rev RAX (TEMPORARY exception_handler), i_mov_rev RDI (ADDRESS RAX 0),
       i_mov_rev R11 (ADDRESS RAX handler_exception), i_mov R11 (ADDRESS RDI handler_exception),
       CALL env F_snow_pop_exception_handler]) (\<lambda>_.
     pbind (optional_child node 2) (\<lambda>ensure_body.
     pbind (run_all [when_some ensure_body rec, i_mov_rev RDI (TEMPORARY exception_to_propagate), i_cmp_id 0 RDI]) (\<lambda>_.
     pbind (jump_if CC_EQUAL skip_propagation) (\<lambda>skip_propagation_jmp.
     run_all [CALL env F_snow_throw_exception, bind_label skip_propagation, CALL env F_snow_current_exception_handler,
       i_mov_id 0 (ADDRESS RAX handler_exception), i_mov_rev RAX (TEMPORARY return_value),
       link_ref catch_jmp, link_ref outer_ensure_jmp, link_ref skip_propagation_jmp, when_some inner_ensure_jmp link_ref,
       codegen_free_tmp return_value, codegen_free_tmp exception_handler, codegen_free_tmp exception_to_propagate]))))))))))))))))))"

text \<open>Every element of the sequence becomes the body of a function of its own.\<close>

fun parallel_functions :: "(SnAstNode \<Rightarrow> VALUE cprog) \<Rightarrow> ast_child list \<Rightarrow> array_t \<Rightarrow> array_t cprog" where
  "parallel_functions sub [] functions = pret functions"
| "parallel_functions sub (c # cs) functions =
     pbind (plift (snow_ast_function ''<parallellized chunk>'' ''<TODO>'' None (snow_ast_sequence [c]))) (\<lambda>subfunc.
     pbind (sub subfunc) (\<lambda>desc.
     pbind (plift (array_push functions desc)) (\<lambda>(functions, _). parallel_functions sub cs functions)))"

definition compile_parallel :: "c_function \<Rightarrow> cg_env \<Rightarrow> (SnAstNode \<Rightarrow> VALUE cprog) \<Rightarrow> SnAstNode \<Rightarrow> unit cprog" where
  "compile_parallel invoke env sub node =
     pbind (child_node node 0) (\<lambda>sq.
     pbind (cassert (ast_type sq = SN_AST_SEQUENCE)) (\<lambda>_.
     pbind (child_array sq 0) (\<lambda>xs.
     pbind (on_scopes (create_array (c_scope env) (length xs))) (\<lambda>functions.
     pbind (parallel_functions sub xs (array_init_with_size (length xs))) (\<lambda>a.
     pbind (on_scopes (put_array functions a)) (\<lambda>_.
     pbind (add_to_store functions) (\<lambda>key.
     run_all [i_mov_id key RDI, CALL env F_snow_store_get, i_mov RAX RDI, i_mov R13 RSI, CALL env invoke])))))))"

subsection \<open>Functions\<close>

text \<open>The names of the arguments, which the tree holds as an array, become an array of the state.\<close>

definition define_argument :: "VALUE \<Rightarrow> ast_child \<Rightarrow> VALUE cprog" where
  "define_argument desc c = pbind (as_symbol c) (\<lambda>s.
     pbind (on_scopes (snow_function_description_define_local desc s)) (\<lambda>_. pret (symbol_to_value s)))"

primrec define_arguments :: "VALUE \<Rightarrow> ast_child list \<Rightarrow> array_t \<Rightarrow> array_t cprog" where
  "define_arguments desc [] a = pret a"
| "define_arguments desc (c # cs) a =
     pbind (define_argument desc c) (\<lambda>v. pbind (plift (array_push a v)) (\<lambda>(a, _). define_arguments desc cs a))"

definition compile_argument_names :: "cg_env \<Rightarrow> SnAstNode \<Rightarrow> unit cprog" where
  "compile_argument_names env root =
     pbind (optional_child root 2) (\<lambda>args_seq. when_some args_seq (\<lambda>sq.
       pbind (cassert (ast_type sq = SN_AST_SEQUENCE)) (\<lambda>_.
       pbind (child_array sq 0) (\<lambda>xs.
       pbind get_cgx (\<lambda>c.
       pbind (on_scopes (create_array (c_scope env) (length xs))) (\<lambda>names.
       pbind (on_scopes (pbind (Contexts.here descs (cg_result c)) (\<lambda>d. put_desc (cg_result c) (d\<lparr>argument_names := names\<rparr>)))) (\<lambda>_.
       pbind (define_arguments (cg_result c) xs (array_init_with_size (length xs))) (\<lambda>a.
       on_scopes (put_array names a)))))))))"

text \<open>The offsets of the jumps to the end, four bytes each.\<close>

definition int32_of :: "byte list \<Rightarrow> int" where
  "int32_of bs = signed_take_bit 31 (le_value bs)"

fun int32s :: "byte list \<Rightarrow> int list" where
  "int32s (a # b # c # d # bs) = int32_of [a, b, c, d] # int32s bs"
| "int32s bs = []"

definition link_returns :: "nat \<Rightarrow> unit cprog" where
  "link_returns return_label = pbind get_cgx (\<lambda>c. when_some (cg_returns c) (\<lambda>lb.
     let bytes = snow_linkbuffer_size lb
     in pbind (plift (snow_linkbuffer_copy_data lb (replicate (4 * bytes) 0) bytes)) (\<lambda>(data, _).
        for_each (\<lambda>off. link_ref \<lparr>ref_offset = off, ref_label = return_label\<rparr>) (int32s (take bytes data)))))"

definition link_stack_size :: "int \<Rightarrow> unit cprog" where
  "link_stack_size stack_size_offset =
     pbind get_cgx (\<lambda>c.
     let size = num_temporaries c * 8; size = size + size mod 16
     in pbind (cassert (size mod 16 = 0)) (\<lambda>_.
        asm (\<lambda>lb. rbind (snow_linkbuffer_modify lb (nat stack_size_offset) 4 (int32_bytes (int size))) (\<lambda>(lb, _). Inr lb))))"

definition codegen_compile_root :: "cg_env \<Rightarrow> compiler \<Rightarrow> unit cprog" where
  "codegen_compile_root env rec =
     pbind get_cgx (\<lambda>c. let root = cg_root c
     in pbind (cassert (ast_type root = SN_AST_FUNCTION)) (\<lambda>_.
        pbind (run_all [i_push RBP, i_mov RSP RBP]) (\<lambda>_.
        pbind (asm_value (\<lambda>lb. asm_sub_id lb 0 RSP)) (\<lambda>stack_size_offset.
        pbind (run_all [i_push R13, i_push R14, i_mov RDI R13, i_mov_rev R14 (ADDRESS R13 locals_offset)]) (\<lambda>_.
        pbind (compile_argument_names env root) (\<lambda>_.
        pbind (i_xor RAX RAX) (\<lambda>_.
        pbind (child_node root 3) (\<lambda>body_seq.
        pbind (cassert (ast_type body_seq = SN_AST_SEQUENCE)) (\<lambda>_.
        pbind (rec body_seq) (\<lambda>_.
        pbind new_label (\<lambda>return_label.
        pbind (run_all [bind_label return_label, i_pop R14, i_pop R13, asm asm_leave, asm asm_ret]) (\<lambda>_.
        pbind (link_returns return_label) (\<lambda>_.
        pbind (link_stack_size stack_size_offset) (\<lambda>_.
        pbind get_cgx (\<lambda>c.
          cassert (case tmp_freelist c of None \<Rightarrow> True | Some a \<Rightarrow> array_size a = num_temporaries c))))))))))))))))"

definition codegen_init :: "SnAstNode \<Rightarrow> VALUE list \<Rightarrow> SnCodegenX" where
  "codegen_init root parent =
     \<lparr>cg_parent = parent, cg_result = 0, variable_reference_names = array_init, cg_root = root,
      cg_buffer = snow_init_linkbuffer 1024, cg_returns = None, num_temporaries = 0, tmp_freelist = None, cg_labels = []\<rparr>"

definition snow_create_codegen :: "SnAstNode \<Rightarrow> VALUE list \<Rightarrow> SnCodegenX cprog" where
  "snow_create_codegen root parent =
     pbind (cassert (ast_type root = SN_AST_FUNCTION)) (\<lambda>_. pret (codegen_init root parent))"

definition snow_codegen_compile_description :: "cg_env \<Rightarrow> compiler \<Rightarrow> VALUE cprog" where
  "snow_codegen_compile_description env rec =
     pbind (on_scopes (snow_create_function_description (c_scope env) 0)) (\<lambda>desc.
     pbind get_cgx (\<lambda>c. pbind (set_cgx (c\<lparr>cg_result := desc\<rparr>)) (\<lambda>_.
     pbind (on_scopes (snow_function_description_define_local desc (s_sym (c_scope env) ''it''))) (\<lambda>_.
     pbind (codegen_compile_root env rec) (\<lambda>_.
     pbind get_cgx (\<lambda>c. let len = snow_linkbuffer_size (cg_buffer c)
     in pbind (plift (snow_linkbuffer_copy_data (cg_buffer c) (replicate len 0) len)) (\<lambda>(compiled_code, _).
        pbind pget (\<lambda>s. let addr = c_install env s compiled_code
        in pbind (pput (s\<lparr>cg_code := (cg_code s)(addr \<mapsto> compiled_code), cg_asts := (cg_asts s)(desc \<mapsto> cg_root c)\<rparr>)) (\<lambda>_.
           pbind (on_scopes (pbind (Contexts.here descs desc) (\<lambda>d. put_desc desc (d\<lparr>d_func := addr\<rparr>)))) (\<lambda>_. pret desc))))))))))"

text \<open>A nested function is compiled by a generator of its own; this one goes on after it.\<close>

definition compile_nested :: "cg_env \<Rightarrow> compiler \<Rightarrow> SnAstNode \<Rightarrow> VALUE cprog" where
  "compile_nested env rec node =
     pbind get_cgx (\<lambda>c.
     pbind (snow_create_codegen node (cg_result c # cg_parent c)) (\<lambda>cg2.
     pbind (set_cgx cg2) (\<lambda>_.
     pbind (snow_codegen_compile_description env rec) (\<lambda>desc.
     pbind (set_cgx c) (\<lambda>_. pret desc)))))"

primrec codegen_compile_node :: "nat \<Rightarrow> cg_env \<Rightarrow> SnAstNode \<Rightarrow> unit cprog" where
  "codegen_compile_node 0 env node = pfail Undef"
| "codegen_compile_node (Suc n) env node =
     (let rec = codegen_compile_node n env; sub = compile_nested env rec
      in case ast_type node of
        SN_AST_LITERAL \<Rightarrow> compile_literal env node
      | SN_AST_SEQUENCE \<Rightarrow> compile_sequence rec node
      | SN_AST_FUNCTION \<Rightarrow> compile_function env sub node
      | SN_AST_RETURN \<Rightarrow> compile_return rec node
      | SN_AST_BREAK \<Rightarrow> pfail Trap
      | SN_AST_CONTINUE \<Rightarrow> pfail Trap
      | SN_AST_SELF \<Rightarrow> i_mov_rev RAX (ADDRESS R13 self_offset)
      | SN_AST_CURRENT_SCOPE \<Rightarrow> i_mov R13 RAX
      | SN_AST_LOCAL \<Rightarrow> compile_local env node
      | SN_AST_LOCAL_ASSIGNMENT \<Rightarrow> compile_local_assignment env rec node
      | SN_AST_MEMBER \<Rightarrow> compile_member env rec node
      | SN_AST_MEMBER_ASSIGNMENT \<Rightarrow> compile_member_assignment env rec node
      | SN_AST_IF_ELSE \<Rightarrow> compile_if_else env rec node
      | SN_AST_CALL \<Rightarrow> compile_call env rec node
      | SN_AST_LOOP \<Rightarrow> compile_loop env rec node
      | SN_AST_TRY \<Rightarrow> compile_try env rec node
      | SN_AST_CATCH \<Rightarrow> pfail Trap
      | SN_AST_AND \<Rightarrow> compile_and env rec node
      | SN_AST_OR \<Rightarrow> compile_or env rec node
      | SN_AST_XOR \<Rightarrow> compile_xor env rec node
      | SN_AST_NOT \<Rightarrow> compile_not env rec node
      | SN_AST_PARALLEL_THREAD \<Rightarrow> compile_parallel F_snow_invoke_parallel_threads env sub node
      | SN_AST_PARALLEL_FORK \<Rightarrow> compile_parallel F_snow_invoke_parallel_forks env sub node)"

definition snow_codegen_compile :: "nat \<Rightarrow> cg_env \<Rightarrow> VALUE cprog" where
  "snow_codegen_compile n env =
     pbind (snow_codegen_compile_description env (codegen_compile_node n env)) (\<lambda>desc.
     on_scopes (snow_create_function_from_description (c_scope env) desc))"

end
