(* ===== verification/Machine.thy ===== *)
theory Machine
  imports Codegen
begin

text \<open>
  The processor as the compiled code sees it: a decoder of the instructions the code generator
  emits, written from the processor's manual on top of the operand decoder of \<open>Asm\<close>, and a step
  function on registers, flags, the temporaries of the frame (by their displacement from
  \<open>RBP\<close>) and the world.  What a word of the world's memory is, and what a call of the runtime
  does, are parameters.
\<close>

unbundle bit_operations_syntax

datatype minstr =
    Op byte nat operand
  | OpImm byte nat operand int
  | MovImm nat "64 word"
  | Jcc byte int
  | Jmp int

definition map_rest :: "('a \<Rightarrow> 'b) \<Rightarrow> ('a \<times> byte list) option \<Rightarrow> ('b \<times> byte list) option" where
  "map_rest f = map_option (\<lambda>(x, bs). (f x, bs))"

definition fetch :: "byte list \<Rightarrow> (minstr \<times> byte list) option" where
  "fetch bs = (case strip_rex 0x40 bs of
      (rex, opcode # bs) \<Rightarrow>
        if opcode = 0xe9 then map_rest Jmp (decode_disp 4 bs)
        else if drop_bit 3 opcode = 0x17 then
          (if bit rex 3 \<and> 8 \<le> length bs
           then Some (MovImm ((if bit rex 0 then 8 else 0) + unat (take_bit 3 opcode)) (word_of_int (le_value (take 8 bs))), drop 8 bs)
           else None)
        else (case bs of
            [] \<Rightarrow> None
          | b # bs \<Rightarrow>
              if opcode = 0x0f then
                (if drop_bit 4 b = 8 then map_rest (Jcc (take_bit 4 b)) (decode_disp 4 bs) else None)
              else (case decode_rm rex b bs of
                  None \<Rightarrow> None
                | Some (rm, bs) \<Rightarrow>
                    let r = (if bit rex 2 then 8 else 0) + unat (take_bit 3 (drop_bit 3 b))
                    in if opcode = 0x81 \<or> opcode = 0x69 then map_rest (OpImm opcode r rm) (decode_disp 4 bs)
                       else Some (Op opcode r rm, bs)))
    | _ \<Rightarrow> None)"

subsection \<open>Steps\<close>

record 'w mstate =
  regs :: "nat \<Rightarrow> 64 word"
  flags :: "(bool \<times> bool) option"
  frame :: "int \<Rightarrow> 64 word"
  mworld :: 'w

text \<open>\<open>peek\<close> reads a word of memory; \<open>rt_call\<close> is a call of the code at an address.\<close>

record 'w runtime =
  peek :: "'w \<Rightarrow> 64 word \<Rightarrow> 64 word"
  rt_call :: "64 word \<Rightarrow> (nat \<Rightarrow> 64 word) \<Rightarrow> 'w \<Rightarrow> ((nat \<Rightarrow> 64 word) \<times> 'w) option"

definition read_op :: "'w runtime \<Rightarrow> 'w mstate \<Rightarrow> operand \<Rightarrow> 64 word option" where
  "read_op rt s rm = (case rm of
     Reg n \<Rightarrow> Some (regs s n)
   | Mem n d \<Rightarrow> Some (if n = 5 then frame s d else peek rt (mworld s) (regs s n + word_of_int d))
   | _ \<Rightarrow> None)"

definition write_op :: "'w mstate \<Rightarrow> operand \<Rightarrow> 64 word \<Rightarrow> 'w mstate option" where
  "write_op s rm v = (case rm of
     Reg n \<Rightarrow> Some (s\<lparr>regs := (regs s)(n := v)\<rparr>)
   | Mem n d \<Rightarrow> (if n = 5 then Some (s\<lparr>frame := (frame s)(d := v)\<rparr>) else None)
   | _ \<Rightarrow> None)"

text \<open>The flags after a logical operation, and after the comparison of \<open>a\<close> with \<open>b\<close>: zero, less.\<close>

definition logic_flags :: "64 word \<Rightarrow> (bool \<times> bool) option" where
  "logic_flags v = Some (v = 0, sint v < 0)"

definition cmp_flags :: "64 word \<Rightarrow> 64 word \<Rightarrow> (bool \<times> bool) option" where
  "cmp_flags a b = Some (a = b, sint a < sint b)"

definition set_flags :: "(bool \<times> bool) option \<Rightarrow> 'w mstate \<Rightarrow> 'w mstate" where
  "set_flags f s = s\<lparr>flags := f\<rparr>"

definition exec_op :: "'w runtime \<Rightarrow> byte \<Rightarrow> nat \<Rightarrow> operand \<Rightarrow> 'w mstate \<Rightarrow> 'w mstate option" where
  "exec_op rt opcode r rm s =
     (if opcode = 0x89 then write_op s rm (regs s r)
      else if opcode = 0x8d then
        (case rm of Mem n d \<Rightarrow> write_op s (Reg r) (regs s n + word_of_int d) | _ \<Rightarrow> None)
      else (case read_op rt s rm of
          None \<Rightarrow> None
        | Some v \<Rightarrow>
            if opcode = 0x8b then write_op s (Reg r) v
            else if opcode = 0x01 then map_option (set_flags None) (write_op s rm (v + regs s r))
            else if opcode = 0x21 then map_option (set_flags (logic_flags (v AND regs s r))) (write_op s rm (v AND regs s r))
            else if opcode = 0x31 then map_option (set_flags (logic_flags (v XOR regs s r))) (write_op s rm (v XOR regs s r))
            else if opcode = 0x39 then Some (set_flags (cmp_flags v (regs s r)) s)
            else if opcode = 0xff \<and> r = 2 then
              map_option (\<lambda>(rs, w). s\<lparr>regs := rs, flags := None, mworld := w\<rparr>) (rt_call rt v (regs s) (mworld s))
            else None))"

definition exec_imm :: "'w runtime \<Rightarrow> byte \<Rightarrow> nat \<Rightarrow> operand \<Rightarrow> int \<Rightarrow> 'w mstate \<Rightarrow> 'w mstate option" where
  "exec_imm rt opcode r rm i s = (case read_op rt s rm of
     None \<Rightarrow> None
   | Some v \<Rightarrow>
       if opcode = 0x69 then map_option (set_flags None) (write_op s (Reg r) (v * word_of_int i))
       else if opcode = 0x81 \<and> r = 7 then Some (set_flags (cmp_flags v (word_of_int i)) s)
       else None)"

definition holds :: "byte \<Rightarrow> (bool \<times> bool) option \<Rightarrow> bool option" where
  "holds cc f = (case f of None \<Rightarrow> None | Some (z, l) \<Rightarrow>
     if cc = 4 then Some z else if cc = 5 then Some (\<not> z) else if cc = 0xD then Some (\<not> l) else None)"

type_synonym 'w config = "int \<times> 'w mstate"

definition mstep :: "'w runtime \<Rightarrow> byte list \<Rightarrow> 'w config \<Rightarrow> 'w config option" where
  "mstep rt code c = (case c of (pc, s) \<Rightarrow>
     if pc < 0 \<or> int (length code) \<le> pc then None
     else (case fetch (drop (nat pc) code) of
         None \<Rightarrow> None
       | Some (i, rest) \<Rightarrow>
           let next = int (length code) - int (length rest)
           in (case i of
               Op opcode r rm \<Rightarrow> map_option (Pair next) (exec_op rt opcode r rm s)
             | OpImm opcode r rm imm \<Rightarrow> map_option (Pair next) (exec_imm rt opcode r rm imm s)
             | MovImm r v \<Rightarrow> Some (next, s\<lparr>regs := (regs s)(r := v)\<rparr>)
             | Jcc cc d \<Rightarrow> map_option (\<lambda>b. (if b then next + d else next, s)) (holds cc (flags s))
             | Jmp d \<Rightarrow> Some (next + d, s))))"

text \<open>Steps of a run.\<close>

inductive runs :: "'w runtime \<Rightarrow> byte list \<Rightarrow> 'w config \<Rightarrow> 'w config \<Rightarrow> bool" for rt code where
  runs_refl: "runs rt code c c"
| runs_step: "mstep rt code c = Some d \<Longrightarrow> runs rt code d e \<Longrightarrow> runs rt code c e"

lemma runs_trans: "runs rt code c d \<Longrightarrow> runs rt code d e \<Longrightarrow> runs rt code c e"
  by (induction rule: runs.induct) (auto intro: runs.intros)

subsection \<open>Instructions of the generated code\<close>

datatype ins =
    I_op byte SnOp SnOp
  | I_imm byte SnOp SnOp "64 word"
  | I_mov SnOp "64 word"
  | I_call SnOp
  | I_jcc COND int
  | I_jmp int

definition enc :: "ins \<Rightarrow> byte list" where
  "enc i = (case i of
     I_op opcode r rm \<Rightarrow> instr_bytes opcode r rm
   | I_imm opcode r rm imm \<Rightarrow> instr_bytes opcode r rm @ imm_bytes imm 4
   | I_mov r imm \<Rightarrow> rex_bytes (rex_for_rm r OR REX_WIDE_OPERAND) @ [0xb8 + of_nat (reg r)] @ imm_bytes imm 8
   | I_call r \<Rightarrow> rex_bytes (rex_for_rm r) @ [0xff] @ operand_bytes (make_opcode_ext 2) r
   | I_jcc cc d \<Rightarrow> [0x0f, 0x80 + cond_code cc] @ imm_bytes (word_of_int d) 4
   | I_jmp d \<Rightarrow> [0xe9] @ imm_bytes (word_of_int d) 4)"

definition dec :: "ins \<Rightarrow> minstr" where
  "dec i = (case i of
     I_op opcode r rm \<Rightarrow> Op opcode (reg_number r) (meaning rm)
   | I_imm opcode r rm imm \<Rightarrow> OpImm opcode (reg_number r) (meaning rm) (signed_take_bit 31 (sint imm))
   | I_mov r imm \<Rightarrow> MovImm (reg_number r) imm
   | I_call r \<Rightarrow> Op 0xff 2 (meaning r)
   | I_jcc cc d \<Rightarrow> Jcc (cond_code cc) d
   | I_jmp d \<Rightarrow> Jmp d)"

text \<open>The instructions that have an encoding: the operands, opcodes and distances they may have.\<close>

definition plain_opcodes :: "byte set" where
  "plain_opcodes = {0x89, 0x8b, 0x8d, 0x01, 0x21, 0x31, 0x39}"

definition is_ins :: "ins \<Rightarrow> bool" where
  "is_ins i = (case i of
     I_op opcode r rm \<Rightarrow> opcode \<in> plain_opcodes \<and> is_reg r \<and> is_operand rm \<and> encodable rm
   | I_imm opcode r rm imm \<Rightarrow> opcode \<in> {0x81, 0x69} \<and> is_reg r \<and> is_operand rm \<and> encodable rm
   | I_mov r imm \<Rightarrow> is_reg r
   | I_call r \<Rightarrow> is_reg r
   | I_jcc cc d \<Rightarrow> - (2 ^ 31) \<le> d \<and> d < 2 ^ 31
   | I_jmp d \<Rightarrow> - (2 ^ 31) \<le> d \<and> d < 2 ^ 31)"

subsection \<open>The decoder gives the instruction back\<close>

lemma decode_disp4: "decode_disp 4 (imm_bytes imm 4 @ rest) = Some (signed_take_bit 31 (sint imm), rest)"
proof -
  have "signed_take_bit 31 (take_bit 32 (uint imm)) = signed_take_bit 31 (sint imm)"
    by (simp add: signed_take_bit_eq_iff_take_bit_eq sint_uint min_def take_bit_signed_take_bit)
  then show ?thesis by (simp add: decode_disp_def le_value_imm)
qed

lemma decode_disp4_int:
  "- (2 ^ 31) \<le> d \<Longrightarrow> d < 2 ^ 31 \<Longrightarrow> decode_disp 4 (imm_bytes (word_of_int d) 4 @ rest) = Some (d, rest)"
  by (simp add: decode_disp4 signed_of_int signed_take_bit_int_eq_self)

lemma decode_rm_instr:
  assumes "is_operand rm" "encodable rm"
  shows "decode_rm (BASE_REX OR (rex_for_operands r rm OR REX_WIDE_OPERAND))
    (modrm_byte (mode_code (op_mode rm)) (of_nat (reg r)) (of_nat (reg rm))) (disp_bytes rm @ rest) = Some (meaning rm, rest)"
proof -
  have "reg rm < 8" using assms by (simp add: is_operand_def)
  then show ?thesis
    by (intro decode_rm_ok assms rex_bits) (simp_all add: modrm_parts)
qed

lemma strip_instr:
  assumes "take_bit 4 (drop_bit 4 opcode) \<noteq> (4 :: byte)"
  shows "strip_rex 0x40 (instr_bytes opcode r rm @ rest) =
    (BASE_REX OR (rex_for_operands r rm OR REX_WIDE_OPERAND), opcode # operand_bytes r rm @ rest)"
proof -
  have "rex_for_operands r rm OR REX_WIDE_OPERAND \<in> {8, 9, 12, 13}" unfolding rex_cases by auto
  from strip_rex_bytes [OF this assms] show ?thesis by (simp add: instr_bytes_def)
qed

lemma modrm_reg: "is_reg r \<Longrightarrow> unat (take_bit 3 (drop_bit 3 (modrm_byte m (of_nat (reg r)) k))) = reg r"
  by (simp add: modrm_parts is_reg_def)

lemma fetch_op:
  assumes "is_ins (I_op opcode r rm)"
  shows "fetch (enc (I_op opcode r rm) @ rest) = Some (dec (I_op opcode r rm), rest)"
proof -
  have o: "take_bit 4 (drop_bit 4 opcode) \<noteq> 4" "opcode \<noteq> 0xe9" "drop_bit 3 opcode \<noteq> 0x17" "opcode \<noteq> 0x0f"
      "opcode \<noteq> 0x81" "opcode \<noteq> 0x69"
    using assms by (auto simp: is_ins_def plain_opcodes_def)
  have r: "is_reg r" "is_operand rm" "encodable rm" using assms by (simp_all add: is_ins_def)
  show ?thesis
    using o r decode_rm_instr [OF r(2,3), of r] rex_bits(2) [of r rm]
    by (simp add: fetch_def enc_def dec_def strip_instr operand_bytes_def modrm_reg reg_number_def Let_def)
qed

lemma fetch_imm:
  assumes "is_ins (I_imm opcode r rm imm)"
  shows "fetch (enc (I_imm opcode r rm imm) @ rest) = Some (dec (I_imm opcode r rm imm), rest)"
proof -
  have o: "take_bit 4 (drop_bit 4 opcode) \<noteq> 4" "opcode \<noteq> 0xe9" "drop_bit 3 opcode \<noteq> 0x17" "opcode \<noteq> 0x0f"
      "opcode = 0x81 \<or> opcode = 0x69"
    using assms by (auto simp: is_ins_def)
  have r: "is_reg r" "is_operand rm" "encodable rm" using assms by (simp_all add: is_ins_def)
  show ?thesis
    using o r decode_rm_instr [OF r(2,3), of r "imm_bytes imm 4 @ rest"] rex_bits(2) [of r rm]
    by (simp add: fetch_def enc_def dec_def strip_instr operand_bytes_def modrm_reg reg_number_def Let_def
      map_rest_def decode_disp4)
qed

lemma fetch_mov:
  assumes "is_reg r"
  shows "fetch (enc (I_mov r imm) @ rest) = Some (dec (I_mov r imm), rest)"
proof -
  define opc :: byte where "opc = 0xb8 + of_nat (reg r)"
  have "reg r \<in> {0, 1, 2, 3, 4, 5, 6, 7}" using assms by (auto simp: is_reg_def)
  then have o: "take_bit 4 (drop_bit 4 opc) \<noteq> 4" "opc \<noteq> 0xe9" "drop_bit 3 opc = 0x17" "unat (take_bit 3 opc) = reg r"
    by (auto simp: opc_def)
  have x: "rex_for_rm r OR REX_WIDE_OPERAND \<in> {8, 9, 12, 13}"
      "bit (BASE_REX OR (rex_for_rm r OR REX_WIDE_OPERAND)) 3" "bit (BASE_REX OR (rex_for_rm r OR REX_WIDE_OPERAND)) 0 \<longleftrightarrow> ext r"
    by (auto simp: rex_for_rm_def REX_WIDE_OPERAND_def REX_EXTEND_RM_def BASE_REX_def)
  have s: "strip_rex 0x40 (enc (I_mov r imm) @ rest) =
      (BASE_REX OR (rex_for_rm r OR REX_WIDE_OPERAND), opc # imm_bytes imm 8 @ rest)"
    using strip_rex_bytes [OF x(1) o(1)] by (simp add: enc_def opc_def [symmetric])
  have "word_of_int (le_value (imm_bytes imm 8)) = imm" by (simp add: le_value_imm take_bit_uint64)
  then show ?thesis using o x unfolding fetch_def s by (simp add: dec_def reg_number_def)
qed

lemma fetch_call:
  assumes "is_reg r"
  shows "fetch (enc (I_call r) @ rest) = Some (dec (I_call r), rest)"
proof -
  let ?rex = "if ext r then 0x41 else 0x40 :: byte"
  have s: "strip_rex 0x40 (enc (I_call r) @ rest) = (?rex, 0xff # operand_bytes (make_opcode_ext 2) r @ rest)"
    by (simp add: enc_def rex_bytes_def rex_for_rm_def REX_EXTEND_RM_def BASE_REX_def)
  have "reg r < 8" "\<not> address r" using assms by (simp_all add: is_reg_def)
  then have "decode_rm ?rex (modrm_byte (mode_code (op_mode r)) 2 (of_nat (reg r))) (disp_bytes r @ rest) = Some (meaning r, rest)"
    by (intro decode_rm_ok) (use assms in \<open>auto simp: modrm_parts encodable_def bit_simps\<close>)
  then show ?thesis unfolding fetch_def s
    by (auto simp: operand_bytes_def dec_def make_opcode_ext_def make_op_def modrm_parts Let_def)
qed

lemma fetch_jump:
  assumes "- (2 ^ 31) \<le> d" "d < 2 ^ 31"
  shows "fetch (enc (I_jmp d) @ rest) = Some (dec (I_jmp d), rest)" "fetch (enc (I_jcc cc d) @ rest) = Some (dec (I_jcc cc d), rest)"
proof -
  show "fetch (enc (I_jmp d) @ rest) = Some (dec (I_jmp d), rest)"
    using assms by (simp add: fetch_def enc_def dec_def map_rest_def decode_disp4_int)
  have "drop_bit 4 (0x80 + cond_code cc) = 8" "take_bit 4 (0x80 + cond_code cc) = cond_code cc" by (cases cc; simp)+
  then show "fetch (enc (I_jcc cc d) @ rest) = Some (dec (I_jcc cc d), rest)"
    using assms by (simp add: fetch_def enc_def dec_def map_rest_def decode_disp4_int)
qed

lemma fetch_enc: "is_ins i \<Longrightarrow> fetch (enc i @ rest) = Some (dec i, rest)"
proof (cases i)
  case (I_op o1 r rm)
  moreover assume "is_ins i"
  ultimately show ?thesis using fetch_op by blast
next
  case (I_imm o1 r rm imm)
  moreover assume "is_ins i"
  ultimately show ?thesis using fetch_imm by blast
qed (simp_all add: is_ins_def fetch_mov fetch_call fetch_jump)

subsection \<open>Straight-line code and jumps\<close>

definition exec_ins :: "'w runtime \<Rightarrow> ins \<Rightarrow> 'w mstate \<Rightarrow> 'w mstate option" where
  "exec_ins rt i s = (case dec i of
     Op opcode r rm \<Rightarrow> exec_op rt opcode r rm s
   | OpImm opcode r rm imm \<Rightarrow> exec_imm rt opcode r rm imm s
   | MovImm r v \<Rightarrow> Some (s\<lparr>regs := (regs s)(r := v)\<rparr>)
   | _ \<Rightarrow> None)"

primrec exec_block :: "'w runtime \<Rightarrow> ins list \<Rightarrow> 'w mstate \<Rightarrow> 'w mstate option" where
  "exec_block rt [] s = Some s"
| "exec_block rt (i # is) s = Option.bind (exec_ins rt i s) (exec_block rt is)"

definition bytes :: "ins list \<Rightarrow> byte list" where
  "bytes is = concat (map enc is)"

lemma bytes_simps [simp]:
  "bytes [] = []" "bytes (i # is) = enc i @ bytes is" "bytes (xs @ ys) = bytes xs @ bytes ys"
  by (simp_all add: bytes_def)

lemma enc_nonempty: "enc i \<noteq> []"
  by (simp add: enc_def instr_bytes_def split: ins.split)

lemma mstep_ins:
  assumes "is_ins i" "code = pre @ enc i @ post"
  shows "mstep rt code (int (length pre), s) =
    (let next = int (length pre) + int (length (enc i)) in case dec i of
       Op opcode r rm \<Rightarrow> map_option (Pair next) (exec_op rt opcode r rm s)
     | OpImm opcode r rm imm \<Rightarrow> map_option (Pair next) (exec_imm rt opcode r rm imm s)
     | MovImm r v \<Rightarrow> Some (next, s\<lparr>regs := (regs s)(r := v)\<rparr>)
     | Jcc cc d \<Rightarrow> map_option (\<lambda>b. (if b then next + d else next, s)) (holds cc (flags s))
     | Jmp d \<Rightarrow> Some (next + d, s))"
proof -
  have "fetch (drop (nat (int (length pre))) code) = Some (dec i, post)"
    using assms fetch_enc by simp
  moreover have "int (length pre) < int (length code)" using enc_nonempty [of i] assms(2) by (cases "enc i") simp_all
  moreover have nx: "int (length code) - int (length post) = int (length pre) + int (length (enc i))" using assms(2) by simp
  ultimately show ?thesis unfolding nx [symmetric] by (simp add: mstep_def Let_def)
qed

lemma run_block:
  assumes "exec_block rt is s = Some t" "list_all is_ins is" "code = pre @ bytes is @ post"
  shows "runs rt code (int (length pre), s) (int (length pre + length (bytes is)), t)"
  using assms
proof (induction "is" arbitrary: s pre)
  case Nil
  then show ?case by (simp add: runs_refl)
next
  case (Cons i "is")
  obtain u where u: "exec_ins rt i s = Some u" "exec_block rt is u = Some t"
    using Cons.prems(1) by (auto simp: bind_eq_Some_conv)
  have "mstep rt code (int (length pre), s) = Some (int (length (pre @ enc i)), u)"
    using mstep_ins [of i code pre "bytes is @ post" rt s] Cons.prems(2,3) u(1)
    by (auto simp: exec_ins_def Let_def split: minstr.splits)
  moreover have "runs rt code (int (length (pre @ enc i)), u) (int (length (pre @ enc i) + length (bytes is)), t)"
    by (rule Cons.IH [OF u(2)]) (use Cons.prems in auto)
  ultimately show ?case by (auto intro: runs_step simp: add.assoc)
qed

lemma run_jmp:
  assumes "code = pre @ enc (I_jmp d) @ post" "- (2 ^ 31) \<le> d" "d < 2 ^ 31"
  shows "runs rt code (int (length pre), s) (int (length pre) + 5 + d, s)"
proof -
  have "mstep rt code (int (length pre), s) = Some (int (length pre) + 5 + d, s)"
    using mstep_ins [of "I_jmp d" code pre post rt s] assms by (simp add: is_ins_def dec_def Let_def enc_def)
  then show ?thesis by (auto intro: runs.intros)
qed

lemma run_jcc:
  assumes "code = pre @ enc (I_jcc cc d) @ post" "- (2 ^ 31) \<le> d" "d < 2 ^ 31" "holds (cond_code cc) (flags s) = Some b"
  shows "runs rt code (int (length pre), s) (int (length pre) + 6 + (if b then d else 0), s)"
proof -
  have "mstep rt code (int (length pre), s) = Some (int (length pre) + 6 + (if b then d else 0), s)"
    using mstep_ins [of "I_jcc cc d" code pre post rt s] assms by (simp add: is_ins_def dec_def Let_def enc_def)
  then show ?thesis by (auto intro: runs.intros)
qed

end
