(* ===== verification/CodeSpec.thy ===== *)
theory CodeSpec
  imports Machine
begin

text \<open>
  What compiled code means: the expressions of a function at the top level without nested
  functions, exceptions and returns, as a datatype with their syntax trees (\<open>tree\<close>); the code
  they become, as a list of instructions (\<open>gen\<close>, one combinator per kind of node); and their
  value (\<open>eval\<close>), over what the functions of the runtime do.  \<open>a\<close> is the value before the
  expression, which an empty sequence leaves.
\<close>

unbundle bit_operations_syntax

datatype expr =
    Lit VALUE
  | Self
  | Here
  | Local SnSymbol
  | Assign SnSymbol expr
  | Member expr SnSymbol
  | MemberAssign expr SnSymbol expr
  | Seq "expr list"
  | If expr "expr option" "expr option"
  | Loop expr expr
  | And expr expr
  | Or expr expr
  | Xor expr expr
  | Not expr
  | Call expr "(SnSymbol option \<times> expr) list option"
  | MethodCall expr SnSymbol "(SnSymbol option \<times> expr) list option"

subsection \<open>Trees\<close>

definition arg_tree :: "SnSymbol option \<times> SnAstNode \<Rightarrow> SnAstNode" where
  "arg_tree a = (case fst a of None \<Rightarrow> snd a | Some s \<Rightarrow> snow_ast_local_assign s (snd a))"

definition call_tree :: "SnAstNode \<Rightarrow> (SnSymbol option \<times> SnAstNode) list option \<Rightarrow> SnAstNode" where
  "call_tree f args = create_ast_node SN_AST_CALL
     [C_node f, node_or_null (map_option (\<lambda>ts. snow_ast_sequence (map C_node (map arg_tree ts))) args)]"

primrec tree :: "expr \<Rightarrow> SnAstNode" where
  "tree (Lit v) = snow_ast_literal v"
| "tree Self = snow_ast_self"
| "tree Here = snow_ast_current_scope"
| "tree (Local s) = snow_ast_local s"
| "tree (Assign s e) = snow_ast_local_assign s (tree e)"
| "tree (Member e s) = snow_ast_member (tree e) s"
| "tree (MemberAssign e s v) =
     create_ast_node SN_AST_MEMBER_ASSIGNMENT [C_node (snow_ast_member (tree e) s), C_node (tree v)]"
| "tree (Seq es) = snow_ast_sequence (map C_node (map tree es))"
| "tree (If c b e) = snow_ast_if_else (tree c) (map_option tree b) (map_option tree e)"
| "tree (Loop c b) = snow_ast_loop (tree c) (tree b)"
| "tree (And l r) = snow_ast_and (tree l) (tree r)"
| "tree (Or l r) = snow_ast_or (tree l) (tree r)"
| "tree (Xor l r) = snow_ast_xor (tree l) (tree r)"
| "tree (Not e) = snow_ast_not (tree e)"
| "tree (Call f args) = call_tree (tree f) (map_option (map (map_prod id tree)) args)"
| "tree (MethodCall e s args) = call_tree (snow_ast_member (tree e) s) (map_option (map (map_prod id tree)) args)"

text \<open>The constructors that check their arguments make these trees.\<close>

lemma tree_checked:
  "snow_ast_member_assign (snow_ast_member (tree e) s) (tree v) = Inr (tree (MemberAssign e s v))"
  "snow_ast_call f (map_option (\<lambda>ts. snow_ast_sequence (map C_node (map arg_tree ts))) args) = Inr (call_tree f args)"
  by (simp_all add: snow_ast_member_assign_def snow_ast_call_def snow_ast_member_def create_ast_node_def
    is_sequence_or_null_def snow_ast_sequence_def call_tree_def split: option.split)

text \<open>Literals that are not objects, symbols that fit their words, and the trees of calls unambiguous.\<close>

definition sym_ok :: "SnSymbol \<Rightarrow> bool" where
  "sym_ok s \<longleftrightarrow> is_symbol (symbol_to_value s) \<and> value_to_symbol (symbol_to_value s) = s"

definition plain :: "SnSymbol option \<times> SnAstNode \<Rightarrow> bool" where
  "plain a \<longleftrightarrow> (case fst a of None \<Rightarrow> ast_type (snd a) \<noteq> SN_AST_LOCAL_ASSIGNMENT | Some s \<Rightarrow> sym_ok s)"

definition args_ok :: "(SnSymbol option \<times> bool) list option \<Rightarrow> (SnSymbol option \<times> SnAstNode) list option \<Rightarrow> bool" where
  "args_ok bs ts \<longleftrightarrow> pred_option (list_all snd) bs \<and> pred_option (list_all plain) ts"

primrec expr_ok :: "expr \<Rightarrow> bool" where
  "expr_ok (Lit v) \<longleftrightarrow> \<not> is_object v"
| "expr_ok Self \<longleftrightarrow> True"
| "expr_ok Here \<longleftrightarrow> True"
| "expr_ok (Local s) \<longleftrightarrow> sym_ok s"
| "expr_ok (Assign s e) \<longleftrightarrow> sym_ok s \<and> expr_ok e"
| "expr_ok (Member e s) \<longleftrightarrow> sym_ok s \<and> expr_ok e"
| "expr_ok (MemberAssign e s v) \<longleftrightarrow> sym_ok s \<and> expr_ok e \<and> expr_ok v"
| "expr_ok (Seq es) \<longleftrightarrow> list_all id (map expr_ok es)"
| "expr_ok (If c b e) \<longleftrightarrow> expr_ok c \<and> pred_option id (map_option expr_ok b) \<and> pred_option id (map_option expr_ok e)"
| "expr_ok (Loop c b) \<longleftrightarrow> expr_ok c \<and> expr_ok b"
| "expr_ok (And l r) \<longleftrightarrow> expr_ok l \<and> expr_ok r"
| "expr_ok (Or l r) \<longleftrightarrow> expr_ok l \<and> expr_ok r"
| "expr_ok (Xor l r) \<longleftrightarrow> expr_ok l \<and> expr_ok r"
| "expr_ok (Not e) \<longleftrightarrow> expr_ok e"
| "expr_ok (Call f args) \<longleftrightarrow> ast_type (tree f) \<noteq> SN_AST_MEMBER \<and> expr_ok f \<and>
     args_ok (map_option (map (map_prod id expr_ok)) args) (map_option (map (map_prod id tree)) args)"
| "expr_ok (MethodCall e s args) \<longleftrightarrow> sym_ok s \<and> expr_ok e \<and>
     args_ok (map_option (map (map_prod id expr_ok)) args) (map_option (map (map_prod id tree)) args)"

text \<open>The depth of the tree.\<close>

definition opt_max :: "nat option \<Rightarrow> nat" where
  "opt_max x = (case x of None \<Rightarrow> 0 | Some n \<Rightarrow> n)"

definition list_max :: "nat list \<Rightarrow> nat" where
  "list_max xs = fold max xs 0"

primrec depth :: "expr \<Rightarrow> nat" where
  "depth (Lit v) = 1"
| "depth Self = 1"
| "depth Here = 1"
| "depth (Local s) = 1"
| "depth (Assign s e) = Suc (depth e)"
| "depth (Member e s) = Suc (depth e)"
| "depth (MemberAssign e s v) = Suc (max (depth e) (depth v))"
| "depth (Seq es) = Suc (list_max (map depth es))"
| "depth (If c b e) = Suc (max (depth c) (max (opt_max (map_option depth b)) (opt_max (map_option depth e))))"
| "depth (Loop c b) = Suc (max (depth c) (depth b))"
| "depth (And l r) = Suc (max (depth l) (depth r))"
| "depth (Or l r) = Suc (max (depth l) (depth r))"
| "depth (Xor l r) = Suc (max (depth l) (depth r))"
| "depth (Not e) = Suc (depth e)"
| "depth (Call f args) = Suc (max (depth f) (opt_max (map_option list_max (map_option (map snd) (map_option (map (map_prod id depth)) args)))))"
| "depth (MethodCall e s args) = Suc (max (depth e) (opt_max (map_option list_max (map_option (map snd) (map_option (map (map_prod id depth)) args)))))"

subsection \<open>Code\<close>

text \<open>The number of temporaries, and the free ones, the one freed last at the end.\<close>

type_synonym tmps = "nat \<times> nat list"

definition g_reserve :: "tmps \<Rightarrow> nat \<times> tmps" where
  "g_reserve tm = (case tm of (num, free) \<Rightarrow>
     if free = [] then (num, (num + 1, [])) else (last free, (num, butlast free)))"

definition g_free :: "nat \<Rightarrow> tmps \<Rightarrow> tmps" where
  "g_free t tm = (case tm of (num, free) \<Rightarrow> (num, free @ [t]))"

definition mov :: "SnOp \<Rightarrow> SnOp \<Rightarrow> ins" where "mov r rm = I_op 0x89 r rm"
definition movr :: "SnOp \<Rightarrow> SnOp \<Rightarrow> ins" where "movr r rm = I_op 0x8b r rm"
definition xorr :: "SnOp \<Rightarrow> SnOp \<Rightarrow> ins" where "xorr r rm = I_op 0x31 r rm"
definition cmpr :: "SnOp \<Rightarrow> SnOp \<Rightarrow> ins" where "cmpr r rm = I_op 0x39 r rm"
definition cmpi :: "64 word \<Rightarrow> SnOp \<Rightarrow> ins" where "cmpi imm rm = I_imm 0x81 (make_opcode_ext 7) rm imm"
definition TMP :: "nat \<Rightarrow> SnOp" where "TMP t = TEMPORARY (int t)"

text \<open>The distance over instructions, and a conditional jump over those that follow.\<close>

definition dist :: "ins list \<Rightarrow> int" where
  "dist cs = int (length (bytes cs))"

definition skip_if :: "COND \<Rightarrow> ins list \<Rightarrow> ins list" where
  "skip_if cc cs = I_jcc cc (dist cs) # cs"

definition g_truth :: "ins list" where
  "g_truth = [mov RDI RAX, I_mov RCX (NOT 6), I_op 0x21 RCX RAX, xorr RCX RCX, cmpr RAX RCX] @
     skip_if CC_NOT_EQUAL ([mov RDI RAX, I_mov RCX SN_TRUE, cmpr RAX RCX] @ skip_if CC_EQUAL [xorr RAX RAX])"

definition g_array_get :: "ins list" where
  "g_array_get = [I_op 0x8d RDI (ADDRESS RDI 8), xorr RAX RAX, movr R8 (ADDRESS RDI 8), I_mov R9 0x00000000ffffffff,
     I_op 0x21 R9 R8, cmpr R8 RSI] @
     skip_if CC_GREATER_EQUAL [movr RAX (ADDRESS RDI 0), I_imm 0x69 RSI RSI 8, I_op 0x01 RSI RAX, movr RAX (ADDRESS RAX 0)]"

definition g_call :: "(c_function \<Rightarrow> 64 word) \<Rightarrow> c_function \<Rightarrow> ins list" where
  "g_call ad f = [I_mov R10 (ad f), I_call R10]"

definition g_test :: "ins list" where
  "g_test = [mov RAX RDI] @ g_truth @ [xorr RCX RCX, cmpr RAX RCX]"

type_synonym cgen = "tmps \<Rightarrow> ins list \<times> tmps"

definition g_then :: "cgen \<Rightarrow> cgen \<Rightarrow> cgen" where
  "g_then X Y tm = (case X tm of (x, tm) \<Rightarrow> case Y tm of (y, tm) \<Rightarrow> (x @ y, tm))"

definition g_code :: "ins list \<Rightarrow> cgen" where
  "g_code cs tm = (cs, tm)"

definition g_with_tmp :: "(nat \<Rightarrow> cgen) \<Rightarrow> cgen" where
  "g_with_tmp X tm = (case g_reserve tm of (t, tm) \<Rightarrow> X t tm)"

definition g_release :: "nat \<Rightarrow> cgen" where
  "g_release t tm = ([], g_free t tm)"

definition g_option :: "cgen option \<Rightarrow> cgen" where
  "g_option X = (case X of None \<Rightarrow> g_code [] | Some X \<Rightarrow> X)"

primrec g_seq :: "cgen list \<Rightarrow> cgen" where
  "g_seq [] = g_code []"
| "g_seq (X # Xs) = g_then X (g_seq Xs)"

definition g_local :: "(c_function \<Rightarrow> 64 word) \<Rightarrow> int \<Rightarrow> SnSymbol \<Rightarrow> cgen" where
  "g_local ad i s = g_code (if i \<ge> 0
     then [movr RDI (ADDRESS R13 locals_offset), I_mov RSI (word_of_int i)] @ g_array_get
     else [I_mov RDI s, mov R13 RSI] @ g_call ad F_snow_get_unspecified_local_from_context)"

definition g_assign :: "(c_function \<Rightarrow> 64 word) \<Rightarrow> int \<Rightarrow> SnSymbol \<Rightarrow> cgen \<Rightarrow> cgen" where
  "g_assign ad i s X = g_then X (g_code ((if i \<ge> 0
     then [movr RDI (ADDRESS R13 locals_offset), I_mov RSI (word_of_int i), mov RAX RDX] @ g_call ad F_snow_array_set
     else [I_mov RDI s, mov RAX RSI, mov R13 RDX] @ g_call ad F_snow_set_global_from_context) @
     [mov RAX RDI, I_mov RSI s, xorr RDX RDX] @ g_call ad F_snow_set_object_assigned))"

definition g_member :: "(c_function \<Rightarrow> 64 word) \<Rightarrow> SnSymbol \<Rightarrow> cgen \<Rightarrow> cgen" where
  "g_member ad s X = g_then X (g_code ([mov RAX RDI, I_mov RSI s] @ g_call ad F_snow_get_member_with_fallback))"

definition g_member_assign :: "(c_function \<Rightarrow> 64 word) \<Rightarrow> SnSymbol \<Rightarrow> cgen \<Rightarrow> cgen \<Rightarrow> cgen" where
  "g_member_assign ad s X Y = g_with_tmp (\<lambda>t.
     g_then X (g_then (g_code [mov RAX (TMP t)]) (g_then Y (g_then (g_code (
       [mov RAX RDX, movr RDI (TMP t), I_mov RSI s] @ g_call ad F_snow_set_member @
       [mov RAX RDI, I_mov RSI s, movr RDX (TMP t)] @ g_call ad F_snow_set_object_assigned)) (g_release t)))))"

definition g_if :: "cgen \<Rightarrow> cgen option \<Rightarrow> cgen option \<Rightarrow> cgen" where
  "g_if X Y Z tm = (case X tm of (x, tm) \<Rightarrow> case g_option Y tm of (y, tm) \<Rightarrow> case g_option Z tm of (z, tm) \<Rightarrow>
     (x @ g_test @ skip_if CC_EQUAL (y @ [I_jmp (dist z)]) @ z, tm))"

definition g_loop :: "cgen \<Rightarrow> cgen \<Rightarrow> cgen" where
  "g_loop X Y tm = (case X tm of (x, tm) \<Rightarrow> case Y tm of (y, tm) \<Rightarrow>
     (x @ g_test @ skip_if CC_EQUAL (y @ [I_jmp (- (dist x + dist g_test + 6 + dist y + 5))]), tm))"

definition g_and_or :: "COND \<Rightarrow> cgen \<Rightarrow> cgen \<Rightarrow> cgen" where
  "g_and_or cc X Y = g_with_tmp (\<lambda>t. g_then X (g_then (g_code ([mov RAX (TMP t), mov RAX RDI] @ g_truth @
     [cmpi 0 RAX, movr RAX (TMP t)])) (g_then (g_release t) (\<lambda>tm. apfst (skip_if cc) (Y tm)))))"

definition g_xor_choose :: "nat \<Rightarrow> nat \<Rightarrow> ins list" where
  "g_xor_choose a b =
     (let result = [I_mov RAX SN_FALSE]; left = movr RAX (TMP a) # [I_jmp (dist result)];
          right = [movr RAX (TMP b), I_jmp (dist (left @ result))]
      in skip_if CC_EQUAL ([cmpi 0 RAX] @ skip_if CC_NOT_EQUAL right @ left) @ result)"

definition g_xor :: "cgen \<Rightarrow> cgen \<Rightarrow> cgen" where
  "g_xor X Y = g_with_tmp (\<lambda>a. g_with_tmp (\<lambda>b.
     g_then X (g_then (g_code [mov RAX (TMP a)]) (g_then Y (g_code ([mov RAX (TMP b), mov RAX RDI] @ g_truth @
       [mov RAX RBX, movr RDI (TMP a)] @ g_truth @ [cmpr RAX RBX] @ g_xor_choose a b))))))"

definition g_not :: "cgen \<Rightarrow> cgen" where
  "g_not X = g_then X (g_code (g_test @ skip_if CC_EQUAL [I_mov RAX SN_FALSE, I_jmp (dist [I_mov RAX SN_TRUE])] @
     [I_mov RAX SN_TRUE]))"

definition g_arg :: "(c_function \<Rightarrow> 64 word) \<Rightarrow> nat \<Rightarrow> SnSymbol option \<times> cgen \<Rightarrow> cgen" where
  "g_arg ad ta a = g_then (snd a) (g_code (case fst a of
     None \<Rightarrow> [mov RAX RSI, movr RDI (TMP ta)] @ g_call ad F_snow_arguments_push
   | Some s \<Rightarrow> [I_mov RSI s, mov RAX RDX, movr RDI (TMP ta)] @ g_call ad F_snow_arguments_push_named))"

definition g_args :: "(c_function \<Rightarrow> 64 word) \<Rightarrow> nat \<Rightarrow> (SnSymbol option \<times> cgen) list option \<Rightarrow> cgen" where
  "g_args ad ta args = (case args of
     None \<Rightarrow> g_code [xorr RDX RDX, mov RAX (TMP ta)]
   | Some as \<Rightarrow> g_then (g_code ([I_mov RDI (of_nat (length as))] @ g_call ad F_snow_create_arguments_with_size @ [mov RAX (TMP ta)]))
       (g_then (g_seq (map (g_arg ad ta) as)) (g_code [movr RDX (TMP ta)])))"

definition g_finish :: "(c_function \<Rightarrow> 64 word) \<Rightarrow> nat \<Rightarrow> nat \<Rightarrow> (SnSymbol option \<times> cgen) list option \<Rightarrow> cgen" where
  "g_finish ad ts tf args = g_with_tmp (\<lambda>ta. g_then (g_args ad ta args)
     (g_then (g_code ([movr RDI (TMP ts), movr RSI (TMP tf)] @ g_call ad F_snow_call_with_args))
       (g_then (g_release ta) (g_then (g_release ts) (g_release tf)))))"

definition g_apply :: "(c_function \<Rightarrow> 64 word) \<Rightarrow> (nat \<Rightarrow> nat \<Rightarrow> cgen) \<Rightarrow> (SnSymbol option \<times> cgen) list option \<Rightarrow> cgen" where
  "g_apply ad F args = g_with_tmp (\<lambda>ts. g_with_tmp (\<lambda>tf. g_then (F ts tf) (g_finish ad ts tf args)))"

definition g_function :: "cgen \<Rightarrow> nat \<Rightarrow> nat \<Rightarrow> cgen" where
  "g_function X ts tf = g_then (g_code [xorr RAX RAX, mov RAX (TMP ts)]) (g_then X (g_code [mov RAX (TMP tf)]))"

definition g_method :: "(c_function \<Rightarrow> 64 word) \<Rightarrow> SnSymbol \<Rightarrow> cgen \<Rightarrow> nat \<Rightarrow> nat \<Rightarrow> cgen" where
  "g_method ad s X ts tf = g_then X (g_code ([mov RAX (TMP ts), mov RAX RDI, I_mov RSI s] @
     g_call ad F_snow_get_member_for_method_call @ [mov RAX (TMP tf)]))"

primrec gen :: "(c_function \<Rightarrow> 64 word) \<Rightarrow> (SnSymbol \<Rightarrow> int) \<Rightarrow> expr \<Rightarrow> cgen" where
  "gen ad lk (Lit v) = g_code [I_mov RAX v]"
| "gen ad lk Self = g_code [movr RAX (ADDRESS R13 self_offset)]"
| "gen ad lk Here = g_code [mov R13 RAX]"
| "gen ad lk (Local s) = g_local ad (lk s) s"
| "gen ad lk (Assign s e) = g_assign ad (lk s) s (gen ad lk e)"
| "gen ad lk (Member e s) = g_member ad s (gen ad lk e)"
| "gen ad lk (MemberAssign e s v) = g_member_assign ad s (gen ad lk e) (gen ad lk v)"
| "gen ad lk (Seq es) = g_seq (map (gen ad lk) es)"
| "gen ad lk (If c b e) = g_if (gen ad lk c) (map_option (gen ad lk) b) (map_option (gen ad lk) e)"
| "gen ad lk (Loop c b) = g_loop (gen ad lk c) (gen ad lk b)"
| "gen ad lk (And l r) = g_and_or CC_EQUAL (gen ad lk l) (gen ad lk r)"
| "gen ad lk (Or l r) = g_and_or CC_NOT_EQUAL (gen ad lk l) (gen ad lk r)"
| "gen ad lk (Xor l r) = g_xor (gen ad lk l) (gen ad lk r)"
| "gen ad lk (Not e) = g_not (gen ad lk e)"
| "gen ad lk (Call f args) = g_apply ad (g_function (gen ad lk f)) (map_option (map (map_prod id (gen ad lk))) args)"
| "gen ad lk (MethodCall e s args) = g_apply ad (g_method ad s (gen ad lk e)) (map_option (map (map_prod id (gen ad lk))) args)"

subsection \<open>Values\<close>

text \<open>
  What the functions of the runtime return and how they change the world, and the words of
  memory; no result when they do not return.  The truth of a value is a word, zero when it is false.
\<close>

type_synonym 'w calls = "c_function \<Rightarrow> 64 word list \<Rightarrow> 'w \<Rightarrow> (64 word \<times> 'w) option"
type_synonym 'w sem = "64 word \<Rightarrow> 'w \<Rightarrow> (64 word \<times> 'w) option"

definition truth_word :: "64 word \<Rightarrow> 64 word" where
  "truth_word v = (if v AND NOT 6 \<noteq> 0 then v AND NOT 6 else if v = SN_TRUE then SN_TRUE else 0)"

definition s_then :: "'w sem \<Rightarrow> (64 word \<Rightarrow> 'w sem) \<Rightarrow> 'w sem" where
  "s_then F G a w = Option.bind (F a w) (\<lambda>(v, w). G v v w)"

primrec s_seq :: "'w sem list \<Rightarrow> 'w sem" where
  "s_seq [] = (\<lambda>a w. Some (a, w))"
| "s_seq (F # Fs) = s_then F (\<lambda>_. s_seq Fs)"

definition s_option :: "'w sem option \<Rightarrow> 'w sem" where
  "s_option F = (case F of None \<Rightarrow> (\<lambda>a w. Some (a, w)) | Some F \<Rightarrow> F)"

definition s_value :: "64 word \<Rightarrow> 'w sem" where
  "s_value v a w = Some (v, w)"

definition locals_of :: "('w \<Rightarrow> 64 word \<Rightarrow> 64 word) \<Rightarrow> 64 word \<Rightarrow> 'w \<Rightarrow> 64 word" where
  "locals_of pk ctx w = pk w (ctx + 40)"

text \<open>The element of an array, null past its end.\<close>

definition array_read :: "('w \<Rightarrow> 64 word \<Rightarrow> 64 word) \<Rightarrow> 'w \<Rightarrow> 64 word \<Rightarrow> 64 word \<Rightarrow> 64 word" where
  "array_read pk w arr i =
     (if sint i < sint (pk w (arr + 16) AND 0xffffffff) then pk w (pk w (arr + 8) + i * 8) else 0)"

definition s_local :: "'w calls \<Rightarrow> ('w \<Rightarrow> 64 word \<Rightarrow> 64 word) \<Rightarrow> 64 word \<Rightarrow> int \<Rightarrow> SnSymbol \<Rightarrow> 'w sem" where
  "s_local fn pk ctx i s a w =
     (if i \<ge> 0 then Some (array_read pk w (locals_of pk ctx w) (word_of_int i), w)
      else fn F_snow_get_unspecified_local_from_context [s, ctx] w)"

definition s_assign :: "'w calls \<Rightarrow> ('w \<Rightarrow> 64 word \<Rightarrow> 64 word) \<Rightarrow> 64 word \<Rightarrow> int \<Rightarrow> SnSymbol \<Rightarrow> 'w sem \<Rightarrow> 'w sem" where
  "s_assign fn pk ctx i s F = s_then F (\<lambda>v. s_then
     (\<lambda>a w. if i \<ge> 0 then fn F_snow_array_set [locals_of pk ctx w, word_of_int i, v] w
            else fn F_snow_set_global_from_context [s, v, ctx] w)
     (\<lambda>r a. fn F_snow_set_object_assigned [r, s, 0]))"

definition s_member :: "'w calls \<Rightarrow> SnSymbol \<Rightarrow> 'w sem \<Rightarrow> 'w sem" where
  "s_member fn s F = s_then F (\<lambda>v a. fn F_snow_get_member_with_fallback [v, s])"

definition s_member_assign :: "'w calls \<Rightarrow> SnSymbol \<Rightarrow> 'w sem \<Rightarrow> 'w sem \<Rightarrow> 'w sem" where
  "s_member_assign fn s F G = s_then F (\<lambda>self. s_then G (\<lambda>v. s_then
     (\<lambda>a. fn F_snow_set_member [self, s, v]) (\<lambda>r a. fn F_snow_set_object_assigned [r, s, self])))"

definition s_if :: "'w sem \<Rightarrow> 'w sem option \<Rightarrow> 'w sem option \<Rightarrow> 'w sem" where
  "s_if C F G = s_then C (\<lambda>v a. s_option (if snow_eval_truth v then F else G) (truth_word v))"

partial_function (option) s_loop :: "'w sem \<Rightarrow> 'w sem \<Rightarrow> 'w sem" where
  "s_loop C F a w = Option.bind (C a w) (\<lambda>(v, w).
     if snow_eval_truth v then Option.bind (F (truth_word v) w) (\<lambda>(v, w). s_loop C F v w) else Some (0, w))"

lemma s_loop_induct [consumes 1, case_names stop go]:
  assumes "s_loop C F a w = Some r"
    and "\<And>a w v w1. C a w = Some (v, w1) \<Longrightarrow> \<not> snow_eval_truth v \<Longrightarrow> P a w (0, w1)"
    and "\<And>a w v w1 x w2 r. C a w = Some (v, w1) \<Longrightarrow> snow_eval_truth v \<Longrightarrow> F (truth_word v) w1 = Some (x, w2) \<Longrightarrow>
      P x w2 r \<Longrightarrow> P a w r"
  shows "P a w r"
proof -
  have "C' = C \<longrightarrow> F' = F \<longrightarrow> P a w r" if "s_loop C' F' a w = Some r" for C' F' a w r
  proof (rule s_loop.raw_induct [OF _ that], intro impI)
    fix loop and C' F' :: "'a sem" and a w r
    assume IH: "\<And>C' F' a w r. loop C' F' a w = Some r \<Longrightarrow> C' = C \<longrightarrow> F' = F \<longrightarrow> P a w r"
      and eq: "Option.bind (C' a w) (\<lambda>(v, w). if snow_eval_truth v
        then Option.bind (F' (truth_word v) w) (\<lambda>(v, w). loop C' F' v w) else Some (0, w)) = Some r" "C' = C" "F' = F"
    then obtain v w1 where v: "C a w = Some (v, w1)" by (cases "C a w") auto
    show "P a w r"
    proof (cases "snow_eval_truth v")
      case True
      with eq v have b: "Option.bind (F (truth_word v) w1) (\<lambda>(v, w). loop C F v w) = Some r" by simp
      then obtain x w2 where x: "F (truth_word v) w1 = Some (x, w2)" by (cases "F (truth_word v) w1") auto
      with b have "loop C F x w2 = Some r" by simp
      with IH have "P x w2 r" by blast
      with v True x show ?thesis by (rule assms(3))
    next
      case False
      with eq v have "r = (0, w1)" by simp
      with v False assms(2) show ?thesis by simp
    qed
  qed
  with assms(1) show ?thesis by blast
qed

definition s_and_or :: "bool \<Rightarrow> 'w sem \<Rightarrow> 'w sem \<Rightarrow> 'w sem" where
  "s_and_or b F G = s_then F (\<lambda>v. if snow_eval_truth v = b then G else s_value v)"

text \<open>Two operands with the same truth word are false together; two others that are true are not.\<close>

definition s_xor :: "'w sem \<Rightarrow> 'w sem \<Rightarrow> 'w sem" where
  "s_xor F G = s_then F (\<lambda>l. s_then G (\<lambda>r. s_value (
     if truth_word l = truth_word r then SN_FALSE else if truth_word l \<noteq> 0 then l else r)))"

definition s_not :: "'w sem \<Rightarrow> 'w sem" where
  "s_not F = s_then F (\<lambda>v. s_value (if snow_eval_truth v then SN_FALSE else SN_TRUE))"

definition s_arg :: "'w calls \<Rightarrow> 64 word \<Rightarrow> SnSymbol option \<times> 'w sem \<Rightarrow> 'w sem" where
  "s_arg fn args x = s_then (snd x) (\<lambda>v a. case fst x of
     None \<Rightarrow> fn F_snow_arguments_push [args, v] | Some s \<Rightarrow> fn F_snow_arguments_push_named [args, s, v])"

definition s_args :: "'w calls \<Rightarrow> (SnSymbol option \<times> 'w sem) list option \<Rightarrow> 'w sem" where
  "s_args fn xs = (case xs of None \<Rightarrow> s_value 0
   | Some xs \<Rightarrow> s_then (\<lambda>a. fn F_snow_create_arguments_with_size [of_nat (length xs)])
       (\<lambda>args. s_then (s_seq (map (s_arg fn args) xs)) (\<lambda>_. s_value args)))"

definition s_apply :: "'w calls \<Rightarrow> 64 word \<Rightarrow> 64 word \<Rightarrow> (SnSymbol option \<times> 'w sem) list option \<Rightarrow> 'w sem" where
  "s_apply fn self f xs = s_then (s_args fn xs) (\<lambda>args a. fn F_snow_call_with_args [self, f, args])"

definition s_call :: "'w calls \<Rightarrow> 'w sem \<Rightarrow> (SnSymbol option \<times> 'w sem) list option \<Rightarrow> 'w sem" where
  "s_call fn F xs = s_then (\<lambda>a. F 0) (\<lambda>f. s_apply fn 0 f xs)"

definition s_method_call :: "'w calls \<Rightarrow> SnSymbol \<Rightarrow> 'w sem \<Rightarrow> (SnSymbol option \<times> 'w sem) list option \<Rightarrow> 'w sem" where
  "s_method_call fn s F xs = s_then F (\<lambda>self. s_then (\<lambda>a. fn F_snow_get_member_for_method_call [self, s])
     (\<lambda>f. s_apply fn self f xs))"

primrec eval :: "'w calls \<Rightarrow> ('w \<Rightarrow> 64 word \<Rightarrow> 64 word) \<Rightarrow> 64 word \<Rightarrow> (SnSymbol \<Rightarrow> int) \<Rightarrow> expr \<Rightarrow> 'w sem" where
  "eval fn pk ctx lk (Lit v) = s_value v"
| "eval fn pk ctx lk Self = (\<lambda>a w. Some (pk w (ctx + 24), w))"
| "eval fn pk ctx lk Here = s_value ctx"
| "eval fn pk ctx lk (Local s) = s_local fn pk ctx (lk s) s"
| "eval fn pk ctx lk (Assign s e) = s_assign fn pk ctx (lk s) s (eval fn pk ctx lk e)"
| "eval fn pk ctx lk (Member e s) = s_member fn s (eval fn pk ctx lk e)"
| "eval fn pk ctx lk (MemberAssign e s v) = s_member_assign fn s (eval fn pk ctx lk e) (eval fn pk ctx lk v)"
| "eval fn pk ctx lk (Seq es) = s_seq (map (eval fn pk ctx lk) es)"
| "eval fn pk ctx lk (If c b e) = s_if (eval fn pk ctx lk c) (map_option (eval fn pk ctx lk) b) (map_option (eval fn pk ctx lk) e)"
| "eval fn pk ctx lk (Loop c b) = s_loop (eval fn pk ctx lk c) (eval fn pk ctx lk b)"
| "eval fn pk ctx lk (And l r) = s_and_or True (eval fn pk ctx lk l) (eval fn pk ctx lk r)"
| "eval fn pk ctx lk (Or l r) = s_and_or False (eval fn pk ctx lk l) (eval fn pk ctx lk r)"
| "eval fn pk ctx lk (Xor l r) = s_xor (eval fn pk ctx lk l) (eval fn pk ctx lk r)"
| "eval fn pk ctx lk (Not e) = s_not (eval fn pk ctx lk e)"
| "eval fn pk ctx lk (Call f args) = s_call fn (eval fn pk ctx lk f) (map_option (map (map_prod id (eval fn pk ctx lk))) args)"
| "eval fn pk ctx lk (MethodCall e s args) =
     s_method_call fn s (eval fn pk ctx lk e) (map_option (map (map_prod id (eval fn pk ctx lk))) args)"

end
