(* ===== verification/CodeRun.thy ===== *)
theory CodeRun
  imports CodeSpec
begin

text \<open>
  The code of an expression computes its value: run from any place in memory with the context in
  \<open>R13\<close>, it comes to its end with the value in \<open>RAX\<close>, the world changed as the expression
  changes it, and the temporaries in use by the code around it as they were.
\<close>

unbundle bit_operations_syntax

subsection \<open>Code that runs through\<close>

definition goes :: "'w runtime \<Rightarrow> ins list \<Rightarrow> 'w mstate \<Rightarrow> 'w mstate \<Rightarrow> bool" where
  "goes rt cs s t \<longleftrightarrow> (\<forall>pre post. runs rt (pre @ bytes cs @ post) (int (length pre), s) (int (length pre + length (bytes cs)), t))"

lemma goes_block: "exec_block rt cs s = Some t \<Longrightarrow> list_all is_ins cs \<Longrightarrow> goes rt cs s t"
  unfolding goes_def using run_block by blast

lemma goes_blockI:
  assumes "exec_block rt cs s = Some u" "list_all is_ins cs"
    "regs u = regs t" "flags u = flags t" "frame u = frame t" "mworld u = mworld t"
  shows "goes rt cs s t"
proof -
  have "u = t" using assms by (intro mstate.equality) simp_all
  with goes_block assms show ?thesis by blast
qed

lemma goes_nil: "goes rt [] s s"
  by (rule goes_block) simp_all

lemma goes_append: "goes rt cs s t \<Longrightarrow> goes rt ds t u \<Longrightarrow> goes rt (cs @ ds) s u"
  unfolding goes_def
proof (intro allI)
  fix pre post
  assume c: "\<forall>pre post. runs rt (pre @ bytes cs @ post) (int (length pre), s) (int (length pre + length (bytes cs)), t)"
    and d: "\<forall>pre post. runs rt (pre @ bytes ds @ post) (int (length pre), t) (int (length pre + length (bytes ds)), u)"
  from c [rule_format, of pre "bytes ds @ post"] d [rule_format, of "pre @ bytes cs" post]
  show "runs rt (pre @ bytes (cs @ ds) @ post) (int (length pre), s) (int (length pre + length (bytes (cs @ ds))), u)"
    by (auto intro: runs_trans simp: add.assoc)
qed

text \<open>The bound below which code and the numbers of temporaries stay.\<close>

definition small :: "nat \<Rightarrow> bool" where
  "small n \<longleftrightarrow> n < 2 ^ 28"

lemma dist_small: "small n \<Longrightarrow> length (bytes cs) \<le> n \<Longrightarrow> - (2 ^ 31) \<le> dist cs \<and> dist cs < 2 ^ 31"
  by (simp add: small_def dist_def)

lemma goes_jcc:
  assumes "holds (cond_code cc) (flags s) = Some False" "- (2 ^ 31) \<le> d" "d < 2 ^ 31"
  shows "goes rt [I_jcc cc d] s s"
  unfolding goes_def using run_jcc [OF refl assms(2,3,1)] by (simp add: enc_def)

lemma goes_skip_if:
  assumes "holds (cond_code cc) (flags s) = Some b" "small (length (bytes cs))" "b \<or> goes rt cs s t" "b \<Longrightarrow> t = s"
  shows "goes rt (skip_if cc cs) s t"
proof (cases b)
  case True
  have "runs rt (pre @ bytes (skip_if cc cs) @ post) (int (length pre), s) (int (length pre + length (bytes (skip_if cc cs))), s)" for pre post
    using run_jcc [of "pre @ bytes (skip_if cc cs) @ post" pre cc "dist cs" "bytes cs @ post" s True rt]
      dist_small [OF assms(2), of cs] assms(1) True by (simp add: skip_if_def dist_def enc_def add.assoc)
  then show ?thesis using assms(4) True by (simp add: goes_def)
next
  case False
  then have "goes rt [I_jcc cc (dist cs)] s s"
    using dist_small [OF assms(2) order_refl] assms(1) by (intro goes_jcc) simp_all
  moreover have "goes rt cs s t" using assms(3) False by simp
  ultimately show ?thesis using goes_append by (fastforce simp: skip_if_def)
qed

lemma goes_jmp: "small (length (bytes cs)) \<Longrightarrow> goes rt (I_jmp (dist cs) # cs) s s"
  using dist_small [of "length (bytes cs)" cs] unfolding goes_def
proof (intro allI)
  fix pre post
  assume d: "small (length (bytes cs))" "small (length (bytes cs)) \<Longrightarrow> length (bytes cs) \<le> length (bytes cs) \<Longrightarrow> - (2 ^ 31) \<le> dist cs \<and> dist cs < 2 ^ 31"
  show "runs rt (pre @ bytes (I_jmp (dist cs) # cs) @ post) (int (length pre), s) (int (length pre + length (bytes (I_jmp (dist cs) # cs))), s)"
    using run_jmp [of "pre @ bytes (I_jmp (dist cs) # cs) @ post" pre "dist cs" "bytes cs @ post" rt s] d
    by (simp add: dist_def enc_def add.assoc)
qed

text \<open>A jump back to the start of the code.\<close>

lemma goes_back:
  assumes "goes rt cs s t" "d = - (dist cs + 5)" "small (length (bytes cs))" "goes rt (cs @ [I_jmp d]) t u"
  shows "goes rt (cs @ [I_jmp d]) s u"
  unfolding goes_def
proof (intro allI)
  fix pre post
  let ?code = "pre @ bytes (cs @ [I_jmp d]) @ post"
  have "runs rt ?code (int (length pre), s) (int (length (pre @ bytes cs)), t)"
    using assms(1) [unfolded goes_def, rule_format, of pre "enc (I_jmp d) @ post"] by simp
  moreover have "runs rt ?code (int (length (pre @ bytes cs)), t) (int (length pre), t)"
    using run_jmp [of ?code "pre @ bytes cs" d post rt t] dist_small [OF assms(3), of cs] assms(2,3)
    by (simp add: dist_def small_def)
  moreover have "runs rt ?code (int (length pre), t) (int (length pre + length (bytes (cs @ [I_jmp d]))), u)"
    using assms(4) by (simp add: goes_def)
  ultimately show "runs rt ?code (int (length pre), s) (int (length pre + length (bytes (cs @ [I_jmp d]))), u)"
    using runs_trans by blast
qed

subsection \<open>Instructions\<close>

definition slot :: "nat \<Rightarrow> int" where
  "slot t = sint (word_of_int (- (int t + 1) * 8) :: 32 word)"

lemma slot_small:
  assumes "t < 2 ^ 28"
  shows "slot t = - (int t + 1) * 8"
proof -
  have "slot t = signed_take_bit 31 (- (int t + 1) * 8)"
    unfolding slot_def by (simp only: signed_of_int) simp
  then show ?thesis using assms by (simp add: signed_take_bit_int_eq_self)
qed

lemma slot_inj: "t < 2 ^ 28 \<Longrightarrow> u < 2 ^ 28 \<Longrightarrow> slot t = slot u \<longleftrightarrow> t = u"
  by (simp add: slot_small)

lemmas reg_defs = RAX_def RCX_def RDX_def RBX_def RSI_def RDI_def RBP_def R8_def R9_def R10_def R13_def
  REGISTER_def make_op_def make_opcode_ext_def

lemma meaning_simps [simp]:
  "meaning RAX = Reg 0" "meaning RCX = Reg 1" "meaning RDX = Reg 2" "meaning RBX = Reg 3" "meaning RSI = Reg 6"
  "meaning RDI = Reg 7" "meaning R8 = Reg 8" "meaning R9 = Reg 9" "meaning R10 = Reg 10" "meaning R13 = Reg 13"
  "meaning (ADDRESS R13 d) = Mem 13 (sint d)" "meaning (ADDRESS RDI d) = Mem 7 (sint d)" "meaning (ADDRESS RAX d) = Mem 0 (sint d)"
  "meaning (TMP t) = Mem 5 (slot t)"
  by (simp_all add: meaning_def reg_number_def reg_defs ADDRESS_def make_address_def TMP_def TEMPORARY_def slot_def)

lemma reg_number_simps [simp]:
  "reg_number RAX = 0" "reg_number RCX = 1" "reg_number RDX = 2" "reg_number RBX = 3" "reg_number RSI = 6"
  "reg_number RDI = 7" "reg_number R8 = 8" "reg_number R9 = 9" "reg_number R10 = 10" "reg_number R13 = 13"
  "reg_number (make_opcode_ext 7) = 7"
  by (simp_all add: reg_number_def reg_defs)

lemma rm_simps [simp]:
  "is_reg RAX" "is_reg RCX" "is_reg RDX" "is_reg RBX" "is_reg RSI" "is_reg RDI" "is_reg R8" "is_reg R9" "is_reg R10" "is_reg R13"
  "is_reg (make_opcode_ext k)"
  "is_operand (TMP t)" "encodable (TMP t)" "encodable (ADDRESS RDI d)" "encodable (ADDRESS RAX d)"
  "encodable (ADDRESS R13 d) \<longleftrightarrow> d \<noteq> 0"
  by (simp_all add: is_reg_def is_operand_def encodable_def reg_defs ADDRESS_def make_address_def TMP_def TEMPORARY_def)

lemma is_reg_encodable [simp]: "is_reg r \<Longrightarrow> encodable r"
  by (simp add: is_reg_def encodable_def)

lemma is_ins_simps [simp]:
  "is_ins (mov r rm) \<longleftrightarrow> is_reg r \<and> is_operand rm \<and> encodable rm"
  "is_ins (movr r rm) \<longleftrightarrow> is_reg r \<and> is_operand rm \<and> encodable rm"
  "is_ins (xorr r rm) \<longleftrightarrow> is_reg r \<and> is_operand rm \<and> encodable rm"
  "is_ins (cmpr r rm) \<longleftrightarrow> is_reg r \<and> is_operand rm \<and> encodable rm"
  "is_ins (cmpi i rm) \<longleftrightarrow> is_operand rm \<and> encodable rm"
  "is_ins (I_op 0x21 r rm) \<longleftrightarrow> is_reg r \<and> is_operand rm \<and> encodable rm"
  "is_ins (I_op 0x01 r rm) \<longleftrightarrow> is_reg r \<and> is_operand rm \<and> encodable rm"
  "is_ins (I_op 0x8d r rm) \<longleftrightarrow> is_reg r \<and> is_operand rm \<and> encodable rm"
  "is_ins (I_imm 0x69 r rm i) \<longleftrightarrow> is_reg r \<and> is_operand rm \<and> encodable rm"
  "is_ins (I_mov r v) \<longleftrightarrow> is_reg r" "is_ins (I_call r) \<longleftrightarrow> is_reg r"
  by (simp_all add: is_ins_def mov_def movr_def xorr_def cmpr_def cmpi_def plain_opcodes_def)

text \<open>One instruction.\<close>

lemma exec_simps:
  "exec_ins rt (mov r rm) s = write_op s (meaning rm) (regs s (reg_number r))"
  "exec_ins rt (movr r rm) s = Option.bind (read_op rt s (meaning rm)) (write_op s (Reg (reg_number r)))"
  "exec_ins rt (xorr r rm) s = Option.bind (read_op rt s (meaning rm)) (\<lambda>v. let x = v XOR regs s (reg_number r)
     in map_option (set_flags (logic_flags x)) (write_op s (meaning rm) x))"
  "exec_ins rt (I_op 0x21 r rm) s = Option.bind (read_op rt s (meaning rm)) (\<lambda>v. let x = v AND regs s (reg_number r)
     in map_option (set_flags (logic_flags x)) (write_op s (meaning rm) x))"
  "exec_ins rt (I_op 0x01 r rm) s = Option.bind (read_op rt s (meaning rm)) (\<lambda>v.
     map_option (set_flags None) (write_op s (meaning rm) (v + regs s (reg_number r))))"
  "exec_ins rt (cmpr r rm) s = Option.bind (read_op rt s (meaning rm)) (\<lambda>v. Some (set_flags (cmp_flags v (regs s (reg_number r))) s))"
  "exec_ins rt (cmpi 0 rm) s = Option.bind (read_op rt s (meaning rm)) (\<lambda>v. Some (set_flags (cmp_flags v 0) s))"
  "exec_ins rt (I_op 0x8d r (ADDRESS RDI d)) s = write_op s (Reg (reg_number r)) (regs s 7 + word_of_int (sint d))"
  "exec_ins rt (I_imm 0x69 r rm i) s = Option.bind (read_op rt s (meaning rm)) (\<lambda>v.
     map_option (set_flags None) (write_op s (Reg (reg_number r)) (v * word_of_int (signed_take_bit 31 (sint i)))))"
  "exec_ins rt (I_mov r v) s = Some (s\<lparr>regs := (regs s)(reg_number r := v)\<rparr>)"
  "exec_ins rt (I_call R10) s = map_option (\<lambda>(rs, w). s\<lparr>regs := rs, flags := None, mworld := w\<rparr>) (rt_call rt (regs s 10) (regs s) (mworld s))"
  by (simp_all add: exec_ins_def dec_def exec_op_def exec_imm_def mov_def movr_def xorr_def cmpr_def cmpi_def Let_def read_op_def
    split: option.split)

lemma op_simps:
  "read_op rt s (Reg n) = Some (regs s n)" "read_op rt s (Mem 5 d) = Some (frame s d)"
  "n \<noteq> 5 \<Longrightarrow> read_op rt s (Mem n d) = Some (peek rt (mworld s) (regs s n + word_of_int d))"
  "write_op s (Reg n) v = Some (s\<lparr>regs := (regs s)(n := v)\<rparr>)" "write_op s (Mem 5 d) v = Some (s\<lparr>frame := (frame s)(d := v)\<rparr>)"
  by (simp_all add: read_op_def write_op_def)

lemmas exec = Let_def exec_simps op_simps set_flags_def logic_flags_def cmp_flags_def

subsection \<open>Truth and elements of arrays\<close>

lemma truth_mask: "v AND NOT 6 = 0 \<longleftrightarrow> v \<in> {0, 2, 4, 6 :: 64 word}"
proof
  assume z: "v AND NOT 6 = 0"
  have bits: "bit (6 :: 64 word) n \<longleftrightarrow> n = 1 \<or> n = 2" "bit (4 :: 64 word) n \<longleftrightarrow> n = 2" "bit (2 :: 64 word) n \<longleftrightarrow> n = 1" for n
    by (cases n; cases "n - 1"; auto simp: bit_simps bit_Suc)+
  have "\<not> bit v n" if "n \<noteq> 1" "n \<noteq> 2" "n < 64" for n
  proof -
    have "\<not> bit (v AND NOT 6) n" unfolding z by simp
    with that show ?thesis unfolding bit_and_iff bit_not_iff bits by simp
  qed
  then have v: "\<forall>n < 64. bit v n \<longrightarrow> n = 1 \<or> n = 2" by blast
  have "v = 6" if "bit v 1" "bit v 2" by (rule bit_word_eqI, unfold bits(1)) (use that v in auto)
  moreover have "v = 4" if "\<not> bit v 1" "bit v 2" by (rule bit_word_eqI, unfold bits(2)) (use that v in auto)
  moreover have "v = 2" if "bit v 1" "\<not> bit v 2" by (rule bit_word_eqI, unfold bits(3)) (use that v in auto)
  moreover have "v = 0" if "\<not> bit v 1" "\<not> bit v 2" by (rule bit_word_eqI) (use that v in auto)
  ultimately show "v \<in> {0, 2, 4, 6}" by blast
qed auto

lemma truth_word_truth: "snow_eval_truth v \<longleftrightarrow> truth_word v \<noteq> 0"
  using truth_mask [of v] by (auto simp: truth_word_def snow_eval_truth_def SN_TRUE_def SN_NIL_def SN_FALSE_def)

lemma length_enc: "length (enc i) \<le> 16"
proof -
  have d: "length (disp_bytes rm) \<le> 4" for rm
    by (auto simp: disp_bytes_def split: sum.split RM_MODE.split)
  have x: "length (rex_bytes r) \<le> 1" for r by (simp add: rex_bytes_def)
  have b: "length (rex_bytes r) + length (disp_bytes rm) \<le> 5" for r rm
    using d [of rm] x [of r] by simp
  have i: "length (instr_bytes opc r rm) \<le> 7" for opc r rm
    using b [of "rex_for_operands r rm OR REX_WIDE_OPERAND" rm] by (simp add: instr_bytes_def operand_bytes_def)
  show ?thesis
  proof (cases i)
    case (I_mov r imm)
    then show ?thesis by (simp add: enc_def rex_bytes_def)
  next
    case (I_call r)
    then show ?thesis using b [of "rex_for_rm r" r] by (simp add: enc_def operand_bytes_def)
  next
    case (I_op opc r rm)
    then show ?thesis using i [of opc r rm] by (simp add: enc_def)
  next
    case (I_imm opc r rm imm)
    then show ?thesis using i [of opc r rm] by (simp add: enc_def)
  qed (simp_all add: enc_def)
qed

lemma length_bytes: "length (bytes cs) \<le> 16 * length cs"
proof (induction cs)
  case (Cons i cs)
  then show ?case using length_enc [of i] by simp
qed simp

lemma small_block: "16 * length cs < 2 ^ 28 \<Longrightarrow> small (length (bytes cs))"
  using length_bytes [of cs] by (simp add: small_def)

lemma truth_runs:
  "\<exists>x fl. goes rt g_truth s (s\<lparr>regs := (regs s)(0 := truth_word (regs s 7), 1 := x), flags := fl\<rparr>)"
proof -
  let ?v = "regs s 7" and ?m = "regs s 7 AND NOT 6"
  let ?A = "[mov RDI RAX, I_mov RCX (NOT 6), I_op 0x21 RCX RAX, xorr RCX RCX, cmpr RAX RCX]"
  let ?C = "[xorr RAX RAX]" and ?B = "[mov RDI RAX, I_mov RCX SN_TRUE, cmpr RAX RCX]"
  define s1 where "s1 = s\<lparr>regs := (regs s)(0 := ?m, 1 := 0), flags := cmp_flags 0 ?m\<rparr>"
  define s2 where "s2 = s\<lparr>regs := (regs s)(0 := ?v, 1 := SN_TRUE), flags := cmp_flags SN_TRUE ?v\<rparr>"
  define s3 where "s3 = s\<lparr>regs := (regs s)(0 := 0, 1 := SN_TRUE), flags := logic_flags 0\<rparr>"
  have A: "goes rt ?A s s1" by (rule goes_blockI, simp add: exec) (simp_all add: s1_def fun_eq_iff logic_flags_def cmp_flags_def)
  have B: "goes rt ?B s1 s2" by (rule goes_blockI, simp add: exec) (simp_all add: s1_def s2_def fun_eq_iff logic_flags_def cmp_flags_def)
  have C: "goes rt ?C s2 s3" by (rule goes_blockI, simp add: exec) (simp_all add: s2_def s3_def fun_eq_iff logic_flags_def cmp_flags_def)
  have b: "small (length (bytes ?C))" "small (length (bytes (?B @ skip_if CC_EQUAL ?C)))"
    by (rule small_block; simp add: skip_if_def)+
  show ?thesis
  proof (cases "?m = 0")
    case False
    then have "goes rt (skip_if CC_NOT_EQUAL (?B @ skip_if CC_EQUAL ?C)) s1 s1"
      by (intro goes_skip_if [where b = True] b) (auto simp: s1_def holds_def cmp_flags_def)
    from goes_append [OF A this] show ?thesis using False by (auto simp: g_truth_def s1_def truth_word_def)
  next
    case True
    have "goes rt (skip_if CC_EQUAL ?C) s2 (if ?v = SN_TRUE then s2 else s3)"
      by (intro goes_skip_if [where b = "?v = SN_TRUE"] b) (use C in \<open>auto simp: s2_def holds_def cmp_flags_def\<close>)
    from goes_append [OF B this] have "goes rt (skip_if CC_NOT_EQUAL (?B @ skip_if CC_EQUAL ?C)) s1 (if ?v = SN_TRUE then s2 else s3)"
      using True by (intro goes_skip_if [where b = False] b) (auto simp: s1_def holds_def cmp_flags_def)
    from goes_append [OF A this] show ?thesis using True
      by (cases "?v = SN_TRUE") (auto simp: g_truth_def s2_def s3_def truth_word_def)
  qed
qed

text \<open>What code that neither calls nor stores leaves as it is.\<close>

definition calm :: "'w mstate \<Rightarrow> 'w mstate \<Rightarrow> bool" where
  "calm s t \<longleftrightarrow> regs t 13 = regs s 13 \<and> frame t = frame s \<and> mworld t = mworld s"

lemma truth_calm:
  obtains t where "goes rt g_truth s t" "regs t 0 = truth_word (regs s 7)" "regs t 3 = regs s 3" "calm s t"
  using truth_runs [of rt s] by (auto simp: calm_def)

lemma test_calm:
  obtains t where "goes rt g_test s t" "regs t 0 = truth_word (regs s 0)" "calm s t"
    "holds (cond_code CC_EQUAL) (flags t) = Some (\<not> snow_eval_truth (regs s 0))"
proof -
  have "goes rt [mov RAX RDI] s (s\<lparr>regs := (regs s)(7 := regs s 0)\<rparr>)"
    by (rule goes_block) (simp_all add: exec)
  moreover obtain t where t: "goes rt g_truth (s\<lparr>regs := (regs s)(7 := regs s 0)\<rparr>) t" "regs t 0 = truth_word (regs s 0)" "calm s t"
    using truth_calm [of rt "s\<lparr>regs := (regs s)(7 := regs s 0)\<rparr>"] by (auto simp: calm_def)
  moreover define u where "u = t\<lparr>regs := (regs t)(1 := 0), flags := cmp_flags 0 (regs t 0)\<rparr>"
  moreover have "goes rt [xorr RCX RCX, cmpr RAX RCX] t u"
    by (rule goes_blockI, simp add: exec) (simp_all add: u_def fun_eq_iff cmp_flags_def)
  ultimately have "goes rt g_test s u" unfolding g_test_def by (blast intro: goes_append)
  with t show ?thesis by (intro that [of u]) (auto simp: u_def calm_def holds_def cmp_flags_def truth_word_truth)
qed

lemma array_get_calm:
  obtains t where "goes rt g_array_get s t" "regs t 0 = array_read (peek rt) (mworld s) (regs s 7) (regs s 6)" "calm s t"
proof -
  let ?A = "[I_op 0x8d RDI (ADDRESS RDI 8), xorr RAX RAX, movr R8 (ADDRESS RDI 8), I_mov R9 0x00000000ffffffff,
     I_op 0x21 R9 R8, cmpr R8 RSI]"
  let ?B = "[movr RAX (ADDRESS RDI 0), I_imm 0x69 RSI RSI 8, I_op 0x01 RSI RAX, movr RAX (ADDRESS RAX 0)]"
  let ?arr = "regs s 7" and ?i = "regs s 6" and ?p = "peek rt (mworld s)"
  let ?n = "?p (?arr + 16) AND 0xffffffff"
  obtain t1 where t1: "exec_block rt ?A s = Some t1" "regs t1 7 = ?arr + 8" "regs t1 0 = 0" "regs t1 6 = ?i"
      "flags t1 = cmp_flags ?i ?n" "calm s t1"
    by (simp add: exec calm_def add.assoc)
  then have A: "goes rt ?A s t1" by (intro goes_block) simp_all
  obtain t2 where t2: "exec_block rt ?B t1 = Some t2" "regs t2 0 = ?p (?p (?arr + 8) + ?i * 8)" "calm s t2"
    using t1(2-4,6) by (simp add: exec calm_def)
  then have B: "goes rt ?B t1 t2" by (intro goes_block) simp_all
  define t where "t = (if sint ?i < sint ?n then t2 else t1)"
  have "small (length (bytes ?B))" by (rule small_block) simp
  then have "goes rt (skip_if CC_GREATER_EQUAL ?B) t1 t"
    by (rule goes_skip_if [rotated, where b = "\<not> sint ?i < sint ?n"]) (use B t1(5) in \<open>auto simp: holds_def cmp_flags_def t_def\<close>)
  with A have "goes rt g_array_get s t" unfolding g_array_get_def by (rule goes_append)
  with t1 t2 show ?thesis by (intro that [of t]) (auto simp: t_def array_read_def)
qed

subsection \<open>Calls\<close>

text \<open>
  A call of a runtime function with the first arguments in \<open>RDI\<close>, \<open>RSI\<close> and \<open>RDX\<close> does what
  \<open>fn\<close> says, and keeps the registers that belong to the caller (\<open>RBP\<close>, \<open>R13\<close>).
\<close>

definition runtime_ok :: "'w runtime \<Rightarrow> (c_function \<Rightarrow> 64 word) \<Rightarrow> 'w calls \<Rightarrow> bool" where
  "runtime_ok rt ad fn \<longleftrightarrow> (\<forall>f args w v w' rs. fn f args w = Some (v, w') \<longrightarrow> args = map rs (take (length args) [7, 6, 2]) \<longrightarrow>
     (\<exists>rs'. rt_call rt (ad f) rs w = Some (rs', w') \<and> rs' 0 = v \<and> (\<forall>r \<in> {5, 13}. rs' r = rs r)))"

lemma call_runs:
  assumes "runtime_ok rt ad fn" "fn f args (mworld s) = Some (v, w')" "args = map (regs s) (take (length args) [7, 6, 2])"
  obtains t where "goes rt (g_call ad f) s t" "regs t 0 = v" "regs t 13 = regs s 13" "frame t = frame s" "mworld t = w'"
proof -
  have "args = map ((regs s)(10 := ad f)) (take (length args) [7, 6, 2])"
  proof -
    have "10 \<notin> set (take (length args) [7, 6, 2 :: nat])" by (auto dest: in_set_takeD)
    from map_fun_upd [OF this] assms(3) show ?thesis by metis
  qed
  then obtain rs' where rs': "rt_call rt (ad f) ((regs s)(10 := ad f)) (mworld s) = Some (rs', w')" "rs' 0 = v"
      "rs' 13 = ((regs s)(10 := ad f)) 13"
    using assms(1,2) unfolding runtime_ok_def by (metis insertI1 insertI2)
  have "goes rt (g_call ad f) s (s\<lparr>regs := rs', flags := None, mworld := w'\<rparr>)"
    by (rule goes_blockI, simp add: g_call_def exec rs'(1)) (simp_all add: g_call_def)
  then show ?thesis by (rule that) (use rs' in simp_all)
qed

subsection \<open>Generators\<close>

text \<open>\<open>U\<close> are the temporaries in use.\<close>

definition tmps_ok :: "nat set \<Rightarrow> tmps \<Rightarrow> bool" where
  "tmps_ok U tm \<longleftrightarrow> (case tm of (num, free) \<Rightarrow>
     U \<subseteq> {..<num} \<and> set free \<subseteq> {..<num} \<and> U \<inter> set free = {} \<and> distinct free)"

definition keeps_tmps :: "nat set \<Rightarrow> cgen \<Rightarrow> nat set \<Rightarrow> bool" where
  "keeps_tmps U G V \<longleftrightarrow> (\<forall>tm. tmps_ok U tm \<longrightarrow> fst tm \<le> fst (snd (G tm)) \<and> tmps_ok V (snd (G tm)))"

definition wp :: "'w runtime \<Rightarrow> nat set \<Rightarrow> cgen \<Rightarrow> 'w mstate \<Rightarrow> ('w mstate \<Rightarrow> bool) \<Rightarrow> bool" where
  "wp rt U G s Q \<longleftrightarrow> (\<forall>tm c tm'. G tm = (c, tm') \<longrightarrow> tmps_ok U tm \<longrightarrow> small (fst tm') \<longrightarrow> small (length (bytes c)) \<longrightarrow>
     (\<exists>t. goes rt c s t \<and> Q t))"

lemma keeps_tmpsD:
  "keeps_tmps U G V \<Longrightarrow> tmps_ok U tm \<Longrightarrow> G tm = (c, tm') \<Longrightarrow> fst tm \<le> fst tm' \<and> tmps_ok V tm'"
  unfolding keeps_tmps_def by (metis snd_conv)

lemma small_le: "small n \<Longrightarrow> m \<le> n \<Longrightarrow> small m"
  by (simp add: small_def)

lemma reserve_ok:
  assumes "g_reserve tm = (t, tm')" "tmps_ok U tm"
  shows "t \<notin> U" "tmps_ok (insert t U) tm'" "t < fst tm'"
proof -
  obtain num free where tm: "tm = (num, free)" by (cases tm)
  have "free \<noteq> [] \<Longrightarrow> set free = insert (last free) (set (butlast free)) \<and> (distinct free \<longrightarrow> last free \<notin> set (butlast free))"
    by (cases free rule: rev_cases) auto
  then show "t \<notin> U" "tmps_ok (insert t U) tm'" "t < fst tm'"
    using assms by (auto simp: tm g_reserve_def tmps_ok_def distinct_butlast split: if_splits)
qed

lemma reserve_mono: "g_reserve tm = (t, tm') \<Longrightarrow> fst tm \<le> fst tm'"
  by (cases tm) (auto simp: g_reserve_def split: if_splits)

named_theorems tmps_rules "how generators change the temporaries in use"

lemma keeps_tmps_code [tmps_rules]: "keeps_tmps U (g_code cs) U"
  by (simp add: keeps_tmps_def g_code_def)

lemma keeps_tmps_then [tmps_rules]: "keeps_tmps U X V \<Longrightarrow> keeps_tmps V Y W \<Longrightarrow> keeps_tmps U (g_then X Y) W"
  unfolding keeps_tmps_def by (fastforce simp: g_then_def split: prod.split intro: le_trans)

lemma keeps_tmps_tmp [tmps_rules]:
  assumes "\<And>t. t \<notin> U \<Longrightarrow> keeps_tmps (insert t U) (X t) V"
  shows "keeps_tmps U (g_with_tmp X) V"
  unfolding keeps_tmps_def
proof (intro allI impI)
  fix tm assume tm: "tmps_ok U tm"
  obtain t tm1 where r: "g_reserve tm = (t, tm1)" by (cases "g_reserve tm")
  obtain c tm2 where x: "X t tm1 = (c, tm2)" by (cases "X t tm1")
  note t = reserve_ok [OF r tm]
  from keeps_tmpsD [OF assms [OF t(1)] t(2) x] reserve_mono [OF r]
  show "fst tm \<le> fst (snd (g_with_tmp X tm)) \<and> tmps_ok V (snd (g_with_tmp X tm))"
    by (simp add: g_with_tmp_def r x)
qed

lemma keeps_tmps_release: "t \<in> U \<Longrightarrow> keeps_tmps U (g_release t) (U - {t})"
  by (auto simp: keeps_tmps_def g_release_def g_free_def tmps_ok_def)

lemma tmps_ok_mono: "tmps_ok U tm \<Longrightarrow> W \<subseteq> U \<Longrightarrow> tmps_ok W tm"
  by (auto simp: tmps_ok_def)

lemma keeps_tmps_weaken: "keeps_tmps U G V \<Longrightarrow> W \<subseteq> V \<Longrightarrow> keeps_tmps U G W"
  unfolding keeps_tmps_def using tmps_ok_mono by blast

text \<open>Running what a generator makes.\<close>

lemma wp_conseq: "wp rt U G s P \<Longrightarrow> (\<And>t. P t \<Longrightarrow> Q t) \<Longrightarrow> wp rt U G s Q"
  unfolding wp_def by blast

lemma wp_goes: "goes rt cs s t \<Longrightarrow> Q t \<Longrightarrow> wp rt U (g_code cs) s Q"
  by (auto simp: wp_def g_code_def)

lemma wp_block: "exec_block rt cs s = Some t \<Longrightarrow> list_all is_ins cs \<Longrightarrow> Q t \<Longrightarrow> wp rt U (g_code cs) s Q"
  using goes_block wp_goes by blast

lemma wp_then:
  assumes "keeps_tmps U X V" "keeps_tmps V Y W" "wp rt U X s (\<lambda>t. wp rt V Y t Q)"
  shows "wp rt U (g_then X Y) s Q"
  unfolding wp_def
proof (intro allI impI)
  fix tm c tm' assume c: "g_then X Y tm = (c, tm')" "tmps_ok U tm" "small (fst tm')" "small (length (bytes c))"
  obtain x tm1 y where x: "X tm = (x, tm1)" "Y tm1 = (y, tm')" "c = x @ y"
    using c(1) by (auto simp: g_then_def split: prod.splits)
  have tm1: "tmps_ok V tm1" "fst tm1 \<le> fst tm'"
    using keeps_tmpsD [OF assms(1) c(2) x(1)] keeps_tmpsD [OF assms(2) _ x(2)] by blast+
  have "small (fst tm1)" "small (length (bytes x))" "small (length (bytes y))"
    using c(3,4) tm1(2) by (auto simp: x(3) elim: small_le)
  with assms(3) c x tm1 obtain t u where "goes rt x s t" "goes rt y t u" "Q u"
    unfolding wp_def by meson
  then show "\<exists>t. goes rt c s t \<and> Q t" using x(3) goes_append by blast
qed

lemma wp_tmp:
  assumes "\<And>t. t \<notin> U \<Longrightarrow> keeps_tmps (insert t U) (X t) V"
    "\<And>t. t \<notin> U \<Longrightarrow> \<forall>u \<in> U. slot u \<noteq> slot t \<Longrightarrow> wp rt (insert t U) (X t) s Q"
  shows "wp rt U (g_with_tmp X) s Q"
  unfolding wp_def
proof (intro allI impI)
  fix tm c tm' assume c: "g_with_tmp X tm = (c, tm')" "tmps_ok U tm" "small (fst tm')" "small (length (bytes c))"
  obtain t tm1 where r: "g_reserve tm = (t, tm1)" by (cases "g_reserve tm")
  have x: "X t tm1 = (c, tm')" using c(1) by (simp add: g_with_tmp_def r)
  note t = reserve_ok [OF r c(2)]
  have m: "fst tm1 \<le> fst tm'" using keeps_tmpsD [OF assms(1) [OF t(1)] t(2) x] by simp
  have "u < fst tm1" if "u \<in> insert t U" for u using t(2) that by (auto simp: tmps_ok_def)
  then have "u < 2 ^ 28" if "u \<in> insert t U" for u using that m c(3) by (fastforce simp: small_def)
  then have "\<forall>u \<in> U. slot u \<noteq> slot t" using t(1) slot_inj by (metis insertI1 insertI2)
  from assms(2) [OF t(1) this] show "\<exists>u. goes rt c s u \<and> Q u"
    using x t(2) c(3,4) unfolding wp_def by blast
qed

lemma wp_release: "Q s \<Longrightarrow> wp rt U (g_release t) s Q"
  using goes_nil by (auto simp: wp_def g_release_def)

text \<open>The code of \<open>G\<close> computes \<open>F\<close> in the context \<open>ctx\<close>.\<close>

definition keeps :: "nat set \<Rightarrow> 'w mstate \<Rightarrow> 'w mstate \<Rightarrow> bool" where
  "keeps U s t \<longleftrightarrow> regs t 13 = regs s 13 \<and> (\<forall>u \<in> U. frame t (slot u) = frame s (slot u))"

definition code_for :: "'w runtime \<Rightarrow> 64 word \<Rightarrow> cgen \<Rightarrow> 'w sem \<Rightarrow> bool" where
  "code_for rt ctx G F \<longleftrightarrow> (\<forall>U. keeps_tmps U G U) \<and>
     (\<forall>U s v w'. F (regs s 0) (mworld s) = Some (v, w') \<longrightarrow> regs s 13 = ctx \<longrightarrow>
       wp rt U G s (\<lambda>t. regs t 0 = v \<and> mworld t = w' \<and> keeps U s t))"

lemma code_forI:
  assumes "\<And>U. keeps_tmps U G U"
    "\<And>U s v w'. F (regs s 0) (mworld s) = Some (v, w') \<Longrightarrow> regs s 13 = ctx \<Longrightarrow>
       wp rt U G s (\<lambda>t. regs t 0 = v \<and> mworld t = w' \<and> keeps U s t)"
  shows "code_for rt ctx G F"
  using assms by (simp add: code_for_def)

lemma code_for_tmps: "code_for rt ctx G F \<Longrightarrow> keeps_tmps U G U"
  by (simp add: code_for_def)

lemma wp_code_for:
  assumes "code_for rt ctx G F" "F (regs s 0) (mworld s) = Some (v, w')" "regs s 13 = ctx"
    "\<And>t. regs t 0 = v \<Longrightarrow> mworld t = w' \<Longrightarrow> keeps U s t \<Longrightarrow> Q t"
  shows "wp rt U G s Q"
proof (rule wp_conseq)
  show "wp rt U G s (\<lambda>t. regs t 0 = v \<and> mworld t = w' \<and> keeps U s t)"
    using assms(1-3) by (simp add: code_for_def)
qed (use assms(4) in blast)

lemma code_forD:
  assumes "code_for rt ctx G F" "G tm = (c, tm')" "tmps_ok U tm" "small (fst tm')" "small (length (bytes c))"
    "F (regs s 0) (mworld s) = Some (v, w')" "regs s 13 = ctx"
  obtains t where "goes rt c s t" "regs t 0 = v" "mworld t = w'" "keeps U s t"
  using assms unfolding code_for_def wp_def by metis

lemma kept_trans [trans]: "keeps U s t \<Longrightarrow> keeps U t u \<Longrightarrow> keeps U s u"
  by (simp add: keeps_def)

lemma calm_keeps: "calm s t \<Longrightarrow> keeps U s t"
  by (simp add: keeps_def calm_def)

lemma keeps_mono: "keeps U s t \<Longrightarrow> V \<subseteq> U \<Longrightarrow> keeps V s t"
  by (auto simp: keeps_def)

lemma wp_append:
  assumes "goes rt cs s t" "wp rt U (g_code ds) t Q"
  shows "wp rt U (g_code (cs @ ds)) s Q"
  unfolding wp_def g_code_def
proof (intro allI impI, clarsimp)
  fix num free assume "tmps_ok U (num, free)" "small num" "small (length (bytes cs) + length (bytes ds))"
  then have "\<exists>u. goes rt ds t u \<and> Q u"
    using assms(2) small_le [of "length (bytes cs) + length (bytes ds)" "length (bytes ds)"]
    by (auto simp: wp_def g_code_def)
  then show "\<exists>u. goes rt (cs @ ds) s u \<and> Q u" using goes_append [OF assms(1)] by blast
qed

lemma wp_nil: "Q s \<Longrightarrow> wp rt U (g_code []) s Q"
  by (rule wp_goes [OF goes_nil])

lemma wp_cons_block:
  "exec_block rt cs s = Some t \<Longrightarrow> list_all is_ins cs \<Longrightarrow> wp rt U (g_code ds) t Q \<Longrightarrow> wp rt U (g_code (cs @ ds)) s Q"
  using goes_block wp_append by blast

lemma wp_call:
  assumes "runtime_ok rt ad fn" "fn f args (mworld s) = Some (v, w')" "args = map (regs s) (take (length args) [7, 6, 2])"
    "\<And>t. regs t 0 = v \<Longrightarrow> regs t 13 = regs s 13 \<Longrightarrow> frame t = frame s \<Longrightarrow> mworld t = w' \<Longrightarrow> wp rt U (g_code ds) t Q"
  shows "wp rt U (g_code (g_call ad f @ ds)) s Q"
  using call_runs [OF assms(1-3)] assms(4) wp_append by metis

lemma wp_call_end:
  assumes "runtime_ok rt ad fn" "fn f args (mworld s) = Some (v, w')" "args = map (regs s) (take (length args) [7, 6, 2])"
    "\<And>t. regs t 0 = v \<Longrightarrow> regs t 13 = regs s 13 \<Longrightarrow> frame t = frame s \<Longrightarrow> mworld t = w' \<Longrightarrow> Q t"
  shows "wp rt U (g_code (g_call ad f)) s Q"
  using call_runs [OF assms(1-3)] assms(4) wp_goes by metis

lemma wp_block_call:
  assumes "runtime_ok rt ad fn" "exec_block rt cs s = Some s1" "list_all is_ins cs"
    "fn f args (mworld s1) = Some (v, w')" "args = map (regs s1) (take (length args) [7, 6, 2])"
    "\<And>t. regs t 0 = v \<Longrightarrow> regs t 13 = regs s1 13 \<Longrightarrow> frame t = frame s1 \<Longrightarrow> mworld t = w' \<Longrightarrow> wp rt U (g_code ds) t Q"
  shows "wp rt U (g_code (cs @ g_call ad f @ ds)) s Q"
  by (rule wp_cons_block [OF assms(2,3)], rule wp_call [OF assms(1,4-6)])

lemma wp_block_call_end:
  assumes "runtime_ok rt ad fn" "exec_block rt cs s = Some s1" "list_all is_ins cs"
    "fn f args (mworld s1) = Some (v, w')" "args = map (regs s1) (take (length args) [7, 6, 2])"
    "\<And>t. regs t 0 = v \<Longrightarrow> regs t 13 = regs s1 13 \<Longrightarrow> frame t = frame s1 \<Longrightarrow> mworld t = w' \<Longrightarrow> Q t"
  shows "wp rt U (g_code (cs @ g_call ad f)) s Q"
  by (rule wp_cons_block [OF assms(2,3)], rule wp_call_end [OF assms(1,4-6)])

lemmas s_defs = s_then_def s_value_def bind_eq_Some_conv

subsection \<open>One rule per kind of node\<close>

lemma code_for_lit: "code_for rt ctx (g_code [I_mov RAX v]) (s_value v)"
  by (rule code_forI, rule tmps_rules, rule wp_block) (auto simp: exec s_defs keeps_def)

lemma code_for_self: "code_for rt ctx (g_code [movr RAX (ADDRESS R13 self_offset)]) (\<lambda>a w. Some (peek rt w (ctx + 24), w))"
  by (rule code_forI, rule tmps_rules, rule wp_block) (auto simp: exec self_offset_def keeps_def)

lemma code_for_here: "code_for rt ctx (g_code [mov R13 RAX]) (s_value ctx)"
  by (rule code_forI, rule tmps_rules, rule wp_block) (auto simp: exec s_defs keeps_def)

lemma code_for_local:
  fixes rt :: "'w runtime"
  assumes "runtime_ok rt ad fn"
  shows "code_for rt ctx (g_local ad i s) (s_local fn (peek rt) ctx i s)"
proof (rule code_forI)
  show "keeps_tmps U (g_local ad i s) U" for U unfolding g_local_def by (rule tmps_rules)
  fix U v w' and st :: "'w mstate" assume v: "s_local fn (peek rt) ctx i s (regs st 0) (mworld st) = Some (v, w')" and ctx: "regs st 13 = ctx"
  show "wp rt U (g_local ad i s) st (\<lambda>t. regs t 0 = v \<and> mworld t = w' \<and> keeps U st t)"
  proof (cases "i \<ge> 0")
    case True
    let ?arr = "peek rt (mworld st) (regs st 13 + 40)"
    let ?st = "st\<lparr>regs := (regs st)(7 := ?arr, 6 := word_of_int i)\<rparr>"
    obtain t where t: "goes rt g_array_get ?st t" "calm st t" "regs t 0 = array_read (peek rt) (mworld st) ?arr (word_of_int i)"
      using array_get_calm [of rt ?st] by (auto simp: calm_def)
    have "wp rt U (g_code ([movr RDI (ADDRESS R13 locals_offset), I_mov RSI (word_of_int i)] @ g_array_get)) st
        (\<lambda>t. regs t 0 = v \<and> mworld t = w' \<and> keeps U st t)"
      by (rule wp_cons_block, simp add: exec locals_offset_def, simp add: locals_offset_def, rule wp_goes [OF t(1)])
        (use True v t(2,3) ctx calm_keeps [OF t(2)] in \<open>auto simp: s_local_def calm_def locals_of_def\<close>)
    then show ?thesis using True by (simp add: g_local_def)
  next
    case False
    then have f: "fn F_snow_get_unspecified_local_from_context [s, ctx] (mworld st) = Some (v, w')"
      using v by (simp add: s_local_def)
    have "wp rt U (g_code ([I_mov RDI s, mov R13 RSI] @ g_call ad F_snow_get_unspecified_local_from_context)) st
        (\<lambda>t. regs t 0 = v \<and> mworld t = w' \<and> keeps U st t)"
      by (rule wp_cons_block, simp add: exec, simp, rule wp_call_end [OF assms]) (use f ctx in \<open>auto simp: keeps_def\<close>)
    then show ?thesis using False by (simp add: g_local_def)
  qed
qed

lemma code_for_assign:
  fixes rt :: "'w runtime"
  assumes rt: "runtime_ok rt ad fn" and X: "code_for rt ctx X F"
  shows "code_for rt ctx (g_assign ad i s X) (s_assign fn (peek rt) ctx i s F)"
proof (rule code_forI)
  show "keeps_tmps U (g_assign ad i s X) U" for U unfolding g_assign_def by (rule tmps_rules code_for_tmps [OF X])+
  fix U v w' and st :: "'w mstate"
  assume v: "s_assign fn (peek rt) ctx i s F (regs st 0) (mworld st) = Some (v, w')" and ctx: "regs st 13 = ctx"
  define store where "store = (\<lambda>x w. if i \<ge> 0 then fn F_snow_array_set [locals_of (peek rt) ctx w, word_of_int i, x] w
    else fn F_snow_set_global_from_context [s, x, ctx] w)"
  from v obtain x w1 r w2 where x: "F (regs st 0) (mworld st) = Some (x, w1)" "store x w1 = Some (r, w2)"
      "fn F_snow_set_object_assigned [r, s, 0] w2 = Some (v, w')"
    by (auto simp: s_assign_def s_defs store_def)
  let ?fin = "[mov RAX RDI, I_mov RSI s, xorr RDX RDX] @ g_call ad F_snow_set_object_assigned"
  have rest: "wp rt U (g_code ?fin) t (\<lambda>t. regs t 0 = v \<and> mworld t = w' \<and> keeps U st t)"
    if "regs t 0 = r" "mworld t = w2" "keeps U st t" for t
    by (rule wp_cons_block, simp add: exec, simp, rule wp_call_end [OF rt]) (use that x(3) in \<open>auto simp: keeps_def\<close>)
  show "wp rt U (g_assign ad i s X) st (\<lambda>t. regs t 0 = v \<and> mworld t = w' \<and> keeps U st t)"
    unfolding g_assign_def
  proof (rule wp_then [of U X U], (rule tmps_rules code_for_tmps [OF X])+, rule wp_code_for [where v = x and w' = w1, OF X])
    fix t :: "'w mstate" assume t: "regs t 0 = x" "mworld t = w1" "keeps U st t"
    show "wp rt U (g_code ((if i \<ge> 0
       then [movr RDI (ADDRESS R13 locals_offset), I_mov RSI (word_of_int i), mov RAX RDX] @ g_call ad F_snow_array_set
       else [I_mov RDI s, mov RAX RSI, mov R13 RDX] @ g_call ad F_snow_set_global_from_context) @ ?fin)) t
      (\<lambda>t. regs t 0 = v \<and> mworld t = w' \<and> keeps U st t)"
    proof (cases "i \<ge> 0")
      case True
      have "wp rt U (g_code ([movr RDI (ADDRESS R13 locals_offset), I_mov RSI (word_of_int i), mov RAX RDX] @
          g_call ad F_snow_array_set @ ?fin)) t (\<lambda>t. regs t 0 = v \<and> mworld t = w' \<and> keeps U st t)"
      proof (rule wp_block_call [OF rt])
        let ?s = "t\<lparr>regs := (regs t)(7 := locals_of (peek rt) ctx w1, 6 := word_of_int i, 2 := x)\<rparr>"
        show "fn F_snow_array_set [locals_of (peek rt) ctx w1, word_of_int i, x] (mworld ?s) = Some (r, w2)" using True t x(2) by (simp add: store_def)
        fix u :: "'w mstate" assume "regs u 0 = r" "regs u 13 = regs ?s 13" "frame u = frame ?s" "mworld u = w2"
        then show "wp rt U (g_code ?fin) u (\<lambda>t. regs t 0 = v \<and> mworld t = w' \<and> keeps U st t)"
          by (intro rest) (use t in \<open>simp_all add: keeps_def\<close>)
      qed (use t ctx in \<open>auto simp: exec locals_offset_def locals_of_def keeps_def\<close>)
      then show ?thesis using True by simp
    next
      case False
      have "wp rt U (g_code ([I_mov RDI s, mov RAX RSI, mov R13 RDX] @ g_call ad F_snow_set_global_from_context @ ?fin)) t
          (\<lambda>t. regs t 0 = v \<and> mworld t = w' \<and> keeps U st t)"
      proof (rule wp_block_call [OF rt])
        let ?s = "t\<lparr>regs := (regs t)(7 := s, 6 := x, 2 := ctx)\<rparr>"
        show "fn F_snow_set_global_from_context [s, x, ctx] (mworld ?s) = Some (r, w2)" using False t x(2) by (simp add: store_def)
        fix u :: "'w mstate" assume "regs u 0 = r" "regs u 13 = regs ?s 13" "frame u = frame ?s" "mworld u = w2"
        then show "wp rt U (g_code ?fin) u (\<lambda>t. regs t 0 = v \<and> mworld t = w' \<and> keeps U st t)"
          by (intro rest) (use t in \<open>simp_all add: keeps_def\<close>)
      qed (use t ctx in \<open>auto simp: exec keeps_def\<close>)
      then show ?thesis using False by simp
    qed
  qed (use x(1) ctx in simp_all)
qed

lemma code_for_member:
  fixes rt :: "'w runtime"
  assumes rt: "runtime_ok rt ad fn" and X: "code_for rt ctx X F"
  shows "code_for rt ctx (g_member ad s X) (s_member fn s F)"
proof (rule code_forI)
  show "keeps_tmps U (g_member ad s X) U" for U unfolding g_member_def by (rule tmps_rules code_for_tmps [OF X])+
  fix U v w' and st :: "'w mstate"
  assume v: "s_member fn s F (regs st 0) (mworld st) = Some (v, w')" and ctx: "regs st 13 = ctx"
  then obtain x w1 where x: "F (regs st 0) (mworld st) = Some (x, w1)" "fn F_snow_get_member_with_fallback [x, s] w1 = Some (v, w')"
    by (auto simp: s_member_def s_defs)
  show "wp rt U (g_member ad s X) st (\<lambda>t. regs t 0 = v \<and> mworld t = w' \<and> keeps U st t)"
    unfolding g_member_def
  proof (rule wp_then [of U X U], (rule tmps_rules code_for_tmps [OF X])+, rule wp_code_for [where v = x and w' = w1, OF X])
    fix t :: "'w mstate" assume t: "regs t 0 = x" "mworld t = w1" "keeps U st t"
    show "wp rt U (g_code ([mov RAX RDI, I_mov RSI s] @ g_call ad F_snow_get_member_with_fallback)) t
        (\<lambda>t. regs t 0 = v \<and> mworld t = w' \<and> keeps U st t)"
    proof (rule wp_block_call_end [OF rt])
      show "fn F_snow_get_member_with_fallback [x, s] (mworld (t\<lparr>regs := (regs t)(7 := x, 6 := s)\<rparr>)) = Some (v, w')"
        using t x(2) by simp
    qed (use t in \<open>auto simp: exec keeps_def\<close>)
  qed (use x ctx in simp_all)
qed

lemma code_for_member_assign:
  fixes rt :: "'w runtime"
  assumes rt: "runtime_ok rt ad fn" and X: "code_for rt ctx X F" and Y: "code_for rt ctx Y G"
  shows "code_for rt ctx (g_member_assign ad s X Y) (s_member_assign fn s F G)"
proof (rule code_forI)
  let ?fin = "\<lambda>t. [mov RAX RDX, movr RDI (TMP t), I_mov RSI s] @ g_call ad F_snow_set_member @
     [mov RAX RDI, I_mov RSI s, movr RDX (TMP t)] @ g_call ad F_snow_set_object_assigned"
  let ?body = "\<lambda>t. g_then X (g_then (g_code [mov RAX (TMP t)]) (g_then Y (g_then (g_code (?fin t)) (g_release t))))"
  have rel: "keeps_tmps (insert t U) (g_release t) U" if "t \<notin> U" for t U
    by (rule keeps_tmps_weaken [OF keeps_tmps_release]) (use that in auto)
  note tmps = tmps_rules code_for_tmps [OF X] code_for_tmps [OF Y] rel
  have body: "keeps_tmps (insert t U) (?body t) U" if "t \<notin> U" for t U by (rule tmps that)+
  show "keeps_tmps U (g_member_assign ad s X Y) U" for U
    unfolding g_member_assign_def by (intro keeps_tmps_tmp body)
  fix U v w' and st :: "'w mstate"
  assume v: "s_member_assign fn s F G (regs st 0) (mworld st) = Some (v, w')" and ctx: "regs st 13 = ctx"
  then obtain self w1 x w2 r w3 where x: "F (regs st 0) (mworld st) = Some (self, w1)" "G self w1 = Some (x, w2)"
      "fn F_snow_set_member [self, s, x] w2 = Some (r, w3)" "fn F_snow_set_object_assigned [r, s, self] w3 = Some (v, w')"
    by (auto simp: s_member_assign_def s_defs)
  show "wp rt U (g_member_assign ad s X Y) st (\<lambda>t. regs t 0 = v \<and> mworld t = w' \<and> keeps U st t)"
    unfolding g_member_assign_def
  proof (rule wp_tmp, rule body, assumption)
    fix t assume t: "t \<notin> U" "\<forall>u \<in> U. slot u \<noteq> slot t"
    show "wp rt (insert t U) (?body t) st (\<lambda>t. regs t 0 = v \<and> mworld t = w' \<and> keeps U st t)"
    proof (rule wp_then, (rule tmps t)+, rule wp_code_for [where v = self and w' = w1, OF X])
      fix t1 :: "'w mstate" assume t1: "regs t1 0 = self" "mworld t1 = w1" "keeps (insert t U) st t1"
      define t2 where "t2 = t1\<lparr>frame := (frame t1)(slot t := self)\<rparr>"
      show "wp rt (insert t U) (g_then (g_code [mov RAX (TMP t)]) (g_then Y (g_then (g_code (?fin t)) (g_release t)))) t1
          (\<lambda>t. regs t 0 = v \<and> mworld t = w' \<and> keeps U st t)"
      proof (rule wp_then, (rule tmps t)+, rule wp_block, simp add: exec t1 t2_def [symmetric], simp,
          rule wp_then, (rule tmps t)+, rule wp_code_for [where v = x and w' = w2, OF Y])
        fix t3 :: "'w mstate" assume t3: "regs t3 0 = x" "mworld t3 = w2" "keeps (insert t U) t2 t3"
        show "wp rt (insert t U) (g_then (g_code (?fin t)) (g_release t)) t3 (\<lambda>t. regs t 0 = v \<and> mworld t = w' \<and> keeps U st t)"
        proof (rule wp_then, (rule tmps t)+, rule wp_block_call [OF rt])
          let ?s = "t3\<lparr>regs := (regs t3)(2 := x, 7 := self, 6 := s)\<rparr>"
          show "fn F_snow_set_member [self, s, x] (mworld ?s) = Some (r, w3)" using x(3) t3 by simp
          fix t4 :: "'w mstate" assume t4: "regs t4 0 = r" "regs t4 13 = regs ?s 13" "frame t4 = frame ?s" "mworld t4 = w3"
          show "wp rt (insert t U) (g_code ([mov RAX RDI, I_mov RSI s, movr RDX (TMP t)] @ g_call ad F_snow_set_object_assigned)) t4
              (\<lambda>u. wp rt (insert t U) (g_release t) u (\<lambda>t. regs t 0 = v \<and> mworld t = w' \<and> keeps U st t))"
          proof (rule wp_block_call_end [OF rt])
            show "fn F_snow_set_object_assigned [r, s, self] (mworld (t4\<lparr>regs := (regs t4)(7 := r, 6 := s, 2 := self)\<rparr>)) = Some (v, w')"
              using x(4) t4 by simp
            fix u :: "'w mstate" assume "regs u 0 = v" "regs u 13 = regs (t4\<lparr>regs := (regs t4)(7 := r, 6 := s, 2 := self)\<rparr>) 13"
              "frame u = frame (t4\<lparr>regs := (regs t4)(7 := r, 6 := s, 2 := self)\<rparr>)" "mworld u = w'"
            then show "wp rt (insert t U) (g_release t) u (\<lambda>t. regs t 0 = v \<and> mworld t = w' \<and> keeps U st t)"
              by (intro wp_release) (use t t1 t2_def t3 t4 in \<open>auto simp: keeps_def\<close>)
          qed (use t1 t2_def t3 t4 in \<open>auto simp: exec keeps_def\<close>)
        qed (use t t1 t2_def t3 in \<open>auto simp: exec keeps_def\<close>)
      qed (use t1 t2_def x ctx in \<open>simp_all add: keeps_def\<close>)
    qed (use x ctx in simp_all)
  qed
qed

subsubsection \<open>Sequences and branches\<close>

lemma code_for_seq: "list_all2 (code_for rt ctx) Xs Fs \<Longrightarrow> code_for rt ctx (g_seq Xs) (s_seq Fs)"
proof (induction rule: list_all2_induct)
  case Nil
  show ?case by (rule code_forI) (auto intro: tmps_rules wp_nil simp: keeps_def)
next
  case (Cons X Xs F Fs)
  show ?case
  proof (rule code_forI)
    show k: "keeps_tmps U (g_seq (X # Xs)) U" for U
      using Cons by (auto intro: tmps_rules code_for_tmps)
    fix U v w' and st :: "'a mstate"
    assume v: "s_seq (F # Fs) (regs st 0) (mworld st) = Some (v, w')" and ctx: "regs st 13 = ctx"
    then obtain x w1 where x: "F (regs st 0) (mworld st) = Some (x, w1)" "s_seq Fs x w1 = Some (v, w')"
      by (auto simp: s_defs)
    have "wp rt U (g_then X (g_seq Xs)) st (\<lambda>t. regs t 0 = v \<and> mworld t = w' \<and> keeps U st t)"
    proof (rule wp_then, rule code_for_tmps [OF Cons(1)], rule code_for_tmps [OF Cons(3)], rule wp_code_for [OF Cons(1) x(1) ctx])
      fix t :: "'a mstate" assume t: "regs t 0 = x" "mworld t = w1" "keeps U st t"
      show "wp rt U (g_seq Xs) t (\<lambda>t. regs t 0 = v \<and> mworld t = w' \<and> keeps U st t)"
        by (rule wp_code_for [OF Cons(3)]) (use t x ctx in \<open>auto simp: keeps_def\<close>)
    qed
    then show "wp rt U (g_seq (X # Xs)) st (\<lambda>t. regs t 0 = v \<and> mworld t = w' \<and> keeps U st t)" by simp
  qed
qed

lemma code_for_empty: "code_for rt ctx (g_code []) (\<lambda>a w. Some (a, w))"
  by (rule code_forI, rule tmps_rules, rule wp_nil) (simp add: keeps_def)

lemma code_for_option: "rel_option (code_for rt ctx) X F \<Longrightarrow> code_for rt ctx (g_option X) (s_option F)"
  by (cases X; cases F) (auto simp: g_option_def s_option_def code_for_empty)

lemma goes_over:
  assumes "holds (cond_code cc) (flags s) = Some True" "small (length (bytes cs))" "goes rt ds s t"
  shows "goes rt (skip_if cc cs @ ds) s t"
  using goes_append [OF goes_skip_if [OF assms(1,2)] assms(3)] by blast

lemma goes_into:
  assumes "holds (cond_code cc) (flags s) = Some False" "small (length (bytes cs))" "goes rt (cs @ ds) s t"
  shows "goes rt (skip_if cc cs @ ds) s t"
proof -
  have "goes rt [I_jcc cc (dist cs)] s s"
    using dist_small [OF assms(2) order_refl] assms(1) by (intro goes_jcc) simp_all
  from goes_append [OF this assms(3)] show ?thesis by (simp add: skip_if_def)
qed

lemma keeps_tmpsD3:
  assumes "X tm = (x, tm1)" "Y tm1 = (y, tm2)" "tmps_ok U tm" "keeps_tmps U X U" "keeps_tmps U Y U"
  shows "tmps_ok U tm1" "tmps_ok U tm2" "fst tm \<le> fst tm1" "fst tm1 \<le> fst tm2"
  using keeps_tmpsD [OF assms(4,3,1)] keeps_tmpsD [OF assms(5) _ assms(2)] by blast+

lemma keeps_tmps_if:
  assumes "keeps_tmps U X U" "keeps_tmps U (g_option Y) U" "keeps_tmps U (g_option Z) U"
  shows "keeps_tmps U (g_if X Y Z) U"
proof -
  have "snd (g_if X Y Z tm) = snd (g_then X (g_then (g_option Y) (g_option Z)) tm)" for tm
    by (simp add: g_if_def g_then_def split: prod.split)
  then show ?thesis
    using keeps_tmps_then [OF assms(1) keeps_tmps_then [OF assms(2,3)]] by (simp add: keeps_tmps_def)
qed

lemma code_for_if:
  fixes rt :: "'w runtime"
  assumes X: "code_for rt ctx X C" and Y: "rel_option (code_for rt ctx) Y F" and Z: "rel_option (code_for rt ctx) Z G"
  shows "code_for rt ctx (g_if X Y Z) (s_if C F G)"
proof (rule code_forI)
  note Y' = code_for_option [OF Y] and Z' = code_for_option [OF Z]
  show "keeps_tmps U (g_if X Y Z) U" for U by (intro keeps_tmps_if code_for_tmps [OF X] code_for_tmps [OF Y'] code_for_tmps [OF Z'])
  fix U v w' and st :: "'w mstate"
  assume v: "s_if C F G (regs st 0) (mworld st) = Some (v, w')" and ctx: "regs st 13 = ctx"
  then obtain a w1 where a: "C (regs st 0) (mworld st) = Some (a, w1)"
      "s_option (if snow_eval_truth a then F else G) (truth_word a) w1 = Some (v, w')"
    by (auto simp: s_if_def s_defs)
  show "wp rt U (g_if X Y Z) st (\<lambda>t. regs t 0 = v \<and> mworld t = w' \<and> keeps U st t)"
    unfolding wp_def
  proof (intro allI impI)
    fix tm c tm' assume c: "g_if X Y Z tm = (c, tm')" "tmps_ok U tm" "small (fst tm')" "small (length (bytes c))"
    obtain x tm1 y tm2 z where x: "X tm = (x, tm1)" "g_option Y tm1 = (y, tm2)" "g_option Z tm2 = (z, tm')"
        "c = x @ g_test @ skip_if CC_EQUAL (y @ [I_jmp (dist z)]) @ z"
      using c(1) by (auto simp: g_if_def split: prod.splits)
    note t = keeps_tmpsD3 [OF x(1,2) c(2) code_for_tmps [OF X] code_for_tmps [OF Y']]
      and t' = keeps_tmpsD3 [OF x(2,3) _ code_for_tmps [OF Y'] code_for_tmps [OF Z']]
    have sm: "small (fst tm1)" "small (fst tm2)"
      using small_le [OF c(3)] t(4) t'(4) [OF t(1)] by (auto intro: le_trans)
    have sl: "small (length (bytes x))" "small (length (bytes y))" "small (length (bytes z))" "small (length (bytes (y @ [I_jmp (dist z)])))"
      using c(4) by (auto simp: x(4) skip_if_def elim: small_le)
    obtain s1 where s1: "goes rt x st s1" "regs s1 0 = a" "mworld s1 = w1" "keeps U st s1"
      using code_forD [OF X x(1) c(2) sm(1) sl(1) a(1) ctx] by blast
    obtain s2 where s2: "goes rt g_test s1 s2" "regs s2 0 = truth_word a" "calm s1 s2"
        "holds (cond_code CC_EQUAL) (flags s2) = Some (\<not> snow_eval_truth a)"
      using test_calm [of rt s1] s1(2) by metis
    have c2: "mworld s2 = w1" "regs s2 13 = ctx" using s1 s2(3) ctx by (simp_all add: calm_def keeps_def)
    have "\<exists>t. goes rt (skip_if CC_EQUAL (y @ [I_jmp (dist z)]) @ z) s2 t \<and> regs t 0 = v \<and> mworld t = w' \<and> keeps U s2 t"
    proof (cases "snow_eval_truth a")
      case True
      with a have f: "s_option F (regs s2 0) (mworld s2) = Some (v, w')" by (simp add: s2(2) c2)
      obtain t where t: "goes rt y s2 t" "regs t 0 = v" "mworld t = w'" "keeps U s2 t"
        by (rule code_forD [OF Y' x(2) t(1) sm(2) sl(2) f c2(2)])
      have "goes rt (y @ I_jmp (dist z) # z) s2 t" by (rule goes_append [OF t(1) goes_jmp [OF sl(3)]])
      then show ?thesis using t True s2(4) sl(4) by (intro exI [of _ t]) (auto intro!: goes_into)
    next
      case False
      with a have f: "s_option G (regs s2 0) (mworld s2) = Some (v, w')" by (simp add: s2(2) c2)
      obtain t where t: "goes rt z s2 t" "regs t 0 = v" "mworld t = w'" "keeps U s2 t"
        by (rule code_forD [OF Z' x(3) t(2) c(3) sl(3) f c2(2)])
      then show ?thesis using False s2(4) sl(4) by (intro exI [of _ t]) (auto intro!: goes_over)
    qed
    then obtain t where t: "goes rt (skip_if CC_EQUAL (y @ [I_jmp (dist z)]) @ z) s2 t" "regs t 0 = v" "mworld t = w'" "keeps U s2 t"
      by blast
    have "goes rt c st t" unfolding x(4) by (intro goes_append [OF s1(1)] goes_append [OF s2(1)] t(1))
    with t s1(4) calm_keeps [OF s2(3)] kept_trans show "\<exists>t. goes rt c st t \<and> regs t 0 = v \<and> mworld t = w' \<and> keeps U st t" by metis
  qed
qed

lemma keeps_tmps_loop:
  assumes "keeps_tmps U X U" "keeps_tmps U Y U"
  shows "keeps_tmps U (g_loop X Y) U"
proof -
  have "snd (g_loop X Y tm) = snd (g_then X Y tm)" for tm
    by (simp add: g_loop_def g_then_def split: prod.split)
  then show ?thesis using keeps_tmps_then [OF assms] by (simp add: keeps_tmps_def)
qed

lemma code_for_loop:
  fixes rt :: "'w runtime"
  assumes X: "code_for rt ctx X C" and Y: "code_for rt ctx Y F"
  shows "code_for rt ctx (g_loop X Y) (s_loop C F)"
proof (rule code_forI)
  show "keeps_tmps U (g_loop X Y) U" for U by (intro keeps_tmps_loop code_for_tmps [OF X] code_for_tmps [OF Y])
  fix U v w' and st :: "'w mstate"
  assume v: "s_loop C F (regs st 0) (mworld st) = Some (v, w')" and ctx: "regs st 13 = ctx"
  show "wp rt U (g_loop X Y) st (\<lambda>t. regs t 0 = v \<and> mworld t = w' \<and> keeps U st t)"
    unfolding wp_def
  proof (intro allI impI)
    fix tm c tm' assume c: "g_loop X Y tm = (c, tm')" "tmps_ok U tm" "small (fst tm')" "small (length (bytes c))"
    obtain x tm1 y where x: "X tm = (x, tm1)" "Y tm1 = (y, tm')"
        "c = x @ g_test @ skip_if CC_EQUAL (y @ [I_jmp (- (dist x + dist g_test + 6 + dist y + 5))])"
      using c(1) by (auto simp: g_loop_def split: prod.splits)
    define d where "d = - (dist x + dist g_test + 6 + dist y + 5)"
    note t = keeps_tmpsD3 [OF x(1,2) c(2) code_for_tmps [OF X] code_for_tmps [OF Y]]
    have sm: "small (fst tm1)" using small_le [OF c(3)] t(4) by simp
    define cs where "cs = x @ g_test @ [I_jcc CC_EQUAL (dist (y @ [I_jmp d]))] @ y"
    have cc: "c = cs @ [I_jmp d]" by (simp add: x(3) cs_def d_def skip_if_def)
    have d: "d = - (dist cs + 5)" by (simp add: d_def cs_def dist_def enc_def)
    have sl: "small (length (bytes x))" "small (length (bytes y))" "small (length (bytes (y @ [I_jmp d])))" "small (length (bytes cs))"
      using c(4) unfolding cc cs_def by (auto elim: small_le)
    have cond: "\<exists>t. goes rt (x @ g_test) s t \<and> regs t 0 = truth_word b \<and> mworld t = w1 \<and> keeps U s t \<and>
        holds (cond_code CC_EQUAL) (flags t) = Some (\<not> snow_eval_truth b)"
      if s: "regs s 0 = a" "mworld s = w" "regs s 13 = ctx" and b: "C a w = Some (b, w1)" for s a w b w1
    proof -
      obtain s1 where s1: "goes rt x s s1" "regs s1 0 = b" "mworld s1 = w1" "keeps U s s1"
        using code_forD [OF X x(1) c(2) sm sl(1), of s b w1] s b by auto
      obtain s2 where s2: "goes rt g_test s1 s2" "regs s2 0 = truth_word b" "calm s1 s2"
          "holds (cond_code CC_EQUAL) (flags s2) = Some (\<not> snow_eval_truth b)"
        using test_calm [of rt s1] s1(2) by metis
      show ?thesis using goes_append [OF s1(1) s2(1)] s1 s2 kept_trans [OF s1(4) calm_keeps [OF s2(3)]]
        by (intro exI [of _ s2]) (simp add: calm_def)
    qed
    have "\<exists>t. goes rt c s t \<and> regs t 0 = fst r \<and> mworld t = snd r \<and> keeps U s t"
      if "s_loop C F a w = Some r" "regs s 0 = a" "mworld s = w" "regs s 13 = ctx" for a w r s
      using that
    proof (induction arbitrary: s rule: s_loop_induct)
      case (stop a w v w1)
      obtain s1 where s1: "goes rt (x @ g_test) s s1" "regs s1 0 = truth_word v" "mworld s1 = w1" "keeps U s s1"
          "holds (cond_code CC_EQUAL) (flags s1) = Some (\<not> snow_eval_truth v)"
        using cond [OF stop(3-5) stop(1)] by blast
      have "goes rt (skip_if CC_EQUAL (y @ [I_jmp d]) @ []) s1 s1"
        by (rule goes_over) (use s1 stop sl goes_nil in simp_all)
      from goes_append [OF s1(1) this] have "goes rt c s s1" by (simp add: x(3) d_def)
      with s1 stop show ?case by (intro exI [of _ s1]) (simp add: truth_word_truth)
    next
      case (go a w v w1 b w2 r)
      obtain s1 where s1: "goes rt (x @ g_test) s s1" "regs s1 0 = truth_word v" "mworld s1 = w1" "keeps U s s1"
          "holds (cond_code CC_EQUAL) (flags s1) = Some (\<not> snow_eval_truth v)"
        using cond [OF go(5-7) go(1)] by blast
      have k: "regs s1 13 = ctx" using s1(4) go(7) by (simp add: keeps_def)
      obtain s2 where s2: "goes rt y s1 s2" "regs s2 0 = b" "mworld s2 = w2" "keeps U s1 s2"
        by (rule code_forD [OF Y x(2) t(1) c(3) sl(2), of s1 b w2]) (use go(3) s1 k in simp_all)
      have "goes rt ([I_jcc CC_EQUAL (dist (y @ [I_jmp d]))] @ y) s1 s2"
        by (intro goes_append [OF goes_jcc s2(1)]) (use s1(5) go(2) dist_small [OF sl(3) order_refl] in simp_all)
      from goes_append [OF s1(1) this] have cs: "goes rt cs s s2" by (simp add: cs_def)
      obtain t where t: "goes rt c s2 t" "regs t 0 = fst r" "mworld t = snd r" "keeps U s2 t"
        using go(4) [of s2] s2 k by (auto simp: keeps_def)
      have "goes rt c s t" using goes_back [OF cs d sl(4)] t(1) by (simp add: cc)
      with t kept_trans [OF s1(4) kept_trans [OF s2(4) t(4)]] show ?case by blast
    qed
    from this [OF v refl refl ctx] show "\<exists>t. goes rt c st t \<and> regs t 0 = v \<and> mworld t = w' \<and> keeps U st t" by simp
  qed
qed

subsubsection \<open>Logic\<close>

lemma code_for_not:
  fixes rt :: "'w runtime"
  assumes X: "code_for rt ctx X F"
  shows "code_for rt ctx (g_not X) (s_not F)"
proof (rule code_forI)
  let ?no = "[I_mov RAX SN_FALSE, I_jmp (dist [I_mov RAX SN_TRUE])]" and ?yes = "[I_mov RAX SN_TRUE]"
  show "keeps_tmps U (g_not X) U" for U unfolding g_not_def by (rule tmps_rules code_for_tmps [OF X])+
  fix U v w' and st :: "'w mstate"
  assume v: "s_not F (regs st 0) (mworld st) = Some (v, w')" and ctx: "regs st 13 = ctx"
  then obtain a where a: "F (regs st 0) (mworld st) = Some (a, w')" "v = (if snow_eval_truth a then SN_FALSE else SN_TRUE)"
    by (auto simp: s_not_def s_defs)
  have sm: "small (length (bytes ?no))" "small (length (bytes ?yes))" by (rule small_block; simp)+
  show "wp rt U (g_not X) st (\<lambda>t. regs t 0 = v \<and> mworld t = w' \<and> keeps U st t)"
    unfolding g_not_def
  proof (rule wp_then [of U X U], (rule tmps_rules code_for_tmps [OF X])+, rule wp_code_for [OF X a(1) ctx])
    fix t :: "'w mstate" assume t: "regs t 0 = a" "mworld t = w'" "keeps U st t"
    obtain s2 where s2: "goes rt g_test t s2" "calm t s2" "holds (cond_code CC_EQUAL) (flags s2) = Some (\<not> snow_eval_truth a)"
      using test_calm [of rt t] t(1) by metis
    define s3 where "s3 = s2\<lparr>regs := (regs s2)(0 := v)\<rparr>"
    have "goes rt (skip_if CC_EQUAL ?no @ ?yes) s2 s3"
    proof (cases "snow_eval_truth a")
      case True
      have "goes rt [I_mov RAX SN_FALSE] s2 s3" by (rule goes_block) (use a True in \<open>simp_all add: exec s3_def\<close>)
      from goes_append [OF this goes_jmp [OF sm(2)]] show ?thesis using s2 True sm by (intro goes_into) simp_all
    next
      case False
      have "goes rt ?yes s2 s3" by (rule goes_block) (use a False in \<open>simp_all add: exec s3_def\<close>)
      then show ?thesis using s2 False sm by (intro goes_over) simp_all
    qed
    from goes_append [OF s2(1) this]
    show "wp rt U (g_code (g_test @ skip_if CC_EQUAL ?no @ ?yes)) t (\<lambda>t. regs t 0 = v \<and> mworld t = w' \<and> keeps U st t)"
      by (rule wp_goes) (use t s2 in \<open>simp add: s3_def keeps_def calm_def\<close>)
  qed
qed

text \<open>Code that is jumped over on a condition.\<close>

lemma keeps_tmps_skip: "keeps_tmps U Y V \<Longrightarrow> keeps_tmps U (\<lambda>tm. apfst (skip_if cc) (Y tm)) V"
  by (simp add: keeps_tmps_def)

lemma wp_skip:
  assumes "holds (cond_code cc) (flags s) = Some b" "b \<Longrightarrow> Q s" "\<not> b \<Longrightarrow> wp rt U Y s Q"
  shows "wp rt U (\<lambda>tm. apfst (skip_if cc) (Y tm)) s Q"
  unfolding wp_def
proof (intro allI impI)
  fix tm c tm' assume c: "apfst (skip_if cc) (Y tm) = (c, tm')" "tmps_ok U tm" "small (fst tm')" "small (length (bytes c))"
  obtain y where y: "Y tm = (y, tm')" "c = skip_if cc y" using c(1) by (cases "Y tm") simp
  then have sm: "small (length (bytes y))" using c(4) by (simp add: skip_if_def) (erule small_le, simp)
  show "\<exists>t. goes rt c s t \<and> Q t"
  proof (cases b)
    case True
    with assms(1,2) y sm show ?thesis by (intro exI [of _ s]) (auto intro: goes_skip_if)
  next
    case False
    then obtain t where t: "goes rt y s t" "Q t" using assms(3) y c sm unfolding wp_def by blast
    with False assms(1) y sm show ?thesis by (intro exI [of _ t]) (auto intro: goes_skip_if)
  qed
qed

lemma release_self: "t \<notin> U \<Longrightarrow> keeps_tmps (insert t U) (g_release t) U"
  by (rule keeps_tmps_weaken [OF keeps_tmps_release]) auto

lemma code_for_and_or:
  fixes rt :: "'w runtime"
  assumes X: "code_for rt ctx X F" and Y: "code_for rt ctx Y G" and cc: "cc = (if b then CC_EQUAL else CC_NOT_EQUAL)"
  shows "code_for rt ctx (g_and_or cc X Y) (s_and_or b F G)"
proof (rule code_forI)
  let ?mid = "\<lambda>t. [mov RAX (TMP t), mov RAX RDI] @ g_truth @ [cmpi 0 RAX, movr RAX (TMP t)]"
  let ?right = "\<lambda>tm. apfst (skip_if cc) (Y tm)"
  let ?body = "\<lambda>t. g_then X (g_then (g_code (?mid t)) (g_then (g_release t) ?right))"
  note tmps = tmps_rules code_for_tmps [OF X] code_for_tmps [OF Y] release_self keeps_tmps_skip
  have body: "keeps_tmps (insert t U) (?body t) U" if "t \<notin> U" for t U by (rule tmps that)+
  show "keeps_tmps U (g_and_or cc X Y) U" for U unfolding g_and_or_def by (intro keeps_tmps_tmp body)
  fix U v w' and st :: "'w mstate"
  assume v: "s_and_or b F G (regs st 0) (mworld st) = Some (v, w')" and ctx: "regs st 13 = ctx"
  then obtain a w1 where a: "F (regs st 0) (mworld st) = Some (a, w1)"
      "(if snow_eval_truth a = b then G else s_value a) a w1 = Some (v, w')"
    by (auto simp: s_and_or_def s_then_def bind_eq_Some_conv)
  show "wp rt U (g_and_or cc X Y) st (\<lambda>t. regs t 0 = v \<and> mworld t = w' \<and> keeps U st t)"
    unfolding g_and_or_def
  proof (rule wp_tmp, rule body, assumption)
    fix t assume t: "t \<notin> U" "\<forall>u \<in> U. slot u \<noteq> slot t"
    show "wp rt (insert t U) (?body t) st (\<lambda>t. regs t 0 = v \<and> mworld t = w' \<and> keeps U st t)"
    proof (rule wp_then, (rule tmps t)+, rule wp_code_for [OF X a(1) ctx])
      fix t1 :: "'w mstate" assume t1: "regs t1 0 = a" "mworld t1 = w1" "keeps (insert t U) st t1"
      define t2 where "t2 = t1\<lparr>regs := (regs t1)(7 := a), frame := (frame t1)(slot t := a)\<rparr>"
      obtain t3 where t3: "goes rt g_truth t2 t3" "regs t3 0 = truth_word a" "calm t2 t3"
        using truth_calm [of rt t2] by (auto simp: t2_def)
      define t4 where "t4 = t3\<lparr>regs := (regs t3)(0 := a), flags := cmp_flags (truth_word a) 0\<rparr>"
      have t4: "keeps U st t4" "regs t4 0 = a" "mworld t4 = w1"
        using t1 t3(3) t by (auto simp: t4_def keeps_def calm_def t2_def)
      have h: "holds (cond_code cc) (flags t4) = Some (snow_eval_truth a \<noteq> b)"
        by (auto simp: cc t4_def holds_def cmp_flags_def truth_word_truth)
      have right: "wp rt U ?right t4 (\<lambda>t. regs t 0 = v \<and> mworld t = w' \<and> keeps U st t)"
      proof (rule wp_skip [OF h])
        assume "\<not> snow_eval_truth a \<noteq> b"
        then show "wp rt U Y t4 (\<lambda>t. regs t 0 = v \<and> mworld t = w' \<and> keeps U st t)"
          by (intro wp_code_for [OF Y]) (use a(2) t4 ctx in \<open>auto simp: keeps_def\<close>)
      qed (use a(2) t4 in \<open>auto simp: s_value_def\<close>)
      have "goes rt [mov RAX (TMP t), mov RAX RDI] t1 t2"
        by (rule goes_blockI, simp add: exec) (simp_all add: t2_def t1)
      moreover have "frame t3 (slot t) = a" using t3(3) by (simp add: calm_def t2_def)
      then have "goes rt [cmpi 0 RAX, movr RAX (TMP t)] t3 t4"
        by (intro goes_blockI, simp add: exec) (simp_all add: t4_def t3(2) cmp_flags_def)
      ultimately have "goes rt (?mid t) t1 t4" using t3(1) by (blast intro: goes_append)
      then show "wp rt (insert t U) (g_then (g_code (?mid t)) (g_then (g_release t) ?right)) t1
          (\<lambda>t. regs t 0 = v \<and> mworld t = w' \<and> keeps U st t)"
        by (rule wp_then [rotated 2, OF wp_goes]) ((rule wp_then [OF release_self [OF t(1)]] wp_release right tmps t)+)
    qed
  qed
qed

lemma xor_choose_runs:
  assumes "flags s = cmp_flags r l" "regs s 0 = l" "frame s (slot a) = x" "frame s (slot b) = y"
  obtains t where "goes rt (g_xor_choose a b) s t" "regs t 13 = regs s 13" "frame t = frame s" "mworld t = mworld s"
    "regs t 0 = (if r = l then SN_FALSE else if l \<noteq> 0 then x else y)"
proof -
  let ?fin = "[I_mov RAX SN_FALSE]"
  let ?left = "movr RAX (TMP a) # [I_jmp (dist ?fin)]"
  let ?right = "[movr RAX (TMP b), I_jmp (dist (?left @ ?fin))]"
  let ?in = "[cmpi 0 RAX] @ skip_if CC_NOT_EQUAL ?right @ ?left"
  define s1 where "s1 = s\<lparr>flags := cmp_flags l 0\<rparr>"
  define t where "t = (if r = l then s\<lparr>regs := (regs s)(0 := SN_FALSE)\<rparr>
    else s1\<lparr>regs := (regs s)(0 := if l \<noteq> 0 then x else y)\<rparr>)"
  have sm: "small (length (bytes ?in))" "small (length (bytes ?right))" "small (length (bytes ?fin))" "small (length (bytes (?left @ ?fin)))"
    by (rule small_block; simp add: skip_if_def)+
  have h: "holds (cond_code CC_EQUAL) (flags s) = Some (r = l)" "holds (cond_code CC_NOT_EQUAL) (flags s1) = Some (l \<noteq> 0)"
    by (simp_all add: assms s1_def holds_def cmp_flags_def)
  have "goes rt (skip_if CC_EQUAL ?in @ ?fin) s t"
  proof (cases "r = l")
    case True
    have "goes rt ?fin s t" by (rule goes_block) (simp_all add: exec t_def True)
    then show ?thesis using h(1) True sm(1) by (intro goes_over) simp_all
  next
    case False
    have A: "goes rt [cmpi 0 RAX] s s1" by (rule goes_block) (simp_all add: exec s1_def assms)
    have "goes rt (skip_if CC_NOT_EQUAL ?right @ ?left @ ?fin) s1 t"
    proof (cases "l = 0")
      case True
      have "goes rt [movr RAX (TMP b)] s1 t" by (rule goes_block) (use False True in \<open>simp_all add: exec t_def s1_def assms\<close>)
      from goes_append [OF this goes_jmp [OF sm(4)]]
      show ?thesis using h(2) True sm(2) by (intro goes_into) simp_all
    next
      case l: False
      have "goes rt [movr RAX (TMP a)] s1 t" by (rule goes_block) (use False l in \<open>simp_all add: exec t_def s1_def assms\<close>)
      from goes_append [OF this goes_jmp [OF sm(3)]]
      show ?thesis using h(2) l sm(2) by (intro goes_over) simp_all
    qed
    from goes_append [OF A this] show ?thesis using h(1) False sm(1) by (intro goes_into) simp_all
  qed
  then show ?thesis by (intro that [of t]) (auto simp: g_xor_choose_def Let_def t_def s1_def)
qed

lemma code_for_xor:
  fixes rt :: "'w runtime"
  assumes X: "code_for rt ctx X F" and Y: "code_for rt ctx Y G"
  shows "code_for rt ctx (g_xor X Y) (s_xor F G)"
proof (rule code_forI)
  let ?fin = "\<lambda>a b. [mov RAX (TMP b), mov RAX RDI] @ g_truth @ [mov RAX RBX, movr RDI (TMP a)] @ g_truth @
    [cmpr RAX RBX] @ g_xor_choose a b"
  let ?body = "\<lambda>a b. g_then X (g_then (g_code [mov RAX (TMP a)]) (g_then Y (g_code (?fin a b))))"
  note tmps = tmps_rules code_for_tmps [OF X] code_for_tmps [OF Y]
  have sub: "U \<subseteq> insert b (insert a U)" "U \<subseteq> insert a U" for U and a b :: nat by blast+
  have body: "keeps_tmps (insert b (insert a U)) (?body a b) U" for a b U
    by (rule keeps_tmps_weaken [OF _ sub(1)]) (rule tmps)+
  have inner: "keeps_tmps (insert a U) (g_with_tmp (?body a)) U" for a U by (intro keeps_tmps_tmp body)
  show "keeps_tmps U (g_xor X Y) U" for U unfolding g_xor_def by (intro keeps_tmps_tmp inner)
  fix U v w' and st :: "'w mstate"
  assume v: "s_xor F G (regs st 0) (mworld st) = Some (v, w')" and ctx: "regs st 13 = ctx"
  then obtain l w1 r where l: "F (regs st 0) (mworld st) = Some (l, w1)" "G l w1 = Some (r, w')"
      "v = (if truth_word l = truth_word r then SN_FALSE else if truth_word l \<noteq> 0 then l else r)"
    by (auto simp: s_xor_def s_defs)
  show "wp rt U (g_xor X Y) st (\<lambda>t. regs t 0 = v \<and> mworld t = w' \<and> keeps U st t)"
    unfolding g_xor_def
  proof (rule wp_tmp, rule inner, rule wp_tmp, rule body)
    fix a b assume ab: "a \<notin> U" "\<forall>u \<in> U. slot u \<noteq> slot a" "b \<notin> insert a U" "\<forall>u \<in> insert a U. slot u \<noteq> slot b"
    let ?V = "insert b (insert a U)"
    show "wp rt ?V (?body a b) st (\<lambda>t. regs t 0 = v \<and> mworld t = w' \<and> keeps U st t)"
    proof (rule wp_then, (rule tmps)+, rule wp_code_for [OF X l(1) ctx])
      fix t1 :: "'w mstate" assume t1: "regs t1 0 = l" "mworld t1 = w1" "keeps ?V st t1"
      define t2 where "t2 = t1\<lparr>frame := (frame t1)(slot a := l)\<rparr>"
      show "wp rt ?V (g_then (g_code [mov RAX (TMP a)]) (g_then Y (g_code (?fin a b)))) t1
          (\<lambda>t. regs t 0 = v \<and> mworld t = w' \<and> keeps U st t)"
      proof (rule wp_then, (rule tmps)+, rule wp_block, simp add: exec t1 t2_def [symmetric], simp,
          rule wp_then, (rule tmps)+, rule wp_code_for [where v = r and w' = w', OF Y])
        fix t3 :: "'w mstate" assume t3: "regs t3 0 = r" "mworld t3 = w'" "keeps ?V t2 t3"
        define t4 where "t4 = t3\<lparr>regs := (regs t3)(7 := r), frame := (frame t3)(slot b := r)\<rparr>"
        obtain t5 where t5: "goes rt g_truth t4 t5" "regs t5 0 = truth_word r" "calm t4 t5"
          using truth_calm [of rt t4] by (auto simp: t4_def)
        have fa: "frame t5 (slot a) = l" "frame t5 (slot b) = r"
          using t5(3) t3(3) ab by (auto simp: calm_def t4_def keeps_def t2_def)
        define t6 where "t6 = t5\<lparr>regs := (regs t5)(3 := truth_word r, 7 := l)\<rparr>"
        obtain t7 where t7: "goes rt g_truth t6 t7" "regs t7 0 = truth_word l" "regs t7 3 = truth_word r" "calm t6 t7"
          using truth_calm [of rt t6] by (auto simp: t6_def)
        define t8 where "t8 = t7\<lparr>flags := cmp_flags (truth_word r) (truth_word l)\<rparr>"
        obtain t where t: "goes rt (g_xor_choose a b) t8 t" "regs t 13 = regs t8 13" "frame t = frame t8" "mworld t = mworld t8"
            "regs t 0 = (if truth_word r = truth_word l then SN_FALSE else if truth_word l \<noteq> 0 then l else r)"
        proof (rule xor_choose_runs [where s = t8])
          show "flags t8 = cmp_flags (truth_word r) (truth_word l)" "regs t8 0 = truth_word l"
            "frame t8 (slot a) = l" "frame t8 (slot b) = r"
            using t7 fa by (simp_all add: t8_def calm_def t6_def)
        qed
        have "goes rt [mov RAX (TMP b), mov RAX RDI] t3 t4"
          by (rule goes_blockI, simp add: exec) (simp_all add: t4_def t3)
        moreover have "goes rt [mov RAX RBX, movr RDI (TMP a)] t5 t6"
          by (rule goes_blockI, simp add: exec) (simp_all add: t6_def t5 fa)
        moreover have "goes rt [cmpr RAX RBX] t7 t8"
          by (rule goes_blockI, simp add: exec) (simp_all add: t8_def t7 cmp_flags_def)
        ultimately have g: "goes rt (?fin a b) t3 t" using t5(1) t7(1) t(1) by (blast intro: goes_append)
        have k: "keeps U st t"
          using t t7(4) t5(3) t3(3) t1(3) ab by (auto simp: keeps_def calm_def t8_def t6_def t4_def t2_def)
        show "wp rt ?V (g_code (?fin a b)) t3 (\<lambda>t. regs t 0 = v \<and> mworld t = w' \<and> keeps U st t)"
          by (rule wp_goes [OF g]) (use k t t7(4) t5(3) t3(2) l(3) in \<open>auto simp: calm_def t8_def t6_def t4_def\<close>)
      qed (use t1 t2_def l ctx in \<open>auto simp: keeps_def\<close>)
    qed
  qed
qed

subsubsection \<open>Calls\<close>

definition arg_for :: "'w runtime \<Rightarrow> 64 word \<Rightarrow> SnSymbol option \<times> cgen \<Rightarrow> SnSymbol option \<times> 'w sem \<Rightarrow> bool" where
  "arg_for rt ctx = rel_prod (=) (code_for rt ctx)"

lemma keeps_tmps_arg: "arg_for rt ctx X F \<Longrightarrow> keeps_tmps U (g_arg ad ta X) U"
proof -
  assume "arg_for rt ctx X F"
  then have "code_for rt ctx (snd X) (snd F)" by (cases X; cases F) (simp add: arg_for_def)
  from keeps_tmps_then [OF code_for_tmps [OF this] keeps_tmps_code] show ?thesis by (simp add: g_arg_def)
qed

lemma keeps_tmps_seq: "\<forall>X \<in> set Xs. keeps_tmps U X U \<Longrightarrow> keeps_tmps U (g_seq Xs) U"
proof (induction Xs)
  case Nil
  show ?case by (simp add: keeps_tmps_code)
next
  case (Cons X Xs)
  from keeps_tmps_then [of U X U "g_seq Xs" U] Cons show ?case by simp
qed

lemma keeps_tmps_args:
  assumes "list_all2 (arg_for rt ctx) Xs Fs"
  shows "keeps_tmps U (g_seq (map (g_arg ad ta) Xs)) U"
proof (rule keeps_tmps_seq)
  have "\<forall>X \<in> set Xs. \<exists>F. arg_for rt ctx X F" using assms by (induction rule: list_all2_induct) auto
  then show "\<forall>X \<in> set (map (g_arg ad ta) Xs). keeps_tmps U X U" using keeps_tmps_arg by fastforce
qed

lemma arg_runs:
  fixes rt :: "'w runtime"
  assumes rt: "runtime_ok rt ad fn" and X: "arg_for rt ctx X F" and ta: "ta \<in> U" "frame st (slot ta) = args"
    and v: "s_arg fn args F (regs st 0) (mworld st) = Some (v, w')" and ctx: "regs st 13 = ctx"
    and Q: "\<And>t. regs t 0 = v \<Longrightarrow> mworld t = w' \<Longrightarrow> keeps U st t \<Longrightarrow> Q t"
  shows "wp rt U (g_arg ad ta X) st Q"
proof -
  obtain n G where F: "F = (n, G)" "code_for rt ctx (snd X) G" "fst X = n"
    using X by (cases F; cases X) (auto simp: arg_for_def)
  obtain a w1 where a: "G (regs st 0) (mworld st) = Some (a, w1)"
      "(case n of None \<Rightarrow> fn F_snow_arguments_push [args, a] | Some s \<Rightarrow> fn F_snow_arguments_push_named [args, s, a]) w1 = Some (v, w')"
    using v by (auto simp: F s_arg_def s_defs)
  let ?code = "case n of None \<Rightarrow> [mov RAX RSI, movr RDI (TMP ta)] @ g_call ad F_snow_arguments_push
    | Some s \<Rightarrow> [I_mov RSI s, mov RAX RDX, movr RDI (TMP ta)] @ g_call ad F_snow_arguments_push_named"
  show ?thesis unfolding g_arg_def F(3)
  proof (rule wp_then, rule code_for_tmps [OF F(2)], rule tmps_rules, rule wp_code_for [OF F(2) a(1) ctx])
    fix t :: "'w mstate" assume t: "regs t 0 = a" "mworld t = w1" "keeps U st t"
    have f: "frame t (slot ta) = args" using t(3) ta by (simp add: keeps_def)
    show "wp rt U (g_code ?code) t Q"
    proof (cases n)
      case None
      have "wp rt U (g_code ([mov RAX RSI, movr RDI (TMP ta)] @ g_call ad F_snow_arguments_push)) t Q"
      proof (rule wp_block_call_end [OF rt])
        let ?s = "t\<lparr>regs := (regs t)(6 := a, 7 := args)\<rparr>"
        show "fn F_snow_arguments_push [args, a] (mworld ?s) = Some (v, w')" using a(2) None t(2) by simp
        fix u :: "'w mstate" assume "regs u 0 = v" "regs u 13 = regs ?s 13" "frame u = frame ?s" "mworld u = w'"
        then show "Q u" by (intro Q) (use t(3) in \<open>auto simp: keeps_def\<close>)
      qed (use t f in \<open>auto simp: exec\<close>)
      then show ?thesis by (simp add: None)
    next
      case (Some s)
      have "wp rt U (g_code ([I_mov RSI s, mov RAX RDX, movr RDI (TMP ta)] @ g_call ad F_snow_arguments_push_named)) t Q"
      proof (rule wp_block_call_end [OF rt])
        let ?s = "t\<lparr>regs := (regs t)(6 := s, 2 := a, 7 := args)\<rparr>"
        show "fn F_snow_arguments_push_named [args, s, a] (mworld ?s) = Some (v, w')" using a(2) Some t(2) by simp
        fix u :: "'w mstate" assume "regs u 0 = v" "regs u 13 = regs ?s 13" "frame u = frame ?s" "mworld u = w'"
        then show "Q u" by (intro Q) (use t(3) in \<open>auto simp: keeps_def\<close>)
      qed (use t f in \<open>auto simp: exec\<close>)
      then show ?thesis by (simp add: Some)
    qed
  qed
qed

lemma args_seq_runs:
  fixes rt :: "'w runtime"
  assumes rt: "runtime_ok rt ad fn" and Xs: "list_all2 (arg_for rt ctx) Xs Fs" and ta: "ta \<in> U"
  shows "frame st (slot ta) = args \<Longrightarrow> s_seq (map (s_arg fn args) Fs) (regs st 0) (mworld st) = Some (v, w') \<Longrightarrow>
    regs st 13 = ctx \<Longrightarrow> wp rt U (g_seq (map (g_arg ad ta) Xs)) st (\<lambda>t. mworld t = w' \<and> keeps U st t)"
  using Xs
proof (induction arbitrary: st rule: list_all2_induct)
  case Nil
  then show ?case by (auto intro!: wp_nil simp: keeps_def)
next
  case (Cons X Xs F Fs)
  then obtain x w1 where x: "s_arg fn args F (regs st 0) (mworld st) = Some (x, w1)"
      "s_seq (map (s_arg fn args) Fs) x w1 = Some (v, w')"
    by (auto simp: s_then_def bind_eq_Some_conv)
  have "wp rt U (g_then (g_arg ad ta X) (g_seq (map (g_arg ad ta) Xs))) st (\<lambda>t. mworld t = w' \<and> keeps U st t)"
  proof (rule wp_then, rule keeps_tmps_arg [OF Cons(1)], rule keeps_tmps_args [OF Cons(2)],
      rule arg_runs [OF rt Cons(1) ta Cons(4) x(1) Cons(6)])
    fix t :: "'w mstate" assume t: "regs t 0 = x" "mworld t = w1" "keeps U st t"
    have "wp rt U (g_seq (map (g_arg ad ta) Xs)) t (\<lambda>u. mworld u = w' \<and> keeps U t u)"
      by (rule Cons(3)) (use t x Cons(4,6) ta in \<open>auto simp: keeps_def\<close>)
    then show "wp rt U (g_seq (map (g_arg ad ta) Xs)) t (\<lambda>u. mworld u = w' \<and> keeps U st u)"
      by (rule wp_conseq) (use t kept_trans in blast)
  qed
  then show ?case by simp
qed

lemma keeps_tmps_args_option:
  assumes "rel_option (list_all2 (arg_for rt ctx)) Xs Fs"
  shows "keeps_tmps U (g_args ad ta Xs) U"
proof (cases Xs)
  case None
  then show ?thesis by (simp add: g_args_def keeps_tmps_code)
next
  case (Some ys)
  then obtain Gs where "list_all2 (arg_for rt ctx) ys Gs" using assms by (cases Fs) auto
  show ?thesis unfolding Some g_args_def option.case
    by (rule keeps_tmps_then keeps_tmps_code keeps_tmps_args | fact)+
qed

lemma args_run:
  fixes rt :: "'w runtime"
  assumes rt: "runtime_ok rt ad fn" and Xs: "rel_option (list_all2 (arg_for rt ctx)) Xs Fs"
    and ta: "ta \<in> U" "\<forall>u \<in> U - {ta}. slot u \<noteq> slot ta"
    and v: "s_args fn Fs (regs st 0) (mworld st) = Some (args, w')" and ctx: "regs st 13 = ctx"
    and Q: "\<And>t. regs t 2 = args \<Longrightarrow> mworld t = w' \<Longrightarrow> keeps (U - {ta}) st t \<Longrightarrow> Q t"
  shows "wp rt U (g_args ad ta Xs) st Q"
proof (cases Xs)
  case None
  then have "Fs = None" using Xs by (cases Fs) auto
  then have a: "args = 0" "w' = mworld st" using v by (auto simp: s_args_def s_value_def)
  show ?thesis unfolding None g_args_def option.case
    by (rule wp_block, simp add: exec, simp, rule Q) (use a ta(2) in \<open>auto simp: keeps_def\<close>)
next
  case (Some ys)
  then obtain Gs where Gs: "Fs = Some Gs" "list_all2 (arg_for rt ctx) ys Gs" using Xs by (cases Fs) auto
  from v obtain w1 x where x: "fn F_snow_create_arguments_with_size [of_nat (length Gs)] (mworld st) = Some (args, w1)"
      "s_seq (map (s_arg fn args) Gs) args w1 = Some (x, w')"
    by (auto simp: Gs(1) s_args_def s_defs)
  have len: "length ys = length Gs" using Gs(2) by (rule list_all2_lengthD)
  note seq = keeps_tmps_args [OF Gs(2)]
  show ?thesis unfolding Some g_args_def option.case
  proof (rule wp_then, rule keeps_tmps_code, rule keeps_tmps_then, rule seq, rule keeps_tmps_code, rule wp_block_call [OF rt])
    let ?s = "st\<lparr>regs := (regs st)(7 := of_nat (length Gs))\<rparr>"
    show "fn F_snow_create_arguments_with_size [of_nat (length Gs)] (mworld ?s) = Some (args, w1)" using x by simp
    fix t :: "'w mstate" assume t: "regs t 0 = args" "regs t 13 = regs ?s 13" "frame t = frame ?s" "mworld t = w1"
    define t1 where "t1 = t\<lparr>frame := (frame t)(slot ta := args)\<rparr>"
    have "wp rt U (g_seq (map (g_arg ad ta) ys)) t1 (\<lambda>u. mworld u = w' \<and> keeps U t1 u)"
      by (rule args_seq_runs [OF rt Gs(2) ta(1)]) (use t x ctx in \<open>auto simp: t1_def\<close>)
    moreover have "wp rt U (g_code [movr RDX (TMP ta)]) u Q" if u: "mworld u = w' \<and> keeps U t1 u" for u :: "'w mstate"
      by (rule wp_block, simp add: exec, simp, rule Q) (use u t ta t1_def in \<open>auto simp: keeps_def\<close>)
    ultimately have "wp rt U (g_then (g_seq (map (g_arg ad ta) ys)) (g_code [movr RDX (TMP ta)])) t1 Q"
      by (intro wp_then [OF seq keeps_tmps_code]) (rule wp_conseq)
    then show "wp rt U (g_code [mov RAX (TMP ta)]) t
        (\<lambda>t. wp rt U (g_then (g_seq (map (g_arg ad ta) ys)) (g_code [movr RDX (TMP ta)])) t Q)"
      by (intro wp_block) (auto simp: exec t1_def t)
  qed (auto simp: exec len)
qed

lemma keeps_tmps_finish:
  assumes "rel_option (list_all2 (arg_for rt ctx)) Xs Fs" "ts \<notin> U" "tf \<notin> insert ts U" "ta \<notin> insert tf (insert ts U)"
  shows "keeps_tmps (insert ta (insert tf (insert ts U))) (g_then (g_release ta) (g_then (g_release ts) (g_release tf))) U"
proof -
  have s: "keeps_tmps (insert tf (insert ts U)) (g_release ts) (insert tf U)"
    by (rule keeps_tmps_weaken [OF keeps_tmps_release]) (use assms in auto)
  show ?thesis by (rule keeps_tmps_then release_self s | use assms in simp)+
qed

lemma finish_runs:
  fixes rt :: "'w runtime"
  assumes rt: "runtime_ok rt ad fn" and Xs: "rel_option (list_all2 (arg_for rt ctx)) Xs Fs"
    and tmp: "ts \<notin> U" "tf \<notin> insert ts U"
    and f: "frame st (slot ts) = self" "frame st (slot tf) = f"
    and v: "s_apply fn self f Fs (regs st 0) (mworld st) = Some (v, w')" and ctx: "regs st 13 = ctx"
  shows "wp rt (insert tf (insert ts U)) (g_finish ad ts tf Xs) st (\<lambda>t. regs t 0 = v \<and> mworld t = w' \<and> keeps U st t)"
proof -
  let ?V = "insert tf (insert ts U)"
  let ?call = "[movr RDI (TMP ts), movr RSI (TMP tf)] @ g_call ad F_snow_call_with_args"
  let ?free = "\<lambda>ta. g_then (g_release ta) (g_then (g_release ts) (g_release tf))"
  let ?body = "\<lambda>ta. g_then (g_args ad ta Xs) (g_then (g_code ?call) (?free ta))"
  note free = keeps_tmps_finish [OF Xs tmp]
  note args = keeps_tmps_args_option [OF Xs]
  have body: "keeps_tmps (insert ta ?V) (?body ta) U" if "ta \<notin> ?V" for ta
    by (rule keeps_tmps_then keeps_tmps_code free args that)+
  obtain args w1 where a: "s_args fn Fs (regs st 0) (mworld st) = Some (args, w1)"
      "fn F_snow_call_with_args [self, f, args] w1 = Some (v, w')"
    using v by (auto simp: s_apply_def s_defs)
  show "wp rt ?V (g_finish ad ts tf Xs) st (\<lambda>t. regs t 0 = v \<and> mworld t = w' \<and> keeps U st t)"
    unfolding g_finish_def
  proof (rule wp_tmp, rule body, assumption)
    fix ta assume ta: "ta \<notin> ?V" "\<forall>u \<in> ?V. slot u \<noteq> slot ta"
    have V: "insert ta ?V - {ta} = ?V" using ta by blast
    show "wp rt (insert ta ?V) (?body ta) st (\<lambda>t. regs t 0 = v \<and> mworld t = w' \<and> keeps U st t)"
    proof (rule wp_then, rule args, (rule keeps_tmps_then keeps_tmps_code free ta)+, rule args_run [OF rt Xs _ _ a(1) ctx])
      fix t :: "'w mstate" assume t: "regs t 2 = args" "mworld t = w1" "keeps (insert ta ?V - {ta}) st t"
      have fr: "frame t (slot ts) = self" "frame t (slot tf) = f" using t(3) f unfolding V by (simp_all add: keeps_def)
      show "wp rt (insert ta ?V) (g_then (g_code ?call) (?free ta)) t (\<lambda>t. regs t 0 = v \<and> mworld t = w' \<and> keeps U st t)"
      proof (rule wp_then, rule keeps_tmps_code, rule free [OF ta(1)], rule wp_block_call_end [OF rt])
        let ?s = "t\<lparr>regs := (regs t)(7 := self, 6 := f)\<rparr>"
        show "fn F_snow_call_with_args [self, f, args] (mworld ?s) = Some (v, w')" using a(2) t by simp
        fix u :: "'w mstate" assume u: "regs u 0 = v" "regs u 13 = regs ?s 13" "frame u = frame ?s" "mworld u = w'"
        have q: "regs u 0 = v \<and> mworld u = w' \<and> keeps U st u" using u t(3) unfolding V by (auto simp: keeps_def)
        have s: "keeps_tmps ?V (g_release ts) (insert tf U)" "keeps_tmps (insert tf U) (g_release tf) U"
          by (rule keeps_tmps_weaken [OF keeps_tmps_release]; use tmp in auto)+
        show "wp rt (insert ta ?V) (?free ta) u (\<lambda>t. regs t 0 = v \<and> mworld t = w' \<and> keeps U st t)"
          by (rule wp_then [OF release_self [OF ta(1)] keeps_tmps_then [OF s]], rule wp_release, rule wp_then [OF s],
              rule wp_release, rule wp_release, rule q)
      qed (use t fr in \<open>auto simp: exec\<close>)
    qed (use ta in auto)
  qed
qed

lemma keeps_tmps_g_finish:
  assumes "rel_option (list_all2 (arg_for rt ctx)) Xs Fs" "ts \<notin> U" "tf \<notin> insert ts U"
  shows "keeps_tmps (insert tf (insert ts U)) (g_finish ad ts tf Xs) U"
  unfolding g_finish_def
proof (rule keeps_tmps_tmp)
  fix ta assume "ta \<notin> insert tf (insert ts U)"
  from keeps_tmps_finish [OF assms this] show "keeps_tmps (insert ta (insert tf (insert ts U))) (g_then (g_args ad ta Xs)
      (g_then (g_code ([movr RDI (TMP ts), movr RSI (TMP tf)] @ g_call ad F_snow_call_with_args))
        (g_then (g_release ta) (g_then (g_release ts) (g_release tf))))) U"
    by (intro keeps_tmps_then [OF keeps_tmps_args_option [OF assms(1)]] keeps_tmps_then [OF keeps_tmps_code])
qed

lemma keeps_tmps_apply:
  assumes "rel_option (list_all2 (arg_for rt ctx)) Xs Fs" "\<And>V ts tf. keeps_tmps V (F ts tf) V"
  shows "keeps_tmps U (g_apply ad F Xs) U"
  unfolding g_apply_def by (intro keeps_tmps_tmp keeps_tmps_then [OF assms(2)] keeps_tmps_g_finish [OF assms(1)])

text \<open>The callee leaves the object and the function in their temporaries.\<close>

lemma apply_runs:
  fixes rt :: "'w runtime"
  assumes rt: "runtime_ok rt ad fn" and Xs: "rel_option (list_all2 (arg_for rt ctx)) Xs Fs"
    and F: "\<And>V ts tf. keeps_tmps V (F ts tf) V"
    and callee: "\<And>ts tf. ts \<notin> U \<Longrightarrow> \<forall>u \<in> U. slot u \<noteq> slot ts \<Longrightarrow> \<forall>u \<in> insert ts U. slot u \<noteq> slot tf \<Longrightarrow>
      wp rt (insert tf (insert ts U)) (F ts tf) st (\<lambda>t. frame t (slot ts) = self \<and> frame t (slot tf) = f \<and>
        regs t 0 = f \<and> mworld t = w1 \<and> keeps U st t)"
    and v: "s_apply fn self f Fs f w1 = Some (v, w')" and ctx: "regs st 13 = ctx"
  shows "wp rt U (g_apply ad F Xs) st (\<lambda>t. regs t 0 = v \<and> mworld t = w' \<and> keeps U st t)"
  unfolding g_apply_def
proof (rule wp_tmp, rule keeps_tmps_tmp, rule keeps_tmps_then [OF F], rule keeps_tmps_g_finish [OF Xs], assumption, assumption,
    rule wp_tmp, rule keeps_tmps_then [OF F], rule keeps_tmps_g_finish [OF Xs], assumption, assumption)
  fix ts tf assume t: "ts \<notin> U" "\<forall>u \<in> U. slot u \<noteq> slot ts" "tf \<notin> insert ts U" "\<forall>u \<in> insert ts U. slot u \<noteq> slot tf"
  let ?V = "insert tf (insert ts U)" and ?Q = "\<lambda>t. regs t 0 = v \<and> mworld t = w' \<and> keeps U st t"
  show "wp rt ?V (g_then (F ts tf) (g_finish ad ts tf Xs)) st ?Q"
  proof (rule wp_then [OF F keeps_tmps_g_finish [OF Xs t(1,3)]], rule wp_conseq [OF callee [OF t(1,2,4)]])
    fix s :: "'w mstate"
    assume s: "frame s (slot ts) = self \<and> frame s (slot tf) = f \<and> regs s 0 = f \<and> mworld s = w1 \<and> keeps U st s"
    have "wp rt ?V (g_finish ad ts tf Xs) s (\<lambda>t. regs t 0 = v \<and> mworld t = w' \<and> keeps U s t)"
      by (rule finish_runs [OF rt Xs t(1,3)]) (use s v ctx in \<open>auto simp: keeps_def\<close>)
    then show "wp rt ?V (g_finish ad ts tf Xs) s ?Q"
      by (rule wp_conseq) (use s kept_trans in blast)
  qed
qed

lemma code_for_call:
  fixes rt :: "'w runtime"
  assumes rt: "runtime_ok rt ad fn" and X: "code_for rt ctx X F" and Xs: "rel_option (list_all2 (arg_for rt ctx)) Xs Fs"
  shows "code_for rt ctx (g_apply ad (g_function X) Xs) (s_call fn F Fs)"
proof (rule code_forI)
  have F: "keeps_tmps V (g_function X ts tf) V" for V ts tf
    unfolding g_function_def by (rule tmps_rules code_for_tmps [OF X])+
  show "keeps_tmps U (g_apply ad (g_function X) Xs) U" for U by (rule keeps_tmps_apply [OF Xs F])
  fix U v w' and st :: "'w mstate"
  assume v: "s_call fn F Fs (regs st 0) (mworld st) = Some (v, w')" and ctx: "regs st 13 = ctx"
  then obtain f w1 where f: "F 0 (mworld st) = Some (f, w1)" "s_apply fn 0 f Fs f w1 = Some (v, w')"
    by (auto simp: s_call_def s_defs)
  show "wp rt U (g_apply ad (g_function X) Xs) st (\<lambda>t. regs t 0 = v \<and> mworld t = w' \<and> keeps U st t)"
  proof (rule apply_runs [OF rt Xs F _ f(2) ctx])
    fix ts tf assume t: "ts \<notin> U" "\<forall>u \<in> U. slot u \<noteq> slot ts" "\<forall>u \<in> insert ts U. slot u \<noteq> slot tf"
    define s1 where "s1 = st\<lparr>regs := (regs st)(0 := 0), flags := logic_flags 0, frame := (frame st)(slot ts := 0)\<rparr>"
    have s1: "goes rt [xorr RAX RAX, mov RAX (TMP ts)] st s1"
      by (rule goes_blockI, simp add: exec) (simp_all add: s1_def logic_flags_def)
    show "wp rt (insert tf (insert ts U)) (g_function X ts tf) st (\<lambda>t. frame t (slot ts) = 0 \<and> frame t (slot tf) = f \<and>
        regs t 0 = f \<and> mworld t = w1 \<and> keeps U st t)"
      unfolding g_function_def
    proof (rule wp_then, (rule tmps_rules code_for_tmps [OF X])+, rule wp_goes [OF s1], rule wp_then,
        (rule tmps_rules code_for_tmps [OF X])+, rule wp_code_for [where v = f and w' = w1, OF X])
      fix s2 :: "'w mstate" assume s2: "regs s2 0 = f" "mworld s2 = w1" "keeps (insert tf (insert ts U)) s1 s2"
      show "wp rt (insert tf (insert ts U)) (g_code [mov RAX (TMP tf)]) s2
          (\<lambda>t. frame t (slot ts) = 0 \<and> frame t (slot tf) = f \<and> regs t 0 = f \<and> mworld t = w1 \<and> keeps U st t)"
        by (rule wp_block, simp add: exec, simp) (use s2 t in \<open>auto simp: keeps_def s1_def\<close>)
    qed (use f ctx in \<open>simp_all add: s1_def\<close>)
  qed
qed

lemma code_for_method_call:
  fixes rt :: "'w runtime"
  assumes rt: "runtime_ok rt ad fn" and X: "code_for rt ctx X F" and Xs: "rel_option (list_all2 (arg_for rt ctx)) Xs Fs"
  shows "code_for rt ctx (g_apply ad (g_method ad s X) Xs) (s_method_call fn s F Fs)"
proof (rule code_forI)
  have F: "keeps_tmps V (g_method ad s X ts tf) V" for V ts tf
    unfolding g_method_def by (rule tmps_rules code_for_tmps [OF X])+
  show "keeps_tmps U (g_apply ad (g_method ad s X) Xs) U" for U by (rule keeps_tmps_apply [OF Xs F])
  fix U v w' and st :: "'w mstate"
  assume v: "s_method_call fn s F Fs (regs st 0) (mworld st) = Some (v, w')" and ctx: "regs st 13 = ctx"
  then obtain self w1 f w2 where f: "F (regs st 0) (mworld st) = Some (self, w1)"
      "fn F_snow_get_member_for_method_call [self, s] w1 = Some (f, w2)" "s_apply fn self f Fs f w2 = Some (v, w')"
    by (auto simp: s_method_call_def s_defs)
  show "wp rt U (g_apply ad (g_method ad s X) Xs) st (\<lambda>t. regs t 0 = v \<and> mworld t = w' \<and> keeps U st t)"
  proof (rule apply_runs [OF rt Xs F _ f(3) ctx])
    fix ts tf assume t: "ts \<notin> U" "\<forall>u \<in> U. slot u \<noteq> slot ts" "\<forall>u \<in> insert ts U. slot u \<noteq> slot tf"
    let ?V = "insert tf (insert ts U)" and ?Q = "\<lambda>t. frame t (slot ts) = self \<and> frame t (slot tf) = f \<and> regs t 0 = f \<and> mworld t = w2 \<and> keeps U st t"
    show "wp rt ?V (g_method ad s X ts tf) st ?Q"
      unfolding g_method_def
    proof (rule wp_then, (rule tmps_rules code_for_tmps [OF X])+, rule wp_code_for [OF X f(1) ctx], rule wp_block_call [OF rt])
      fix s1 :: "'w mstate" assume s1: "regs s1 0 = self" "mworld s1 = w1" "keeps ?V st s1"
      let ?s = "s1\<lparr>regs := (regs s1)(7 := self, 6 := s), frame := (frame s1)(slot ts := self)\<rparr>"
      show "exec_block rt [mov RAX (TMP ts), mov RAX RDI, I_mov RSI s] s1 = Some ?s" using s1 by (simp add: exec)
      show "fn F_snow_get_member_for_method_call [self, s] (mworld ?s) = Some (f, w2)" using f s1 by simp
      fix s2 :: "'w mstate" assume s2: "regs s2 0 = f" "regs s2 13 = regs ?s 13" "frame s2 = frame ?s" "mworld s2 = w2"
      show "wp rt ?V (g_code [mov RAX (TMP tf)]) s2 ?Q"
        by (rule wp_block, simp add: exec, simp) (use s1(3) s2 t in \<open>auto simp: keeps_def\<close>)
    qed simp_all
  qed
qed

subsection \<open>Every expression\<close>

lemma gen_code_for:
  assumes rt: "runtime_ok rt ad fn"
  shows "code_for rt ctx (gen ad lk e) (eval fn (peek rt) ctx lk e)"
proof (induction e)
  case (Seq es)
  then show ?case by (auto simp: list.rel_map intro!: code_for_seq list.rel_refl_strong)
next
  case (If c b e)
  then show ?case by (auto simp: option.rel_map intro!: code_for_if option.rel_refl_strong)
next
  case (Call f args)
  then show ?case
    by (auto simp: option.rel_map list.rel_map arg_for_def prod.rel_map intro!: code_for_call [OF rt] option.rel_refl_strong list.rel_refl_strong prod.rel_refl_strong)
next
  case (MethodCall e s args)
  then show ?case
    by (auto simp: option.rel_map list.rel_map arg_for_def prod.rel_map intro!: code_for_method_call [OF rt] option.rel_refl_strong list.rel_refl_strong prod.rel_refl_strong)
qed (auto intro: code_for_lit code_for_self code_for_here code_for_local [OF rt] code_for_assign [OF rt] code_for_member [OF rt]
  code_for_member_assign [OF rt] code_for_loop code_for_and_or code_for_xor code_for_not)

end
