(* ===== verification/CodeEmit.thy ===== *)
theory CodeEmit
  imports CodeRun
begin

text \<open>
  The code generator emits the code of \<open>gen\<close>: for an expression of a function at the top level,
  \<open>codegen_compile_node\<close> on its tree appends exactly those bytes, keeps the count of the
  temporaries and their free list as \<open>gen\<close> does, and changes nothing else but labels.
\<close>

unbundle bit_operations_syntax

subsection \<open>States of the generator\<close>

definition freelist :: "array_t option \<Rightarrow> nat list \<Rightarrow> bool" where
  "freelist fl free \<longleftrightarrow> (case fl of None \<Rightarrow> free = []
     | Some a \<Rightarrow> array_wf a \<and> elems a = map (\<lambda>t. int_to_value (of_nat t)) free)"

text \<open>The bytes emitted, the temporaries in use, their number with the free ones, and the labels.\<close>

type_synonym cstate = "byte list \<times> nat set \<times> tmps \<times> int list"

definition gst :: "cgstate \<Rightarrow> SnLinkBuffer \<Rightarrow> nat \<Rightarrow> array_t option \<Rightarrow> int list \<Rightarrow> cgstate" where
  "gst K lb num fl ls = K\<lparr>cgx := (cgx K)\<lparr>cg_buffer := lb, num_temporaries := num, tmp_freelist := fl, cg_labels := ls\<rparr>\<rparr>"

lemma gst_simps [simp]:
  "cg_buffer (cgx (gst K lb num fl ls)) = lb" "num_temporaries (cgx (gst K lb num fl ls)) = num"
  "tmp_freelist (cgx (gst K lb num fl ls)) = fl" "cg_labels (cgx (gst K lb num fl ls)) = ls"
  "cg_parent (cgx (gst K lb num fl ls)) = cg_parent (cgx K)" "cg_result (cgx (gst K lb num fl ls)) = cg_result (cgx K)"
  "variable_reference_names (cgx (gst K lb num fl ls)) = variable_reference_names (cgx K)"
  "cg_scopes (gst K lb num fl ls) = cg_scopes K"
  by (simp_all add: gst_def)

lemma gst_updates [simp]:
  "(gst K lb num fl ls)\<lparr>cgx := (cgx (gst K lb num fl ls))\<lparr>cg_buffer := lb'\<rparr>\<rparr> = gst K lb' num fl ls"
  "(gst K lb num fl ls)\<lparr>cgx := (cgx (gst K lb num fl ls))\<lparr>num_temporaries := num'\<rparr>\<rparr> = gst K lb num' fl ls"
  "(gst K lb num fl ls)\<lparr>cgx := (cgx (gst K lb num fl ls))\<lparr>tmp_freelist := fl'\<rparr>\<rparr> = gst K lb num fl' ls"
  "(gst K lb num fl ls)\<lparr>cgx := (cgx (gst K lb num fl ls))\<lparr>cg_labels := ls'\<rparr>\<rparr> = gst K lb num fl ls'"
  "(gst K lb num fl ls)\<lparr>cg_scopes := cg_scopes K\<rparr> = gst K lb num fl ls"
  by (auto simp: gst_def intro!: cgstate.equality SnCodegenX.equality)

definition cgs :: "cgstate \<Rightarrow> cgstate \<Rightarrow> cstate \<Rightarrow> bool" where
  "cgs K s \<alpha> \<longleftrightarrow> (case \<alpha> of (bs, U, tm, ls) \<Rightarrow> tmps_ok U tm \<and> (\<exists>lb fl. s = gst K lb (fst tm) fl ls \<and>
     linkbuffer_wf lb \<and> page_size lb = 1024 \<and> contents lb = bs \<and> freelist fl (snd tm)))"

lemma cgsE:
  assumes "cgs K s (bs, U, tm, ls)"
  obtains lb fl where "tmps_ok U tm" "s = gst K lb (fst tm) fl ls" "linkbuffer_wf lb" "page_size lb = 1024" "contents lb = bs"
    "freelist fl (snd tm)"
  using assms by (auto simp: cgs_def)

lemma cgsI:
  "tmps_ok U tm \<Longrightarrow> linkbuffer_wf lb \<Longrightarrow> page_size lb = 1024 \<Longrightarrow> contents lb = bs \<Longrightarrow> freelist fl (snd tm) \<Longrightarrow>
   cgs K (gst K lb (fst tm) fl ls) (bs, U, tm, ls)"
  by (auto simp: cgs_def)

text \<open>What is emitted fits one page of the buffer, so that jumps can be linked.\<close>

definition fits :: "cstate \<Rightarrow> bool" where
  "fits \<alpha> \<longleftrightarrow> (case \<alpha> of (bs, U, tm, ls) \<Rightarrow> length bs \<le> 1024 \<and> small (fst tm))"

definition extends :: "cstate \<Rightarrow> cstate \<Rightarrow> bool" where
  "extends \<alpha> \<beta> \<longleftrightarrow> (case (\<alpha>, \<beta>) of ((bs, U, tm, ls), (bs', U', tm', ls')) \<Rightarrow> length bs \<le> length bs' \<and> fst tm \<le> fst tm')"

definition tok :: "cstate \<Rightarrow> bool" where
  "tok \<alpha> \<longleftrightarrow> (case \<alpha> of (bs, U, tm, ls) \<Rightarrow> tmps_ok U tm)"

definition does :: "cgstate \<Rightarrow> 'a cprog \<Rightarrow> cstate \<Rightarrow> 'a \<Rightarrow> cstate \<Rightarrow> bool" where
  "does K p \<alpha> x \<beta> \<longleftrightarrow> (tok \<alpha> \<longrightarrow> tok \<beta> \<and> extends \<alpha> \<beta>) \<and> (\<forall>s. cgs K s \<alpha> \<longrightarrow> fits \<beta> \<longrightarrow> (\<exists>s'. p s = Inr (x, s') \<and> cgs K s' \<beta>))"

lemma extends_trans: "extends \<alpha> \<beta> \<Longrightarrow> extends \<beta> \<gamma> \<Longrightarrow> extends \<alpha> \<gamma>"
  by (auto simp: extends_def split: prod.splits)

lemma fits_extends: "extends \<alpha> \<beta> \<Longrightarrow> fits \<beta> \<Longrightarrow> fits \<alpha>"
  by (auto simp: extends_def fits_def elim: small_le split: prod.splits)

lemma cgs_tok: "cgs K s \<alpha> \<Longrightarrow> tok \<alpha>"
  by (auto simp: cgs_def tok_def)

lemma does_tok: "(tok \<alpha> \<Longrightarrow> does K p \<alpha> x \<beta>) \<Longrightarrow> does K p \<alpha> x \<beta>"
  using cgs_tok unfolding does_def by blast

lemma does_bind: "does K m \<alpha> x \<beta> \<Longrightarrow> does K (k x) \<beta> y \<gamma> \<Longrightarrow> does K (pbind m k) \<alpha> y \<gamma>"
proof (rule does_tok)
  assume m: "does K m \<alpha> x \<beta>" and k: "does K (k x) \<beta> y \<gamma>" and t: "tok \<alpha>"
  have g: "tok \<gamma>" "extends \<alpha> \<beta>" "extends \<beta> \<gamma>" using m k t by (simp_all add: does_def)
  have "\<exists>s'. pbind m k s = Inr (y, s') \<and> cgs K s' \<gamma>" if s: "cgs K s \<alpha>" "fits \<gamma>" for s
  proof -
    obtain s1 where s1: "m s = Inr (x, s1)" "cgs K s1 \<beta>"
      using m s fits_extends [OF g(3) s(2)] by (auto simp: does_def)
    obtain s2 where "k x s1 = Inr (y, s2)" "cgs K s2 \<gamma>" using k s1(2) s(2) by (auto simp: does_def)
    with s1 show ?thesis by auto
  qed
  with g(1) extends_trans [OF g(2,3)] show ?thesis by (simp add: does_def)
qed

lemma extends_refl: "extends \<alpha> \<alpha>"
  by (auto simp: extends_def split: prod.splits)

lemma does_ret: "does K (pret x) \<alpha> x \<alpha>"
  by (simp add: does_def extends_refl)

lemma does_cong: "does K p \<alpha> x \<beta> \<Longrightarrow> \<beta> = \<gamma> \<Longrightarrow> does K p \<alpha> x \<gamma>"
  by simp

lemma does_weaken:
  assumes "does K p \<alpha> x (bs, U, tm, ls)" "V \<subseteq> U"
  shows "does K p \<alpha> x (bs, V, tm, ls)"
proof -
  have "cgs K s (bs, V, tm, ls)" if "cgs K s (bs, U, tm, ls)" for s
    using that assms(2) by (auto simp: cgs_def intro: tmps_ok_mono)
  moreover have "tok (bs, U, tm, ls) \<longrightarrow> tok (bs, V, tm, ls)" using assms(2) by (auto simp: tok_def intro: tmps_ok_mono)
  moreover have "extends \<alpha> (bs, U, tm, ls) = extends \<alpha> (bs, V, tm, ls)" "fits (bs, U, tm, ls) = fits (bs, V, tm, ls)"
    by (auto simp: extends_def fits_def split: prod.split)
  ultimately show ?thesis using assms(1) unfolding does_def by metis
qed

text \<open>What does not depend on the state of the generator.\<close>

lemma does_reads:
  assumes "\<And>lb num fl ls. p (gst K lb num fl ls) = Inr (x, gst K lb num fl ls)"
  shows "does K p \<alpha> x \<alpha>"
  unfolding does_def using assms by (auto simp: extends_refl elim!: cgsE intro: cgsI split: prod.split) (metis cgsE prod_cases4)

lemma does_run_all: "does K p \<alpha> x \<beta> \<Longrightarrow> does K (run_all ps) \<beta> y \<gamma> \<Longrightarrow> does K (run_all (p # ps)) \<alpha> y \<gamma>"
  by (simp add: does_bind)

lemma does_run_nil: "does K (run_all []) \<alpha> () \<alpha>"
  by (simp add: does_ret)

lemma does_asm:
  assumes "appends f xs"
  shows "does K (asm f) (bs, U, tm, ls) () (bs @ xs, U, tm, ls)"
  unfolding does_def
proof (intro conjI allI impI)
  fix s assume "cgs K s (bs, U, tm, ls)"
  then obtain lb fl where s: "tmps_ok U tm" "s = gst K lb (fst tm) fl ls"
      "linkbuffer_wf lb" "page_size lb = 1024" "contents lb = bs" "freelist fl (snd tm)"
    by (elim cgsE)
  obtain lb' where "f lb = Inr lb'" "linkbuffer_wf lb'" "page_size lb' = 1024" "contents lb' = bs @ xs"
    using appendsD [OF assms s(3)] s(4,5) by metis
  with s show "\<exists>s'. asm f s = Inr ((), s') \<and> cgs K s' (bs @ xs, U, tm, ls)"
    by (auto simp: asm_def get_cgx_def set_cgx_def intro!: cgsI)
qed (simp_all add: extends_def tok_def)

text \<open>An instruction that returns the offset of its immediate.\<close>

lemma does_asm_value:
  assumes "\<And>lb. linkbuffer_wf lb \<Longrightarrow> length (contents lb) < 2 ^ 30 \<Longrightarrow> \<exists>lb'. f lb = Inr (lb', g (length (contents lb))) \<and> linkbuffer_wf lb' \<and>
    page_size lb' = page_size lb \<and> contents lb' = contents lb @ xs"
  shows "does K (asm_value f) (bs, U, tm, ls) (g (length bs)) (bs @ xs, U, tm, ls)"
  unfolding does_def
proof (intro conjI allI impI)
  fix s assume "cgs K s (bs, U, tm, ls)" and fit: "fits (bs @ xs, U, tm, ls)"
  then obtain lb fl where s: "tmps_ok U tm" "s = gst K lb (fst tm) fl ls"
      "linkbuffer_wf lb" "page_size lb = 1024" "contents lb = bs" "freelist fl (snd tm)"
    by (elim cgsE)
  have "length (contents lb) < 2 ^ 30" using fit s(5) by (simp add: fits_def)
  with assms [OF s(3)] s(4,5) obtain lb' where "f lb = Inr (lb', g (length bs))" "linkbuffer_wf lb'" "page_size lb' = 1024" "contents lb' = bs @ xs"
    by metis
  with s show "\<exists>s'. asm_value f s = Inr (g (length bs), s') \<and> cgs K s' (bs @ xs, U, tm, ls)"
    by (auto simp: asm_value_def get_cgx_def set_cgx_def intro!: cgsI)
qed (simp_all add: extends_def tok_def)

subsection \<open>Instructions\<close>

lemma does_mov: "is_reg r \<Longrightarrow> is_operand rm \<Longrightarrow> does K (i_mov r rm) (bs, U, tm, ls) () (bs @ enc (mov r rm), U, tm, ls)"
  unfolding i_mov_def asm_mov_def mov_def by (simp add: enc_def does_asm appends_emit_instr)

lemma does_mov_rev: "is_reg r \<Longrightarrow> is_operand rm \<Longrightarrow> does K (i_mov_rev r rm) (bs, U, tm, ls) () (bs @ enc (movr r rm), U, tm, ls)"
  unfolding i_mov_rev_def asm_mov_rev_def movr_def by (simp add: enc_def does_asm appends_emit_instr)

lemma does_xor: "is_reg r \<Longrightarrow> is_operand rm \<Longrightarrow> does K (i_xor r rm) (bs, U, tm, ls) () (bs @ enc (xorr r rm), U, tm, ls)"
  unfolding i_xor_def asm_xor_def xorr_def by (simp add: enc_def does_asm appends_emit_instr)

lemma does_cmp: "is_reg r \<Longrightarrow> is_operand rm \<Longrightarrow> does K (i_cmp r rm) (bs, U, tm, ls) () (bs @ enc (cmpr r rm), U, tm, ls)"
  unfolding i_cmp_def asm_cmp_def cmpr_def by (simp add: enc_def does_asm appends_emit_instr)

lemma does_and: "is_reg r \<Longrightarrow> is_operand rm \<Longrightarrow> does K (i_and r rm) (bs, U, tm, ls) () (bs @ enc (I_op 0x21 r rm), U, tm, ls)"
  unfolding i_and_def asm_and_def by (simp add: enc_def does_asm appends_emit_instr)

lemma does_add: "is_reg r \<Longrightarrow> is_operand rm \<Longrightarrow> does K (i_add r rm) (bs, U, tm, ls) () (bs @ enc (I_op 0x01 r rm), U, tm, ls)"
  unfolding i_add_def asm_add_def by (simp add: enc_def does_asm appends_emit_instr)

lemma does_lea: "is_reg r \<Longrightarrow> is_operand rm \<Longrightarrow> does K (i_lea r rm) (bs, U, tm, ls) () (bs @ enc (I_op 0x8d r rm), U, tm, ls)"
  unfolding i_lea_def asm_lea_def by (simp add: enc_def does_asm appends_emit_instr)

lemma does_imul: "is_reg r \<Longrightarrow> is_operand rm \<Longrightarrow> does K (i_imul_i r rm imm) (bs, U, tm, ls) () (bs @ enc (I_imm 0x69 r rm (scast imm)), U, tm, ls)"
  unfolding i_imul_i_def asm_imul_i_def enc_def ins.case
  by (intro does_asm appends_seq appends_emit_instr appends_emit_imm) simp_all

lemma does_call: "is_reg r \<Longrightarrow> does K (i_call r) (bs, U, tm, ls) () (bs @ enc (I_call r), U, tm, ls)"
proof -
  assume r: "is_reg r"
  have "appends (\<lambda>lb. rbind (emit_rex lb (rex_for_rm r)) (\<lambda>lb. rbind (emit lb 0xff) (\<lambda>lb. emit_operands lb (make_opcode_ext 2) r)))
      (rex_bytes (rex_for_rm r) @ [0xff] @ operand_bytes (make_opcode_ext 2) r)"
    by (intro appends_seq emits) (use r in simp_all)
  then show ?thesis using r unfolding i_call_def asm_call_def by (intro does_cong [OF does_asm]) (auto simp: is_reg_def enc_def)
qed

lemma does_ref:
  assumes "appends_ref f xs ys" "length xs < 2 ^ 20"
  shows "does K (pbind (asm_value f) (\<lambda>_. pret ())) (bs, U, tm, ls) () (bs @ xs @ ys, U, tm, ls)"
proof -
  have "does K (asm_value f) (bs, U, tm, ls) (int (length bs + length xs)) (bs @ xs @ ys, U, tm, ls)"
    by (rule does_asm_value) (use assms in \<open>simp add: appends_ref_def\<close>)
  then show ?thesis by (rule does_bind) (rule does_ret)
qed

lemma length_rex: "length (rex_bytes r) \<le> 1"
  by (simp add: rex_bytes_def)

lemma does_mov_id:
  assumes "is_reg r"
  shows "does K (i_mov_id imm r) (bs, U, tm, ls) () (bs @ enc (I_mov r imm), U, tm, ls)"
proof -
  let ?rex = "rex_bytes (rex_for_rm r OR REX_WIDE_OPERAND)"
  have "appends (\<lambda>lb. rbind (emit_rex lb (rex_for_rm r OR REX_WIDE_OPERAND)) (\<lambda>lb. emit lb (0xb8 + of_nat (reg r))))
      (?rex @ [0xb8 + of_nat (reg r)])"
    by (intro appends_seq emits)
  from appends_ref_imm [OF this, of 8 imm]
  have "appends_ref (\<lambda>lb. asm_mov_id lb imm r) (?rex @ [0xb8 + of_nat (reg r)]) (imm_bytes imm 8)"
    using assms by (simp add: asm_mov_id_def is_reg_def rbind_assoc)
  from does_ref [OF this] length_rex [of "rex_for_rm r OR REX_WIDE_OPERAND"]
  show ?thesis by (simp add: i_mov_id_def enc_def)
qed

lemma does_cmp_id:
  assumes "is_operand rm"
  shows "does K (i_cmp_id imm rm) (bs, U, tm, ls) () (bs @ enc (cmpi imm rm), U, tm, ls)"
proof -
  have "appends_ref (\<lambda>lb. asm_cmp_id lb imm rm) (instr_bytes 0x81 (make_opcode_ext 7) rm) (imm_bytes imm 4)"
    unfolding asm_cmp_id_def instr_XI_def by (rule appends_ref_imm [OF appends_emit_instr]) (use assms in simp_all)
  moreover have "length (instr_bytes 0x81 (make_opcode_ext 7) rm) < 2 ^ 20"
    using length_enc [of "I_op 0x81 (make_opcode_ext 7) rm"] by (simp add: enc_def)
  ultimately show ?thesis using does_ref by (fastforce simp: i_cmp_id_def enc_def cmpi_def)
qed

subsection \<open>Labels and jumps\<close>

lemma does_new_label: "does K new_label (bs, U, tm, ls) (length ls) (bs, U, tm, ls @ [-1])"
  unfolding does_def
proof (intro conjI allI impI)
  fix s assume "cgs K s (bs, U, tm, ls)"
  then show "\<exists>s'. new_label s = Inr (length ls, s') \<and> cgs K s' (bs, U, tm, ls @ [-1])"
    by (elim cgsE) (auto simp: new_label_def get_cgx_def set_cgx_def asm_label_def intro!: cgsI)
qed (simp_all add: extends_def tok_def)

lemma does_bind_label:
  assumes "l < length ls" "ls ! l < 0"
  shows "does K (bind_label l) (bs, U, tm, ls) () (bs, U, tm, ls[l := int (length bs)])"
  unfolding does_def
proof (intro conjI allI impI)
  fix s assume s: "cgs K s (bs, U, tm, ls)" and fit: "fits (bs, U, tm, ls[l := int (length bs)])"
  from s show "\<exists>s'. bind_label l s = Inr ((), s') \<and> cgs K s' (bs, U, tm, ls[l := int (length bs)])"
  proof (rule cgsE)
    fix lb fl assume c: "tmps_ok U tm" "s = gst K lb (fst tm) fl ls" "linkbuffer_wf lb" "page_size lb = 1024" "contents lb = bs" "freelist fl (snd tm)"
    have "Asm.here lb = int (length bs)" using here_ok [OF c(3)] fit c(5) by (simp add: fits_def)
    with c assms show ?thesis by (auto simp: bind_label_def get_cgx_def set_cgx_def asm_bind_def intro!: cgsI)
  qed
qed (simp_all add: extends_def tok_def)

lemma does_jump_if: "does K (jump_if cc l) (bs, U, tm, ls) \<lparr>ref_offset = int (length bs + 2), ref_label = l\<rparr>
    (bs @ enc (I_jcc cc 0), U, tm, ls)"
proof -
  have "appends (\<lambda>lb. rbind (emit lb 0x0f) (\<lambda>lb. emit lb (0x80 + cond_code cc))) ([0x0f] @ [0x80 + cond_code cc])"
    by (intro appends_seq emits)
  from appends_ref_imm [OF this, of 4 0] have a: "appends_ref (\<lambda>lb. rbind (emit lb 0x0f) (\<lambda>lb. rbind (emit lb (0x80 + cond_code cc)) (\<lambda>lb.
      rbind (emit_imm lb 0 4) (\<lambda>lb'. Inr (lb', Asm.here lb))))) [0x0f, 0x80 + cond_code cc] (imm_bytes 0 4)"
    by (simp add: rbind_assoc)
  show ?thesis unfolding jump_if_def
  proof (rule does_asm_value [where g = "\<lambda>n. \<lparr>ref_offset = int (n + 2), ref_label = l\<rparr>"])
    fix lb assume lb: "linkbuffer_wf lb" "length (contents lb) < 2 ^ 30"
    then show "\<exists>lb'. asm_j lb cc l = Inr (lb', \<lparr>ref_offset = int (length (contents lb) + 2), ref_label = l\<rparr>) \<and>
        linkbuffer_wf lb' \<and> page_size lb' = page_size lb \<and> contents lb' = contents lb @ enc (I_jcc cc 0)"
      using a unfolding appends_ref_def by (fastforce simp: asm_j_def enc_def)
  qed
qed

lemma does_jump: "does K (jump l) (bs, U, tm, ls) \<lparr>ref_offset = int (length bs + 1), ref_label = l\<rparr> (bs @ enc (I_jmp 0), U, tm, ls)"
proof -
  have "appends (\<lambda>lb. emit lb 0xe9) [0xe9]" by (intro emits)
  from appends_ref_imm [OF this, of 4 0] have a: "appends_ref (\<lambda>lb. rbind (emit lb 0xe9) (\<lambda>lb.
      rbind (emit_imm lb 0 4) (\<lambda>lb'. Inr (lb', Asm.here lb)))) [0xe9] (imm_bytes 0 4)"
    by simp
  show ?thesis unfolding jump_def
  proof (rule does_asm_value [where g = "\<lambda>n. \<lparr>ref_offset = int (n + 1), ref_label = l\<rparr>"])
    fix lb assume lb: "linkbuffer_wf lb" "length (contents lb) < 2 ^ 30"
    then show "\<exists>lb'. asm_jmp lb l = Inr (lb', \<lparr>ref_offset = int (length (contents lb) + 1), ref_label = l\<rparr>) \<and>
        linkbuffer_wf lb' \<and> page_size lb' = page_size lb \<and> contents lb' = contents lb @ enc (I_jmp 0)"
      using a unfolding appends_ref_def by (fastforce simp: asm_jmp_def enc_def)
  qed
qed

lemma jump_bytes: "map (\<lambda>i. ucast (drop_bit (8 * i) (word_of_int d :: 32 word))) [0..<4] = imm_bytes (word_of_int d) 4"
proof -
  have "(ucast (drop_bit (8 * i) (word_of_int d :: 32 word)) :: byte) = imm_byte (word_of_int d) i" if "i < 4" for i
    using that unfolding imm_byte_def by (intro bit_word_eqI) (auto simp: bit_simps not_le)
  then show ?thesis by (simp add: imm_bytes_def)
qed

lemma does_link:
  assumes "l < length ls" "ls ! l = int p" "length hole = 4"
  shows "does K (link_ref \<lparr>ref_offset = int (length A), ref_label = l\<rparr>) (A @ hole @ B, U, tm, ls) ()
    (A @ imm_bytes (word_of_int (int p - (int (length A) + 4))) 4 @ B, U, tm, ls)"
  unfolding does_def
proof (intro conjI allI impI)
  let ?new = "A @ imm_bytes (word_of_int (int p - (int (length A) + 4))) 4 @ B"
  fix s assume s: "cgs K s (A @ hole @ B, U, tm, ls)" and fit: "fits (?new, U, tm, ls)"
  from s show "\<exists>s'. link_ref \<lparr>ref_offset = int (length A), ref_label = l\<rparr> s = Inr ((), s') \<and> cgs K s' (?new, U, tm, ls)"
  proof (rule cgsE)
    fix lb fl assume c: "tmps_ok U tm" "s = gst K lb (fst tm) fl ls" "linkbuffer_wf lb" "page_size lb = 1024" "contents lb = A @ hole @ B"
      "freelist fl (snd tm)"
    have len: "length A + 4 + length B \<le> 1024" using fit by (simp add: fits_def)
    have u: "unat (word_of_int (int (length A)) :: 64 word) = length A"
      using len by (simp add: unsigned_of_nat take_bit_nat_eq_self)
    have "length A mod 1024 + 4 \<le> 1024" using len by simp
    then obtain lb' where lb': "snow_linkbuffer_modify lb (length A) 4 (imm_bytes (word_of_int (int p - (int (length A) + 4))) 4) = Inr (lb', 4)"
        "linkbuffer_wf lb'" "contents lb' = ?new"
      using linkbuffer_modify_ok [OF c(3), of 4 "imm_bytes (word_of_int (int p - (int (length A) + 4))) 4" "length A"] assms(3) c(4,5) by auto
    moreover have "page_size lb' = page_size lb"
      using lb'(1) by (auto simp: snow_linkbuffer_modify_def split: prod.splits)
    moreover have "asm_link lb ls \<lparr>ref_offset = int (length A), ref_label = l\<rparr> = Inr lb'"
    proof -
      have "asm_link lb ls \<lparr>ref_offset = int (length A), ref_label = l\<rparr> =
          rbind (snow_linkbuffer_modify lb (unat (word_of_int (int (length A)) :: 64 word)) 4
            (map (\<lambda>i. ucast (drop_bit (8 * i) (word_of_int (int p - (int (length A) + 4)) :: 32 word))) [0..<4])) (\<lambda>(lb, _). Inr lb)"
        using assms(1,2) unfolding asm_link_def Let_def by simp
      then show ?thesis unfolding u jump_bytes lb'(1) by simp
    qed
    ultimately show ?thesis using c
      by (auto simp: link_ref_def get_cgx_def set_cgx_def intro!: cgsI)
  qed
qed (use assms(3) in \<open>simp_all add: extends_def tok_def\<close>)

text \<open>A jump emitted as \<open>A @ jump @ B\<close> is linked to the place of its label.\<close>

lemma does_link_jcc:
  assumes "bs = A @ enc (I_jcc cc old) @ B" "off = int (length A + 2)" "l < length ls" "ls ! l = int p"
    "int p = int (length A + 6) + d" "bs' = A @ enc (I_jcc cc d) @ B"
  shows "does K (link_ref \<lparr>ref_offset = off, ref_label = l\<rparr>) (bs, U, tm, ls) () (bs', U, tm, ls)"
proof -
  have d: "d = int p - (int (length A) + 6)" using assms(5) by simp
  show ?thesis
    using does_link [OF assms(3,4), of "imm_bytes (word_of_int old) 4" K "A @ [0x0f, 0x80 + cond_code cc]" B U tm]
    unfolding assms(1,2,6) d by (simp add: enc_def algebra_simps)
qed

lemma does_link_jmp:
  assumes "bs = A @ enc (I_jmp old) @ B" "off = int (length A + 1)" "l < length ls" "ls ! l = int p"
    "int p = int (length A + 5) + d" "bs' = A @ enc (I_jmp d) @ B"
  shows "does K (link_ref \<lparr>ref_offset = off, ref_label = l\<rparr>) (bs, U, tm, ls) () (bs', U, tm, ls)"
proof -
  have d: "d = int p - (int (length A) + 5)" using assms(5) by simp
  show ?thesis
    using does_link [OF assms(3,4), of "imm_bytes (word_of_int old) 4" K "A @ [0xe9]" B U tm]
    unfolding assms(1,2,6) d by (simp add: enc_def algebra_simps)
qed

subsection \<open>Temporaries\<close>

lemma tmp_value: "t < 2 ^ 28 \<Longrightarrow> sint (value_to_int (int_to_value (of_nat t))) = int t"
proof -
  assume t: "t < 2 ^ 28"
  have "sint (of_nat t :: 64 word) = int t"
    using t by (simp add: signed_of_nat signed_take_bit_int_eq_self)
  then show ?thesis using t by (simp add: sint_value_to_int_to_value signed_take_bit_int_eq_self)
qed

lemma does_reserve:
  assumes "g_reserve tm = (t, tm')"
  shows "does K codegen_reserve_tmp (bs, U, tm, ls) (int t) (bs, insert t U, tm', ls)"
  unfolding does_def
proof (intro conjI allI impI)
  fix s assume s: "cgs K s (bs, U, tm, ls)" and fit: "fits (bs, insert t U, tm', ls)"
  from s show "\<exists>s'. codegen_reserve_tmp s = Inr (int t, s') \<and> cgs K s' (bs, insert t U, tm', ls)"
  proof (rule cgsE)
    fix lb fl assume c: "tmps_ok U tm" "s = gst K lb (fst tm) fl ls" "linkbuffer_wf lb" "page_size lb = 1024" "contents lb = bs"
      "freelist fl (snd tm)"
    obtain num free where tm: "tm = (num, free)" by (cases tm)
    note ok = reserve_ok [OF assms c(1)]
    show ?thesis
    proof (cases free rule: rev_cases)
      case Nil
      then have t: "t = num" "tm' = (num + 1, [])" using assms by (auto simp: g_reserve_def tm)
      have "codegen_reserve_tmp s = Inr (int t, gst K lb (num + 1) fl ls)"
        using c(2,6) Nil by (auto simp: codegen_reserve_tmp_def get_cgx_def set_cgx_def tm t freelist_def array_size_def
            length_elems [symmetric] split: option.splits)
      moreover have "cgs K (gst K lb (fst tm') fl ls) (bs, insert t U, tm', ls)"
        by (rule cgsI) (use c ok Nil t tm in simp_all)
      ultimately show ?thesis by (simp add: t)
    next
      case (snoc free' t0)
      then have t: "t = t0" "tm' = (num, free')" using assms by (simp_all add: g_reserve_def tm)
      obtain a where a: "fl = Some a" "array_wf a" "elems a = map (\<lambda>t. int_to_value (of_nat t)) free"
        using c(6) snoc by (auto simp: freelist_def tm split: option.splits)
      have "0 < a_size a" using a(3) snoc length_elems [OF a(2)] by simp
      moreover obtain a' where a': "array_pop a = Inr (a', int_to_value (of_nat t))" "array_wf a'" "elems a' = map (\<lambda>t. int_to_value (of_nat t)) free'"
        using array_pop_ok [OF a(2)] a(3) snoc t(1) by auto
      moreover have "t < 2 ^ 28" using ok(3) fit by (simp add: fits_def t small_def)
      ultimately have "codegen_reserve_tmp s = Inr (int t, gst K lb num (Some a') ls)"
        using c(2) a(1) by (simp add: codegen_reserve_tmp_def get_cgx_def set_cgx_def tm array_size_def tmp_value)
      moreover have "cgs K (gst K lb (fst tm') (Some a') ls) (bs, insert t U, tm', ls)"
        by (rule cgsI) (use c ok a' t in \<open>simp_all add: freelist_def\<close>)
      ultimately show ?thesis by (simp add: t)
    qed
  qed
qed (use reserve_mono [OF assms] reserve_ok [OF assms] in \<open>auto simp: extends_def tok_def split: prod.splits\<close>)

lemma tmps_ok_length: "tmps_ok U (num, free) \<Longrightarrow> length free \<le> num"
proof -
  assume "tmps_ok U (num, free)"
  then have "distinct free" "set free \<subseteq> {..<num}" by (auto simp: tmps_ok_def)
  then show ?thesis using card_mono [of "{..<num}" "set free"] by (simp add: distinct_card)
qed

lemma does_release:
  assumes "t \<in> U"
  shows "does K (codegen_free_tmp (int t)) (bs, U, tm, ls) () (bs, U - {t}, g_free t tm, ls)"
  unfolding does_def
proof (intro conjI allI impI)
  fix s assume s: "cgs K s (bs, U, tm, ls)" and fit: "fits (bs, U - {t}, g_free t tm, ls)"
  from s show "\<exists>s'. codegen_free_tmp (int t) s = Inr ((), s') \<and> cgs K s' (bs, U - {t}, g_free t tm, ls)"
  proof (rule cgsE)
    fix lb fl assume c: "tmps_ok U tm" "s = gst K lb (fst tm) fl ls" "linkbuffer_wf lb" "page_size lb = 1024" "contents lb = bs"
      "freelist fl (snd tm)"
    obtain num free where tm: "tm = (num, free)" by (cases tm)
    define a where "a = (case fl of Some a \<Rightarrow> a | None \<Rightarrow> array_init_with_size 32)"
    have a: "array_wf a" "elems a = map (\<lambda>t. int_to_value (of_nat t)) free"
      using c(6) by (auto simp: a_def freelist_def tm split: option.splits)
    have "length (elems a) < 2 ^ 32 - 1"
      using tmps_ok_length [of U num free] c(1) fit by (simp add: tm a(2) fits_def g_free_def small_def)
    then obtain a' where a': "array_push a (int_to_value (of_nat t)) = Inr (a', int_to_value (of_nat t))" "array_wf a'"
        "elems a' = elems a @ [int_to_value (of_nat t)]"
      using array_push_law [OF a(1)] by blast
    have "codegen_free_tmp (int t) s = Inr ((), gst K lb num (Some a') ls)"
      using c(2) a'(1) by (simp add: codegen_free_tmp_def get_cgx_def set_cgx_def tm a_def [symmetric])
    moreover have "tmps_ok (U - {t}) (g_free t tm)"
      using keeps_tmpsD [OF keeps_tmps_release [OF assms] c(1)] by (simp add: g_release_def)
    then have "cgs K (gst K lb (fst (g_free t tm)) (Some a') ls) (bs, U - {t}, g_free t tm, ls)"
      by (rule cgsI) (use c a' a in \<open>simp_all add: freelist_def g_free_def tm\<close>)
    ultimately show ?thesis by (simp add: g_free_def tm)
  qed
qed (use keeps_tmpsD [OF keeps_tmps_release [OF assms], of tm "[]" "g_free t tm"] in \<open>auto simp: extends_def tok_def g_release_def split: prod.splits\<close>)

subsection \<open>Programs that emit a generator\<close>

definition emits_gen :: "cgstate \<Rightarrow> nat set \<Rightarrow> unit cprog \<Rightarrow> cgen \<Rightarrow> nat set \<Rightarrow> bool" where
  "emits_gen K U p G V \<longleftrightarrow> (\<exists>N. \<forall>bs tm ls.
     does K p (bs, U, tm, ls) () (bs @ bytes (fst (G tm)), V, snd (G tm), ls @ N bs tm ls))"

lemma emits_gen_cong: "emits_gen K U p G V \<Longrightarrow> G = H \<Longrightarrow> emits_gen K U p H V"
  by simp

lemma emits_block:
  assumes "\<And>bs tm ls. does K p (bs, U, tm, ls) () (bs @ bytes cs, U, tm, ls)"
  shows "emits_gen K U p (g_code cs) U"
  unfolding emits_gen_def by (rule exI [of _ "\<lambda>_ _ _. []"]) (use assms in \<open>simp add: g_code_def\<close>)

lemma emits_then:
  assumes "emits_gen K U p G V" "emits_gen K V q H W"
  shows "emits_gen K U (pbind p (\<lambda>_. q)) (g_then G H) W"
proof -
  obtain M where M: "does K p (bs, U, tm, ls) () (bs @ bytes (fst (G tm)), V, snd (G tm), ls @ M bs tm ls)" for bs tm ls
    using assms(1) unfolding emits_gen_def by blast
  obtain N where N: "does K q (bs, V, tm, ls) () (bs @ bytes (fst (H tm)), W, snd (H tm), ls @ N bs tm ls)" for bs tm ls
    using assms(2) unfolding emits_gen_def by blast
  show ?thesis unfolding emits_gen_def
  proof (intro exI allI)
    fix bs tm ls
    show "does K (pbind p (\<lambda>_. q)) (bs, U, tm, ls) () (bs @ bytes (fst (g_then G H tm)), W, snd (g_then G H tm),
        ls @ M bs tm ls @ N (bs @ bytes (fst (G tm))) (snd (G tm)) (ls @ M bs tm ls))"
      by (rule does_bind [OF M], rule does_cong [OF N]) (simp add: g_then_def split: prod.split)
  qed
qed

lemma emits_weaken:
  assumes "emits_gen K U p G V" "W \<subseteq> V"
  shows "emits_gen K U p G W"
proof -
  obtain N where N: "does K p (bs, U, tm, ls) () (bs @ bytes (fst (G tm)), V, snd (G tm), ls @ N bs tm ls)" for bs tm ls
    using assms(1) unfolding emits_gen_def by blast
  show ?thesis unfolding emits_gen_def by (intro exI [of _ N] allI does_weaken [OF N assms(2)])
qed

lemma emits_tmp:
  assumes "\<And>t. t \<notin> U \<Longrightarrow> emits_gen K (insert t U) (k (int t)) (X t) V"
  shows "emits_gen K U (pbind codegen_reserve_tmp k) (g_with_tmp X) V"
proof -
  have "\<forall>t. \<exists>N. t \<notin> U \<longrightarrow> (\<forall>bs tm ls.
      does K (k (int t)) (bs, insert t U, tm, ls) () (bs @ bytes (fst (X t tm)), V, snd (X t tm), ls @ N bs tm ls))"
    using assms unfolding emits_gen_def by blast
  then obtain N where N: "\<And>t bs tm ls. t \<notin> U \<Longrightarrow>
      does K (k (int t)) (bs, insert t U, tm, ls) () (bs @ bytes (fst (X t tm)), V, snd (X t tm), ls @ N t bs tm ls)"
    by metis
  show ?thesis unfolding emits_gen_def
  proof (intro exI allI, rule does_tok)
    fix bs tm ls
    obtain t tm' where r: "g_reserve tm = (t, tm')" by (cases "g_reserve tm")
    assume "tok (bs, U, tm, ls)"
    then have t: "t \<notin> U" using reserve_ok(1) [OF r] by (simp add: tok_def)
    have "does K (pbind codegen_reserve_tmp k) (bs, U, tm, ls) () (bs @ bytes (fst (X t tm')), V, snd (X t tm'), ls @ N t bs tm' ls)"
      by (rule does_bind [OF does_reserve [OF r]]) (rule N [OF t])
    then show "does K (pbind codegen_reserve_tmp k) (bs, U, tm, ls) () (bs @ bytes (fst (g_with_tmp X tm)), V, snd (g_with_tmp X tm),
        ls @ (\<lambda>bs tm ls. case g_reserve tm of (t, tm') \<Rightarrow> N t bs tm' ls) bs tm ls)"
      by (simp add: g_with_tmp_def r)
  qed
qed

lemma emits_release: "t \<notin> U \<Longrightarrow> emits_gen K (insert t U) (codegen_free_tmp (int t)) (g_release t) U"
  unfolding emits_gen_def
proof (rule exI [of _ "\<lambda>_ _ _. []"], intro allI)
  fix bs tm ls assume t: "t \<notin> U"
  show "does K (codegen_free_tmp (int t)) (bs, insert t U, tm, ls) () (bs @ bytes (fst (g_release t tm)), U, snd (g_release t tm), ls @ [])"
    using does_weaken [OF does_release [of t "insert t U" K bs tm ls], of U] t by (simp add: g_release_def)
qed

lemma g_then_simps [simp]:
  "g_then (g_then A B) C = g_then A (g_then B C)" "g_then (g_code cs) (g_code ds) = g_code (cs @ ds)"
  "g_then (g_code cs) (g_then (g_code ds) C) = g_then (g_code (cs @ ds)) C"
  "g_then (g_code []) C = C" "g_then C (g_code []) = C"
  by (rule ext; simp add: g_then_def g_code_def split: prod.split)+

lemma emits_run_all: "emits_gen K U p G V \<Longrightarrow> emits_gen K V (run_all ps) H W \<Longrightarrow> emits_gen K U (run_all (p # ps)) (g_then G H) W"
  by (simp add: emits_then)

lemma emits_nil: "emits_gen K U (run_all []) (g_code []) U" "emits_gen K U (pret ()) (g_code []) U"
  by (rule emits_block, simp add: does_ret)+

subsection \<open>Code without jumps\<close>

definition emits_code :: "cgstate \<Rightarrow> unit cprog \<Rightarrow> ins list \<Rightarrow> bool" where
  "emits_code K p cs \<longleftrightarrow> (\<forall>bs U tm ls. does K p (bs, U, tm, ls) () (bs @ bytes cs, U, tm, ls))"

lemma does_code: "emits_code K p cs \<Longrightarrow> does K p (bs, U, tm, ls) () (bs @ bytes cs, U, tm, ls)"
  unfolding emits_code_def by blast

lemma emits_code_gen: "emits_code K p cs \<Longrightarrow> emits_gen K U p (g_code cs) U"
  by (rule emits_block) (rule does_code)

lemma code_run_all: "emits_code K p cs \<Longrightarrow> emits_code K (run_all ps) ds \<Longrightarrow> emits_code K (run_all (p # ps)) (cs @ ds)"
  unfolding emits_code_def
proof (intro allI)
  fix bs U tm ls
  assume a: "\<forall>bs U tm ls. does K p (bs, U, tm, ls) () (bs @ bytes cs, U, tm, ls)"
    "\<forall>bs U tm ls. does K (run_all ps) (bs, U, tm, ls) () (bs @ bytes ds, U, tm, ls)"
  from does_run_all [OF a(1) [rule_format] a(2) [rule_format]]
  show "does K (run_all (p # ps)) (bs, U, tm, ls) () (bs @ bytes (cs @ ds), U, tm, ls)" by simp
qed

lemma code_instr:
  "emits_code K (run_all []) []"
  "is_reg r \<Longrightarrow> is_operand rm \<Longrightarrow> emits_code K (i_mov r rm) [mov r rm]"
  "is_reg r \<Longrightarrow> is_operand rm \<Longrightarrow> emits_code K (i_mov_rev r rm) [movr r rm]"
  "is_reg r \<Longrightarrow> is_operand rm \<Longrightarrow> emits_code K (i_xor r rm) [xorr r rm]"
  "is_reg r \<Longrightarrow> is_operand rm \<Longrightarrow> emits_code K (i_cmp r rm) [cmpr r rm]"
  "is_reg r \<Longrightarrow> is_operand rm \<Longrightarrow> emits_code K (i_and r rm) [I_op 0x21 r rm]"
  "is_reg r \<Longrightarrow> is_operand rm \<Longrightarrow> emits_code K (i_add r rm) [I_op 0x01 r rm]"
  "is_reg r \<Longrightarrow> is_operand rm \<Longrightarrow> emits_code K (i_lea r rm) [I_op 0x8d r rm]"
  "is_reg r \<Longrightarrow> is_operand rm \<Longrightarrow> emits_code K (i_imul_i r rm j) [I_imm 0x69 r rm (scast j)]"
  "is_reg r \<Longrightarrow> emits_code K (i_call r) [I_call r]"
  "is_reg r \<Longrightarrow> emits_code K (i_mov_id imm r) [I_mov r imm]"
  "is_operand rm \<Longrightarrow> emits_code K (i_cmp_id imm rm) [cmpi imm rm]"
  by (simp_all add: emits_code_def does_ret does_mov does_mov_rev does_xor does_cmp does_and does_add does_lea does_imul
    does_call does_mov_id does_cmp_id)

lemma code_call: "f \<noteq> F_snow_eval_truth \<Longrightarrow> f \<noteq> F_snow_array_get \<Longrightarrow> emits_code K (CALL env f) (g_call (c_addr env) f)"
  unfolding codegen_compile_call_with_inlining_def g_call_def
  using code_run_all [OF code_instr(11) code_run_all [OF code_instr(10) code_instr(1)]] by simp

lemma TEMPORARY_operand: "is_operand (TEMPORARY i)"
  by (simp add: TEMPORARY_def RBP_def)

lemmas code_rules = code_run_all code_instr rm_simps ADDRESS_is_operand TEMPORARY_operand is_reg_operand

subsection \<open>Truth and elements of arrays\<close>

lemma length_enc_jump [simp]: "length (enc (I_jmp d)) = 5" "length (enc (I_jcc cc d)) = 6"
  by (simp_all add: enc_def)

lemma emits_code_cong: "emits_code K p cs \<Longrightarrow> cs = ds \<Longrightarrow> emits_code K p ds"
  by simp

lemma code_truth:
  "emits_code K (run_all [i_mov RDI RAX, i_mov_id (NOT 6) RCX, i_and RCX RAX, i_xor RCX RCX, i_cmp RAX RCX])
     [mov RDI RAX, I_mov RCX (NOT 6), I_op 0x21 RCX RAX, xorr RCX RCX, cmpr RAX RCX]"
  "emits_code K (run_all [i_mov RDI RAX, i_mov_id SN_TRUE RCX, i_cmp RAX RCX]) [mov RDI RAX, I_mov RCX SN_TRUE, cmpr RAX RCX]"
  by (rule emits_code_cong, (rule code_rules)+, simp)+

lemma emits_truth: "emits_gen K U inline_eval_truth (g_code g_truth) U"
proof -
  define A where "A = bytes [mov RDI RAX, I_mov RCX (NOT 6), I_op 0x21 RCX RAX, xorr RCX RCX, cmpr RAX RCX]"
  define B where "B = bytes [mov RDI RAX, I_mov RCX SN_TRUE, cmpr RAX RCX]"
  define C where "C = enc (xorr RAX RAX)"
  define n where "n = length A + 6 + length B + 6 + length C"
  have b: "bytes g_truth = A @ enc (I_jcc CC_NOT_EQUAL (int (length B + 6 + length C))) @ B @ enc (I_jcc CC_EQUAL (int (length C))) @ C"
    by (simp add: g_truth_def skip_if_def dist_def A_def B_def C_def algebra_simps)
  note code = code_truth [THEN does_code, folded A_def B_def]
  have x: "does K (i_xor RAX RAX) (bs, U, tm, ls) () (bs @ C, U, tm, ls)" for bs tm ls unfolding C_def by (rule does_xor) simp_all
  show ?thesis unfolding emits_gen_def
  proof (intro exI allI)
    fix bs tm ls
    have "does K inline_eval_truth (bs, U, tm, ls) () (bs @ bytes g_truth, U, tm, ls @ [int (length bs + n)])"
      unfolding inline_eval_truth_def b
      by (rule does_bind, rule does_new_label, rule does_bind, rule code(1), rule does_bind, rule does_jump_if,
          rule does_bind, rule code(2), rule does_bind, rule does_jump_if,
          rule does_run_all, rule x, rule does_run_all, rule does_bind_label, simp, simp,
          rule does_run_all, rule does_link_jcc [where A = "bs @ A" and cc = CC_NOT_EQUAL and old = 0 and B = "B @ enc (I_jcc CC_EQUAL 0) @ C"
            and p = "length bs + n" and d = "int (length B + 6 + length C)"],
          simp, simp, simp, simp add: n_def, simp add: n_def, rule refl,
          rule does_run_all, rule does_link_jcc [where A = "bs @ A @ enc (I_jcc CC_NOT_EQUAL (int (length B + 6 + length C))) @ B"
            and cc = CC_EQUAL and old = 0 and B = C and p = "length bs + n" and d = "int (length C)"],
          simp, simp, simp, simp add: n_def, simp add: n_def, rule refl, rule does_cong [OF does_run_nil], simp add: n_def)
    then show "does K inline_eval_truth (bs, U, tm, ls) () (bs @ bytes (fst (g_code g_truth tm)), U, snd (g_code g_truth tm),
        ls @ (\<lambda>bs tm ls. [int (length bs + n)]) bs tm ls)"
      by (simp add: g_code_def)
  qed
qed

lemma code_array_get:
  "emits_code K (run_all [i_lea RDI (ADDRESS RDI 8), i_xor RAX RAX]) [I_op 0x8d RDI (ADDRESS RDI 8), xorr RAX RAX]"
  "emits_code K (run_all [i_mov_rev R8 (ADDRESS RDI 8), i_mov_id 0x00000000ffffffff R9, i_and R9 R8, i_cmp R8 RSI])
     [movr R8 (ADDRESS RDI 8), I_mov R9 0x00000000ffffffff, I_op 0x21 R9 R8, cmpr R8 RSI]"
  "emits_code K (run_all [i_mov_rev RAX (ADDRESS RDI 0), i_imul_i RSI RSI 8, i_add RSI RAX, i_mov_rev RAX (ADDRESS RAX 0)])
     [movr RAX (ADDRESS RDI 0), I_imm 0x69 RSI RSI 8, I_op 0x01 RSI RAX, movr RAX (ADDRESS RAX 0)]"
  by (rule emits_code_cong, (rule code_rules)+, simp)+

lemma pbind_pret [simp]: "pbind (pret x) k = k x"
  by (simp add: pbind_def pret_def fun_eq_iff)

lemma emits_array_get: "emits_gen K U inline_array_get (g_code g_array_get) U"
proof -
  define A where "A = bytes [I_op 0x8d RDI (ADDRESS RDI 8), xorr RAX RAX]"
  define B where "B = bytes [movr R8 (ADDRESS RDI 8), I_mov R9 0x00000000ffffffff, I_op 0x21 R9 R8, cmpr R8 RSI]"
  define C where "C = bytes [movr RAX (ADDRESS RDI 0), I_imm 0x69 RSI RSI 8, I_op 0x01 RSI RAX, movr RAX (ADDRESS RAX 0)]"
  have b: "bytes g_array_get = A @ B @ enc (I_jcc CC_GREATER_EQUAL (int (length C))) @ C"
    by (simp add: g_array_get_def skip_if_def dist_def A_def B_def C_def algebra_simps)
  note code = code_array_get [THEN does_code, folded A_def B_def C_def]
  have split: "run_all [a, b, c, d, e, f] = pbind (run_all [a, b, c, d]) (\<lambda>_. run_all [e, f])" for a b c d e f
    by (simp add: pbind_assoc del: prog_simps)
  show ?thesis unfolding emits_gen_def
  proof (intro exI allI)
    fix bs tm ls
    let ?n = "length A + length B + 6 + length C"
    have "does K inline_array_get (bs, U, tm, ls) () (bs @ bytes g_array_get, U, tm, ls @ [int (length bs + ?n)])"
      unfolding inline_array_get_def b split
      by (rule does_bind, rule code(1), rule does_bind, rule does_new_label, rule does_bind, rule code(2), rule does_bind, rule does_jump_if,
          rule does_bind, rule code(3), rule does_run_all, rule does_bind_label, simp, simp,
          rule does_run_all, rule does_link_jcc [where A = "bs @ A @ B" and cc = CC_GREATER_EQUAL and old = 0 and B = C
            and p = "length bs + ?n" and d = "int (length C)"],
          simp, simp, simp, simp, simp, rule refl, rule does_cong [OF does_run_nil], simp)
    then show "does K inline_array_get (bs, U, tm, ls) () (bs @ bytes (fst (g_code g_array_get tm)), U, snd (g_code g_array_get tm),
        ls @ (\<lambda>bs tm ls. [int (length bs + ?n)]) bs tm ls)"
      by (simp add: g_code_def)
  qed
qed

subsection \<open>Nodes\<close>

declare prog_simps [simp del]

text \<open>The children of the trees of expressions.\<close>

lemma child_simps [simp]:
  "child (AstNode t cs) i = plift (read_slot cs i)"
  "plift (Inr x) = pret x" "as_node (C_node n) = pret n"
  by (simp_all add: child_def plift_def pret_def fun_eq_iff as_node_def)

lemma as_symbol_ok [simp]: "sym_ok s \<Longrightarrow> as_symbol (C_value (symbol_to_value s)) = pret s"
  by (simp add: as_symbol_def sym_ok_def cassert_def)

lemma optional_ok [simp]:
  "(if node_or_null n = C_value 0 then pret None else pbind (as_node (node_or_null n)) (\<lambda>n. pret (Some n))) = pret n"
  by (cases n) (simp_all add: node_or_null_def)

lemmas node_defs = child_node_def child_symbol_def optional_child_def child_array_def create_ast_node_def
  snow_ast_literal_def snow_ast_self_def snow_ast_current_scope_def snow_ast_local_def snow_ast_local_assign_def
  snow_ast_member_def snow_ast_sequence_def snow_ast_if_else_def snow_ast_loop_def snow_ast_and_def snow_ast_or_def
  snow_ast_xor_def snow_ast_not_def

definition compiles :: "cgstate \<Rightarrow> unit cprog \<Rightarrow> cgen \<Rightarrow> bool" where
  "compiles K p G \<longleftrightarrow> (\<forall>U. emits_gen K U p G U)"

lemma compiles_code: "emits_code K p cs \<Longrightarrow> compiles K p (g_code cs)"
  by (simp add: compiles_def emits_code_gen)

lemma compilesD: "compiles K p G \<Longrightarrow> emits_gen K U p G U"
  by (simp add: compiles_def)

lemma compile_literal_emits: "\<not> is_object v \<Longrightarrow> compiles K (compile_literal env (snow_ast_literal v)) (g_code [I_mov RAX v])"
  by (rule compiles_code) (simp add: compile_literal_def node_defs code_instr)

lemma compile_sequence_emits:
  "list_all2 (\<lambda>n G. compiles K (rec n) G) ns Gs \<Longrightarrow> compiles K (compile_sequence rec (snow_ast_sequence (map C_node ns))) (g_seq Gs)"
proof (induction rule: list_all2_induct)
  case Nil
  have "compile_sequence rec (snow_ast_sequence (map C_node [])) = pret ()" by (simp add: compile_sequence_def node_defs)
  then show ?case by (simp add: compiles_def emits_nil)
next
  case (Cons n ns G Gs)
  have "compile_sequence rec (snow_ast_sequence (map C_node (n # ns))) =
      pbind (rec n) (\<lambda>_. compile_sequence rec (snow_ast_sequence (map C_node ns)))"
    by (simp add: compile_sequence_def node_defs)
  with Cons emits_then [of K U "rec n" G U _ "g_seq Gs" U for U] show ?case by (simp add: compiles_def)
qed

text \<open>A function at the top level, with the indices of its locals.\<close>

definition top_level :: "cgstate \<Rightarrow> (SnSymbol \<Rightarrow> int) \<Rightarrow> bool" where
  "top_level K lk \<longleftrightarrow> cg_parent (cgx K) = [] \<and> variable_reference_names (cgx K) = array_init \<and>
     (\<forall>s. snow_function_description_get_local_index (cg_result (cgx K)) s (cg_scopes K) = Inr (lk s, cg_scopes K))"

lemma lookup_simps:
  assumes "top_level K lk"
  shows "on_scopes (snow_function_description_get_local_index (cg_result (cgx K)) s) (gst K lb num fl ls) = Inr (lk s, gst K lb num fl ls)"
    "lk s < 0 \<Longrightarrow> codegen_variable_reference s (gst K lb num fl ls) = Inr (None, gst K lb num fl ls)"
proof -
  show l: "on_scopes (snow_function_description_get_local_index (cg_result (cgx K)) s) (gst K lb num fl ls) = Inr (lk s, gst K lb num fl ls)"
    using assms by (simp add: top_level_def on_scopes_def prog_simps)
  show "codegen_variable_reference s (gst K lb num fl ls) = Inr (None, gst K lb num fl ls)" if "lk s < 0"
    using assms that l array_find_ok [of array_init "symbol_to_value s"]
    by (simp add: codegen_variable_reference_def get_cgx_def Let_def top_level_def prog_simps)
qed

lemma emits_eq:
  assumes "\<And>lb num fl ls. p (gst K lb num fl ls) = q (gst K lb num fl ls)" "emits_gen K U q G V"
  shows "emits_gen K U p G V"
proof -
  have "p s = q s" if "cgs K s \<alpha>" for s \<alpha> using that assms(1) by (auto simp: cgs_def split: prod.splits)
  with assms(2) show ?thesis unfolding emits_gen_def does_def by metis
qed

lemma compile_local_emits:
  assumes "top_level K lk" "sym_ok s"
  shows "compiles K (compile_local env (snow_ast_local s)) (g_local (c_addr env) (lk s) s)"
  unfolding compiles_def
proof
  fix U
  let ?q = "if lk s \<ge> 0 then run_all [i_mov_rev RDI (ADDRESS R13 locals_offset), i_mov_id (word_of_int (lk s)) RSI, CALL env F_snow_array_get]
    else run_all [i_mov_id s RDI, i_mov R13 RSI, CALL env F_snow_get_unspecified_local_from_context]"
  have "emits_gen K U ?q (g_local (c_addr env) (lk s) s) U"
  proof (cases "lk s \<ge> 0")
    case True
    have "emits_gen K U (run_all [i_mov_rev RDI (ADDRESS R13 locals_offset), i_mov_id (word_of_int (lk s)) RSI, inline_array_get])
        (g_then (g_code [movr RDI (ADDRESS R13 locals_offset)]) (g_then (g_code [I_mov RSI (word_of_int (lk s))])
          (g_then (g_code g_array_get) (g_code [])))) U"
      by (rule emits_run_all emits_code_gen emits_array_get emits_nil code_rules)+
    then show ?thesis using True by (simp add: g_local_def codegen_compile_call_with_inlining_def)
  next
    case False
    have "emits_code K (run_all [i_mov_id s RDI, i_mov R13 RSI, CALL env F_snow_get_unspecified_local_from_context])
        ([I_mov RDI s] @ [mov R13 RSI] @ g_call (c_addr env) F_snow_get_unspecified_local_from_context @ [])"
      by (rule code_rules code_call | simp)+
    from emits_code_gen [OF this] show ?thesis using False by (simp add: g_local_def)
  qed
  then show "emits_gen K U (compile_local env (snow_ast_local s)) (g_local (c_addr env) (lk s) s) U"
    by (rule emits_eq [rotated]) (use assms(2) lookup_simps [OF assms(1)] in
      \<open>auto simp: compile_local_def node_defs get_cgx_def prog_simps\<close>)
qed

lemma compile_member_emits:
  assumes "compiles K (rec n) G" "sym_ok s"
  shows "compiles K (compile_member env rec (snow_ast_member n s)) (g_member (c_addr env) s G)"
  unfolding compiles_def
proof
  fix U
  have "emits_gen K U (run_all [rec n, i_mov RAX RDI, i_mov_id s RSI, CALL env F_snow_get_member_with_fallback])
      (g_then G (g_then (g_code [mov RAX RDI]) (g_then (g_code [I_mov RSI s])
        (g_then (g_code (g_call (c_addr env) F_snow_get_member_with_fallback)) (g_code []))))) U"
    by (rule emits_run_all compilesD [OF assms(1)] emits_code_gen emits_nil code_call code_rules | simp)+
  then show "emits_gen K U (compile_member env rec (snow_ast_member n s)) (g_member (c_addr env) s G) U"
    using assms(2) by (simp add: compile_member_def node_defs g_member_def)
qed

lemma compile_local_assignment_emits:
  assumes "compiles K (rec n) G" "sym_ok s" "top_level K lk"
  shows "compiles K (compile_local_assignment env rec (snow_ast_local_assign s n)) (g_assign (c_addr env) (lk s) s G)"
  unfolding compiles_def
proof
  fix U
  let ?store = "if lk s \<ge> 0 then [i_mov_rev RDI (ADDRESS R13 locals_offset), i_mov_id (word_of_int (lk s)) RSI,
      i_mov RAX RDX, CALL env F_snow_array_set]
    else [i_mov_id s RDI, i_mov RAX RSI, i_mov R13 RDX, CALL env F_snow_set_global_from_context]"
  let ?code = "if lk s \<ge> 0
    then [movr RDI (ADDRESS R13 locals_offset), I_mov RSI (word_of_int (lk s)), mov RAX RDX] @ g_call (c_addr env) F_snow_array_set
    else [I_mov RDI s, mov RAX RSI, mov R13 RDX] @ g_call (c_addr env) F_snow_set_global_from_context"
  let ?fin = "[i_mov RAX RDI, i_mov_id s RSI, i_xor RDX RDX, CALL env F_snow_set_object_assigned]"
  have "emits_code K (run_all ?store) ?code"
    by (cases "lk s \<ge> 0"; simp del: run_all.simps; rule emits_code_cong, (rule code_rules code_call | simp)+)
  moreover have "emits_code K (run_all ?fin) ([mov RAX RDI, I_mov RSI s, xorr RDX RDX] @ g_call (c_addr env) F_snow_set_object_assigned)"
    by (rule emits_code_cong, (rule code_rules code_call | simp)+)
  ultimately have "emits_gen K U (pbind (pbind (rec n) (\<lambda>_. run_all ?store)) (\<lambda>_. run_all ?fin)) (g_assign (c_addr env) (lk s) s G) U"
    unfolding g_assign_def using emits_then [OF emits_then [OF compilesD [OF assms(1)] emits_code_gen] emits_code_gen]
    by fastforce
  then show "emits_gen K U (compile_local_assignment env rec (snow_ast_local_assign s n)) (g_assign (c_addr env) (lk s) s G) U"
    by (rule emits_eq [rotated]) (use assms(2,3) lookup_simps [OF assms(3)] in
      \<open>auto simp: compile_local_assignment_def node_defs get_cgx_def prog_simps top_level_def\<close>)
qed

lemma compile_member_assignment_emits:
  assumes X: "compiles K (rec n) G" and Y: "compiles K (rec v) H" and s: "sym_ok s"
  shows "compiles K (compile_member_assignment env rec (create_ast_node SN_AST_MEMBER_ASSIGNMENT [C_node (snow_ast_member n s), C_node v]))
    (g_member_assign (c_addr env) s G H)"
  unfolding compiles_def
proof
  fix U
  have "emits_gen K U (pbind codegen_reserve_tmp (\<lambda>t. pbind (run_all [rec n, i_mov RAX (TEMPORARY t)]) (\<lambda>_.
      run_all [rec v, i_mov RAX RDX, i_mov_rev RDI (TEMPORARY t), i_mov_id s RSI, CALL env F_snow_set_member,
        i_mov RAX RDI, i_mov_id s RSI, i_mov_rev RDX (TEMPORARY t), CALL env F_snow_set_object_assigned, codegen_free_tmp t])))
    (g_member_assign (c_addr env) s G H) U"
    unfolding g_member_assign_def
  proof (rule emits_tmp)
    fix t assume t: "t \<notin> U"
    show "emits_gen K (insert t U) (pbind (run_all [rec n, i_mov RAX (TEMPORARY (int t))]) (\<lambda>_.
        run_all [rec v, i_mov RAX RDX, i_mov_rev RDI (TEMPORARY (int t)), i_mov_id s RSI, CALL env F_snow_set_member,
          i_mov RAX RDI, i_mov_id s RSI, i_mov_rev RDX (TEMPORARY (int t)), CALL env F_snow_set_object_assigned, codegen_free_tmp (int t)]))
      (g_then G (g_then (g_code [mov RAX (TMP t)]) (g_then H (g_then (g_code (
       [mov RAX RDX, movr RDI (TMP t), I_mov RSI s] @ g_call (c_addr env) F_snow_set_member @
       [mov RAX RDI, I_mov RSI s, movr RDX (TMP t)] @ g_call (c_addr env) F_snow_set_object_assigned)) (g_release t))))) U"
      by (rule emits_gen_cong, (rule emits_then emits_run_all emits_nil compilesD [OF X] compilesD [OF Y] emits_release [OF t] emits_code_gen
        code_call code_rules | simp)+, simp add: TMP_def)
  qed
  then show "emits_gen K U (compile_member_assignment env rec (create_ast_node SN_AST_MEMBER_ASSIGNMENT [C_node (snow_ast_member n s), C_node v]))
      (g_member_assign (c_addr env) s G H) U"
    using s by (simp add: compile_member_assignment_def node_defs)
qed

subsubsection \<open>Nodes with jumps\<close>

lemma emits_genI:
  assumes "\<And>bs tm ls c tm'. G tm = (c, tm') \<Longrightarrow> \<exists>ls'. take (length ls) ls' = ls \<and> does K p (bs, U, tm, ls) () (bs @ bytes c, V, tm', ls')"
  shows "emits_gen K U p G V"
proof -
  have "\<exists>more. does K p (bs, U, tm, ls) () (bs @ bytes (fst (G tm)), V, snd (G tm), ls @ more)" for bs tm ls
  proof -
    obtain ls' where l: "take (length ls) ls' = ls" "does K p (bs, U, tm, ls) () (bs @ bytes (fst (G tm)), V, snd (G tm), ls')"
      using assms [of tm "fst (G tm)" "snd (G tm)" ls bs] by auto
    have "ls' = ls @ drop (length ls) ls'" using append_take_drop_id [of "length ls" ls'] unfolding l(1) by simp
    with l(2) show ?thesis by metis
  qed
  then show ?thesis unfolding emits_gen_def by metis
qed

lemma emits_genD:
  assumes "emits_gen K U p G V" "G tm = (c, tm')"
  obtains N where "\<forall>bs ls. does K p (bs, U, tm, ls) () (bs @ bytes c, V, tm', ls @ N bs ls)"
proof -
  obtain N where "\<And>bs tm ls. does K p (bs, U, tm, ls) () (bs @ bytes (fst (G tm)), V, snd (G tm), ls @ N bs tm ls)"
    using assms(1) unfolding emits_gen_def by blast
  from this [of _ tm] assms(2) show ?thesis by (intro that [of "\<lambda>bs ls. N bs tm ls"]) simp
qed

lemma does_end: "bs = bs' \<Longrightarrow> does K (run_all []) (bs, U, tm, ls) () (bs', U, tm, ls)"
  by (simp add: does_ret)

lemma emits_option: "rel_option (\<lambda>n G. compiles K (rec n) G) b Y \<Longrightarrow> compiles K (when_some b rec) (g_option Y)"
  by (cases b; cases Y) (simp_all add: when_some_def g_option_def compiles_def emits_nil)

lemma emits_test: "emits_gen K U (run_all [i_mov RAX RDI, CALL env F_snow_eval_truth, i_xor RCX RCX, i_cmp RAX RCX]) (g_code g_test) U"
proof -
  have t: "emits_gen K U (CALL env F_snow_eval_truth) (g_code g_truth) U"
    by (simp add: codegen_compile_call_with_inlining_def emits_truth)
  show ?thesis unfolding g_test_def
    by (rule emits_gen_cong, (rule t emits_run_all emits_nil emits_code_gen code_rules)+, simp)
qed

lemma compile_if_else_emits:
  assumes X: "compiles K (rec n) X" and Y: "rel_option (\<lambda>n G. compiles K (rec n) G) b Y" and Z: "rel_option (\<lambda>n G. compiles K (rec n) G) e Z"
  shows "compiles K (compile_if_else env rec (snow_ast_if_else n b e)) (g_if X Y Z)"
  unfolding compiles_def
proof (intro allI emits_genI)
  fix U bs tm ls c tm' assume "g_if X Y Z tm = (c, tm')"
  then obtain x tm1 y tm2 z where x: "X tm = (x, tm1)" "g_option Y tm1 = (y, tm2)" "g_option Z tm2 = (z, tm')"
      "c = x @ g_test @ skip_if CC_EQUAL (y @ [I_jmp (dist z)]) @ z"
    by (auto simp: g_if_def split: prod.splits)
  obtain NX where NX: "\<forall>bs ls. does K (rec n) (bs, U, tm, ls) () (bs @ bytes x, U, tm1, ls @ NX bs ls)"
    by (rule emits_genD [OF compilesD [where U = U, OF X] x(1)])
  obtain NY where NY: "\<forall>bs ls. does K (when_some b rec) (bs, U, tm1, ls) () (bs @ bytes y, U, tm2, ls @ NY bs ls)"
    by (rule emits_genD [OF compilesD [where U = U, OF emits_option [where b = b and rec = rec, OF Y]] x(2)])
  obtain NZ where NZ: "\<forall>bs ls. does K (when_some e rec) (bs, U, tm2, ls) () (bs @ bytes z, U, tm', ls @ NZ bs ls)"
    by (rule emits_genD [OF compilesD [where U = U, OF emits_option [where b = e and rec = rec, OF Z]] x(3)])
  have gt: "g_code g_test tm1 = (g_test, tm1)" by (simp add: g_code_def)
  obtain NT where NT: "\<forall>bs ls. does K (run_all [i_mov RAX RDI, CALL env F_snow_eval_truth, i_xor RCX RCX, i_cmp RAX RCX]) (bs, U, tm1, ls) ()
      (bs @ bytes g_test, U, tm1, ls @ NT bs ls)"
    by (rule emits_genD [OF emits_test [where U = U] gt])
  define xs ts ys zs where "xs = bytes x" and "ts = bytes g_test" and "ys = bytes y" and "zs = bytes z"
  note d = NX [folded xs_def, rule_format] NT [folded ts_def, rule_format] NY [folded ys_def, rule_format] NZ [folded zs_def, rule_format]
  let ?A = "bs @ xs @ ts" and ?B = "ys @ enc (I_jmp 0) @ zs" and ?B' = "ys @ enc (I_jmp (int (length zs))) @ zs"
  have b: "bytes c = xs @ ts @ enc (I_jcc CC_EQUAL (int (length ys + 5))) @ ?B'"
    by (simp add: x(4) skip_if_def dist_def xs_def ts_def ys_def zs_def)
  have eq: "compile_if_else env rec (snow_ast_if_else n b e) = pbind new_label (\<lambda>if_false. pbind new_label (\<lambda>after.
     pbind (rec n) (\<lambda>_. pbind (jump_if_false env if_false) (\<lambda>false_jump.
     pbind (when_some b rec) (\<lambda>_. pbind (jump after) (\<lambda>after_jump. pbind (bind_label if_false) (\<lambda>_. pbind (when_some e rec) (\<lambda>_.
     run_all [bind_label after, link_ref false_jump, link_ref after_jump]))))))))"
    by (simp add: compile_if_else_def node_defs)
  show "\<exists>ls'. take (length ls) ls' = ls \<and> does K (compile_if_else env rec (snow_ast_if_else n b e)) (bs, U, tm, ls) () (bs @ bytes c, U, tm', ls')"
    unfolding eq b jump_if_false_def
    by (rule exI, rule conjI [rotated], rule does_bind, rule does_new_label, rule does_bind, rule does_new_label, rule does_bind, rule d(1),
        rule does_bind, rule does_bind, rule d(2), rule does_jump_if, rule does_bind, rule d(3), rule does_bind, rule does_jump,
        rule does_bind, rule does_bind_label, simp add: nth_append, simp add: nth_append, rule does_bind, rule d(4),
        rule does_run_all, rule does_bind_label, simp add: nth_append, simp add: nth_append,
        rule does_run_all, rule does_link_jcc [where A = ?A and cc = CC_EQUAL and old = 0 and B = ?B and p = "length (?A @ ys) + 11" and d = "int (length ys + 5)"],
        simp, simp, simp add: nth_append, simp add: nth_append, simp, rule refl,
        rule does_run_all, rule does_link_jmp [where A = "?A @ enc (I_jcc CC_EQUAL (int (length ys + 5))) @ ys" and old = 0 and B = zs
          and p = "length (?A @ ys @ zs) + 11" and d = "int (length zs)"],
        simp, simp, simp add: nth_append, simp add: nth_append, simp, rule refl, rule does_end, simp, simp)
qed

lemma compile_loop_emits:
  assumes X: "compiles K (rec n) X" and Y: "compiles K (rec b) Y"
  shows "compiles K (compile_loop env rec (snow_ast_loop n b)) (g_loop X Y)"
  unfolding compiles_def
proof (intro allI emits_genI)
  fix U bs tm ls c tm' assume "g_loop X Y tm = (c, tm')"
  then obtain x tm1 y where x: "X tm = (x, tm1)" "Y tm1 = (y, tm')"
      "c = x @ g_test @ skip_if CC_EQUAL (y @ [I_jmp (- (dist x + dist g_test + 6 + dist y + 5))])"
    by (auto simp: g_loop_def split: prod.splits)
  obtain NX where NX: "\<forall>bs ls. does K (rec n) (bs, U, tm, ls) () (bs @ bytes x, U, tm1, ls @ NX bs ls)"
    by (rule emits_genD [OF compilesD [where U = U, OF X] x(1)])
  obtain NY where NY: "\<forall>bs ls. does K (rec b) (bs, U, tm1, ls) () (bs @ bytes y, U, tm', ls @ NY bs ls)"
    by (rule emits_genD [OF compilesD [where U = U, OF Y] x(2)])
  have gt: "g_code g_test tm1 = (g_test, tm1)" by (simp add: g_code_def)
  obtain NT where NT: "\<forall>bs ls. does K (run_all [i_mov RAX RDI, CALL env F_snow_eval_truth, i_xor RCX RCX, i_cmp RAX RCX]) (bs, U, tm1, ls) ()
      (bs @ bytes g_test, U, tm1, ls @ NT bs ls)"
    by (rule emits_genD [OF emits_test [where U = U] gt])
  define xs ts ys where "xs = bytes x" and "ts = bytes g_test" and "ys = bytes y"
  note d = NX [folded xs_def, rule_format] NT [folded ts_def, rule_format] NY [folded ys_def, rule_format]
  let ?A = "bs @ xs @ ts" and ?d = "- (int (length xs + length ts + 6 + length ys + 5))"
  have b: "bytes c = xs @ ts @ enc (I_jcc CC_EQUAL (int (length ys + 5))) @ ys @ enc (I_jmp ?d)"
    by (simp add: x(3) skip_if_def dist_def xs_def ts_def ys_def)
  have eq: "compile_loop env rec (snow_ast_loop n b) = pbind new_label (\<lambda>cond. pbind new_label (\<lambda>after. pbind (bind_label cond) (\<lambda>_.
     pbind (rec n) (\<lambda>_. pbind (jump_if_false env after) (\<lambda>after_jmp. pbind (rec b) (\<lambda>_. pbind (jump cond) (\<lambda>cond_jmp.
     run_all [bind_label after, link_ref after_jmp, link_ref cond_jmp])))))))"
    by (simp add: compile_loop_def node_defs)
  show "\<exists>ls'. take (length ls) ls' = ls \<and> does K (compile_loop env rec (snow_ast_loop n b)) (bs, U, tm, ls) () (bs @ bytes c, U, tm', ls')"
    unfolding eq b jump_if_false_def
    by (rule exI, rule conjI [rotated], rule does_bind, rule does_new_label, rule does_bind, rule does_new_label,
        rule does_bind, rule does_bind_label, simp add: nth_append, simp add: nth_append, rule does_bind, rule d(1),
        rule does_bind, rule does_bind, rule d(2), rule does_jump_if, rule does_bind, rule d(3), rule does_bind, rule does_jump,
        rule does_run_all, rule does_bind_label, simp add: nth_append, simp add: nth_append,
        rule does_run_all, rule does_link_jcc [where A = ?A and cc = CC_EQUAL and old = 0 and B = "ys @ enc (I_jmp 0)" and p = "length (?A @ ys) + 11"
          and d = "int (length ys + 5)"],
        simp, simp, simp add: nth_append, simp add: nth_append, simp, rule refl,
        rule does_run_all, rule does_link_jmp [where A = "?A @ enc (I_jcc CC_EQUAL (int (length ys + 5))) @ ys" and old = 0 and B = "[]"
          and p = "length bs" and d = ?d],
        simp, simp, simp add: nth_append, simp add: nth_append, simp, rule refl, rule does_end, simp, simp)
qed

lemma compile_not_emits:
  assumes X: "compiles K (rec n) X"
  shows "compiles K (compile_not env rec (snow_ast_not n)) (g_not X)"
  unfolding compiles_def
proof (intro allI emits_genI)
  fix U bs tm ls c tm' assume "g_not X tm = (c, tm')"
  then obtain x where x: "X tm = (x, tm')"
      "c = x @ g_test @ skip_if CC_EQUAL [I_mov RAX SN_FALSE, I_jmp (dist [I_mov RAX SN_TRUE])] @ [I_mov RAX SN_TRUE]"
    by (auto simp: g_not_def g_then_def g_code_def split: prod.splits)
  obtain NX where NX: "\<forall>bs ls. does K (rec n) (bs, U, tm, ls) () (bs @ bytes x, U, tm', ls @ NX bs ls)"
    by (rule emits_genD [OF compilesD [where U = U, OF X] x(1)])
  have gt: "g_code g_test tm' = (g_test, tm')" by (simp add: g_code_def)
  obtain NT where NT: "\<forall>bs ls. does K (run_all [i_mov RAX RDI, CALL env F_snow_eval_truth, i_xor RCX RCX, i_cmp RAX RCX]) (bs, U, tm', ls) ()
      (bs @ bytes g_test, U, tm', ls @ NT bs ls)"
    by (rule emits_genD [OF emits_test [where U = U] gt])
  define xs ts fs us where "xs = bytes x" and "ts = bytes g_test" and "fs = enc (I_mov RAX SN_FALSE)" and "us = enc (I_mov RAX SN_TRUE)"
  note d = NX [folded xs_def, rule_format] NT [folded ts_def, rule_format]
  have f: "does K (i_mov_id SN_FALSE RAX) (bs, U, tm, ls) () (bs @ fs, U, tm, ls)" for bs tm ls unfolding fs_def by (rule does_mov_id) simp
  have u: "does K (i_mov_id SN_TRUE RAX) (bs, U, tm, ls) () (bs @ us, U, tm, ls)" for bs tm ls unfolding us_def by (rule does_mov_id) simp
  let ?A = "bs @ xs @ ts"
  have b: "bytes c = xs @ ts @ enc (I_jcc CC_EQUAL (int (length fs + 5))) @ fs @ enc (I_jmp (int (length us))) @ us"
    by (simp add: x(2) skip_if_def dist_def xs_def ts_def fs_def us_def)
  have eq: "compile_not env rec (snow_ast_not n) = pbind new_label (\<lambda>if_false. pbind new_label (\<lambda>after. pbind (rec n) (\<lambda>_.
     pbind (jump_if_false env if_false) (\<lambda>false_jump. pbind (i_mov_id SN_FALSE RAX) (\<lambda>_. pbind (jump after) (\<lambda>after_jump.
     run_all [bind_label if_false, i_mov_id SN_TRUE RAX, bind_label after, link_ref false_jump, link_ref after_jump]))))))"
    by (simp add: compile_not_def node_defs)
  show "\<exists>ls'. take (length ls) ls' = ls \<and> does K (compile_not env rec (snow_ast_not n)) (bs, U, tm, ls) () (bs @ bytes c, U, tm', ls')"
    unfolding eq b jump_if_false_def
    by (rule exI, rule conjI [rotated], rule does_bind, rule does_new_label, rule does_bind, rule does_new_label, rule does_bind, rule d(1),
        rule does_bind, rule does_bind, rule d(2), rule does_jump_if, rule does_bind, rule f, rule does_bind, rule does_jump,
        rule does_run_all, rule does_bind_label, simp add: nth_append, simp add: nth_append, rule does_run_all, rule u,
        rule does_run_all, rule does_bind_label, simp add: nth_append, simp add: nth_append,
        rule does_run_all, rule does_link_jcc [where A = ?A and cc = CC_EQUAL and old = 0 and B = "fs @ enc (I_jmp 0) @ us" and p = "length (?A @ fs) + 11"
          and d = "int (length fs + 5)"],
        simp, simp, simp add: nth_append, simp add: nth_append, simp, rule refl,
        rule does_run_all, rule does_link_jmp [where A = "?A @ enc (I_jcc CC_EQUAL (int (length fs + 5))) @ fs" and old = 0 and B = us
          and p = "length (?A @ fs @ us) + 11" and d = "int (length us)"],
        simp, simp, simp add: nth_append, simp add: nth_append, simp, rule refl, rule does_end, simp, simp)
qed

lemma compile_and_or_emits:
  assumes X: "compiles K (rec l) X" and Y: "compiles K (rec r) Y"
  shows "compiles K (compile_and_or cc env rec (AstNode t [C_node l, C_node r])) (g_and_or cc X Y)"
  unfolding compiles_def
proof
  fix U
  let ?block = "\<lambda>i. run_all [rec l, i_mov RAX (TEMPORARY i), i_mov RAX RDI, CALL env F_snow_eval_truth, i_cmp_id 0 RAX,
      i_mov_rev RAX (TEMPORARY i), codegen_free_tmp i]"
  let ?mid = "\<lambda>i. [mov RAX (TMP i), mov RAX RDI] @ g_truth @ [cmpi 0 RAX, movr RAX (TMP i)]"
  let ?p = "\<lambda>i. pbind new_label (\<lambda>done. pbind (?block i) (\<lambda>_. pbind (jump_if cc done) (\<lambda>ref.
      run_all [rec r, bind_label done, link_ref ref])))"
  have truth: "emits_gen K V (CALL env F_snow_eval_truth) (g_code g_truth) V" for V
    by (simp add: codegen_compile_call_with_inlining_def emits_truth)
  have "emits_gen K U (pbind codegen_reserve_tmp ?p) (g_and_or cc X Y) U"
    unfolding g_and_or_def
  proof (rule emits_tmp)
    fix i assume i: "i \<notin> U"
    have e: "emits_gen K (insert i U) (?block (int i)) (g_then X (g_then (g_code (?mid i)) (g_release i))) U"
      by (rule emits_gen_cong, (rule truth emits_run_all emits_nil compilesD [OF X] emits_release [OF i] emits_code_gen code_rules)+, simp add: TMP_def)
    show "emits_gen K (insert i U) (?p (int i))
      (g_then X (g_then (g_code (?mid i)) (g_then (g_release i) (\<lambda>tm. apfst (skip_if cc) (Y tm))))) U"
    proof (rule emits_genI)
      fix bs tm ls c tm'
      assume c: "g_then X (g_then (g_code (?mid i)) (g_then (g_release i) (\<lambda>tm. apfst (skip_if cc) (Y tm)))) tm = (c, tm')"
      obtain x tm1 where x: "g_then X (g_then (g_code (?mid i)) (g_release i)) tm = (x, tm1)" by (cases "g_then X (g_then (g_code (?mid i)) (g_release i)) tm")
      obtain y tm2 where y: "Y tm1 = (y, tm2)" by (cases "Y tm1")
      have cy: "c = x @ skip_if cc y" "tm2 = tm'" using c x y by (auto simp: g_then_def split: prod.splits)
      obtain NX where NX: "\<forall>bs ls. does K (?block (int i)) (bs, insert i U, tm, ls) () (bs @ bytes x, U, tm1, ls @ NX bs ls)"
        by (rule emits_genD [OF e x])
      obtain NY where NY: "\<forall>bs ls. does K (rec r) (bs, U, tm1, ls) () (bs @ bytes y, U, tm2, ls @ NY bs ls)"
        by (rule emits_genD [OF compilesD [where U = U, OF Y] y])
      define xs ys where "xs = bytes x" and "ys = bytes y"
      note d = NX [folded xs_def, rule_format] NY [folded ys_def, rule_format]
      have b: "bytes c = xs @ enc (I_jcc cc (int (length ys))) @ ys" by (simp add: cy skip_if_def dist_def xs_def ys_def)
      show "\<exists>ls'. take (length ls) ls' = ls \<and> does K (?p (int i)) (bs, insert i U, tm, ls) () (bs @ bytes c, U, tm', ls')"
        unfolding b cy(2) [symmetric]
        by (rule exI, rule conjI [rotated], rule does_bind, rule does_new_label, rule does_bind, rule d(1), rule does_bind, rule does_jump_if,
            rule does_run_all, rule d(2), rule does_run_all, rule does_bind_label, simp add: nth_append, simp add: nth_append,
            rule does_run_all, rule does_link_jcc [where A = "bs @ xs" and cc = cc and old = 0 and B = ys and p = "length (bs @ xs @ ys) + 6"
              and d = "int (length ys)"],
            simp, simp, simp add: nth_append, simp add: nth_append, simp, rule refl, rule does_end, simp, simp)
    qed
  qed
  then show "emits_gen K U (compile_and_or cc env rec (AstNode t [C_node l, C_node r])) (g_and_or cc X Y) U"
    by (simp add: compile_and_or_def node_defs)
qed

lemma bytes_xor_choose:
  "bytes (g_xor_choose a b) = (let fs = enc (I_mov RAX SN_FALSE); ms = enc (movr RAX (TMP a)); ns = enc (movr RAX (TMP b)); cs = enc (cmpi 0 RAX);
     lf = int (length fs)
   in enc (I_jcc CC_EQUAL (int (length cs + 6 + length ns + 5 + length ms + 5))) @ cs @ enc (I_jcc CC_NOT_EQUAL (int (length ns + 5))) @
      ns @ enc (I_jmp (int (length ms + 5 + length fs))) @ ms @ enc (I_jmp lf) @ fs)"
  by (simp add: g_xor_choose_def skip_if_def dist_def Let_def add.commute add.left_commute)

lemma compile_xor_emits:
  assumes X: "compiles K (rec l) X" and Y: "compiles K (rec r) Y"
  shows "compiles K (compile_xor env rec (snow_ast_xor l r)) (g_xor X Y)"
  unfolding compiles_def
proof (intro allI emits_genI)
  fix U bs tm ls c tm' assume c: "g_xor X Y tm = (c, tm')"
  let ?block = "\<lambda>i j. [rec l, i_mov RAX (TEMPORARY i), rec r, i_mov RAX (TEMPORARY j),
       i_mov RAX RDI, CALL env F_snow_eval_truth, i_mov RAX RBX, i_mov_rev RDI (TEMPORARY i), CALL env F_snow_eval_truth, i_cmp RAX RBX]"
  let ?G = "\<lambda>a b. g_then X (g_then (g_code [mov RAX (TMP a)]) (g_then Y (g_code ([mov RAX (TMP b), mov RAX RDI] @ g_truth @
       [mov RAX RBX, movr RDI (TMP a)] @ g_truth @ [cmpr RAX RBX]))))"
  obtain a tma where a: "g_reserve tm = (a, tma)" by (cases "g_reserve tm")
  obtain b tmb where b: "g_reserve tma = (b, tmb)" by (cases "g_reserve tma")
  obtain x tm1 where x: "?G a b tmb = (x, tm1)" by (cases "?G a b tmb")
  have cx: "c = x @ g_xor_choose a b" "tm1 = tm'" using c x a b by (auto simp: g_xor_def g_with_tmp_def g_then_def g_code_def split: prod.splits)
  let ?V = "insert b (insert a U)"
  have truth: "emits_gen K V (CALL env F_snow_eval_truth) (g_code g_truth) V" for V
    by (simp add: codegen_compile_call_with_inlining_def emits_truth)
  have e: "emits_gen K ?V (run_all (?block (int a) (int b))) (?G a b) ?V"
    by (rule emits_gen_cong, (rule truth emits_run_all emits_nil compilesD [OF X] compilesD [OF Y] emits_code_gen code_rules)+, simp add: TMP_def)
  obtain NX where NX: "\<forall>bs ls. does K (run_all (?block (int a) (int b))) (bs, ?V, tmb, ls) () (bs @ bytes x, ?V, tm1, ls @ NX bs ls)"
    by (rule emits_genD [OF e x])
  define xs fs ms ns cs where "xs = bytes x" and "fs = enc (I_mov RAX SN_FALSE)" and "ms = enc (movr RAX (TMP a))"
    and "ns = enc (movr RAX (TMP b))" and "cs = enc (cmpi 0 RAX)"
  note d = NX [folded xs_def, rule_format]
  have f: "does K (i_mov_id SN_FALSE RAX) (bs, U, tm, ls) () (bs @ fs, U, tm, ls)" for bs U tm ls unfolding fs_def by (rule does_mov_id) simp
  have m: "does K (i_mov_rev RAX (TEMPORARY (int a))) (bs, U, tm, ls) () (bs @ ms, U, tm, ls)" for bs U tm ls
    unfolding ms_def TMP_def by (rule does_mov_rev) (simp_all add: TEMPORARY_operand)
  have n: "does K (i_mov_rev RAX (TEMPORARY (int b))) (bs, U, tm, ls) () (bs @ ns, U, tm, ls)" for bs U tm ls
    unfolding ns_def TMP_def by (rule does_mov_rev) (simp_all add: TEMPORARY_operand)
  have cm: "does K (i_cmp_id 0 RAX) (bs, U, tm, ls) () (bs @ cs, U, tm, ls)" for bs U tm ls unfolding cs_def by (rule does_cmp_id) simp
  have bc: "bytes c = xs @ enc (I_jcc CC_EQUAL (int (length cs + 6 + length ns + 5 + length ms + 5))) @ cs @ enc (I_jcc CC_NOT_EQUAL (int (length ns + 5))) @
      ns @ enc (I_jmp (int (length ms + 5 + length fs))) @ ms @ enc (I_jmp (int (length fs))) @ fs"
    by (simp add: cx bytes_xor_choose Let_def xs_def fs_def ms_def ns_def cs_def)
  have eq: "compile_xor env rec (snow_ast_xor l r) = pbind new_label (\<lambda>both. pbind new_label (\<lambda>left. pbind new_label (\<lambda>done.
     pbind codegen_reserve_tmp (\<lambda>i. pbind codegen_reserve_tmp (\<lambda>j. pbind (run_all (?block i j)) (\<lambda>_.
     pbind (jump_if CC_EQUAL both) (\<lambda>both_ref. pbind (i_cmp_id 0 RAX) (\<lambda>_. pbind (jump_if CC_NOT_EQUAL left) (\<lambda>left_ref.
     pbind (i_mov_rev RAX (TEMPORARY j)) (\<lambda>_. pbind (jump done) (\<lambda>done_ref1.
     pbind (run_all [bind_label left, i_mov_rev RAX (TEMPORARY i)]) (\<lambda>_. pbind (jump done) (\<lambda>done_ref2.
     run_all [bind_label both, i_mov_id SN_FALSE RAX, bind_label done, link_ref both_ref, link_ref left_ref,
       link_ref done_ref1, link_ref done_ref2])))))))))))))"
    by (simp add: compile_xor_def node_defs)
  let ?k = "length cs + 6 + length ns + 5 + length ms + 5"
  let ?A = "bs @ xs" and ?B = "cs @ enc (I_jcc CC_NOT_EQUAL 0) @ ns @ enc (I_jmp 0) @ ms @ enc (I_jmp 0) @ fs"
  let ?A2 = "?A @ enc (I_jcc CC_EQUAL (int ?k)) @ cs" and ?B2 = "ns @ enc (I_jmp 0) @ ms @ enc (I_jmp 0) @ fs"
  let ?A3 = "?A2 @ enc (I_jcc CC_NOT_EQUAL (int (length ns + 5))) @ ns" and ?B3 = "ms @ enc (I_jmp 0) @ fs"
  let ?A4 = "?A3 @ enc (I_jmp (int (length ms + 5 + length fs))) @ ms"
  show "\<exists>ls'. take (length ls) ls' = ls \<and> does K (compile_xor env rec (snow_ast_xor l r)) (bs, U, tm, ls) () (bs @ bytes c, U, tm', ls')"
    unfolding eq bc cx(2) [symmetric]
    by (rule exI, rule conjI [rotated], rule does_weaken [where U = ?V],
        rule does_bind, rule does_new_label, rule does_bind, rule does_new_label, rule does_bind, rule does_new_label,
        rule does_bind, rule does_reserve [OF a], rule does_bind, rule does_reserve [OF b], rule does_bind, rule d,
        rule does_bind, rule does_jump_if, rule does_bind, rule cm, rule does_bind, rule does_jump_if, rule does_bind, rule n, rule does_bind, rule does_jump,
        rule does_bind, rule does_run_all, rule does_bind_label, simp add: nth_append, simp add: nth_append, rule does_run_all, rule m, rule does_run_nil,
        rule does_bind, rule does_jump, rule does_run_all, rule does_bind_label, simp add: nth_append, simp add: nth_append, rule does_run_all, rule f,
        rule does_run_all, rule does_bind_label, simp add: nth_append, simp add: nth_append,
        rule does_run_all, rule does_link_jcc [where A = ?A and cc = CC_EQUAL and old = 0 and B = ?B and p = "length ?A + 6 + ?k" and d = "int ?k"],
        simp, simp, simp add: nth_append, simp add: nth_append, simp, rule refl,
        rule does_run_all, rule does_link_jcc [where A = ?A2 and cc = CC_NOT_EQUAL and old = 0 and B = ?B2
          and p = "length ?A2 + 6 + length ns + 5" and d = "int (length ns + 5)"],
        simp, simp, simp add: nth_append, simp add: nth_append, simp, rule refl,
        rule does_run_all, rule does_link_jmp [where A = ?A3 and old = 0 and B = ?B3
          and p = "length ?A3 + 5 + length ms + 5 + length fs" and d = "int (length ms + 5 + length fs)"],
        simp, simp, simp add: nth_append, simp add: nth_append, simp, rule refl,
        rule does_run_all, rule does_link_jmp [where A = ?A4 and old = 0 and B = fs
          and p = "length ?A4 + 5 + length fs" and d = "int (length fs)"],
        simp, simp, simp add: nth_append, simp add: nth_append, simp, rule refl, rule does_end, simp,
        blast,
        simp)
qed

subsubsection \<open>Calls\<close>

lemma for_each_emits:
  "list_all2 (\<lambda>x G. emits_gen K V (f x) G V) xs Gs \<Longrightarrow> emits_gen K V (for_each f xs) (g_seq Gs) V"
  by (induction rule: list_all2_induct) (simp_all add: emits_nil emits_then)

lemma compile_argument_emits:
  assumes X: "compiles K (rec (snd a)) (snd X)" and n: "fst a = fst X" and p: "plain a"
  shows "emits_gen K V (compile_argument env rec (int ta) (C_node (arg_tree a))) (g_arg (c_addr env) ta X) V"
proof (cases "fst a")
  case None
  have "emits_gen K V (run_all [rec (snd a), i_mov RAX RSI, i_mov_rev RDI (TEMPORARY (int ta)), CALL env F_snow_arguments_push])
      (g_arg (c_addr env) ta X) V"
    unfolding g_arg_def n [symmetric] None option.case
    by (rule emits_gen_cong, (rule emits_run_all emits_nil compilesD [OF X] emits_code_gen code_call code_rules | simp)+, simp add: TMP_def)
  then show ?thesis using None p by (simp add: compile_argument_def arg_tree_def plain_def)
next
  case (Some s)
  have "emits_gen K V (run_all [rec (snd a), i_mov_id s RSI, i_mov RAX RDX, i_mov_rev RDI (TEMPORARY (int ta)), CALL env F_snow_arguments_push_named])
      (g_arg (c_addr env) ta X) V"
    unfolding g_arg_def n [symmetric] Some option.case
    by (rule emits_gen_cong, (rule emits_run_all emits_nil compilesD [OF X] emits_code_gen code_call code_rules | simp)+, simp add: TMP_def)
  then show ?thesis using Some p by (simp add: compile_argument_def arg_tree_def plain_def node_defs)
qed

lemma arguments_emit:
  assumes "rel_option (list_all2 (\<lambda>a X. fst a = fst X \<and> plain a \<and> compiles K (rec (snd a)) (snd X))) args Xs"
  shows "emits_gen K V (case map_option (\<lambda>ts. snow_ast_sequence (map C_node (map arg_tree ts))) args of
         Some sq \<Rightarrow>
           pbind (cassert (ast_type sq = SN_AST_SEQUENCE)) (\<lambda>_.
           pbind (child_array sq 0) (\<lambda>args.
           run_all [i_mov_id (of_nat (length args)) RDI, CALL env F_snow_create_arguments_with_size,
             i_mov RAX (TEMPORARY (int ta)), for_each (compile_argument env rec (int ta)) args,
             i_mov_rev RDX (TEMPORARY (int ta))]))
       | None \<Rightarrow> run_all [i_xor RDX RDX, i_mov RAX (TEMPORARY (int ta))]) (g_args (c_addr env) ta Xs) V"
proof (cases args)
  case None
  then have x: "Xs = None" using assms by (cases Xs) auto
  have "emits_gen K V (run_all [i_xor RDX RDX, i_mov RAX (TEMPORARY (int ta))]) (g_code [xorr RDX RDX, mov RAX (TMP ta)]) V"
    by (rule emits_gen_cong, (rule emits_run_all emits_nil emits_code_gen code_rules)+, simp add: TMP_def)
  then show ?thesis by (simp add: None x g_args_def)
next
  case (Some ts)
  then obtain Ys where Y: "Xs = Some Ys" "list_all2 (\<lambda>a X. fst a = fst X \<and> plain a \<and> compiles K (rec (snd a)) (snd X)) ts Ys"
    using assms by (cases Xs) auto
  have len: "length ts = length Ys" using Y(2) by (rule list_all2_lengthD)
  have "list_all2 (\<lambda>a X. emits_gen K V (compile_argument env rec (int ta) (C_node (arg_tree a))) (g_arg (c_addr env) ta X) V) ts Ys"
    by (rule list_all2_mono [OF Y(2)]) (auto intro: compile_argument_emits)
  then have f: "emits_gen K V (for_each (compile_argument env rec (int ta)) (map C_node (map arg_tree ts))) (g_seq (map (g_arg (c_addr env) ta) Ys)) V"
    by (intro for_each_emits) (simp add: list_all2_map1 list_all2_map2)
  have "emits_gen K V (run_all [i_mov_id (of_nat (length ts)) RDI, CALL env F_snow_create_arguments_with_size,
      i_mov RAX (TEMPORARY (int ta)), for_each (compile_argument env rec (int ta)) (map C_node (map arg_tree ts)),
      i_mov_rev RDX (TEMPORARY (int ta))]) (g_args (c_addr env) ta Xs) V"
    unfolding Y(1) g_args_def option.case
    by (rule emits_gen_cong, (rule f emits_run_all emits_nil emits_code_gen code_call code_rules | simp)+, simp add: TMP_def len)
  then show ?thesis by (simp add: Some node_defs cassert_def)
qed

lemma compile_call_emits:
  assumes F: "\<And>V ts tf. emits_gen K V (compile_callee env rec (int ts) (int tf) f) (F ts tf) V"
    and A: "rel_option (list_all2 (\<lambda>a X. fst a = fst X \<and> plain a \<and> compiles K (rec (snd a)) (snd X))) args Xs"
  shows "compiles K (compile_call env rec (call_tree f args)) (g_apply (c_addr env) F Xs)"
  unfolding compiles_def
proof
  fix U
  let ?args = "\<lambda>ta. case map_option (\<lambda>ts. snow_ast_sequence (map C_node (map arg_tree ts))) args of
         Some sq \<Rightarrow>
           pbind (cassert (ast_type sq = SN_AST_SEQUENCE)) (\<lambda>_.
           pbind (child_array sq 0) (\<lambda>args.
           run_all [i_mov_id (of_nat (length args)) RDI, CALL env F_snow_create_arguments_with_size,
             i_mov RAX (TEMPORARY ta), for_each (compile_argument env rec ta) args,
             i_mov_rev RDX (TEMPORARY ta)]))
       | None \<Rightarrow> run_all [i_xor RDX RDX, i_mov RAX (TEMPORARY ta)]"
  let ?call = "\<lambda>ts tf ta. run_all [i_mov_rev RDI (TEMPORARY ts), i_mov_rev RSI (TEMPORARY tf),
       CALL env F_snow_call_with_args, codegen_free_tmp ta, codegen_free_tmp ts, codegen_free_tmp tf]"
  have "emits_gen K U (pbind codegen_reserve_tmp (\<lambda>ts. pbind codegen_reserve_tmp (\<lambda>tf. pbind (compile_callee env rec ts tf f) (\<lambda>_.
      pbind codegen_reserve_tmp (\<lambda>ta. pbind (?args ta) (\<lambda>_. ?call ts tf ta)))))) (g_apply (c_addr env) F Xs) U"
    unfolding g_apply_def g_finish_def
  proof (rule emits_tmp, rule emits_tmp, rule emits_then [OF F], rule emits_tmp, rule emits_then [OF arguments_emit [OF A]])
    fix ts tf ta assume t: "ts \<notin> U" "tf \<notin> insert ts U" "ta \<notin> insert tf (insert ts U)"
    have s: "emits_gen K (insert tf (insert ts U)) (codegen_free_tmp (int ts)) (g_release ts) (insert tf U)"
      using emits_release [of ts "insert tf U" K] t by (simp add: insert_commute)
    show "emits_gen K (insert ta (insert tf (insert ts U))) (?call (int ts) (int tf) (int ta))
       (g_then (g_code ([movr RDI (TMP ts), movr RSI (TMP tf)] @ g_call (c_addr env) F_snow_call_with_args))
         (g_then (g_release ta) (g_then (g_release ts) (g_release tf)))) U"
      by (rule emits_gen_cong, (rule s emits_run_all emits_nil emits_release [OF t(3)] emits_release [of tf U] emits_code_gen code_call code_rules |
        (use t in simp; fail))+, simp add: TMP_def)
  qed
  then show "emits_gen K U (compile_call env rec (call_tree f args)) (g_apply (c_addr env) F Xs) U"
    by (simp add: compile_call_def call_tree_def node_defs)
qed

lemma callee_function_emits:
  assumes X: "compiles K (rec f) X" and f: "ast_type f \<noteq> SN_AST_MEMBER"
  shows "emits_gen K V (compile_callee env rec (int ts) (int tf) f) (g_function X ts tf) V"
proof -
  have "emits_gen K V (run_all [i_xor RAX RAX, i_mov RAX (TEMPORARY (int ts)), rec f, i_mov RAX (TEMPORARY (int tf))]) (g_function X ts tf) V"
    unfolding g_function_def
    by (rule emits_gen_cong, (rule emits_run_all emits_nil compilesD [OF X] emits_code_gen code_rules)+, simp add: TMP_def)
  with f show ?thesis by (simp add: compile_callee_def)
qed

lemma callee_method_emits:
  assumes X: "compiles K (rec n) X" and s: "sym_ok s"
  shows "emits_gen K V (compile_callee env rec (int ts) (int tf) (snow_ast_member n s)) (g_method (c_addr env) s X ts tf) V"
proof -
  have "emits_gen K V (pbind (run_all [rec n, i_mov RAX (TEMPORARY (int ts))]) (\<lambda>_.
      run_all [i_mov RAX RDI, i_mov_id s RSI, CALL env F_snow_get_member_for_method_call, i_mov RAX (TEMPORARY (int tf))]))
    (g_method (c_addr env) s X ts tf) V"
    unfolding g_method_def
    by (rule emits_gen_cong, (rule emits_then emits_run_all emits_nil compilesD [OF X] emits_code_gen code_call code_rules | simp)+, simp add: TMP_def)
  with s show ?thesis by (simp add: compile_callee_def node_defs)
qed

subsection \<open>Every expression\<close>

lemma tree_types [simp]:
  "ast_type (snow_ast_literal v) = SN_AST_LITERAL" "ast_type snow_ast_self = SN_AST_SELF"
  "ast_type snow_ast_current_scope = SN_AST_CURRENT_SCOPE" "ast_type (snow_ast_local s) = SN_AST_LOCAL"
  "ast_type (snow_ast_local_assign s n) = SN_AST_LOCAL_ASSIGNMENT" "ast_type (snow_ast_member n s) = SN_AST_MEMBER"
  "ast_type (snow_ast_sequence xs) = SN_AST_SEQUENCE" "ast_type (snow_ast_if_else n b e) = SN_AST_IF_ELSE"
  "ast_type (snow_ast_loop n m) = SN_AST_LOOP" "ast_type (snow_ast_and n m) = SN_AST_AND" "ast_type (snow_ast_or n m) = SN_AST_OR"
  "ast_type (snow_ast_xor n m) = SN_AST_XOR" "ast_type (snow_ast_not n) = SN_AST_NOT" "ast_type (call_tree n args) = SN_AST_CALL"
  "ast_type (create_ast_node t xs) = t"
  by (simp_all add: node_defs call_tree_def)

lemma list_max_le: "x \<in> set xs \<Longrightarrow> x \<le> list_max xs"
  unfolding list_max_def Max.set_eq_fold [symmetric] by (rule Max_ge) simp_all

lemma and_or_trees:
  "snow_ast_and l r = AstNode SN_AST_AND [C_node l, C_node r]" "snow_ast_or l r = AstNode SN_AST_OR [C_node l, C_node r]"
  by (simp_all add: snow_ast_and_def snow_ast_or_def create_ast_node_def)

definition emitted :: "cgstate \<Rightarrow> cg_env \<Rightarrow> (SnSymbol \<Rightarrow> int) \<Rightarrow> nat \<Rightarrow> expr \<Rightarrow> bool" where
  "emitted K env lk n e \<longleftrightarrow> compiles K (codegen_compile_node n env (tree e)) (gen (c_addr env) lk e)"

lemma option_emitted:
  assumes "\<And>e. e \<in> set_option x \<Longrightarrow> expr_ok e \<Longrightarrow> depth e \<le> m \<Longrightarrow> emitted K env lk m e"
    and "pred_option id (map_option expr_ok x)" "opt_max (map_option depth x) \<le> m"
  shows "rel_option (\<lambda>n G. compiles K (codegen_compile_node m env n) G) (map_option tree x) (map_option (gen (c_addr env) lk) x)"
  using assms by (cases x) (auto simp: opt_max_def emitted_def)

lemma args_emitted:
  assumes IH: "\<And>xs a e. xs \<in> set_option args \<Longrightarrow> a \<in> set xs \<Longrightarrow> e \<in> Basic_BNFs.snds a \<Longrightarrow> expr_ok e \<Longrightarrow> depth e \<le> m \<Longrightarrow> emitted K env lk m e"
    and ok: "args_ok (map_option (map (map_prod id expr_ok)) args) (map_option (map (map_prod id tree)) args)"
    and d: "opt_max (map_option list_max (map_option (map snd) (map_option (map (map_prod id depth)) args))) \<le> m"
  shows "rel_option (list_all2 (\<lambda>a X. fst a = fst X \<and> plain a \<and> compiles K (codegen_compile_node m env (snd a)) (snd X)))
    (map_option (map (map_prod id tree)) args) (map_option (map (map_prod id (gen (c_addr env) lk))) args)"
proof (cases args)
  case (Some xs)
  have "plain (map_prod id tree a) \<and> emitted K env lk m (snd a)" if a: "a \<in> set xs" for a
  proof
    show "plain (map_prod id tree a)" using ok a by (simp add: Some args_ok_def list_all_iff)
    have "expr_ok (snd a)" using ok a by (simp add: Some args_ok_def list_all_iff)
    moreover have "depth (snd a) \<le> list_max (map snd (map (map_prod id depth) xs))" using a by (intro list_max_le) force
    ultimately show "emitted K env lk m (snd a)" using IH [of xs a "snd a"] a d by (simp add: Some opt_max_def snds.simps)
  qed
  then have "list_all2 (\<lambda>a b. fst (map_prod id tree a) = fst (map_prod id (gen (c_addr env) lk) b) \<and> plain (map_prod id tree a) \<and>
      compiles K (codegen_compile_node m env (snd (map_prod id tree a))) (snd (map_prod id (gen (c_addr env) lk) b))) xs xs"
    by (intro list.rel_refl_strong) (simp add: emitted_def)
  then show ?thesis by (simp add: Some list_all2_map1 list_all2_map2)
qed simp

lemma gen_emitted:
  assumes top: "top_level K lk"
  shows "expr_ok e \<Longrightarrow> depth e \<le> n \<Longrightarrow> emitted K env lk n e"
proof (induction e arbitrary: n)
  case (Lit v)
  then obtain m where m: "n = Suc m" by (cases n) simp_all
  show ?case using compile_literal_emits [of v K env] Lit by (simp add: emitted_def m)
next
  case Self
  then obtain m where m: "n = Suc m" by (cases n) simp_all
  have "emits_code K (i_mov_rev RAX (ADDRESS R13 self_offset)) [movr RAX (ADDRESS R13 self_offset)]"
    by (rule code_rules)+
  from compiles_code [OF this] show ?case by (simp add: emitted_def m)
next
  case Here
  then obtain m where m: "n = Suc m" by (cases n) simp_all
  have "emits_code K (i_mov R13 RAX) [mov R13 RAX]" by (rule code_rules)+
  from compiles_code [OF this] show ?case by (simp add: emitted_def m)
next
  case (Local s)
  then obtain m where m: "n = Suc m" by (cases n) simp_all
  show ?case using compile_local_emits [OF top] Local by (simp add: emitted_def m)
next
  case (Assign s e)
  then obtain m where m: "n = Suc m" by (cases n) simp_all
  show ?case using compile_local_assignment_emits [OF _ _ top] Assign by (simp add: emitted_def m)
next
  case (Member e s)
  then obtain m where m: "n = Suc m" by (cases n) simp_all
  show ?case using compile_member_emits Member by (simp add: emitted_def m)
next
  case (MemberAssign e s v)
  then obtain m where m: "n = Suc m" by (cases n) simp_all
  show ?case using compile_member_assignment_emits MemberAssign by (simp add: emitted_def m)
next
  case (Seq es)
  then obtain m where m: "n = Suc m" by (cases n) simp_all
  have "depth e \<le> m" "expr_ok e" if "e \<in> set es" for e
    using Seq.prems that list_max_le [of "depth e" "map depth es"] by (auto simp: m list_all_iff)
  with Seq.IH have "list_all2 (\<lambda>a b. compiles K (codegen_compile_node m env (tree a)) (gen (c_addr env) lk b)) es es"
    by (intro list.rel_refl_strong) (simp add: emitted_def)
  then have "list_all2 (\<lambda>n G. compiles K (codegen_compile_node m env n) G) (map tree es) (map (gen (c_addr env) lk) es)"
    by (simp add: list_all2_map1 list_all2_map2)
  from compile_sequence_emits [OF this] show ?case by (simp add: emitted_def m)
next
  case (If c b e)
  then obtain m where m: "n = Suc m" by (cases n) simp_all
  have X: "compiles K (codegen_compile_node m env (tree c)) (gen (c_addr env) lk c)" using If by (simp add: emitted_def m)
  show ?case using If.prems compile_if_else_emits [OF X option_emitted option_emitted, OF If.IH(2) _ _ If.IH(3)]
    by (simp add: emitted_def m)
next
  case (Loop c b)
  then obtain m where m: "n = Suc m" by (cases n) simp_all
  show ?case using compile_loop_emits Loop by (simp add: emitted_def m)
next
  case (And l r)
  then obtain m where m: "n = Suc m" by (cases n) simp_all
  show ?case using compile_and_or_emits And by (simp add: emitted_def m compile_and_def) (simp add: and_or_trees)
next
  case (Or l r)
  then obtain m where m: "n = Suc m" by (cases n) simp_all
  show ?case using compile_and_or_emits Or by (simp add: emitted_def m compile_or_def) (simp add: and_or_trees)
next
  case (Xor l r)
  then obtain m where m: "n = Suc m" by (cases n) simp_all
  show ?case using compile_xor_emits Xor by (simp add: emitted_def m)
next
  case (Not e)
  then obtain m where m: "n = Suc m" by (cases n) simp_all
  show ?case using compile_not_emits Not by (simp add: emitted_def m)
next
  case (Call f args)
  then obtain m where m: "n = Suc m" by (cases n) simp_all
  have X: "compiles K (codegen_compile_node m env (tree f)) (gen (c_addr env) lk f)" using Call by (simp add: emitted_def m)
  have "rel_option (list_all2 (\<lambda>a X. fst a = fst X \<and> plain a \<and> compiles K (codegen_compile_node m env (snd a)) (snd X)))
    (map_option (map (map_prod id tree)) args) (map_option (map (map_prod id (gen (c_addr env) lk))) args)"
    by (rule args_emitted [OF Call.IH(2)]) (use Call.prems in \<open>simp_all add: m\<close>)
  from compile_call_emits [where rec = "codegen_compile_node m env", OF callee_function_emits [where rec = "codegen_compile_node m env", OF X] this] Call.prems show ?case by (simp add: emitted_def m)
next
  case (MethodCall e s args)
  then obtain m where m: "n = Suc m" by (cases n) simp_all
  have X: "compiles K (codegen_compile_node m env (tree e)) (gen (c_addr env) lk e)" using MethodCall by (simp add: emitted_def m)
  have "rel_option (list_all2 (\<lambda>a X. fst a = fst X \<and> plain a \<and> compiles K (codegen_compile_node m env (snd a)) (snd X)))
    (map_option (map (map_prod id tree)) args) (map_option (map (map_prod id (gen (c_addr env) lk))) args)"
    by (rule args_emitted [OF MethodCall.IH(2)]) (use MethodCall.prems in \<open>simp_all add: m\<close>)
  from compile_call_emits [where rec = "codegen_compile_node m env", OF callee_method_emits [where rec = "codegen_compile_node m env", OF X] this] MethodCall.prems show ?case by (simp add: emitted_def m)
qed

end
