(* ===== verification/CodeCorrect.thy ===== *)
theory CodeCorrect
  imports CodeEmit
begin

text \<open>
  The code generator is correct on the expressions of a function at the top level: the code it
  appends for the tree of an expression computes the value of the expression.
\<close>

unbundle bit_operations_syntax

text \<open>A generator with no temporaries yet, at work on a function at the top level.\<close>

definition ready :: "cgstate \<Rightarrow> (SnSymbol \<Rightarrow> int) \<Rightarrow> bool" where
  "ready K lk \<longleftrightarrow> top_level K lk \<and> linkbuffer_wf (cg_buffer (cgx K)) \<and> page_size (cg_buffer (cgx K)) = 1024 \<and>
     num_temporaries (cgx K) = 0 \<and> tmp_freelist (cgx K) = None"

definition emitted_bytes :: "cgstate \<Rightarrow> byte list" where
  "emitted_bytes K = contents (cg_buffer (cgx K))"

text \<open>The code of an expression fits the page after what is there.\<close>

definition fits_page :: "cgstate \<Rightarrow> (c_function \<Rightarrow> 64 word) \<Rightarrow> (SnSymbol \<Rightarrow> int) \<Rightarrow> expr \<Rightarrow> bool" where
  "fits_page K ad lk e \<longleftrightarrow> (case gen ad lk e (0, []) of (c, tm) \<Rightarrow>
     length (emitted_bytes K) + length (bytes c) \<le> 1024 \<and> small (fst tm))"

text \<open>Code that comes to its end from anywhere in memory, with a value and a world, the context kept.\<close>

definition computes :: "'w runtime \<Rightarrow> byte list \<Rightarrow> 'w mstate \<Rightarrow> 64 word \<times> 'w \<Rightarrow> bool" where
  "computes rt code s r \<longleftrightarrow> (\<forall>pre post. \<exists>t. runs rt (pre @ code @ post) (int (length pre), s) (int (length pre + length code), t) \<and>
     (regs t 0, mworld t) = r \<and> regs t 13 = regs s 13)"

lemma ready_cgs: "ready K lk \<Longrightarrow> cgs K K (emitted_bytes K, {}, (0, []), cg_labels (cgx K))"
proof -
  assume r: "ready K lk"
  then have K: "K = gst K (cg_buffer (cgx K)) 0 None (cg_labels (cgx K))"
    by (auto simp: ready_def gst_def intro!: cgstate.equality SnCodegenX.equality)
  have "cgs K (gst K (cg_buffer (cgx K)) 0 None (cg_labels (cgx K))) (emitted_bytes K, {}, (0, []), cg_labels (cgx K))"
    using cgsI [of "{}" "(0, [])" "cg_buffer (cgx K)" "emitted_bytes K" None K "cg_labels (cgx K)"] r
    by (simp add: ready_def emitted_bytes_def tmps_ok_def freelist_def)
  with K show ?thesis by simp
qed

lemma emitted_code:
  assumes "ready K lk" "expr_ok e" "depth e \<le> n" "fits_page K (c_addr env) lk e"
  obtains K' where "codegen_compile_node n env (tree e) K = Inr ((), K')"
    "emitted_bytes K' = emitted_bytes K @ bytes (fst (gen (c_addr env) lk e (0, [])))"
proof -
  obtain c tm' where g: "gen (c_addr env) lk e (0, []) = (c, tm')" by (rule prod.exhaust)
  have comp: "compiles K (codegen_compile_node n env (tree e)) (gen (c_addr env) lk e)"
    using gen_emitted [of K lk e n env] assms(1-3) by (simp add: ready_def emitted_def)
  obtain N where N: "\<forall>bs ls. does K (codegen_compile_node n env (tree e)) (bs, {}, (0, []), ls) () (bs @ bytes c, {}, tm', ls @ N bs ls)"
    by (rule emits_genD [OF compilesD [OF comp] g])
  have "does K (codegen_compile_node n env (tree e)) (emitted_bytes K, {}, (0, []), cg_labels (cgx K)) ()
      (emitted_bytes K @ bytes c, {}, tm', cg_labels (cgx K) @ N (emitted_bytes K) (cg_labels (cgx K)))"
    by (rule N [rule_format])
  moreover have "fits (emitted_bytes K @ bytes c, {}, tm', cg_labels (cgx K) @ N (emitted_bytes K) (cg_labels (cgx K)))"
    using assms(4) g by (simp add: fits_def fits_page_def)
  ultimately obtain K' where "codegen_compile_node n env (tree e) K = Inr ((), K')"
      "cgs K K' (emitted_bytes K @ bytes c, {}, tm', cg_labels (cgx K) @ N (emitted_bytes K) (cg_labels (cgx K)))"
    using ready_cgs [OF assms(1)] unfolding does_def by blast
  with g show ?thesis by (intro that [of K']) (auto simp: cgs_def emitted_bytes_def)
qed

lemma compiled_code:
  assumes "ready K lk" "expr_ok e" "depth e \<le> n" "fits_page K (c_addr env) lk e"
    and "runtime_ok rt (c_addr env) fn" "eval fn (peek rt) (regs s 13) lk e (regs s 0) (mworld s) = Some r"
  shows "\<exists>K' code. codegen_compile_node n env (tree e) K = Inr ((), K') \<and>
    emitted_bytes K' = emitted_bytes K @ code \<and> computes rt code s r"
proof -
  obtain c tm' where g: "gen (c_addr env) lk e (0, []) = (c, tm')" by (rule prod.exhaust)
  obtain K' where K': "codegen_compile_node n env (tree e) K = Inr ((), K')" "emitted_bytes K' = emitted_bytes K @ bytes c"
    using emitted_code [OF assms(1-4)] g by auto
  obtain v w' where r: "r = (v, w')" by (rule prod.exhaust)
  have "small (fst tm')" "small (length (bytes c))" using assms(4) g by (simp_all add: fits_page_def small_def)
  then obtain t where "goes rt c s t" "regs t 0 = v" "mworld t = w'" "keeps {} s t"
    using code_forD [OF gen_code_for [OF assms(5)] g, where U = "{}" and s = s and v = v and w' = w'] assms(6) r
    unfolding tmps_ok_def by auto
  then have "computes rt (bytes c) s r" using r by (auto simp: computes_def goes_def keeps_def)
  with K' show ?thesis by blast
qed

text \<open>Code that calls nothing needs no runtime.\<close>

lemma no_calls_ok: "runtime_ok rt ad (\<lambda>f args w. None)"
  by (simp add: runtime_ok_def)

lemma xor_literals_fit:
  assumes "emitted_bytes K = []"
  shows "fits_page K ad lk (Xor (Lit a) (Lit b))"
proof -
  obtain c tm where g: "gen ad lk (Xor (Lit a) (Lit b)) (0, []) = (c, tm)" "length c \<le> 40" "fst tm = 2"
    by (simp add: Let_def g_xor_def g_xor_choose_def g_with_tmp_def g_reserve_def g_then_def g_code_def g_truth_def skip_if_def)
  with assms length_bytes [of c] show ?thesis by (simp add: fits_page_def small_def)
qed

text \<open>
  C1. The code generator is correct: from a generator at work on a function at the top level,
  \<open>codegen_compile_node\<close> with fuel for the depth of the tree of an expression (literals that are not objects, so no strings, locals,
  members, assignments, sequences, conditionals, loops, the operators, calls with positional and
  named arguments) succeeds and appends code; run on the processor's instructions from anywhere in
  memory with the context in \<open>R13\<close>, that code comes to its end with the value of the expression
  in \<open>RAX\<close> and the world as the evaluation leaves it, whenever the evaluation has a result, and
  keeps \<open>R13\<close>.  The functions of the runtime take their arguments in registers, return what
  \<open>fn\<close> says and keep \<open>RBP\<close> and \<open>R13\<close>; the code fits one page of the link buffer.
\<close>

theorem compiled_code_correct:
  assumes "ready K lk" "expr_ok e" "depth e \<le> n" "fits_page K (c_addr env) lk e"
    and "runtime_ok rt (c_addr env) fn" "eval fn (peek rt) (regs s 13) lk e (regs s 0) (mworld s) = Some r"
  shows "\<exists>K' code. codegen_compile_node n env (tree e) K = Inr ((), K') \<and>
    emitted_bytes K' = emitted_bytes K @ code \<and> computes rt code s r"
  using compiled_code [OF assms] .

text \<open>
  C24. The code for \<open>xor\<close> compares the words that stand for truth, not truth: of two literals
  that are both true but have different such words, as two different integers do, it gives the
  left one and not false.
\<close>

theorem xor_of_two_truths:
  assumes "ready K lk" "emitted_bytes K = []" "\<not> is_object a" "\<not> is_object b"
    and "snow_eval_truth a" "snow_eval_truth b" "truth_word a \<noteq> truth_word b"
  shows "\<exists>K'. codegen_compile_node 2 env (snow_ast_xor (snow_ast_literal a) (snow_ast_literal b)) K = Inr ((), K') \<and>
    computes rt (emitted_bytes K') s (a, mworld s)"
proof -
  have "eval (\<lambda>f args w. None) (peek rt) (regs s 13) lk (Xor (Lit a) (Lit b)) (regs s 0) (mworld s) = Some (a, mworld s)"
    using assms(5-7) by (simp add: s_xor_def s_then_def s_value_def truth_word_truth)
  from compiled_code [OF assms(1) _ _ xor_literals_fit [OF assms(2)] no_calls_ok this] assms(2-4) show ?thesis by fastforce
qed

text \<open>A runtime whose functions return their first argument and count their calls.\<close>

definition first_argument :: "nat calls" where
  "first_argument f args w = (if args = [] then None else Some (hd args, Suc w))"

definition counting :: "nat runtime" where
  "counting = \<lparr>peek = \<lambda>w a. 0, rt_call = \<lambda>a rs w. Some (rs(0 := rs 7), Suc w)\<rparr>"

lemma counting_ok: "runtime_ok counting ad first_argument"
proof -
  have "rs 7 = hd args" if "args \<noteq> []" "args = map rs (take (length args) [7, 6, 2])" for rs :: "nat \<Rightarrow> 64 word" and args
    by (subst that(2)) (use that(1) in \<open>cases args; simp\<close>)
  then show ?thesis by (auto simp: runtime_ok_def first_argument_def counting_def split: if_splits)
qed

text \<open>A generator for a function without locals.\<close>

definition lone_generator :: cgstate where
  "lone_generator = \<lparr>cgx = (codegen_init snow_ast_self [])\<lparr>cg_result := 16\<rparr>,
     cg_scopes = \<lparr>contexts = Map.empty, descs = [16 \<mapsto> \<lparr>d_func = 0, d_name = 0, defined_locals = 32, argument_names = 0,
       variable_reference_descriptions = []\<rparr>], funcs = Map.empty, arrays = [32 \<mapsto> array_init], arguments = Map.empty, global_context = 0\<rparr>,
     cg_store = array_init, cg_asts = Map.empty, cg_code = Map.empty\<rparr>"

lemma lone_generator_ready: "ready lone_generator (\<lambda>s. - 1)"
proof -
  have "array_find array_init v = Inr (- 1)" for v using array_find_ok [of array_init v] by simp
  then show ?thesis
    by (simp add: ready_def top_level_def lone_generator_def codegen_init_def snow_function_description_get_local_index_def
      sn_array_find_def Contexts.here_def prog_simps snow_init_linkbuffer_def linkbuffer_wf_def)
qed

lemma compiled_code_correct_witness:
  "\<forall>(env :: cg_env) (s :: nat mstate). \<exists>K' code. codegen_compile_node 4 env
       (snow_ast_if_else (snow_ast_and (snow_ast_literal SN_TRUE) (snow_ast_local 9)) (Some (snow_ast_not (snow_ast_literal 7))) None)
       lone_generator = Inr ((), K') \<and> emitted_bytes K' = emitted_bytes lone_generator @ code \<and> computes counting code s (SN_FALSE, Suc (mworld s))"
proof (intro allI)
  fix env :: cg_env and s :: "nat mstate"
  let ?e = "If (And (Lit SN_TRUE) (Local 9)) (Some (Not (Lit 7))) None"
  have "expr_ok ?e" by (simp add: sym_ok_def is_object_def is_symbol_def symbol_to_value_def value_to_symbol_def SN_TRUE_def
      kTypeMask_def kSymbolType_def)
  moreover have "fits_page lone_generator (c_addr env) (\<lambda>s. - 1) ?e"
  proof -
    obtain c tm where g: "gen (c_addr env) (\<lambda>s. - 1) ?e (0, []) = (c, tm)" "length c \<le> 60" "fst tm = 1"
      by (simp add: g_if_def g_and_or_def g_with_tmp_def g_reserve_def g_then_def g_code_def g_local_def g_call_def g_not_def
        g_test_def g_truth_def g_release_def g_free_def g_option_def skip_if_def)
    moreover have "emitted_bytes lone_generator = []"
      by (simp add: emitted_bytes_def lone_generator_def codegen_init_def)
    ultimately show ?thesis using length_bytes [of c] by (simp add: fits_page_def small_def)
  qed
  moreover have "eval first_argument (peek counting) (regs s 13) (\<lambda>s. - 1) ?e (regs s 0) (mworld s) = Some (SN_FALSE, Suc (mworld s))"
    by (simp add: s_if_def s_then_def s_and_or_def s_value_def s_local_def s_option_def s_not_def first_argument_def
      snow_eval_truth_def SN_TRUE_def SN_FALSE_def SN_NIL_def)
  ultimately show "\<exists>K' code. codegen_compile_node 4 env
       (snow_ast_if_else (snow_ast_and (snow_ast_literal SN_TRUE) (snow_ast_local 9)) (Some (snow_ast_not (snow_ast_literal 7))) None)
       lone_generator = Inr ((), K') \<and> emitted_bytes K' = emitted_bytes lone_generator @ code \<and> computes counting code s (SN_FALSE, Suc (mworld s))"
    using compiled_code_correct [OF lone_generator_ready _ _ _ counting_ok, of ?e 4 env s] by (simp add: opt_max_def)
qed

lemma xor_of_two_truths_witness:
  "\<forall>(env :: cg_env) (rt :: nat runtime) s. \<exists>K'. codegen_compile_node 2 env
       (snow_ast_xor (snow_ast_literal 17) (snow_ast_literal 33)) lone_generator = Inr ((), K') \<and>
     computes rt (emitted_bytes K') s (17, mworld s)"
proof (intro allI)
  fix env :: cg_env and rt :: "nat runtime" and s
  have "emitted_bytes lone_generator = []" by (simp add: emitted_bytes_def lone_generator_def codegen_init_def)
  then show "\<exists>K'. codegen_compile_node 2 env (snow_ast_xor (snow_ast_literal 17) (snow_ast_literal 33)) lone_generator = Inr ((), K') \<and>
      computes rt (emitted_bytes K') s (17, mworld s)"
    by (intro xor_of_two_truths [OF lone_generator_ready])
      (simp_all add: is_object_def kTypeMask_def snow_eval_truth_def truth_word_def SN_TRUE_def SN_NIL_def SN_FALSE_def)
qed

end
