(* ===== verification/FixedAlloc.thy ===== *)
theory FixedAlloc
  imports Values
begin

text \<open>
  The allocator of pages of one size (snow/fixed-alloc.c): free pages are chained through their
  first words, which \<open>first_word\<close> holds.  The address of a new page, from \<open>snow_malloc\<close>, is a
  parameter.
\<close>

record fixed_alloc_t =
  page_size :: nat
  free_element :: VALUE
  lock_initialized :: bool
  first_word :: "VALUE \<Rightarrow> VALUE"

definition FIXED_ALLOCATOR :: "nat \<Rightarrow> fixed_alloc_t" where
  "FIXED_ALLOCATOR bytes = \<lparr>page_size = bytes, free_element = 0, lock_initialized = False, first_word = (\<lambda>_. 0)\<rparr>"

definition fixed_alloc :: "VALUE \<Rightarrow> fixed_alloc_t \<Rightarrow> VALUE \<times> fixed_alloc_t" where
  "fixed_alloc malloc a =
     (let a = a\<lparr>lock_initialized := True\<rparr>;
          (ptr, a) = (if free_element a \<noteq> 0 then (free_element a, a\<lparr>free_element := first_word a (free_element a)\<rparr>)
                      else (malloc, a))
      in (ptr, a\<lparr>first_word := (first_word a)(ptr := 0xcdcdcdcdcdcdcdcd)\<rparr>))"

definition fixed_free :: "fixed_alloc_t \<Rightarrow> VALUE \<Rightarrow> fixed_alloc_t result" where
  "fixed_free a ptr =
     (if ptr = 0 then Inr a
      else rbind (assert_ok (lock_initialized a)) (\<lambda>_.
           Inr (a\<lparr>first_word := (first_word a)(ptr := free_element a), free_element := ptr\<rparr>)))"

subsection \<open>The chain of free pages\<close>

fun chain :: "(VALUE \<Rightarrow> VALUE) \<Rightarrow> VALUE \<Rightarrow> VALUE list \<Rightarrow> bool" where
  "chain next p [] \<longleftrightarrow> p = 0"
| "chain next p (q # qs) \<longleftrightarrow> p = q \<and> p \<noteq> 0 \<and> chain next (next p) qs"

text \<open>The pages in use and the free ones are different pages.\<close>

definition pages_ok :: "fixed_alloc_t \<Rightarrow> VALUE list \<Rightarrow> VALUE set \<Rightarrow> bool" where
  "pages_ok a free used \<longleftrightarrow> chain (first_word a) (free_element a) free \<and> distinct free \<and> set free \<inter> used = {} \<and> 0 \<notin> used \<and>
     (used \<union> set free \<noteq> {} \<longrightarrow> lock_initialized a)"

lemma chain_upd: "p \<notin> set qs \<Longrightarrow> chain (f(p := v)) r qs = chain f r qs"
  by (induction qs arbitrary: r) auto

lemma chain_nonzero: "chain next p qs \<Longrightarrow> 0 \<notin> set qs"
  by (induction qs arbitrary: p) auto

lemma fixed_alloc_ok:
  assumes "pages_ok a free used" "malloc \<noteq> 0" "malloc \<notin> used \<union> set free" "fixed_alloc malloc a = (p, a')"
  shows "p \<noteq> 0 \<and> p \<notin> used \<and> p = (if free = [] then malloc else hd free) \<and> pages_ok a' (tl free) (insert p used)"
  using assms by (cases free) (auto simp: pages_ok_def fixed_alloc_def chain_upd)

lemma fixed_free_ok:
  assumes "pages_ok a free used" "q \<in> used"
  shows "\<exists>a'. fixed_free a q = Inr a' \<and> pages_ok a' (q # free) (used - {q})"
proof -
  have "q \<noteq> 0" "q \<notin> set free" "lock_initialized a" using assms by (auto simp: pages_ok_def)
  then show ?thesis using assms by (auto simp: pages_ok_def fixed_free_def chain_upd)
qed

lemma fixed_free_null [simp]: "fixed_free a 0 = Inr a"
  by (simp add: fixed_free_def)

text \<open>
  C38. A page that is handed out is not in use already: it is the page freed last, or a new one
  when no page is free; and freeing a page in use makes it the next one to be handed out.
  Freeing null does nothing.\<close>

theorem fixed_alloc_pages:
  assumes "pages_ok a free used" "malloc \<noteq> 0" "malloc \<notin> used \<union> set free"
  shows "(case fixed_alloc malloc a of (p, a') \<Rightarrow> p \<noteq> 0 \<and> p \<notin> used \<and> p = (if free = [] then malloc else hd free) \<and>
       pages_ok a' (tl free) (insert p used)) \<and>
     (\<forall>q \<in> used. \<exists>a'. fixed_free a q = Inr a' \<and> pages_ok a' (q # free) (used - {q})) \<and>
     fixed_free a 0 = Inr a"
  using fixed_alloc_ok [OF assms] fixed_free_ok [OF assms(1)] by (auto split: prod.split)

lemma fixed_alloc_pages_witness:
  "case fixed_alloc 0x2000 (FIXED_ALLOCATOR 65536) of (p, a') \<Rightarrow> p = 0x2000 \<and> pages_ok a' [] {0x2000}"
  using fixed_alloc_pages [of "FIXED_ALLOCATOR 65536" "[]" "{}" "0x2000"]
  by (auto simp: pages_ok_def FIXED_ALLOCATOR_def split: prod.splits)

end
