(* ===== verification/Exceptions.thy ===== *)
theory Exceptions
  imports FixedAlloc
begin

text \<open>
  Exceptions (snow/exception.c, snow/exception-intern.h) and the operations of a task they use
  (snow/task.c).  \<open>snow_save_execution_state\<close> makes a save point, an address of its own;
  \<open>snow_restore_execution_state\<close> ends the running computation with a jump to one, which goes
  up to the frame that saved it, and that frame goes on as it did after the save.  A jump to a
  frame that has returned stays a jump to the end.  Handlers, tasks and states of a try are at
  addresses, 0 being null; \<open>world\<close> is what the code of the program changes.
\<close>

datatype 'a outcome = Done 'a | Jump nat

record SnExceptionHandler =
  h_previous :: nat
  h_state :: nat
  h_exception :: VALUE

record SnTask =
  t_previous :: nat
  t_continuation :: nat
  t_exception :: VALUE
  exception_handler :: nat
  t_base :: nat

datatype SnTryResumptionState =
    SnTryResumptionStateTrying | SnTryResumptionStateCatching | SnTryResumptionStateEnsuring

record SnTryState =
  started :: bool
  iteration_was_prepared :: bool
  resumption_state :: SnTryResumptionState
  exception_to_propagate :: VALUE

record SnException =
  ex_description :: VALUE
  thrown_by :: nat

record SnContinuation =
  cc_function :: VALUE
  cc_state :: nat
  stack_lo :: VALUE
  stack_hi :: VALUE
  cc_task_id :: nat
  running :: bool
  interruptible :: bool
  return_to :: nat
  please_clean :: nat
  cc_context :: VALUE
  return_val :: VALUE

record 'w xstate =
  handlers :: "nat \<rightharpoonup> SnExceptionHandler"
  tasks :: "nat \<rightharpoonup> SnTask"
  conts :: "nat \<rightharpoonup> SnContinuation"
  tries :: "nat \<rightharpoonup> SnTryState"
  exception_objects :: "VALUE \<rightharpoonup> SnException"
  current_task :: nat
  next_address :: nat
  stack_alloc :: fixed_alloc_t
  world :: 'w

type_synonym ('a, 'w) xprog = "('a outcome, 'w xstate) prog"

definition xret :: "'a \<Rightarrow> ('a, 'w) xprog" where
  "xret x s = Inr (Done x, s)"

definition xbind :: "('a, 'w) xprog \<Rightarrow> ('a \<Rightarrow> ('b, 'w) xprog) \<Rightarrow> ('b, 'w) xprog" where
  "xbind m k s = rbind (m s) (\<lambda>(r, t). case r of Done x \<Rightarrow> k x t | Jump p \<Rightarrow> Inr (Jump p, t))"

definition xassert :: "bool \<Rightarrow> (unit, 'w) xprog" where
  "xassert b s = rbind (assert_ok b) (\<lambda>_. Inr (Done (), s))"

definition xget :: "('w xstate \<Rightarrow> 'a) \<Rightarrow> ('a, 'w) xprog" where
  "xget f s = Inr (Done (f s), s)"

definition xmodify :: "('w xstate \<Rightarrow> 'w xstate) \<Rightarrow> (unit, 'w) xprog" where
  "xmodify f s = Inr (Done (), f s)"

text \<open>Reading through a pointer, and a fresh address.\<close>

definition deref :: "('w xstate \<Rightarrow> 'p \<rightharpoonup> 'c) \<Rightarrow> 'p \<Rightarrow> ('c, 'w) xprog" where
  "deref field p s = (case field s p of Some x \<Rightarrow> Inr (Done x, s) | None \<Rightarrow> Inl Undef)"

definition new_address :: "(nat, 'w) xprog" where
  "new_address s = Inr (Done (next_address s), s\<lparr>next_address := next_address s + 1\<rparr>)"

definition put_handler :: "nat \<Rightarrow> SnExceptionHandler \<Rightarrow> (unit, 'w) xprog" where
  "put_handler p h = xmodify (\<lambda>s. s\<lparr>handlers := (handlers s)(p \<mapsto> h)\<rparr>)"

definition put_task :: "nat \<Rightarrow> SnTask \<Rightarrow> (unit, 'w) xprog" where
  "put_task p t = xmodify (\<lambda>s. s\<lparr>tasks := (tasks s)(p \<mapsto> t)\<rparr>)"

definition put_cont :: "nat \<Rightarrow> SnContinuation \<Rightarrow> (unit, 'w) xprog" where
  "put_cont p c = xmodify (\<lambda>s. s\<lparr>conts := (conts s)(p \<mapsto> c)\<rparr>)"

definition put_try :: "nat \<Rightarrow> SnTryState \<Rightarrow> (unit, 'w) xprog" where
  "put_try p y = xmodify (\<lambda>s. s\<lparr>tries := (tries s)(p \<mapsto> y)\<rparr>)"

lemma xprog_simps [simp]:
  "xret x s = Inr (Done x, s)"
  "xbind m k s = rbind (m s) (\<lambda>(r, t). case r of Done x \<Rightarrow> k x t | Jump p \<Rightarrow> Inr (Jump p, t))"
  "xassert b s = rbind (assert_ok b) (\<lambda>_. Inr (Done (), s))"
  "xget f s = Inr (Done (f s), s)"
  "xmodify g s = Inr (Done (), g s)"
  "new_address s = Inr (Done (next_address s), s\<lparr>next_address := next_address s + 1\<rparr>)"
  "put_handler p h s = Inr (Done (), s\<lparr>handlers := (handlers s)(p \<mapsto> h)\<rparr>)"
  "put_task p t s = Inr (Done (), s\<lparr>tasks := (tasks s)(p \<mapsto> t)\<rparr>)"
  "put_cont p c s = Inr (Done (), s\<lparr>conts := (conts s)(p \<mapsto> c)\<rparr>)"
  "put_try p y s = Inr (Done (), s\<lparr>tries := (tries s)(p \<mapsto> y)\<rparr>)"
  by (simp_all add: xret_def xbind_def xassert_def xget_def xmodify_def new_address_def put_handler_def
    put_task_def put_cont_def put_try_def)

lemma deref_simps [simp]:
  "field s p = Some x \<Longrightarrow> deref field p s = Inr (Done x, s)"
  "field s p = None \<Longrightarrow> deref field p s = Inl Undef"
  by (simp_all add: deref_def)

subsection \<open>Saved states\<close>

text \<open>
  \<open>saving n store rest\<close> is \<open>snow_save_execution_state\<close> and the rest of the frame: \<open>store\<close> puts
  the save point in its place, and \<open>rest\<close> gets what the call returns, false when it saves and
  true each time the state is restored, at most \<open>n\<close> times.
\<close>

primrec restores :: "nat \<Rightarrow> nat \<Rightarrow> ('a, 'w) xprog \<Rightarrow> ('a, 'w) xprog \<Rightarrow> ('a, 'w) xprog" where
  "restores 0 p again m s = rbind (m s) (\<lambda>(r, t). if r = Jump p then Inl Undef else Inr (r, t))"
| "restores (Suc n) p again m s = rbind (m s) (\<lambda>(r, t).
     if r = Jump p then restores n p again again t else Inr (r, t))"

definition saving :: "nat \<Rightarrow> (nat \<Rightarrow> (unit, 'w) xprog) \<Rightarrow> (bool \<Rightarrow> ('a, 'w) xprog) \<Rightarrow> ('a, 'w) xprog" where
  "saving n store rest = xbind new_address (\<lambda>p. xbind (store p) (\<lambda>_. restores n p (rest True) (rest False)))"

definition snow_restore_execution_state :: "nat \<Rightarrow> ('a, 'w) xprog" where
  "snow_restore_execution_state p s = Inr (Jump p, s)"

definition set_handler_state :: "nat \<Rightarrow> nat \<Rightarrow> (unit, 'w) xprog" where
  "set_handler_state h p = xbind (deref handlers h) (\<lambda>r. put_handler h (r\<lparr>h_state := p\<rparr>))"

definition set_handler_exception :: "nat \<Rightarrow> VALUE \<Rightarrow> (unit, 'w) xprog" where
  "set_handler_exception h e = xbind (deref handlers h) (\<lambda>r. put_handler h (r\<lparr>h_exception := e\<rparr>))"

definition set_task_handler :: "nat \<Rightarrow> nat \<Rightarrow> (unit, 'w) xprog" where
  "set_task_handler task h = xbind (deref tasks task) (\<lambda>t. put_task task (t\<lparr>exception_handler := h\<rparr>))"

subsection \<open>Tasks\<close>

definition snow_get_current_task :: "(nat, 'w) xprog" where
  "snow_get_current_task = xget current_task"

definition snow_current_exception_handler :: "(nat, 'w) xprog" where
  "snow_current_exception_handler =
     xbind snow_get_current_task (\<lambda>p. xbind (deref tasks p) (\<lambda>t. xret (exception_handler t)))"

definition snow_push_exception_handler :: "nat \<Rightarrow> (unit, 'w) xprog" where
  "snow_push_exception_handler handler =
     xbind snow_current_exception_handler (\<lambda>previous.
     xbind (deref handlers handler) (\<lambda>h.
     xbind (put_handler handler (h\<lparr>h_previous := previous\<rparr>)) (\<lambda>_.
     xbind snow_get_current_task (\<lambda>p. set_task_handler p handler))))"

definition snow_pop_exception_handler :: "(unit, 'w) xprog" where
  "snow_pop_exception_handler =
     xbind snow_get_current_task (\<lambda>p. xbind (deref tasks p) (\<lambda>t.
     xbind (deref handlers (exception_handler t)) (\<lambda>h. set_task_handler p (h_previous h))))"

definition snow_get_current_continuation :: "(nat, 'w) xprog" where
  "snow_get_current_continuation =
     xbind snow_get_current_task (\<lambda>p. xbind (deref tasks p) (\<lambda>t. xret (t_continuation t)))"

definition snow_set_current_continuation :: "nat \<Rightarrow> (unit, 'w) xprog" where
  "snow_set_current_continuation cc =
     xbind snow_get_current_task (\<lambda>p. xbind (deref conts cc) (\<lambda>c.
     xbind (xassert (p = cc_task_id c)) (\<lambda>_.
     xbind (deref tasks p) (\<lambda>t. put_task p (t\<lparr>t_continuation := cc\<rparr>)))))"

subsection \<open>Running continuations\<close>

text \<open>
  \<open>snow_continuation_resume\<close> of a continuation that runs: its state is restored.  The whole
  function is in the theory of continuations.
\<close>

definition resume_running :: "nat \<Rightarrow> ('a, 'w) xprog" where
  "resume_running cc =
     xbind snow_get_current_continuation (\<lambda>current.
     xbind (deref conts cc) (\<lambda>c. xbind (deref conts current) (\<lambda>cur.
     xbind (xassert (cc_task_id c = cc_task_id cur)) (\<lambda>_.
     xbind (snow_set_current_continuation cc) (\<lambda>_.
     snow_restore_execution_state (cc_state c))))))"

text \<open>The base of a task always runs.\<close>

definition snow_abort_current_task :: "VALUE \<Rightarrow> ('a, 'w) xprog" where
  "snow_abort_current_task e =
     xbind snow_get_current_task (\<lambda>p.
     xbind (xassert (p \<noteq> 0)) (\<lambda>_.
     xbind (deref tasks p) (\<lambda>t.
     xbind (xassert (t_exception t = 0)) (\<lambda>_.
     xbind (put_task p (t\<lparr>t_exception := e\<rparr>)) (\<lambda>_.
     xbind (deref conts (t_base t)) (\<lambda>c.
     if running c then resume_running (t_base t) else pfail Undef))))))"

subsection \<open>Exceptions\<close>

definition snow_throw_exception :: "VALUE \<Rightarrow> ('a, 'w) xprog" where
  "snow_throw_exception e =
     xbind snow_current_exception_handler (\<lambda>handler.
       if handler \<noteq> 0
       then xbind (set_handler_exception handler e) (\<lambda>_.
            xbind (deref handlers handler) (\<lambda>h. snow_restore_execution_state (h_state h)))
       else snow_abort_current_task e)"

text \<open>The addresses of new exceptions and strings are parameters.\<close>

definition snow_create_exception :: "('w xstate \<Rightarrow> VALUE) \<Rightarrow> (VALUE, 'w) xprog" where
  "snow_create_exception alloc =
     xbind (xget alloc) (\<lambda>ex.
     xbind snow_get_current_continuation (\<lambda>cc.
     xbind (xmodify (\<lambda>s. s\<lparr>exception_objects := (exception_objects s)(ex \<mapsto> \<lparr>ex_description = 0, thrown_by = cc\<rparr>)\<rparr>)) (\<lambda>_.
     xret ex)))"

definition snow_throw_exception_with_description ::
    "('w xstate \<Rightarrow> VALUE) \<Rightarrow> (string \<Rightarrow> VALUE) \<Rightarrow> string \<Rightarrow> ('a, 'w) xprog" where
  "snow_throw_exception_with_description alloc new_string description =
     xbind (snow_create_exception alloc) (\<lambda>ex.
     xbind (deref exception_objects ex) (\<lambda>x.
     xbind (xmodify (\<lambda>s. s\<lparr>exception_objects := (exception_objects s)(ex \<mapsto> x\<lparr>ex_description := new_string description\<rparr>)\<rparr>)) (\<lambda>_.
     snow_throw_exception ex)))"

definition snow_current_exception :: "(VALUE, 'w) xprog" where
  "snow_current_exception = xbind snow_current_exception_handler (\<lambda>p.
     xbind (deref handlers p) (\<lambda>h. xret (h_exception h)))"

definition exception_to_string :: "VALUE \<Rightarrow> (VALUE, 'w) xprog" where
  "exception_to_string self = xbind (deref exception_objects self) (\<lambda>x. xret (ex_description x))"

text \<open>The block of a new handler is filled with a pattern in the debug build, and its state is not set.\<close>

definition snow_create_exception_handler :: "(nat, 'w) xprog" where
  "snow_create_exception_handler =
     xbind new_address (\<lambda>handler.
     xbind snow_current_exception_handler (\<lambda>previous.
     xbind (put_handler handler \<lparr>h_previous = previous, h_state = 0, h_exception = 0\<rparr>) (\<lambda>_.
     xret handler)))"

text \<open>\<open>ensure_func\<close> may be null.\<close>

definition run_ensure :: "(unit, 'w) xprog option \<Rightarrow> (unit, 'w) xprog" where
  "run_ensure ensure_func = (case ensure_func of None \<Rightarrow> xret () | Some f \<Rightarrow> f)"

definition leave_try :: "nat \<Rightarrow> nat \<Rightarrow> (unit, 'w) xprog option \<Rightarrow> (unit, 'w) xprog" where
  "leave_try task previous ensure_func =
     xbind (set_task_handler task previous) (\<lambda>_. run_ensure ensure_func)"

text \<open>The handler has caught: \<open>catch_func\<close> runs under a handler of its own.\<close>

definition run_catch ::
    "nat \<Rightarrow> nat \<Rightarrow> nat \<Rightarrow> nat \<Rightarrow> (VALUE \<Rightarrow> (unit, 'w) xprog) \<Rightarrow> (unit, 'w) xprog option \<Rightarrow> (unit, 'w) xprog" where
  "run_catch n task handler previous catch_func ensure_func =
     xbind new_address (\<lambda>catcher.
     xbind (put_handler catcher \<lparr>h_previous = handler, h_state = 0, h_exception = 0\<rparr>) (\<lambda>_.
     xbind (set_task_handler task catcher) (\<lambda>_.
     saving n (set_handler_state catcher) (\<lambda>thrown.
       if \<not> thrown
       then xbind (deref handlers handler) (\<lambda>h.
            xbind (catch_func (h_exception h)) (\<lambda>_. leave_try task previous ensure_func))
       else xbind (leave_try task previous ensure_func) (\<lambda>_.
            xbind (deref handlers catcher) (\<lambda>c. snow_throw_exception (h_exception c)))))))"

definition snow_try_catch_ensure ::
    "nat \<Rightarrow> (unit, 'w) xprog \<Rightarrow> (VALUE \<Rightarrow> (unit, 'w) xprog) \<Rightarrow> (unit, 'w) xprog option \<Rightarrow> (unit, 'w) xprog" where
  "snow_try_catch_ensure n try_func catch_func ensure_func =
     xbind new_address (\<lambda>handler.
     xbind snow_get_current_task (\<lambda>task.
     xbind (deref tasks task) (\<lambda>t.
     xbind (put_handler handler \<lparr>h_previous = exception_handler t, h_state = 0, h_exception = 0\<rparr>) (\<lambda>_.
     xbind (set_task_handler task handler) (\<lambda>_.
     saving n (set_handler_state handler) (\<lambda>thrown.
       if \<not> thrown
       then xbind try_func (\<lambda>_. leave_try task (exception_handler t) ensure_func)
       else run_catch n task handler (exception_handler t) catch_func ensure_func))))))"

subsection \<open>Resumptions\<close>

definition snow_try_finish_resumptions :: "nat \<Rightarrow> (unit, 'w) xprog" where
  "snow_try_finish_resumptions state =
     xbind (deref tries state) (\<lambda>y.
     xbind (xassert (started y)) (\<lambda>_.
     xbind snow_pop_exception_handler (\<lambda>_.
     xbind (put_try state (y\<lparr>started := False\<rparr>)) (\<lambda>_.
     if exception_to_propagate y \<noteq> 0 then snow_throw_exception (exception_to_propagate y) else xret ()))))"

definition snow_try_setup_resumptions :: "nat \<Rightarrow> (nat, 'w) xprog" where
  "snow_try_setup_resumptions state =
     xbind (put_try state \<lparr>started = True, iteration_was_prepared = False,
       resumption_state = SnTryResumptionStateTrying, exception_to_propagate = 0\<rparr>) (\<lambda>_.
     xbind snow_create_exception_handler (\<lambda>handler.
     xbind (snow_push_exception_handler handler) (\<lambda>_. xret handler)))"

definition snow_try_prepare_resumption_iteration :: "nat \<Rightarrow> (SnTryResumptionState, 'w) xprog" where
  "snow_try_prepare_resumption_iteration state =
     xbind (deref tries state) (\<lambda>y.
     xbind (xassert (started y)) (\<lambda>_.
     xbind (case resumption_state y of
         SnTryResumptionStateTrying \<Rightarrow>
           if iteration_was_prepared y then put_try state (y\<lparr>resumption_state := SnTryResumptionStateCatching\<rparr>) else xret ()
       | SnTryResumptionStateCatching \<Rightarrow>
           xbind (if iteration_was_prepared y
                  then xbind snow_current_exception (\<lambda>e. xret (y\<lparr>exception_to_propagate := e\<rparr>)) else xret y) (\<lambda>y.
           put_try state (y\<lparr>resumption_state := SnTryResumptionStateEnsuring\<rparr>))
       | SnTryResumptionStateEnsuring \<Rightarrow>
           if iteration_was_prepared y
           then xbind snow_current_exception (\<lambda>e.
                xbind (put_try state (y\<lparr>exception_to_propagate := e\<rparr>)) (\<lambda>_.
                snow_try_finish_resumptions state))
           else xret ()) (\<lambda>_.
     xbind (deref tries state) (\<lambda>y.
     xbind (put_try state (y\<lparr>iteration_was_prepared := True\<rparr>)) (\<lambda>_.
     xret (resumption_state y))))))"

definition restore_current_handler :: "(unit, 'w) xprog" where
  "restore_current_handler = xbind snow_current_exception_handler (\<lambda>p.
     xbind (deref handlers p) (\<lambda>h. snow_restore_execution_state (h_state h)))"

definition snow_end_try :: "nat \<Rightarrow> (unit, 'w) xprog" where
  "snow_end_try state =
     xbind (deref tries state) (\<lambda>y.
     xbind (xassert (started y)) (\<lambda>_.
     xbind (xassert (iteration_was_prepared y)) (\<lambda>_.
     let y = y\<lparr>iteration_was_prepared := False\<rparr> in
     xbind (put_try state y) (\<lambda>_.
     case resumption_state y of
       SnTryResumptionStateTrying \<Rightarrow>
         xbind (put_try state (y\<lparr>resumption_state := SnTryResumptionStateEnsuring\<rparr>)) (\<lambda>_. restore_current_handler)
     | SnTryResumptionStateCatching \<Rightarrow>
         xbind (put_try state (y\<lparr>resumption_state := SnTryResumptionStateEnsuring\<rparr>)) (\<lambda>_. restore_current_handler)
     | SnTryResumptionStateEnsuring \<Rightarrow> snow_try_finish_resumptions state))))"

text \<open>
  \<open>switch (snow_begin_try(&state)) { \<dots> } snow_end_try(&state);\<close> with a block for each case.
\<close>

definition try_turn ::
    "nat \<Rightarrow> (unit, 'w) xprog \<Rightarrow> (unit, 'w) xprog \<Rightarrow> (unit, 'w) xprog \<Rightarrow> (unit, 'w) xprog" where
  "try_turn state try_block catch_block ensure_block =
     xbind (snow_try_prepare_resumption_iteration state) (\<lambda>r.
     xbind (case r of
         SnTryResumptionStateTrying \<Rightarrow> try_block
       | SnTryResumptionStateCatching \<Rightarrow> catch_block
       | SnTryResumptionStateEnsuring \<Rightarrow> ensure_block) (\<lambda>_.
     snow_end_try state))"

definition try_statement ::
    "nat \<Rightarrow> (unit, 'w) xprog \<Rightarrow> (unit, 'w) xprog \<Rightarrow> (unit, 'w) xprog \<Rightarrow> (unit, 'w) xprog" where
  "try_statement n try_block catch_block ensure_block =
     xbind new_address (\<lambda>state.
     xbind (snow_try_setup_resumptions state) (\<lambda>handler.
     saving n (set_handler_state handler) (\<lambda>_. try_turn state try_block catch_block ensure_block)))"

end
