(* ===== verification/ExceptionSpec.thy ===== *)
theory ExceptionSpec
  imports Exceptions
begin

text \<open>
  What a try promises: \<open>structured_try\<close> says how the try block, the catch block and the ensure
  block follow each other, on endings.  A program implements an ending function when, called with
  a current handler, it ends and keeps the handler and the task, or throws to the handler;
  \<open>snow_try_catch_ensure\<close> and the statement of \<open>snow_begin_try\<close> and \<open>snow_end_try\<close> implement
  \<open>structured_try\<close> of what their blocks implement.
\<close>

datatype 'w ending = Ends 'w | Throws VALUE 'w

definition structured_try ::
    "('w \<Rightarrow> 'w ending) \<Rightarrow> (VALUE \<Rightarrow> 'w \<Rightarrow> 'w ending) \<Rightarrow> ('w \<Rightarrow> 'w ending) \<Rightarrow> 'w \<Rightarrow> 'w ending" where
  "structured_try T C E w =
     (let (left, w) = (case T w of Ends w \<Rightarrow> (None, w)
        | Throws e w \<Rightarrow> (case C e w of Ends w \<Rightarrow> (None, w) | Throws e w \<Rightarrow> (Some e, w)))
      in case E w of Throws e w \<Rightarrow> Throws e w
         | Ends w \<Rightarrow> (case left of None \<Rightarrow> Ends w | Some e \<Rightarrow> Throws e w))"

definition task_of :: "'w xstate \<Rightarrow> SnTask" where
  "task_of s = the (tasks s (current_task s))"

definition handler_of :: "'w xstate \<Rightarrow> SnExceptionHandler" where
  "handler_of s = the (handlers s (exception_handler (task_of s)))"

definition bounded :: "'w xstate \<Rightarrow> bool" where
  "bounded s \<longleftrightarrow> current_task s < next_address s \<and> (\<forall>p h. handlers s p = Some h \<longrightarrow> p < next_address s \<and> h_state h < next_address s)"

definition sound :: "'w xstate \<Rightarrow> bool" where
  "sound s \<longleftrightarrow> bounded s \<and> tasks s (current_task s) \<noteq> None \<and> exception_handler (task_of s) \<noteq> 0 \<and>
     handlers s (exception_handler (task_of s)) \<noteq> None"

definition shape :: "SnExceptionHandler \<Rightarrow> nat \<times> nat" where
  "shape h = (h_previous h, h_state h)"

definition grows :: "'w xstate \<Rightarrow> 'w xstate \<Rightarrow> bool" where
  "grows s t \<longleftrightarrow> current_task t = current_task s \<and> next_address s \<le> next_address t \<and> bounded t \<and>
     (\<forall>p < next_address s. map_option shape (handlers t p) = map_option shape (handlers s p)) \<and>
     (\<forall>p < next_address s. p \<noteq> exception_handler (task_of s) \<longrightarrow> handlers t p = handlers s p) \<and>
     (\<forall>p < next_address s. tries t p = tries s p)"

definition keeps :: "'w xstate \<Rightarrow> 'w xstate \<Rightarrow> bool" where
  "keeps s t \<longleftrightarrow> grows s t \<and> tasks t (current_task s) = tasks s (current_task s)"

text \<open>What a call from \<open>s\<close> gives: the end, or a jump to the handler with the exception in it.\<close>

definition meets :: "'w xstate \<Rightarrow> 'w ending \<Rightarrow> (unit outcome \<times> 'w xstate) result \<Rightarrow> bool" where
  "meets s e r \<longleftrightarrow> (\<exists>t. keeps s t \<and>
     (case e of
        Ends w \<Rightarrow> r = Inr (Done (), t) \<and> world t = w
      | Throws x w \<Rightarrow> r = Inr (Jump (h_state (handler_of s)), t) \<and> world t = w \<and> h_exception (handler_of t) = x))"

definition implements :: "(unit, 'w) xprog \<Rightarrow> ('w \<Rightarrow> 'w ending) \<Rightarrow> bool" where
  "implements p P \<longleftrightarrow> (\<forall>s. sound s \<longrightarrow> meets s (P (world s)) (p s))"

lemma grows_trans:
  assumes "grows s t" "grows t u"
    "exception_handler (task_of t) = exception_handler (task_of s) \<or> next_address s \<le> exception_handler (task_of t)"
  shows "grows s u"
  using assms unfolding grows_def by (metis (no_types, lifting) dual_order.strict_trans1 dual_order.trans leD)

lemma keeps_task: "keeps s t \<Longrightarrow> task_of t = task_of s"
  by (simp add: keeps_def grows_def task_of_def)

lemma keeps_trans: "keeps s t \<Longrightarrow> keeps t u \<Longrightarrow> keeps s u"
  using grows_trans keeps_task unfolding keeps_def by (metis grows_def)

lemma keeps_refl: "sound s \<Longrightarrow> keeps s s"
  by (auto simp: keeps_def grows_def sound_def)

lemma grows_handler:
  assumes "grows s t" "handlers s p = Some h" "p < next_address s"
  shows "\<exists>h'. handlers t p = Some h' \<and> h_previous h' = h_previous h \<and> h_state h' = h_state h"
proof -
  have "map_option shape (handlers t p) = Some (shape h)" using assms by (simp add: grows_def)
  then show ?thesis by (auto simp: shape_def)
qed

lemma sound_task: "sound s \<Longrightarrow> tasks s (current_task s) = Some (task_of s)"
  unfolding sound_def task_of_def by force

lemma sound_handler:
  assumes "sound s"
  shows "handlers s (exception_handler (task_of s)) = Some (handler_of s)"
    "exception_handler (task_of s) < next_address s" "h_state (handler_of s) < next_address s"
    "exception_handler (task_of s) \<noteq> 0"
proof -
  show h: "handlers s (exception_handler (task_of s)) = Some (handler_of s)"
    using assms unfolding sound_def handler_of_def by force
  show "exception_handler (task_of s) < next_address s" "h_state (handler_of s) < next_address s"
    using assms h unfolding sound_def bounded_def by blast+
qed (use assms in \<open>simp add: sound_def\<close>)

lemma keeps_sound:
  assumes "keeps s t" "sound s"
  shows "sound t" "h_state (handler_of t) = h_state (handler_of s)"
proof -
  obtain h where h: "handlers t (exception_handler (task_of s)) = Some h" "h_state h = h_state (handler_of s)"
    using grows_handler [OF _ sound_handler(1,2) [OF assms(2)]] assms(1) unfolding keeps_def by blast
  then show "h_state (handler_of t) = h_state (handler_of s)"
    by (simp add: handler_of_def keeps_task [OF assms(1)])
  show "sound t" using assms h keeps_task [OF assms(1)] by (simp add: sound_def keeps_def grows_def)
qed

lemma meets_after: "sound s \<Longrightarrow> keeps s t \<Longrightarrow> meets t e r \<Longrightarrow> meets s e r"
  unfolding meets_def using keeps_trans keeps_sound(2) by (fastforce split: ending.splits)

lemma restores_pass: "m s1 = Inr (r, t) \<Longrightarrow> r \<noteq> Jump p \<Longrightarrow> restores n p again m s1 = Inr (r, t)"
  by (cases n) simp_all

lemma meets_restores:
  assumes "sound s" "next_address s \<le> p" "meets s e (m s1)"
  shows "meets s e (restores n p again m s1)"
proof -
  obtain r t where "m s1 = Inr (r, t)" "r \<noteq> Jump p"
    using assms sound_handler(3) [OF assms(1)] unfolding meets_def by (cases e) auto
  from restores_pass [where m = m, OF this] this(1) assms(3) show ?thesis by metis
qed

lemma restores_again:
  "m s1 = Inr (Jump p, t) \<Longrightarrow> restores (Suc n) p again m s1 = restores n p again again t"
  by simp

text \<open>The frame of a handler: the handler is the current one, with a save point of its own.\<close>

definition entered :: "'w xstate \<Rightarrow> nat \<Rightarrow> nat \<Rightarrow> 'w xstate \<Rightarrow> bool" where
  "entered s h p t \<longleftrightarrow> grows s t \<and> next_address s \<le> p \<and> p < next_address t \<and> h \<noteq> 0 \<and>
     next_address s \<le> h \<and> h < next_address t \<and>
     tasks t (current_task s) = Some ((task_of s)\<lparr>exception_handler := h\<rparr>) \<and>
     (\<exists>r. handlers t h = Some r \<and> h_state r = p)"

lemma entered_sound:
  assumes "entered s h p t"
  shows "sound t" "h_state (handler_of t) = p" "task_of t = (task_of s)\<lparr>exception_handler := h\<rparr>" "grows s t"
    "next_address s \<le> h" "current_task t = current_task s"
  using assms by (auto simp: entered_def sound_def grows_def task_of_def handler_of_def)

lemma leave_keeps:
  assumes "sound s" "entered s h p t" "keeps t u"
  shows "keeps s (u\<lparr>tasks := (tasks u)(current_task s \<mapsto> task_of s)\<rparr>)"
proof -
  have "grows s u" using grows_trans [OF entered_sound(4) [OF assms(2)]] assms(3) entered_sound [OF assms(2)]
    unfolding keeps_def by simp
  moreover note sound_task [OF assms(1)]
  moreover have "current_task u = current_task s" using calculation(1) by (simp add: grows_def)
  ultimately show ?thesis by (simp add: keeps_def grows_def bounded_def)
qed

lemma shape_update:
  assumes "bounded s" "handlers s (exception_handler (task_of s)) = Some h" "shape h' = shape h"
  shows "grows s (s\<lparr>handlers := (handlers s)(exception_handler (task_of s) \<mapsto> h')\<rparr>)"
proof -
  have "exception_handler (task_of s) < next_address s" "h_state h' < next_address s"
    using assms by (auto simp: bounded_def shape_def)
  then show ?thesis using assms unfolding grows_def bounded_def by simp
qed

lemma implements_throw: "implements (snow_throw_exception e) (\<lambda>w. Throws e w)"
  unfolding implements_def
proof (intro allI impI)
  fix s :: "'a xstate" assume s: "sound s"
  let ?t = "s\<lparr>handlers := (handlers s)(exception_handler (task_of s) \<mapsto> (handler_of s)\<lparr>h_exception := e\<rparr>)\<rparr>"
  note h = sound_handler [OF s] sound_task [OF s]
  have "keeps s ?t"
    using s shape_update [OF _ h(1), of "(handler_of s)\<lparr>h_exception := e\<rparr>"] by (simp add: keeps_def sound_def shape_def)
  moreover have "snow_throw_exception e s = Inr (Jump (h_state (handler_of s)), ?t)"
    using h by (simp add: snow_throw_exception_def snow_current_exception_handler_def snow_get_current_task_def
      set_handler_exception_def snow_restore_execution_state_def)
  moreover have "h_exception (handler_of ?t) = e" by (simp add: handler_of_def task_of_def)
  ultimately show "meets s (Throws e (world s)) (snow_throw_exception e s)"
    unfolding meets_def by (intro exI [of _ ?t]) simp
qed

lemma implementsD:
  assumes "implements p P" "sound s"
  shows "P (world s) = Ends w \<Longrightarrow> \<exists>t. p s = Inr (Done (), t) \<and> keeps s t \<and> world t = w"
    "P (world s) = Throws e w \<Longrightarrow>
     \<exists>t. p s = Inr (Jump (h_state (handler_of s)), t) \<and> keeps s t \<and> world t = w \<and> h_exception (handler_of t) = e"
  using assms unfolding implements_def meets_def by force+

lemma implements_ensure:
  assumes "implements p P"
  shows "implements (run_ensure (Some p)) P" "implements (run_ensure None) Ends"
  using assms keeps_refl by (auto simp: run_ensure_def implements_def meets_def)

lemma set_task_handler_run:
  assumes "tasks s p = Some t"
  shows "set_task_handler p h s = Inr (Done (), s\<lparr>tasks := (tasks s)(p \<mapsto> t\<lparr>exception_handler := h\<rparr>)\<rparr>)"
  using assms by (simp add: set_task_handler_def)

text \<open>Entering the frame of a handler.\<close>

lemma enter_frame:
  assumes "bounded s" "tasks s (current_task s) = Some (task_of s)" "h = next_address s" "h \<noteq> 0"
    "s' = s\<lparr>tasks := (tasks s)(current_task s \<mapsto> (task_of s)\<lparr>exception_handler := h\<rparr>),
       next_address := h + 2, handlers := (handlers s)(h \<mapsto> \<lparr>h_previous = q, h_state = h + 1, h_exception = e\<rparr>)\<rparr>"
  shows "entered s h (h + 1) s'"
proof -
  have "bounded s'" unfolding bounded_def
  proof (intro conjI allI impI)
    show "current_task s' < next_address s'" using assms(1,3,5) by (simp add: bounded_def)
  next
    fix p r assume p: "handlers s' p = Some r"
    have "p < next_address s' \<and> h_state r < next_address s'"
    proof (cases "p = h")
      case False
      then have "handlers s p = Some r" using p assms(5) by simp
      then have "p < next_address s" "h_state r < next_address s" using assms(1) by (auto simp: bounded_def)
      then show ?thesis using assms(3,5) by simp
    qed (use p assms(5) in auto)
    then show "p < next_address s'" "h_state r < next_address s'" by simp_all
  qed
  then show ?thesis using assms by (simp add: entered_def grows_def)
qed

definition enter :: "nat \<Rightarrow> 'w xstate \<Rightarrow> 'w xstate" where
  "enter q s = s\<lparr>tasks := (tasks s)(current_task s \<mapsto> (task_of s)\<lparr>exception_handler := next_address s\<rparr>),
     next_address := next_address s + 2,
     handlers := (handlers s)(next_address s \<mapsto> \<lparr>h_previous = q, h_state = next_address s + 1, h_exception = 0\<rparr>)\<rparr>"

lemma enter_entered:
  assumes "sound s"
  shows "entered s (next_address s) (next_address s + 1) (enter q s)" "world (enter q s) = world s"
    "handlers (enter q s) (next_address s) = Some \<lparr>h_previous = q, h_state = next_address s + 1, h_exception = 0\<rparr>"
    "p < next_address s \<Longrightarrow> handlers (enter q s) p = handlers s p"
proof -
  have "next_address s \<noteq> 0" using sound_handler [OF assms] by simp
  with assms show "entered s (next_address s) (next_address s + 1) (enter q s)"
    using sound_task [OF assms] by (intro enter_frame [where q = q and e = 0]) (auto simp: sound_def enter_def)
qed (simp_all add: enter_def)

lemma try_catch_ensure_starts:
  assumes "sound s"
  shows "snow_try_catch_ensure n T C E s = restores n (next_address s + 1)
     (run_catch n (current_task s) (next_address s) (exception_handler (task_of s)) C E)
     (xbind T (\<lambda>_. leave_try (current_task s) (exception_handler (task_of s)) E))
     (enter (exception_handler (task_of s)) s)"
  using sound_task [OF assms]
  by (simp add: snow_try_catch_ensure_def snow_get_current_task_def saving_def set_task_handler_def
    set_handler_state_def enter_def)

lemma run_catch_starts:
  assumes "sound s" "task = current_task s"
  shows "run_catch n task handler previous C E s = restores n (next_address s + 1)
     (xbind (leave_try task previous E) (\<lambda>_.
        xbind (deref handlers (next_address s)) (\<lambda>c. snow_throw_exception (h_exception c))))
     (xbind (deref handlers handler) (\<lambda>h. xbind (C (h_exception h)) (\<lambda>_. leave_try task previous E)))
     (enter handler s)"
  using sound_task [OF assms(1)] assms(2)
  by (simp add: run_catch_def saving_def set_task_handler_def set_handler_state_def enter_def)

text \<open>Leaving a frame: the ensure block runs with the handler of the caller.\<close>

lemma leave_try_run:
  assumes "sound s" "entered s h p s1" "keeps s1 t"
  shows "\<exists>u. keeps s u \<and> sound u \<and> world u = world t \<and> handlers u = handlers t \<and> next_address u = next_address t \<and>
     leave_try (current_task s) (exception_handler (task_of s)) E t = run_ensure E u"
proof -
  let ?u = "t\<lparr>tasks := (tasks t)(current_task s \<mapsto> task_of s)\<rparr>"
  have k: "keeps s ?u" by (rule leave_keeps [OF assms])
  have "tasks t (current_task s) = Some ((task_of s)\<lparr>exception_handler := h\<rparr>)"
    using assms(2,3) by (simp add: entered_def keeps_def grows_def)
  then have "leave_try (current_task s) (exception_handler (task_of s)) E t = run_ensure E ?u"
    by (simp add: leave_try_def set_task_handler_run)
  with k keeps_sound(1) [OF k assms(1)] show ?thesis by (intro exI [of _ ?u]) simp
qed

lemma entered_again:
  assumes "entered s h p s1" "keeps s1 t" "entered t h2 p2 s2"
  shows "entered s h2 p2 s2"
proof -
  note a = entered_sound [OF assms(1)]
  have t: "task_of t = (task_of s)\<lparr>exception_handler := h\<rparr>" "current_task t = current_task s" "next_address s \<le> next_address t"
    using keeps_task [OF assms(2)] a assms(2) by (auto simp: keeps_def grows_def)
  have "grows s t" using grows_trans [OF a(4)] assms(2) a by (simp add: keeps_def)
  then have "grows s s2" using grows_trans [of s t s2] entered_sound(4) [OF assms(3)] t a(5) by simp
  with assms(3) t show ?thesis by (simp add: entered_def)
qed

lemma ensure_ends:
  assumes "implements (run_ensure E) en" "sound s" "sound u" "keeps s u"
  shows "meets s (en (world u)) (run_ensure E u)"
  using assms meets_after unfolding implements_def by blast

text \<open>The block of an exception that the handler has caught.\<close>

lemma run_catch_meets:
  assumes "implements (C e) (ca e)" "implements (run_ensure E) en"
    "sound s" "entered s h p s1" "keeps s1 t" "h_exception (handler_of t) = e"
  shows "meets s (structured_try (Throws e) ca en (world t))
     (run_catch (Suc n) (current_task s) h (exception_handler (task_of s)) C E t)"
proof -
  note a = entered_sound [OF assms(4)]
  have t: "sound t" "task_of t = (task_of s)\<lparr>exception_handler := h\<rparr>" "current_task s = current_task t" "next_address s \<le> next_address t"
    using keeps_sound [OF assms(5) a(1)] keeps_task [OF assms(5)] a assms(5) by (auto simp: keeps_def grows_def)
  let ?c = "next_address t" and ?s2 = "enter h t"
  note e2 = enter_entered [OF t(1), where q = h]
  have ent: "entered s ?c (?c + 1) ?s2" by (rule entered_again [OF assms(4,5) e2(1)])
  have h: "handlers ?s2 h = Some (handler_of t)" using sound_handler(1,2) [OF t(1)] e2(4) t(2) by simp
  note start = run_catch_starts [OF t(1), of "current_task s"]
  have snd: "sound ?s2" "h_state (handler_of ?s2) = ?c + 1" using entered_sound [OF ent] by auto
  show ?thesis
  proof (cases "ca e (world t)")
    case (Ends w)
    obtain u where u: "C e ?s2 = Inr (Done (), u)" "keeps ?s2 u" "world u = w"
      using implementsD(1) [OF assms(1) snd(1)] Ends e2(2) by metis
    obtain v where v: "keeps s v" "sound v" "world v = w"
        "leave_try (current_task s) (exception_handler (task_of s)) E u = run_ensure E v"
      using leave_try_run [OF assms(3) ent u(2)] u(3) by metis
    have "meets s (structured_try (Throws e) ca en (world t)) (run_ensure E v)"
      using ensure_ends [OF assms(2,3) v(2,1)] Ends v(3) by (auto simp: structured_try_def split: ending.splits)
    then show ?thesis unfolding start [OF t(3)]
      by (intro meets_restores) (use assms(3) t(4) h u(1) v(4) assms(6) in auto)
  next
    case (Throws x w)
    obtain u where u: "C e ?s2 = Inr (Jump (?c + 1), u)" "keeps ?s2 u" "world u = w" "h_exception (handler_of u) = x"
      using implementsD(2) [OF assms(1) snd(1)] Throws e2(2) snd(2) by metis
    obtain v where v: "keeps s v" "sound v" "world v = w" "handlers v = handlers u" "next_address v = next_address u"
        "leave_try (current_task s) (exception_handler (task_of s)) E u = run_ensure E v"
      using leave_try_run [OF assms(3) ent u(2)] u(3) by metis
    have su: "handlers u ?c = Some (handler_of u)" "?c < next_address u"
      using sound_handler [OF keeps_sound(1) [OF u(2) snd(1)]] keeps_task [OF u(2)] entered_sound(3) [OF ent] by simp_all
    have "meets s (structured_try (Throws e) ca en (world t))
        (xbind (leave_try (current_task s) (exception_handler (task_of s)) E) (\<lambda>_.
           xbind (deref handlers ?c) (\<lambda>c. snow_throw_exception (h_exception c))) u)"
    proof (cases "en w")
      case (Throws y z)
      then show ?thesis using ensure_ends [OF assms(2,3) v(2,1)] \<open>ca e (world t) = _\<close> v(3,6)
        by (auto simp: structured_try_def meets_def)
    next
      case (Ends z)
      obtain r where r: "run_ensure E v = Inr (Done (), r)" "keeps v r" "world r = z"
        using implementsD(1) [OF assms(2) v(2)] Ends v(3) by metis
      have "exception_handler (task_of v) < next_address s" "?c < next_address v"
        using keeps_task [OF v(1)] sound_handler(2) [OF assms(3)] su(2) v(5) by simp_all
      then have "handlers r ?c = Some (handler_of u)"
        using r(2) t(4) su(1) v(4) by (simp add: keeps_def grows_def)
      moreover have "meets s (Throws x z) (snow_throw_exception x r)"
        using implements_throw [of x] keeps_sound(1) [OF r(2) v(2)] r(3) meets_after [OF assms(3) keeps_trans [OF v(1) r(2)]]
        unfolding implements_def by blast
      ultimately show ?thesis using r(1) v(6) u(4) Ends \<open>ca e (world t) = _\<close> by (simp add: structured_try_def)
    qed
    then show ?thesis unfolding start [OF t(3)]
      by (subst restores_again [where t = u])
        (use assms(3) t(4) h u(1) assms(6) in \<open>auto intro: meets_restores\<close>)
  qed
qed

lemma try_catch_ensure_implements:
  assumes "implements T tr" "\<And>e. implements (C e) (ca e)" "implements (run_ensure E) en"
  shows "implements (snow_try_catch_ensure (Suc n) T C E) (structured_try tr ca en)"
  unfolding implements_def
proof (intro allI impI)
  fix s :: "'a xstate" assume s: "sound s"
  let ?h = "next_address s" and ?s1 = "enter (exception_handler (task_of s)) s"
  note ent = enter_entered [OF s, where q = "exception_handler (task_of s)"]
  note snd = entered_sound [OF ent(1)]
  note start = try_catch_ensure_starts [OF s]
  show "meets s (structured_try tr ca en (world s)) (snow_try_catch_ensure (Suc n) T C E s)"
  proof (cases "tr (world s)")
    case (Ends w)
    obtain t where t: "T ?s1 = Inr (Done (), t)" "keeps ?s1 t" "world t = w"
      using implementsD(1) [OF assms(1) snd(1)] Ends ent(2) by metis
    obtain v where v: "keeps s v" "sound v" "world v = w"
        "leave_try (current_task s) (exception_handler (task_of s)) E t = run_ensure E v"
      using leave_try_run [OF s ent(1) t(2)] t(3) by metis
    have "meets s (structured_try tr ca en (world s)) (run_ensure E v)"
      using ensure_ends [OF assms(3) s v(2,1)] Ends v(3) by (auto simp: structured_try_def split: ending.splits)
    then show ?thesis unfolding start by (intro meets_restores) (use s t(1) v(4) in auto)
  next
    case (Throws e w)
    obtain t where t: "T ?s1 = Inr (Jump (?h + 1), t)" "keeps ?s1 t" "world t = w" "h_exception (handler_of t) = e"
      using implementsD(2) [OF assms(1) snd(1)] Throws ent(2) snd(2) by metis
    have "meets s (structured_try (Throws e) ca en (world t))
        (run_catch (Suc n) (current_task s) ?h (exception_handler (task_of s)) C E t)"
      by (rule run_catch_meets [OF assms(2,3) s ent(1) t(2,4)])
    then have "meets s (structured_try tr ca en (world s))
        (run_catch (Suc n) (current_task s) ?h (exception_handler (task_of s)) C E t)"
      using Throws t(3) by (simp add: structured_try_def)
    then show ?thesis unfolding start
      by (subst restores_again [where t = t]) (use s t(1) in \<open>auto intro: meets_restores\<close>)
  qed
qed

subsection \<open>Resumptions\<close>

definition inside :: "'w xstate \<Rightarrow> nat \<Rightarrow> nat \<Rightarrow> nat \<Rightarrow> SnTryState \<Rightarrow> 'w xstate \<Rightarrow> bool" where
  "inside s h p y Y t \<longleftrightarrow> entered s h p t \<and> map_option h_previous (handlers t h) = Some (exception_handler (task_of s)) \<and>
     tries t y = Some Y \<and> next_address s \<le> y \<and> y < next_address t"

lemma inside_keeps:
  assumes "inside s h p y Y t" "keeps t u"
  shows "inside s h p y Y u"
proof -
  have e: "entered s h p t" using assms(1) by (simp add: inside_def)
  note a = entered_sound [OF e]
  have "grows s u" using grows_trans [OF a(4), of u] assms(2) a(3,5) by (simp add: keeps_def)
  moreover obtain r where r: "handlers t h = Some r" "h_state r = p" "h < next_address t" using e by (auto simp: entered_def)
  obtain r' where "handlers u h = Some r'" "h_previous r' = h_previous r" "h_state r' = h_state r"
    using grows_handler [OF _ r(1,3)] assms(2) unfolding keeps_def by blast
  ultimately show ?thesis using assms e r a by (auto simp: inside_def entered_def keeps_def grows_def)
qed

lemma inside_put:
  assumes "inside s h p y Y t"
  shows "inside s h p y Z (t\<lparr>tries := (tries t)(y \<mapsto> Z)\<rparr>)"
  using assms by (auto simp: inside_def entered_def grows_def bounded_def)

lemma inside_facts:
  assumes "inside s h p y Y t"
  shows "sound t" "h_state (handler_of t) = p" "exception_handler (task_of t) = h" "handlers t h = Some (handler_of t)"
    "tasks t (current_task t) = Some (task_of t)" "tries t y = Some Y" "h_previous (handler_of t) = exception_handler (task_of s)"
proof -
  have e: "entered s h p t" using assms by (simp add: inside_def)
  note a = entered_sound [OF e]
  show "sound t" "h_state (handler_of t) = p" "exception_handler (task_of t) = h" "tries t y = Some Y"
    using a(1-3) assms by (simp_all add: inside_def)
  show "tasks t (current_task t) = Some (task_of t)" by (rule sound_task [OF a(1)])
  show h: "handlers t h = Some (handler_of t)" using sound_handler(1) [OF a(1)] a(3) by simp
  show "h_previous (handler_of t) = exception_handler (task_of s)" using h assms by (simp add: inside_def)
qed

lemma pop_run:
  assumes "inside s h p y Y t" "sound s"
  shows "snow_pop_exception_handler t = Inr (Done (), t\<lparr>tasks := (tasks t)(current_task s \<mapsto> task_of s)\<rparr>)"
proof -
  note f = inside_facts [OF assms(1)]
  have e: "entered s h p t" using assms by (simp add: inside_def)
  note a = entered_sound [OF e]
  show ?thesis using f a(3,6)
    by (simp add: snow_pop_exception_handler_def snow_get_current_task_def set_task_handler_def)
qed

lemma finish_meets:
  assumes "inside s h p y Y t" "sound s" "started Y"
  shows "meets s (if exception_to_propagate Y = 0 then Ends (world t) else Throws (exception_to_propagate Y) (world t))
     (snow_try_finish_resumptions y t)"
proof -
  let ?u = "t\<lparr>tasks := (tasks t)(current_task s \<mapsto> task_of s)\<rparr>"
  let ?v = "?u\<lparr>tries := (tries t)(y \<mapsto> Y\<lparr>started := False\<rparr>)\<rparr>"
  note f = inside_facts [OF assms(1)]
  have e: "entered s h p t" "next_address s \<le> y" using assms by (simp_all add: inside_def)
  have "keeps s ?u" by (rule leave_keeps [OF assms(2) e(1) keeps_refl [OF f(1)]])
  then have k: "keeps s ?v" using e(2) by (auto simp: keeps_def grows_def bounded_def)
  have run: "snow_try_finish_resumptions y t =
      (if exception_to_propagate Y \<noteq> 0 then snow_throw_exception (exception_to_propagate Y) else xret ()) ?v"
    using f(6) assms(3) pop_run [OF assms(1,2)] by (simp add: snow_try_finish_resumptions_def)
  show ?thesis
  proof (cases "exception_to_propagate Y = 0")
    case True with k run show ?thesis by (auto simp: meets_def)
  next
    case False
    have "meets ?v (Throws (exception_to_propagate Y) (world ?v)) (snow_throw_exception (exception_to_propagate Y) ?v)"
      using implements_throw keeps_sound(1) [OF k assms(2)] unfolding implements_def by blast
    from meets_after [OF assms(2) k this] False run show ?thesis by simp
  qed
qed

lemma end_try_jumps:
  assumes "inside s h p y Y t" "started Y" "iteration_was_prepared Y" "resumption_state Y \<noteq> SnTryResumptionStateEnsuring"
  shows "snow_end_try y t = Inr (Jump p, t\<lparr>tries := (tries t)(y \<mapsto>
     Y\<lparr>iteration_was_prepared := False, resumption_state := SnTryResumptionStateEnsuring\<rparr>)\<rparr>)"
proof -
  note f = inside_facts [OF assms(1)]
  let ?t = "t\<lparr>tries := (tries t)(y \<mapsto> Y\<lparr>iteration_was_prepared := False, resumption_state := SnTryResumptionStateEnsuring\<rparr>)\<rparr>"
  have "restore_current_handler ?t = Inr (Jump p, ?t)"
    using f(2-5) by (simp add: restore_current_handler_def snow_current_exception_handler_def
      snow_get_current_task_def snow_restore_execution_state_def)
  then show ?thesis using f(6) assms(2-) by (cases "resumption_state Y") (simp_all add: snow_end_try_def Let_def)
qed

lemma end_try_finishes:
  assumes "inside s h p y Y t" "started Y" "iteration_was_prepared Y" "resumption_state Y = SnTryResumptionStateEnsuring"
  shows "snow_end_try y t = snow_try_finish_resumptions y (t\<lparr>tries := (tries t)(y \<mapsto> Y\<lparr>iteration_was_prepared := False\<rparr>)\<rparr>)"
  using inside_facts [OF assms(1)] assms(2-) by (simp add: snow_end_try_def Let_def)

lemma current_exception_run:
  assumes "inside s h p y Y t"
  shows "snow_current_exception t = Inr (Done (h_exception (handler_of t)), t)"
  using inside_facts(3-5) [OF assms]
  by (simp add: snow_current_exception_def snow_current_exception_handler_def snow_get_current_task_def)

text \<open>The four turns: what the preparation makes of the state.\<close>

definition try_state :: "bool \<Rightarrow> SnTryResumptionState \<Rightarrow> VALUE \<Rightarrow> SnTryState" where
  "try_state b r e = \<lparr>started = True, iteration_was_prepared = b, resumption_state = r, exception_to_propagate = e\<rparr>"

lemma try_state_simps [simp]:
  "started (try_state b r e)" "iteration_was_prepared (try_state b r e) = b" "resumption_state (try_state b r e) = r"
  "exception_to_propagate (try_state b r e) = e"
  "(try_state b r e)\<lparr>iteration_was_prepared := b'\<rparr> = try_state b' r e"
  "(try_state b r e)\<lparr>resumption_state := r'\<rparr> = try_state b r' e"
  "(try_state b r e)\<lparr>exception_to_propagate := e'\<rparr> = try_state b r e'"
  by (simp_all add: try_state_def)

lemma prepare_runs:
  assumes "inside s h p y Y t"
  shows "Y = try_state False SnTryResumptionStateTrying e \<Longrightarrow> snow_try_prepare_resumption_iteration y t =
       Inr (Done SnTryResumptionStateTrying, t\<lparr>tries := (tries t)(y \<mapsto> try_state True SnTryResumptionStateTrying e)\<rparr>)"
    "Y = try_state True SnTryResumptionStateTrying e \<Longrightarrow> snow_try_prepare_resumption_iteration y t =
       Inr (Done SnTryResumptionStateCatching, t\<lparr>tries := (tries t)(y \<mapsto> try_state True SnTryResumptionStateCatching e)\<rparr>)"
    "Y = try_state True SnTryResumptionStateCatching e \<Longrightarrow> snow_try_prepare_resumption_iteration y t =
       Inr (Done SnTryResumptionStateEnsuring,
         t\<lparr>tries := (tries t)(y \<mapsto> try_state True SnTryResumptionStateEnsuring (h_exception (handler_of t)))\<rparr>)"
    "Y = try_state False SnTryResumptionStateEnsuring e \<Longrightarrow> snow_try_prepare_resumption_iteration y t =
       Inr (Done SnTryResumptionStateEnsuring, t\<lparr>tries := (tries t)(y \<mapsto> try_state True SnTryResumptionStateEnsuring e)\<rparr>)"
  using inside_facts(6) [OF assms] current_exception_run [OF assms]
  by (simp_all add: snow_try_prepare_resumption_iteration_def)

lemma last_turn:
  assumes "inside s h p y (try_state True SnTryResumptionStateEnsuring e) t" "sound s" "h_exception (handler_of t) \<noteq> 0"
  shows "meets s (Throws (h_exception (handler_of t)) (world t)) (try_turn y T C E t)"
proof -
  let ?Y = "try_state True SnTryResumptionStateEnsuring (h_exception (handler_of t))"
  let ?t = "t\<lparr>tries := (tries t)(y \<mapsto> ?Y)\<rparr>"
  have "meets s (Throws (h_exception (handler_of t)) (world t)) (snow_try_finish_resumptions y ?t)"
    using finish_meets [OF inside_put [OF assms(1)] assms(2), of ?Y] assms(3) by simp
  moreover then obtain u where "snow_try_finish_resumptions y ?t = Inr (Jump (h_state (handler_of s)), u)"
    by (auto simp: meets_def)
  ultimately show ?thesis using inside_facts(6) [OF assms(1)] current_exception_run [OF assms(1)]
    by (simp add: try_turn_def snow_try_prepare_resumption_iteration_def)
qed

definition finally_end :: "('w \<Rightarrow> 'w ending) \<Rightarrow> VALUE \<Rightarrow> 'w \<Rightarrow> 'w ending" where
  "finally_end en e w = (case en w of Throws x w \<Rightarrow> Throws x w | Ends w \<Rightarrow> if e = 0 then Ends w else Throws e w)"

text \<open>The turn of the ensure block, with the exception to propagate.\<close>

lemma ensure_turn:
  assumes "inside s h p y Y t" "sound s" "implements E en" "\<And>w x w'. en w = Throws x w' \<Longrightarrow> x \<noteq> 0"
    "Y = try_state False SnTryResumptionStateEnsuring e \<or>
     Y = try_state True SnTryResumptionStateCatching e' \<and> h_exception (handler_of t) = e"
  shows "meets s (finally_end en e (world t)) (restores (Suc n) p (try_turn y T C E) (try_turn y T C E) t)"
proof -
  let ?Y = "try_state True SnTryResumptionStateEnsuring e"
  let ?t = "t\<lparr>tries := (tries t)(y \<mapsto> ?Y)\<rparr>"
  have run: "snow_try_prepare_resumption_iteration y t = Inr (Done SnTryResumptionStateEnsuring, ?t)"
    using prepare_runs(3,4) [OF assms(1)] assms(5) by metis
  have i: "inside s h p y ?Y ?t" by (rule inside_put [OF assms(1)])
  have ps: "next_address s \<le> p" using i by (simp add: inside_def entered_def)
  show ?thesis
  proof (cases "en (world t)")
    case (Ends w)
    obtain u where u: "E ?t = Inr (Done (), u)" "keeps ?t u" "world u = w"
      using implementsD(1) [OF assms(3) inside_facts(1) [OF i]] Ends by auto
    note iu = inside_keeps [OF i u(2)]
    have "meets s (finally_end en e (world t)) (snow_end_try y u)"
      using finish_meets [OF inside_put [OF iu] assms(2), of "try_state False SnTryResumptionStateEnsuring e"]
        end_try_finishes [OF iu] u(3) Ends by (auto simp: finally_end_def)
    then show ?thesis by (intro meets_restores assms(2) ps) (simp add: try_turn_def run u(1))
  next
    case (Throws x w)
    obtain u where u: "E ?t = Inr (Jump p, u)" "keeps ?t u" "world u = w" "h_exception (handler_of u) = x"
      using implementsD(2) [OF assms(3) inside_facts(1) [OF i]] Throws inside_facts(2) [OF i] by auto
    have turn: "try_turn y T C E t = Inr (Jump p, u)" by (simp add: try_turn_def run u(1))
    have "meets s (Throws x w) (try_turn y T C E u)"
      using last_turn [OF inside_keeps [OF i u(2)] assms(2)] u(3,4) assms(4) [OF Throws] by simp
    then have "meets s (finally_end en e (world t)) (try_turn y T C E u)" by (simp add: finally_end_def Throws)
    then have "meets s (finally_end en e (world t)) (restores n p (try_turn y T C E) (try_turn y T C E) u)"
      by (rule meets_restores [OF assms(2) ps])
    then show ?thesis by (simp only: restores_again [where m = "try_turn y T C E", OF turn])
  qed
qed

definition implements_catch :: "(unit, 'w) xprog \<Rightarrow> (VALUE \<Rightarrow> 'w \<Rightarrow> 'w ending) \<Rightarrow> bool" where
  "implements_catch p P \<longleftrightarrow> (\<forall>s. sound s \<longrightarrow> meets s (P (h_exception (handler_of s)) (world s)) (p s))"

definition throws_objects :: "('w \<Rightarrow> 'w ending) \<Rightarrow> bool" where
  "throws_objects P \<longleftrightarrow> (\<forall>w e w'. P w = Throws e w' \<longrightarrow> e \<noteq> 0)"

lemma implements_catchD:
  assumes "implements_catch p P" "sound s"
  shows "P (h_exception (handler_of s)) (world s) = Ends w \<Longrightarrow> \<exists>t. p s = Inr (Done (), t) \<and> keeps s t \<and> world t = w"
    "P (h_exception (handler_of s)) (world s) = Throws e w \<Longrightarrow>
     \<exists>t. p s = Inr (Jump (h_state (handler_of s)), t) \<and> keeps s t \<and> world t = w \<and> h_exception (handler_of t) = e"
  using assms unfolding implements_catch_def meets_def by force+

lemma throws_objectsD: "throws_objects P \<Longrightarrow> P w = Throws e w' \<Longrightarrow> e \<noteq> 0"
  unfolding throws_objects_def by blast

lemma structured_try_finally:
  assumes "throws_objects en" "\<forall>e. throws_objects (ca e)"
  shows "tr w = Ends w' \<Longrightarrow> structured_try tr ca en w = finally_end en 0 w'"
    "tr w = Throws e w' \<Longrightarrow> ca e w' = Ends v \<Longrightarrow> structured_try tr ca en w = finally_end en 0 v"
    "tr w = Throws e w' \<Longrightarrow> ca e w' = Throws x v \<Longrightarrow> structured_try tr ca en w = finally_end en x v"
  using throws_objectsD [OF assms(2) [rule_format]] by (auto simp: structured_try_def finally_end_def split: ending.splits)

text \<open>The turn of the catch block, after the try block threw.\<close>

lemma catch_turn:
  assumes "inside s h p y (try_state True SnTryResumptionStateTrying 0) t" "sound s" "implements_catch C ca" "implements E en"
    "throws_objects en" "\<forall>e. throws_objects (ca e)"
  shows "meets s (structured_try (Throws (h_exception (handler_of t))) ca en (world t))
     (restores (Suc (Suc n)) p (try_turn y T C E) (try_turn y T C E) t)"
proof -
  let ?Y = "try_state True SnTryResumptionStateCatching 0" and ?e = "h_exception (handler_of t)"
  let ?t = "t\<lparr>tries := (tries t)(y \<mapsto> ?Y)\<rparr>"
  note run = prepare_runs(2) [OF assms(1) refl]
  have i: "inside s h p y ?Y ?t" by (rule inside_put [OF assms(1)])
  have e: "handler_of ?t = handler_of t" by (simp add: handler_of_def task_of_def)
  have en: "\<And>w x w'. en w = Throws x w' \<Longrightarrow> x \<noteq> 0" using throws_objectsD [OF assms(5)] .
  note turn = ensure_turn [OF _ assms(2,4) en]
  show ?thesis
  proof (cases "ca ?e (world t)")
    case (Ends w)
    obtain u where u: "C ?t = Inr (Done (), u)" "keeps ?t u" "world u = w"
      using implements_catchD(1) [OF assms(3) inside_facts(1) [OF i]] Ends e by auto
    let ?u = "u\<lparr>tries := (tries u)(y \<mapsto> try_state False SnTryResumptionStateEnsuring 0)\<rparr>"
    note iu = inside_keeps [OF i u(2)]
    have go: "try_turn y T C E t = Inr (Jump p, ?u)" using end_try_jumps [OF iu] by (simp add: try_turn_def run u(1))
    have "meets s (finally_end en 0 (world ?u)) (restores (Suc n) p (try_turn y T C E) (try_turn y T C E) ?u)"
      by (rule turn [OF inside_put [OF iu]]) auto
    then show ?thesis using structured_try_finally(2) [where ca = ca and tr = "Throws ?e" and w = "world t", OF assms(5,6) refl Ends] u(3)
      by (simp add: restores_again [where m = "try_turn y T C E", OF go] del: restores.simps)
  next
    case (Throws x w)
    obtain u where u: "C ?t = Inr (Jump p, u)" "keeps ?t u" "world u = w" "h_exception (handler_of u) = x"
      using implements_catchD(2) [OF assms(3) inside_facts(1) [OF i]] Throws inside_facts(2) [OF i] e by auto
    have go: "try_turn y T C E t = Inr (Jump p, u)" by (simp add: try_turn_def run u(1))
    have "meets s (finally_end en x (world u)) (restores (Suc n) p (try_turn y T C E) (try_turn y T C E) u)"
      by (rule turn [OF inside_keeps [OF i u(2)]]) (use u(4) in auto)
    then show ?thesis using structured_try_finally(3) [where ca = ca and tr = "Throws ?e" and w = "world t", OF assms(5,6) refl Throws] u(3)
      by (simp add: restores_again [where m = "try_turn y T C E", OF go] del: restores.simps)
  qed
qed

lemma try_statement_starts:
  assumes "sound s"
  shows "\<exists>s1 h p y. try_statement n T C E s = restores n p (try_turn y T C E) (try_turn y T C E) s1 \<and>
     inside s h p y (try_state False SnTryResumptionStateTrying 0) s1 \<and> world s1 = world s"
proof -
  let ?y = "next_address s"
  define s0 where "s0 = s\<lparr>next_address := ?y + 1, tries := (tries s)(?y \<mapsto> try_state False SnTryResumptionStateTrying 0)\<rparr>"
  let ?h = "next_address s0" and ?s1 = "enter (exception_handler (task_of s)) s0"
  have t: "task_of s0 = task_of s" "current_task s0 = current_task s" "next_address s0 = next_address s + 1"
      "tries s0 ?y = Some (try_state False SnTryResumptionStateTrying 0)" "handlers s0 = handlers s" "tasks s0 = tasks s" "world s0 = world s"
    by (simp_all add: task_of_def s0_def)
  have b: "bounded s0" using assms unfolding sound_def bounded_def t by fastforce
  then have "sound s0" using assms by (simp add: sound_def t)
  note ent = enter_entered [OF this, where q = "exception_handler (task_of s)"]
  have "grows s s0" using b by (simp add: grows_def t) (simp add: s0_def)
  with ent(1) have e: "entered s ?h (?h + 1) ?s1"
    using grows_trans [of s s0 ?s1] by (simp add: entered_def t)
  have "tries ?s1 ?y = Some (try_state False SnTryResumptionStateTrying 0)" by (simp add: enter_def t)
  moreover have "?y < next_address ?s1" by (simp add: enter_def t)
  ultimately have "inside s ?h (?h + 1) ?y (try_state False SnTryResumptionStateTrying 0) ?s1"
    using ent(3) e by (simp add: inside_def)
  moreover have "try_statement n T C E s = restores n (?h + 1) (try_turn ?y T C E) (try_turn ?y T C E) ?s1"
    using sound_task [OF assms] t(1)
    by (simp add: try_statement_def snow_try_setup_resumptions_def snow_create_exception_handler_def
      snow_push_exception_handler_def snow_current_exception_handler_def snow_get_current_task_def saving_def
      set_task_handler_def set_handler_state_def enter_def try_state_def s0_def)
  moreover have "world ?s1 = world s" by (simp add: enter_def t)
  ultimately show ?thesis by blast
qed

lemma try_statement_implements:
  assumes "implements T tr" "implements_catch C ca" "implements E en" "throws_objects en" "\<forall>e. throws_objects (ca e)"
  shows "implements (try_statement (Suc (Suc (Suc n))) T C E) (structured_try tr ca en)"
  unfolding implements_def
proof (intro allI impI)
  fix s :: "'a xstate" assume s: "sound s"
  obtain s1 h p y where start: "try_statement (Suc (Suc (Suc n))) T C E s =
        restores (Suc (Suc (Suc n))) p (try_turn y T C E) (try_turn y T C E) s1"
      and i0: "inside s h p y (try_state False SnTryResumptionStateTrying 0) s1" and w: "world s1 = world s"
    using try_statement_starts [OF s] by metis
  let ?Y = "try_state True SnTryResumptionStateTrying 0"
  let ?t = "s1\<lparr>tries := (tries s1)(y \<mapsto> ?Y)\<rparr>"
  note run = prepare_runs(1) [OF i0 refl]
  have i: "inside s h p y ?Y ?t" by (rule inside_put [OF i0])
  have en: "\<And>w x w'. en w = Throws x w' \<Longrightarrow> x \<noteq> 0" using throws_objectsD [OF assms(4)] .
  show "meets s (structured_try tr ca en (world s)) (try_statement (Suc (Suc (Suc n))) T C E s)"
  proof (cases "tr (world s)")
    case (Ends v)
    obtain u where u: "T ?t = Inr (Done (), u)" "keeps ?t u" "world u = v"
      using implementsD(1) [OF assms(1) inside_facts(1) [OF i]] Ends w by auto
    let ?u = "u\<lparr>tries := (tries u)(y \<mapsto> try_state False SnTryResumptionStateEnsuring 0)\<rparr>"
    note iu = inside_keeps [OF i u(2)]
    have go: "try_turn y T C E s1 = Inr (Jump p, ?u)" using end_try_jumps [OF iu] by (simp add: try_turn_def run u(1))
    have "meets s (finally_end en 0 (world ?u)) (restores (Suc (Suc n)) p (try_turn y T C E) (try_turn y T C E) ?u)"
      by (rule ensure_turn [OF inside_put [OF iu] s assms(3) en]) auto
    then show ?thesis unfolding start using structured_try_finally(1) [where ca = ca and tr = tr and w = "world s", OF assms(4,5) Ends] u(3)
      by (simp add: restores_again [where m = "try_turn y T C E", OF go] del: restores.simps)
  next
    case (Throws e v)
    obtain u where u: "T ?t = Inr (Jump p, u)" "keeps ?t u" "world u = v" "h_exception (handler_of u) = e"
      using implementsD(2) [OF assms(1) inside_facts(1) [OF i]] Throws w inside_facts(2) [OF i] by auto
    have go: "try_turn y T C E s1 = Inr (Jump p, u)" by (simp add: try_turn_def run u(1))
    have "meets s (structured_try (Throws e) ca en v) (restores (Suc (Suc n)) p (try_turn y T C E) (try_turn y T C E) u)"
      using catch_turn [OF inside_keeps [OF i u(2)] s assms(2-5)] u(3,4) by simp
    then show ?thesis unfolding start using Throws
      by (simp add: restores_again [where m = "try_turn y T C E", OF go] structured_try_def del: restores.simps)
  qed
qed

subsection \<open>Properties\<close>

text \<open>Blocks that only change the world, and blocks in sequence.\<close>

definition run_world :: "('w \<Rightarrow> 'w) \<Rightarrow> (unit, 'w) xprog" where
  "run_world f = xmodify (\<lambda>s. s\<lparr>world := f (world s)\<rparr>)"

lemma implements_run_world: "implements (run_world f) (\<lambda>w. Ends (f w))"
proof -
  have "keeps s (s\<lparr>world := w\<rparr>)" if "sound s" for s :: "'a xstate" and w
    using that by (simp add: keeps_def grows_def sound_def bounded_def)
  then show ?thesis by (simp add: implements_def meets_def run_world_def)
qed

lemma implements_bind:
  assumes "implements p P" "implements q Q"
  shows "implements (xbind p (\<lambda>_. q)) (\<lambda>w. case P w of Ends w \<Rightarrow> Q w | Throws e w \<Rightarrow> Throws e w)"
  unfolding implements_def
proof (intro allI impI)
  fix s :: "'a xstate" assume s: "sound s"
  show "meets s (case P (world s) of Ends w \<Rightarrow> Q w | Throws e w \<Rightarrow> Throws e w) (xbind p (\<lambda>_. q) s)"
  proof (cases "P (world s)")
    case (Ends w)
    obtain t where t: "p s = Inr (Done (), t)" "keeps s t" "world t = w"
      using implementsD(1) [OF assms(1) s Ends] by blast
    have "meets t (Q w) (q t)" using assms(2) keeps_sound(1) [OF t(2) s] t(3) by (auto simp: implements_def)
    from meets_after [OF s t(2) this] show ?thesis by (simp add: Ends t(1))
  next
    case (Throws e w)
    then show ?thesis using implementsD(2) [OF assms(1) s Throws] by (auto simp: meets_def)
  qed
qed

text \<open>A state with one task and one handler.\<close>

definition one_task :: "'w \<Rightarrow> 'w xstate" where
  "one_task w = \<lparr>handlers = [2 \<mapsto> \<lparr>h_previous = 0, h_state = 3, h_exception = 0\<rparr>],
     tasks = [1 \<mapsto> \<lparr>t_previous = 0, t_continuation = 0, t_exception = 0, exception_handler = 2, t_base = 0\<rparr>],
     conts = Map.empty, tries = Map.empty, exception_objects = Map.empty, current_task = 1, next_address = 4,
     stack_alloc = FIXED_ALLOCATOR 65536, world = w\<rparr>"

lemma one_task_sound: "sound (one_task w)"
  by (simp add: sound_def bounded_def one_task_def task_of_def)

lemma meets_one_task:
  "implements p P \<Longrightarrow> meets (one_task w) (P w) (p (one_task w))"
  using one_task_sound unfolding implements_def by (metis one_task_def xstate.select_convs(9))

text \<open>
  C7. \<open>snow_try_catch_ensure\<close> refines the structured try: the catch block runs with the
  exception of the try block, under a handler of its own, the ensure block runs on every way
  out, and an exception of the catch or the ensure block goes on to the handler of the caller,
  which is the current one again.  One restore of each saved state is enough.\<close>

theorem try_catch_ensure_refines:
  assumes "implements T tr" "\<And>e. implements (C e) (ca e)" "implements (run_ensure E) en"
  shows "implements (snow_try_catch_ensure (Suc n) T C E) (structured_try tr ca en)"
  by (rule try_catch_ensure_implements [OF assms])

lemma try_catch_ensure_refines_witness:
  "meets (one_task []) (Ends [5, 0])
     (snow_try_catch_ensure (Suc 0) (snow_throw_exception 5) (\<lambda>e. run_world (\<lambda>w. w @ [e]))
        (Some (run_world (\<lambda>w. w @ [0]))) (one_task []))"
proof -
  have "implements (snow_try_catch_ensure (Suc 0) (snow_throw_exception 5) (\<lambda>e. run_world (\<lambda>w. w @ [e]))
      (Some (run_world (\<lambda>w. w @ [0])))) (structured_try (Throws 5) (\<lambda>e w. Ends (w @ [e])) (\<lambda>w. Ends (w @ [0])))"
    by (rule try_catch_ensure_refines [OF implements_throw implements_run_world
      implements_ensure(1) [OF implements_run_world]])
  from meets_one_task [OF this, of "[]"] show ?thesis by (simp add: structured_try_def)
qed

text \<open>
  C8. The statement made of \<open>snow_begin_try\<close> and \<open>snow_end_try\<close> refines the same structured
  try: its blocks run in turns of one frame, each exception or end of a block restoring the state
  saved at the start, and three restores are enough.  An exception that is the null word would
  count as none, hence the last two premises.\<close>

theorem try_statement_refines:
  assumes "implements T tr" "implements_catch C ca" "implements E en" "throws_objects en" "\<forall>e. throws_objects (ca e)"
  shows "implements (try_statement (Suc (Suc (Suc n))) T C E) (structured_try tr ca en)"
  by (rule try_statement_implements [OF assms])

lemma try_statement_refines_witness:
  "meets (one_task []) (Throws 8 [5, 0])
     (try_statement 3 (snow_throw_exception 5) (xbind snow_current_exception (\<lambda>e.
        xbind (run_world (\<lambda>w. w @ [e])) (\<lambda>_. snow_throw_exception 8))) (run_world (\<lambda>w. w @ [0])) (one_task []))"
proof -
  have "implements_catch (xbind snow_current_exception (\<lambda>e. xbind (run_world (\<lambda>w. w @ [e])) (\<lambda>_. snow_throw_exception 8)))
      (\<lambda>e w. Throws 8 (w @ [e]))"
    unfolding implements_catch_def
  proof (intro allI impI)
    fix s :: "VALUE list xstate" assume s: "sound s"
    have "snow_current_exception s = Inr (Done (h_exception (handler_of s)), s)"
      using sound_handler [OF s] sound_task [OF s]
      by (simp add: snow_current_exception_def snow_current_exception_handler_def snow_get_current_task_def)
    moreover have "meets s (Throws 8 (world s @ [e])) (xbind (run_world (\<lambda>w. w @ [e])) (\<lambda>_. snow_throw_exception 8) s)" for e
      using implements_bind [OF implements_run_world implements_throw] s unfolding implements_def by fastforce
    ultimately show "meets s (Throws 8 (world s @ [h_exception (handler_of s)])) (xbind snow_current_exception
        (\<lambda>e. xbind (run_world (\<lambda>w. w @ [e])) (\<lambda>_. snow_throw_exception 8)) s)"
      by (simp del: xprog_simps add: xbind_def)
  qed
  then have "implements (try_statement (Suc (Suc (Suc 0))) (snow_throw_exception 5) (xbind snow_current_exception (\<lambda>e.
        xbind (run_world (\<lambda>w. w @ [e])) (\<lambda>_. snow_throw_exception 8))) (run_world (\<lambda>w. w @ [0])))
      (structured_try (Throws 5) (\<lambda>e w. Throws 8 (w @ [e])) (\<lambda>w. Ends (w @ [0])))"
    by (rule try_statement_refines [OF implements_throw _ implements_run_world]) (simp_all add: throws_objects_def)
  from meets_one_task [OF this, of "[]"] show ?thesis by (simp add: structured_try_def numeral_3_eq_3)
qed

end
