(* ===== verification/Continuations.thy ===== *)
theory Continuations
  imports ExceptionSpec
begin

text \<open>
  Continuations (snow/continuation.c, snow/continuation-intern-x86_64.c): functions on stacks of
  their own.  A continuation that does not run is entered at its function, and where the function
  returns, the bouncer at the top of the stack calls \<open>snow_continuation_return\<close>.  A computation
  of the model ends at a jump, so a stack that is left by a jump is not gone back to:
  \<open>snow_continuation_yield\<close> is modelled up to its jump.
\<close>

definition CONTINUATION_STACK_SIZE :: nat where "CONTINUATION_STACK_SIZE = 65536"

text \<open>The address of a new stack, and running the code of a function.\<close>

record 'w cc_env =
  c_malloc :: "'w xstate \<Rightarrow> VALUE"
  c_run :: "VALUE \<Rightarrow> VALUE \<Rightarrow> (VALUE, 'w) xprog"

definition snow_continuation_init :: "nat \<Rightarrow> VALUE \<Rightarrow> VALUE \<Rightarrow> (unit, 'w) xprog" where
  "snow_continuation_init cc func context =
     xbind snow_get_current_task (\<lambda>id.
     put_cont cc \<lparr>cc_function = func, cc_state = 0, stack_lo = 0, stack_hi = 0, cc_task_id = id, running = False,
       interruptible = True, return_to = 0, please_clean = 0, cc_context = context, return_val = 0\<rparr>)"

definition snow_create_continuation :: "VALUE \<Rightarrow> VALUE \<Rightarrow> (nat, 'w) xprog" where
  "snow_create_continuation func context =
     xbind new_address (\<lambda>cc. xbind (snow_continuation_init cc func context) (\<lambda>_. xret cc))"

definition snow_continuation_cleanup :: "nat \<Rightarrow> (unit, 'w) xprog" where
  "snow_continuation_cleanup cc =
     xbind (deref conts cc) (\<lambda>c.
     xbind (xassert (\<not> running c)) (\<lambda>_.
     xbind (xget stack_alloc) (\<lambda>a.
     case fixed_free a (stack_lo c) of
       Inl e \<Rightarrow> pfail e
     | Inr a \<Rightarrow> xbind (xmodify (\<lambda>s. s\<lparr>stack_alloc := a\<rparr>)) (\<lambda>_. put_cont cc (c\<lparr>stack_lo := 0, stack_hi := 0\<rparr>)))))"

definition continuation_init_stack :: "'w cc_env \<Rightarrow> nat \<Rightarrow> (unit, 'w) xprog" where
  "continuation_init_stack env cc =
     xbind (deref conts cc) (\<lambda>c.
     xbind (xassert (stack_lo c = 0)) (\<lambda>_.
     xbind (xget (\<lambda>s. fixed_alloc (c_malloc env s) (stack_alloc s))) (\<lambda>(p, a).
     xbind (xmodify (\<lambda>s. s\<lparr>stack_alloc := a\<rparr>)) (\<lambda>_.
     put_cont cc (c\<lparr>stack_lo := p, stack_hi := p + of_nat CONTINUATION_STACK_SIZE\<rparr>)))))"

text \<open>What the reset writes to the stack and to the registers is the entry of the function.\<close>

definition continuation_reset :: "nat \<Rightarrow> (unit, 'w) xprog" where
  "continuation_reset cc = xbind (deref conts cc) (\<lambda>c. put_cont cc (c\<lparr>running := False\<rparr>))"

text \<open>\<open>snow_continuation_return\<close>: the caller is asserted to run, so its state is restored.\<close>

definition snow_continuation_return :: "nat \<Rightarrow> VALUE \<Rightarrow> ('a, 'w) xprog" where
  "snow_continuation_return cc val =
     xbind (deref conts cc) (\<lambda>c.
     xbind (xassert (interruptible c)) (\<lambda>_.
     xbind (put_cont cc (c\<lparr>running := False, return_val := val\<rparr>)) (\<lambda>_.
     xbind (deref conts (return_to c)) (\<lambda>r.
     xbind (xassert (please_clean r = 0)) (\<lambda>_.
     xbind (put_cont (return_to c) (r\<lparr>please_clean := cc\<rparr>)) (\<lambda>_.
     xbind (xassert (running r)) (\<lambda>_. resume_running (return_to c))))))))"

definition snow_continuation_resume :: "'w cc_env \<Rightarrow> nat \<Rightarrow> ('a, 'w) xprog" where
  "snow_continuation_resume env cc =
     xbind (deref conts cc) (\<lambda>c.
     if running c then resume_running cc
     else
       xbind snow_get_current_continuation (\<lambda>current.
       xbind (deref conts current) (\<lambda>cur.
       xbind (xassert (cc_task_id c = cc_task_id cur)) (\<lambda>_.
       xbind (snow_set_current_continuation cc) (\<lambda>_.
       xbind (snow_continuation_cleanup cc) (\<lambda>_.
       xbind (continuation_init_stack env cc) (\<lambda>_.
       xbind (continuation_reset cc) (\<lambda>_.
       xbind (deref conts cc) (\<lambda>c.
       xbind (put_cont cc (c\<lparr>running := True\<rparr>)) (\<lambda>_.
       xbind (c_run env (cc_function c) (cc_context c)) (\<lambda>val.
       snow_continuation_return cc val)))))))))))"

definition set_cont_state :: "nat \<Rightarrow> nat \<Rightarrow> (unit, 'w) xprog" where
  "set_cont_state cc p = xbind (deref conts cc) (\<lambda>c. put_cont cc (c\<lparr>cc_state := p\<rparr>))"

definition snow_continuation_call :: "nat \<Rightarrow> 'w cc_env \<Rightarrow> nat \<Rightarrow> nat \<Rightarrow> (VALUE, 'w) xprog" where
  "snow_continuation_call n env cc caller =
     xbind (xassert (cc \<noteq> caller)) (\<lambda>_.
     xbind (deref conts cc) (\<lambda>c.
     xbind (xassert (please_clean c = 0)) (\<lambda>_.
     xbind (put_cont cc (c\<lparr>return_to := caller\<rparr>)) (\<lambda>_.
     saving n (set_cont_state caller) (\<lambda>back.
       if \<not> back then snow_continuation_resume env cc
       else
         xbind (deref conts caller) (\<lambda>r.
         xbind (if please_clean r \<noteq> 0
                then xbind (snow_continuation_cleanup (please_clean r)) (\<lambda>_. put_cont caller (r\<lparr>please_clean := 0\<rparr>))
                else xret ()) (\<lambda>_.
         xbind (deref conts cc) (\<lambda>c. xret (return_val c)))))))))"

definition snow_continuation_yield :: "nat \<Rightarrow> 'w cc_env \<Rightarrow> nat \<Rightarrow> VALUE \<Rightarrow> (unit, 'w) xprog" where
  "snow_continuation_yield n env cc val =
     xbind (deref conts cc) (\<lambda>c.
     xbind (xassert (interruptible c)) (\<lambda>_.
     saving n (set_cont_state cc) (\<lambda>restarted.
       if restarted then xassert False
       else
       xbind (deref conts cc) (\<lambda>c.
       xbind (put_cont cc (c\<lparr>return_val := val\<rparr>)) (\<lambda>_.
       xbind (deref conts (return_to c)) (\<lambda>r.
       xbind (xassert (running r)) (\<lambda>_.
       xbind (xassert (please_clean r = 0)) (\<lambda>_.
       snow_continuation_resume env (return_to c)))))))))"

subsection \<open>Calls\<close>

text \<open>A function that returns \<open>v\<close> and leaves the two continuations and its task as they were.\<close>

definition function_returns :: "'w cc_env \<Rightarrow> VALUE \<Rightarrow> VALUE \<Rightarrow> nat \<Rightarrow> nat \<Rightarrow> 'w \<Rightarrow> VALUE \<Rightarrow> 'w \<Rightarrow> bool" where
  "function_returns env f context cc caller w v w' \<longleftrightarrow> (\<forall>t. world t = w \<longrightarrow>
     (\<exists>u. c_run env f context t = Inr (Done v, u) \<and> current_task u = current_task t \<and> tasks u = tasks t \<and>
       conts u cc = conts t cc \<and> conts u caller = conts t caller \<and> stack_alloc u = stack_alloc t \<and> world u = w'))"

definition can_call :: "'w xstate \<Rightarrow> nat \<Rightarrow> nat \<Rightarrow> bool" where
  "can_call s cc caller \<longleftrightarrow> cc \<noteq> caller \<and> cc < next_address s \<and> caller < next_address s \<and>
     (\<exists>t c r. tasks s (current_task s) = Some t \<and> t_continuation t = caller \<and>
       conts s caller = Some r \<and> running r \<and> please_clean r = 0 \<and> cc_task_id r = current_task s \<and>
       conts s cc = Some c \<and> \<not> running c \<and> stack_lo c = 0 \<and> interruptible c \<and> please_clean c = 0 \<and> cc \<noteq> 0 \<and>
       cc_task_id c = current_task s)"

lemma resume_running_run:
  assumes "tasks s (current_task s) = Some t" "conts s cc = Some c" "conts s (t_continuation t) = Some d"
    "cc_task_id c = current_task s" "cc_task_id d = current_task s"
  shows "resume_running cc s = Inr (Jump (cc_state c), s\<lparr>tasks := (tasks s)(current_task s \<mapsto> t\<lparr>t_continuation := cc\<rparr>)\<rparr>)"
  using assms by (simp add: resume_running_def snow_get_current_continuation_def snow_get_current_task_def
    snow_set_current_continuation_def snow_restore_execution_state_def)

lemma continuation_return_run:
  assumes "tasks s (current_task s) = Some t" "t_continuation t = cc" "conts s cc = Some c" "interruptible c"
    "conts s (return_to c) = Some r" "return_to c \<noteq> cc" "please_clean r = 0" "running r"
    "cc_task_id c = current_task s" "cc_task_id r = current_task s"
  shows "snow_continuation_return cc v s = Inr (Jump (cc_state r), s\<lparr>
     conts := (conts s)(cc \<mapsto> c\<lparr>running := False, return_val := v\<rparr>, return_to c \<mapsto> r\<lparr>please_clean := cc\<rparr>),
     tasks := (tasks s)(current_task s \<mapsto> t\<lparr>t_continuation := return_to c\<rparr>)\<rparr>)"
  using assms by (simp add: snow_continuation_return_def resume_running_def snow_get_current_continuation_def
    snow_get_current_task_def snow_set_current_continuation_def snow_restore_execution_state_def)

lemma cleanup_run:
  assumes "conts s cc = Some c" "\<not> running c" "fixed_free (stack_alloc s) (stack_lo c) = Inr a"
  shows "snow_continuation_cleanup cc s = Inr (Done (), s\<lparr>stack_alloc := a, conts := (conts s)(cc \<mapsto> c\<lparr>stack_lo := 0, stack_hi := 0\<rparr>)\<rparr>)"
  using assms by (simp add: snow_continuation_cleanup_def)

text \<open>Entering a continuation: its function runs on a new stack.\<close>

lemma continuation_enters:
  assumes "tasks s (current_task s) = Some t" "conts s (t_continuation t) = Some r" "cc_task_id r = current_task s"
    "conts s cc = Some c" "\<not> running c" "stack_lo c = 0" "cc_task_id c = current_task s"
    "fixed_alloc (c_malloc env s') (stack_alloc s) = (p, a)"
    "s' = s\<lparr>tasks := (tasks s)(current_task s \<mapsto> t\<lparr>t_continuation := cc\<rparr>),
       conts := (conts s)(cc \<mapsto> c\<lparr>stack_lo := 0, stack_hi := 0\<rparr>)\<rparr>"
  shows "snow_continuation_resume env cc s = xbind (c_run env (cc_function c) (cc_context c))
     (\<lambda>val. snow_continuation_return cc val) (s'\<lparr>stack_alloc := a, conts := (conts s)(cc \<mapsto>
       c\<lparr>stack_lo := p, stack_hi := p + of_nat CONTINUATION_STACK_SIZE, running := True\<rparr>)\<rparr>)"
  using assms by (simp add: snow_continuation_resume_def snow_get_current_continuation_def
    snow_get_current_task_def snow_set_current_continuation_def cleanup_run continuation_init_stack_def continuation_reset_def)

text \<open>The rest of the call, when the function has returned.\<close>

lemma call_comes_back:
  assumes "conts s caller = Some r" "please_clean r = cc" "cc \<noteq> 0" "cc \<noteq> caller" "conts s cc = Some c" "\<not> running c"
    "fixed_free (stack_alloc s) (stack_lo c) = Inr a"
  shows "xbind (deref conts caller) (\<lambda>r.
     xbind (if please_clean r \<noteq> 0
            then xbind (snow_continuation_cleanup (please_clean r)) (\<lambda>_. put_cont caller (r\<lparr>please_clean := 0\<rparr>))
            else xret ()) (\<lambda>_. xbind (deref conts cc) (\<lambda>c. xret (return_val c)))) s
   = Inr (Done (return_val c), s\<lparr>stack_alloc := a,
       conts := (conts s)(cc \<mapsto> c\<lparr>stack_lo := 0, stack_hi := 0\<rparr>, caller \<mapsto> r\<lparr>please_clean := 0\<rparr>)\<rparr>)"
  using assms by (simp add: cleanup_run [OF assms(5-7)])

text \<open>
  C10. Calling a continuation that does not run calls its function on a stack of its own and gives
  what the function returns; the caller is the current continuation again, and the stack goes
  back to the allocator.\<close>

theorem continuation_call_returns:
  assumes "can_call s cc caller" "conts s cc = Some c"
    "function_returns env (cc_function c) (cc_context c) cc caller (world s) v w"
    "pages_ok (stack_alloc s) free used" "\<And>t. c_malloc env t \<noteq> 0 \<and> c_malloc env t \<notin> used \<union> set free"
  shows "\<exists>t p c' r'. snow_continuation_call (Suc n) env cc caller s = Inr (Done v, t) \<and> world t = w \<and>
     tasks t (current_task s) = tasks s (current_task s) \<and> current_task t = current_task s \<and>
     conts t cc = Some c' \<and> \<not> running c' \<and> stack_lo c' = 0 \<and> conts t caller = Some r' \<and> running r' \<and> please_clean r' = 0 \<and>
     pages_ok (stack_alloc t) (p # tl free) used"
proof -
  obtain tk r where k: "tasks s (current_task s) = Some tk" "t_continuation tk = caller" "conts s caller = Some r" "running r"
      "please_clean r = 0" "cc_task_id r = current_task s" "\<not> running c" "stack_lo c = 0" "interruptible c"
      "please_clean c = 0" "cc_task_id c = current_task s" and ne: "cc \<noteq> caller" "cc \<noteq> 0"
    using assms(1,2) unfolding can_call_def by force
  let ?p = "next_address s" and ?c = "c\<lparr>return_to := caller\<rparr>" and ?r = "r\<lparr>cc_state := next_address s\<rparr>"
  let ?s2 = "s\<lparr>next_address := ?p + 1, conts := (conts s)(cc \<mapsto> ?c, caller \<mapsto> ?r)\<rparr>"
  let ?s3 = "?s2\<lparr>tasks := (tasks s)(current_task s \<mapsto> tk\<lparr>t_continuation := cc\<rparr>),
     conts := (conts ?s2)(cc \<mapsto> ?c\<lparr>stack_lo := 0, stack_hi := 0\<rparr>)\<rparr>"
  obtain pg a where pg: "fixed_alloc (c_malloc env ?s3) (stack_alloc s) = (pg, a)" by force
  have ok: "pg \<noteq> 0" "pg \<notin> used" "pages_ok a (tl free) (insert pg used)"
    using fixed_alloc_ok [OF assms(4) _ _ pg] assms(5) by blast+
  let ?c4 = "?c\<lparr>stack_lo := pg, stack_hi := pg + of_nat CONTINUATION_STACK_SIZE, running := True\<rparr>"
  let ?s4 = "?s3\<lparr>stack_alloc := a, conts := (conts ?s2)(cc \<mapsto> ?c4)\<rparr>"
  have enters: "snow_continuation_resume env cc ?s2 =
      (xbind (c_run env (cc_function c) (cc_context c)) (\<lambda>val. snow_continuation_return cc val) ?s4 :: (VALUE outcome \<times> 'a xstate) result)"
    using continuation_enters [where s = ?s2 and cc = cc and c = ?c and t = tk and r = ?r and env = env and s' = ?s3 and p = pg and a = a]
      k ne pg by simp
  have w4: "world ?s4 = world s" "conts ?s4 cc = Some ?c4" "conts ?s4 caller = Some ?r" "stack_alloc ?s4 = a"
      "current_task ?s4 = current_task s"
    using ne by simp_all
  obtain u where u: "c_run env (cc_function c) (cc_context c) ?s4 = Inr (Done v, u)" "current_task u = current_task s"
      "tasks u = tasks ?s4" "conts u cc = Some ?c4" "conts u caller = Some ?r" "stack_alloc u = a" "world u = w"
    using assms(3) [unfolded function_returns_def, rule_format, OF w4(1)] unfolding w4(2-5) by blast
  let ?u = "u\<lparr>conts := (conts u)(cc \<mapsto> ?c4\<lparr>running := False, return_val := v\<rparr>, caller \<mapsto> ?r\<lparr>please_clean := cc\<rparr>),
     tasks := (tasks u)(current_task s \<mapsto> tk\<lparr>t_continuation := caller\<rparr>)\<rparr>"
  have goes_back: "snow_continuation_return cc v u = (Inr (Jump ?p, ?u) :: (VALUE outcome \<times> 'a xstate) result)"
    using continuation_return_run [where s = u and cc = cc and c = ?c4 and r = ?r and t = "tk\<lparr>t_continuation := cc\<rparr>" and v = v]
      u k ne by simp
  obtain a' where a': "fixed_free a pg = Inr a'" "pages_ok a' (pg # tl free) (insert pg used - {pg})"
    using fixed_free_ok [OF ok(3), of pg] by auto
  have jumps: "snow_continuation_resume env cc ?s2 = (Inr (Jump ?p, ?u) :: (VALUE outcome \<times> 'a xstate) result)"
    unfolding enters by (simp only: xprog_simps u(1) goes_back rbind_simps prod.case outcome.case)
  let ?rest = "\<lambda>back. if \<not> back then snow_continuation_resume env cc
       else
         xbind (deref conts caller) (\<lambda>r.
         xbind (if please_clean r \<noteq> 0
                then xbind (snow_continuation_cleanup (please_clean r)) (\<lambda>_. put_cont caller (r\<lparr>please_clean := 0\<rparr>))
                else xret ()) (\<lambda>_.
         xbind (deref conts cc) (\<lambda>c. xret (return_val c))))"
  have "snow_continuation_call (Suc n) env cc caller s = restores (Suc n) ?p (?rest True) (?rest False) ?s2"
    using k ne assms(2) by (simp add: snow_continuation_call_def saving_def set_cont_state_def)
  also have "\<dots> = restores n ?p (?rest True) (?rest True) ?u"
    by (rule restores_again) (simp only: jumps simp_thms if_True)
  also have "\<dots> = Inr (Done v, ?u\<lparr>stack_alloc := a', conts := (conts ?u)(cc \<mapsto>
      ?c4\<lparr>running := False, return_val := v, stack_lo := 0, stack_hi := 0\<rparr>, caller \<mapsto> ?r\<lparr>please_clean := 0\<rparr>)\<rparr>)"
    by (rule restores_pass, simp only: simp_thms if_False,
      subst call_comes_back [where s = ?u and r = "?r\<lparr>please_clean := cc\<rparr>" and
        c = "?c4\<lparr>running := False, return_val := v\<rparr>" and a = a']) (use ne u(6) a'(1) in simp_all)
  finally show ?thesis using u k ne a'(2) ok(2) by auto
qed

definition blank_continuation :: "nat \<Rightarrow> bool \<Rightarrow> SnContinuation" where
  "blank_continuation task run = \<lparr>cc_function = 0, cc_state = 0, stack_lo = 0, stack_hi = 0, cc_task_id = task, running = run,
     interruptible = True, return_to = 0, please_clean = 0, cc_context = 0, return_val = 0\<rparr>"

lemma continuation_call_returns_witness:
  "\<exists>t p. snow_continuation_call (Suc 0) \<lparr>c_malloc = \<lambda>_. 0x10000, c_run = \<lambda>f context. xret 42\<rparr> 3 2
     ((one_task ())\<lparr>tasks := [1 \<mapsto> \<lparr>t_previous = 0, t_continuation = 2, t_exception = 0, exception_handler = 0, t_base = 2\<rparr>],
        conts := [2 \<mapsto> blank_continuation 1 True, 3 \<mapsto> blank_continuation 1 False]\<rparr>) = Inr (Done 42, t) \<and>
     pages_ok (stack_alloc t) [p] {}"
proof -
  let ?env = "\<lparr>c_malloc = \<lambda>_. 0x10000, c_run = \<lambda>f context. xret 42\<rparr> :: unit cc_env"
  let ?s = "(one_task ())\<lparr>tasks := [1 \<mapsto> \<lparr>t_previous = 0, t_continuation = 2, t_exception = 0, exception_handler = 0, t_base = 2\<rparr>],
        conts := [2 \<mapsto> blank_continuation 1 True, 3 \<mapsto> blank_continuation 1 False]\<rparr>"
  have a: "can_call ?s 3 2" by (simp add: can_call_def one_task_def blank_continuation_def)
  have b: "conts ?s 3 = Some (blank_continuation 1 False)" by simp
  have c: "function_returns ?env (cc_function (blank_continuation 1 False)) (cc_context (blank_continuation 1 False)) 3 2 (world ?s) 42 ()"
    by (simp add: function_returns_def)
  have d: "pages_ok (stack_alloc ?s) [] {}" by (simp add: one_task_def pages_ok_def FIXED_ALLOCATOR_def)
  show ?thesis using continuation_call_returns [OF a b c d, of 0] by fastforce
qed

end
