(* ===== verification/Tasks.thy ===== *)
theory Tasks
  imports Continuations
begin

text \<open>
  Parallel loops and deferred calls in the build without threads (snow/task-serial.c): each
  element runs in a task of its own, one after the other, and the exceptions that end tasks are
  thrown again when all have run.
\<close>

definition zero_task :: SnTask where
  "zero_task = \<lparr>t_previous = 0, t_continuation = 0, t_exception = 0, exception_handler = 0, t_base = 0\<rparr>"

text \<open>\<open>SnTask tasks[num]\<close>, cleared.\<close>

definition new_tasks :: "nat \<Rightarrow> (nat, 'w) xprog" where
  "new_tasks num s = Inr (Done (next_address s), s\<lparr>next_address := next_address s + num,
     tasks := (\<lambda>p. if next_address s \<le> p \<and> p < next_address s + num then Some zero_task else tasks s p)\<rparr>)"

definition set_current_task :: "nat \<Rightarrow> (unit, 'w) xprog" where
  "set_current_task task = xmodify (\<lambda>s. s\<lparr>current_task := task\<rparr>)"

definition parallel_task :: "nat \<Rightarrow> (unit, 'w) xprog \<Rightarrow> nat \<Rightarrow> (unit, 'w) xprog" where
  "parallel_task n func task =
     xbind snow_get_current_task (\<lambda>previous.
     xbind (deref tasks task) (\<lambda>t.
     xbind (put_task task (t\<lparr>t_previous := previous\<rparr>)) (\<lambda>_.
     xbind (set_current_task task) (\<lambda>_.
     xbind new_address (\<lambda>base.
     xbind (snow_continuation_init base 0 0) (\<lambda>_.
     xbind (deref conts base) (\<lambda>c.
     xbind (put_cont base (c\<lparr>cc_task_id := task, running := True\<rparr>)) (\<lambda>_.
     xbind (deref tasks task) (\<lambda>t.
     xbind (put_task task (t\<lparr>t_base := base, t_continuation := base\<rparr>)) (\<lambda>_.
     saving n (set_cont_state base) (\<lambda>restored.
       xbind (if \<not> restored then func else xret ()) (\<lambda>_.
       xbind (deref tasks task) (\<lambda>t. set_current_task (t_previous t))))))))))))))"

primrec each_task :: "nat \<Rightarrow> (nat \<Rightarrow> (unit, 'w) xprog) \<Rightarrow> nat \<Rightarrow> nat \<Rightarrow> nat \<Rightarrow> (unit, 'w) xprog" where
  "each_task n func ts i 0 = xret ()"
| "each_task n func ts i (Suc k) = xbind (parallel_task n (func i) (ts + i)) (\<lambda>_. each_task n func ts (Suc i) k)"

primrec collect_exceptions :: "nat \<Rightarrow> nat \<Rightarrow> nat \<Rightarrow> (VALUE list, 'w) xprog" where
  "collect_exceptions ts i 0 = xret []"
| "collect_exceptions ts i (Suc k) = xbind (deref tasks (ts + i)) (\<lambda>t.
     xbind (collect_exceptions ts (Suc i) k) (\<lambda>es.
     xret (if t_exception t \<noteq> 0 then t_exception t # es else es)))"

text \<open>The address of the array of several exceptions is a parameter.\<close>

definition collect_exceptions_and_rethrow :: "(VALUE list \<Rightarrow> VALUE) \<Rightarrow> nat \<Rightarrow> nat \<Rightarrow> (unit, 'w) xprog" where
  "collect_exceptions_and_rethrow new_array ts num =
     xbind (collect_exceptions ts 0 num) (\<lambda>exceptions.
       if exceptions = [] then xret ()
       else snow_throw_exception (if length exceptions = 1 then hd exceptions else new_array exceptions))"

definition snow_parallel_for_each ::
    "nat \<Rightarrow> (VALUE list \<Rightarrow> VALUE) \<Rightarrow> nat \<Rightarrow> (nat \<Rightarrow> (unit, 'w) xprog) \<Rightarrow> (unit, 'w) xprog" where
  "snow_parallel_for_each n new_array num func =
     xbind (new_tasks num) (\<lambda>ts.
     xbind (each_task n func ts 0 num) (\<lambda>_.
     collect_exceptions_and_rethrow new_array ts num))"

text \<open>Deferred calls run when they are waited for; \<open>call\<close> is \<open>snow_call\<close> without arguments.\<close>

record SnDeferredTask =
  closure :: VALUE
  d_result :: VALUE

definition snow_deferred_call :: "VALUE \<Rightarrow> SnDeferredTask" where
  "snow_deferred_call c = \<lparr>closure = c, d_result = 0\<rparr>"

definition snow_deferred_task_wait ::
    "(VALUE \<Rightarrow> (VALUE, 'w) xprog) \<Rightarrow> SnDeferredTask \<Rightarrow> (VALUE \<times> SnDeferredTask, 'w) xprog" where
  "snow_deferred_task_wait call task =
     (if d_result task = 0
      then xbind (call (closure task)) (\<lambda>v. xret (v, task\<lparr>d_result := v\<rparr>))
      else xret (d_result task, task))"

text \<open>The collector's visit of the tasks, from the current one to the first.\<close>

primrec with_tasks_from :: "nat \<Rightarrow> (nat \<Rightarrow> (unit, 'w) xprog) \<Rightarrow> nat \<Rightarrow> (unit, 'w) xprog" where
  "with_tasks_from 0 func t = pfail Undef"
| "with_tasks_from (Suc n) func t =
     (if t = 0 then xret ()
      else xbind (func t) (\<lambda>_. xbind (deref tasks t) (\<lambda>r. with_tasks_from n func (t_previous r))))"

definition snow_with_each_task_do :: "nat \<Rightarrow> (nat \<Rightarrow> (unit, 'w) xprog) \<Rightarrow> (unit, 'w) xprog" where
  "snow_with_each_task_do n func = xbind snow_get_current_task (with_tasks_from n func)"

subsection \<open>What the loop promises\<close>

text \<open>The endings of the elements one after the other: the exceptions, and the world they leave.\<close>

primrec run_each :: "(nat \<Rightarrow> 'w \<Rightarrow> 'w ending) \<Rightarrow> nat \<Rightarrow> nat \<Rightarrow> 'w \<Rightarrow> VALUE list \<times> 'w" where
  "run_each P i 0 w = ([], w)"
| "run_each P i (Suc k) w = (case P i w of
     Ends w \<Rightarrow> run_each P (Suc i) k w
   | Throws e w \<Rightarrow> (case run_each P (Suc i) k w of (es, w) \<Rightarrow> (e # es, w)))"

definition parallel_ending :: "(VALUE list \<Rightarrow> VALUE) \<Rightarrow> nat \<Rightarrow> (nat \<Rightarrow> 'w \<Rightarrow> 'w ending) \<Rightarrow> 'w \<Rightarrow> 'w ending" where
  "parallel_ending new_array num P w = (case run_each P 0 num w of (es, w) \<Rightarrow>
     if es = [] then Ends w else Throws (if length es = 1 then hd es else new_array es) w)"

text \<open>An element runs in a task without a handler; an exception ends the task.\<close>

definition in_task :: "'w xstate \<Rightarrow> nat \<Rightarrow> bool" where
  "in_task s p \<longleftrightarrow> bounded s \<and> current_task s \<noteq> 0 \<and> (\<exists>t c. tasks s (current_task s) = Some t \<and> exception_handler t = 0 \<and> t_exception t = 0 \<and>
     t_continuation t = t_base t \<and> t_base t < next_address s \<and> conts s (t_base t) = Some c \<and> running c \<and>
     cc_task_id c = current_task s \<and> cc_state c = p \<and> p < next_address s)"

definition same_below :: "'w xstate \<Rightarrow> 'w xstate \<Rightarrow> bool" where
  "same_below s t \<longleftrightarrow> current_task t = current_task s \<and> next_address s \<le> next_address t \<and> bounded t \<and>
     (\<forall>q < next_address s. handlers t q = handlers s q \<and> tries t q = tries s q \<and> conts t q = conts s q)"

definition keeps_task :: "'w xstate \<Rightarrow> 'w xstate \<Rightarrow> VALUE \<Rightarrow> bool" where
  "keeps_task s t e \<longleftrightarrow> same_below s t \<and>
     (\<forall>q < next_address s. tasks t q = (if q = current_task s then map_option (\<lambda>k. k\<lparr>t_exception := e\<rparr>) (tasks s q) else tasks s q))"

definition runs_in_task :: "(unit, 'w) xprog \<Rightarrow> ('w \<Rightarrow> 'w ending) \<Rightarrow> bool" where
  "runs_in_task p P \<longleftrightarrow> (\<forall>s q. in_task s q \<longrightarrow> (case P (world s) of
       Ends w \<Rightarrow> \<exists>t. p s = Inr (Done (), t) \<and> keeps_task s t 0 \<and> world t = w
     | Throws e w \<Rightarrow> \<exists>t. p s = Inr (Jump q, t) \<and> keeps_task s t e \<and> world t = w))"

lemma same_below_trans: "same_below s t \<Longrightarrow> same_below t u \<Longrightarrow> same_below s u"
  unfolding same_below_def by force

lemma same_below_grows: "same_below s t \<Longrightarrow> grows s t"
  by (simp add: same_below_def grows_def)

lemma runs_in_task_throw: "runs_in_task (snow_throw_exception e) (\<lambda>w. Throws e w)"
  unfolding runs_in_task_def
proof (intro allI impI)
  fix s :: "'a xstate" and q assume "in_task s q"
  then obtain t c where k: "bounded s" "tasks s (current_task s) = Some t" "exception_handler t = 0" "t_exception t = 0"
      "t_continuation t = t_base t" "conts s (t_base t) = Some c" "running c" "cc_task_id c = current_task s" "cc_state c = q" "current_task s \<noteq> 0"
    by (auto simp: in_task_def)
  let ?u = "s\<lparr>tasks := (tasks s)(current_task s \<mapsto> t\<lparr>t_exception := e\<rparr>)\<rparr>"
  let ?p = "snow_throw_exception e :: (unit, 'a) xprog"
  have same: "t\<lparr>t_exception := e, t_continuation := t_base t\<rparr> = t\<lparr>t_exception := e\<rparr>" using k(5) by (cases t) simp
  have "snow_throw_exception e s = (Inr (Jump q, ?u) :: (unit outcome \<times> 'a xstate) result)" using k
    by (simp add: snow_throw_exception_def snow_current_exception_handler_def snow_get_current_task_def
      snow_abort_current_task_def resume_running_def snow_get_current_continuation_def
      snow_set_current_continuation_def snow_restore_execution_state_def same)
  moreover have "keeps_task s ?u e" using k(1,2) by (simp add: keeps_task_def same_below_def bounded_def)
  ultimately show "case Throws e (world s) of
       Ends w \<Rightarrow> \<exists>t. ?p s = Inr (Done (), t) \<and> keeps_task s t 0 \<and> world t = w
     | Throws e' w \<Rightarrow> \<exists>t. ?p s = Inr (Jump q, t) \<and> keeps_task s t e' \<and> world t = w"
    by (auto intro!: exI [of _ ?u])
qed

lemma runs_in_task_world: "runs_in_task (run_world f) (\<lambda>w. Ends (f w))"
proof -
  have "keeps_task s (s\<lparr>world := w\<rparr>) 0" if "in_task s q" for s :: "'a xstate" and q w
    using that by (auto simp: keeps_task_def same_below_def in_task_def bounded_def)
  then show ?thesis by (simp add: runs_in_task_def run_world_def)
qed

text \<open>The state in which the function of an element starts.\<close>

definition started_task :: "nat \<Rightarrow> 'w xstate \<Rightarrow> 'w xstate" where
  "started_task task s =
     (let b = next_address s in s\<lparr>current_task := task, next_address := b + 2,
       tasks := (tasks s)(task \<mapsto> zero_task\<lparr>t_previous := current_task s, t_base := b, t_continuation := b\<rparr>),
       conts := (conts s)(b \<mapsto> \<lparr>cc_function = 0, cc_state = b + 1, stack_lo = 0, stack_hi = 0, cc_task_id = task, running = True,
         interruptible = True, return_to = 0, please_clean = 0, cc_context = 0, return_val = 0\<rparr>)\<rparr>)"

lemma parallel_task_starts:
  assumes "tasks s task = Some zero_task"
  shows "parallel_task n func task s = restores n (next_address s + 1)
     (xbind (xret ()) (\<lambda>_. xbind (deref tasks task) (\<lambda>t. set_current_task (t_previous t))))
     (xbind func (\<lambda>_. xbind (deref tasks task) (\<lambda>t. set_current_task (t_previous t)))) (started_task task s)"
  using assms by (cases s) (simp add: parallel_task_def snow_get_current_task_def snow_continuation_init_def saving_def
    set_cont_state_def set_current_task_def started_task_def zero_task_def Let_def)

lemma started_in_task:
  assumes "bounded s" "task < next_address s" "task \<noteq> 0"
  shows "in_task (started_task task s) (next_address s + 1)"
proof -
  have "bounded (started_task task s)" using assms unfolding bounded_def started_task_def Let_def by fastforce
  then show ?thesis using assms(3) by (simp add: in_task_def) (simp add: started_task_def Let_def zero_task_def)
qed

lemma parallel_task_runs:
  assumes "bounded s" "tasks s task = Some zero_task" "task < next_address s" "task \<noteq> 0" "task \<noteq> current_task s"
    "runs_in_task func P"
  shows "\<exists>t. parallel_task (Suc n) func task s = Inr (Done (), t) \<and> same_below s t \<and>
     (\<forall>q < next_address s. q \<noteq> task \<longrightarrow> tasks t q = tasks s q) \<and>
     (case P (world s) of
        Ends w \<Rightarrow> world t = w \<and> map_option t_exception (tasks t task) = Some 0
      | Throws e w \<Rightarrow> world t = w \<and> map_option t_exception (tasks t task) = Some e)"
proof -
  let ?s = "started_task task s" and ?p = "next_address s + 1"
  let ?k = "\<lambda>_::unit. xbind (deref tasks task) (\<lambda>t. set_current_task (t_previous t)) :: (unit, 'a) xprog"
  note start = parallel_task_starts [where n = "Suc n" and func = func, OF assms(2)]
  have st: "current_task ?s = task" "world ?s = world s" "next_address ?s = next_address s + 2" "handlers ?s = handlers s"
      "tries ?s = tries s" "\<And>q. q < next_address s \<Longrightarrow> conts ?s q = conts s q" "\<And>q. q \<noteq> task \<Longrightarrow> tasks ?s q = tasks s q"
      "map_option t_previous (tasks ?s task) = Some (current_task s)" "map_option t_exception (tasks ?s task) = Some 0"
    by (simp_all add: started_task_def Let_def zero_task_def)
  have fin: "\<exists>v. ?k () u = Inr (Done (), v) \<and> same_below s v \<and> world v = world u \<and>
       (\<forall>q < next_address s. q \<noteq> task \<longrightarrow> tasks v q = tasks s q) \<and> map_option t_exception (tasks v task) = Some e"
    if "keeps_task ?s u e" for u e
  proof -
    let ?v = "u\<lparr>current_task := current_task s\<rparr>"
    have u: "tasks u task = map_option (\<lambda>k. k\<lparr>t_exception := e\<rparr>) (tasks ?s task)"
        "\<And>q. q < next_address s \<Longrightarrow> q \<noteq> task \<Longrightarrow> tasks u q = tasks s q" "same_below ?s u"
      using that assms(3) st by (auto simp: keeps_task_def)
    obtain k where k: "tasks ?s task = Some k" "t_previous k = current_task s" using st(8) by auto
    have "?k () u = Inr (Done (), ?v)" using u(1) k by (simp add: set_current_task_def)
    moreover have "current_task s < next_address s" using assms(1) by (simp add: bounded_def)
    moreover have "same_below s ?v" using u(3) st calculation(2) by (simp add: same_below_def bounded_def)
    ultimately show ?thesis using u k by (intro exI [of _ ?v]) simp
  qed
  note run = assms(6) [unfolded runs_in_task_def, rule_format, OF started_in_task [OF assms(1,3,4)], unfolded st(2)]
  show ?thesis
  proof (cases "P (world s)")
    case (Ends w)
    obtain u where u: "func ?s = Inr (Done (), u)" "keeps_task ?s u 0" "world u = w" using run Ends by auto
    obtain v where v: "?k () u = Inr (Done (), v)" "same_below s v" "world v = w"
        "\<forall>q < next_address s. q \<noteq> task \<longrightarrow> tasks v q = tasks s q" "map_option t_exception (tasks v task) = Some 0"
      using fin [OF u(2)] u(3) by metis
    have "xbind func ?k ?s = Inr (Done (), v)" using v(1) u(1) unfolding xbind_def by simp
    from restores_pass [where m = "xbind func ?k", OF this] v Ends show ?thesis unfolding start by fastforce
  next
    case (Throws e w)
    obtain u where u: "func ?s = Inr (Jump ?p, u)" "keeps_task ?s u e" "world u = w" using run Throws by auto
    obtain v where v: "?k () u = Inr (Done (), v)" "same_below s v" "world v = w"
        "\<forall>q < next_address s. q \<noteq> task \<longrightarrow> tasks v q = tasks s q" "map_option t_exception (tasks v task) = Some e"
      using fin [OF u(2)] u(3) by metis
    have a: "xbind func ?k ?s = Inr (Jump ?p, u)" using u(1) unfolding xbind_def by simp
    have "xbind (xret ()) ?k u = Inr (Done (), v)" using v(1) unfolding xbind_def xret_def by simp
    from restores_pass [where m = "xbind (xret ()) ?k", OF this] restores_again [where m = "xbind func ?k", OF a] v Throws
    show ?thesis unfolding start by fastforce
  qed
qed

text \<open>The exceptions of the tasks \<open>i\<close> to \<open>i + k - 1\<close>.\<close>

definition task_exceptions :: "'w xstate \<Rightarrow> nat \<Rightarrow> nat \<Rightarrow> nat \<Rightarrow> VALUE list" where
  "task_exceptions s ts i k = filter (\<lambda>e. e \<noteq> 0) (map (\<lambda>j. t_exception (the (tasks s (ts + j)))) [i..<i + k])"

lemma task_exceptions_Suc:
  "task_exceptions s ts i (Suc k) = (let e = t_exception (the (tasks s (ts + i))) in
     if e \<noteq> 0 then e # task_exceptions s ts (Suc i) k else task_exceptions s ts (Suc i) k)"
  by (simp add: task_exceptions_def upt_conv_Cons Let_def del: upt_Suc)

lemma collect_exceptions_run:
  assumes "\<forall>j \<in> {i..<i + k}. tasks s (ts + j) \<noteq> None"
  shows "collect_exceptions ts i k s = Inr (Done (task_exceptions s ts i k), s)"
  using assms
proof (induction k arbitrary: i)
  case 0
  then show ?case by (simp add: task_exceptions_def)
next
  case (Suc k)
  obtain t where t: "tasks s (ts + i) = Some t" using Suc.prems by fastforce
  have "collect_exceptions ts (Suc i) k s = Inr (Done (task_exceptions s ts (Suc i) k), s)"
    using Suc by simp
  with t show ?case by (simp add: task_exceptions_Suc Let_def)
qed

lemma each_task_runs:
  assumes "bounded s" "\<forall>j \<in> {i..<i + k}. tasks s (ts + j) = Some zero_task" "ts + i + k \<le> next_address s" "ts \<noteq> 0"
    "\<forall>j \<in> {i..<i + k}. ts + j \<noteq> current_task s" "\<And>j. runs_in_task (func j) (P j)" "\<And>j. throws_objects (P j)"
  shows "\<exists>t. each_task (Suc n) func ts i k s = Inr (Done (), t) \<and> same_below s t \<and>
     (\<forall>q < next_address s. q \<notin> {ts + i..<ts + i + k} \<longrightarrow> tasks t q = tasks s q) \<and>
     (\<forall>j \<in> {i..<i + k}. tasks t (ts + j) \<noteq> None) \<and>
     (task_exceptions t ts i k, world t) = run_each P i k (world s)"
  using assms(1-3,5)
proof (induction k arbitrary: i s)
  case 0
  then show ?case by (simp add: same_below_def task_exceptions_def)
next
  case (Suc k)
  have z: "tasks s (ts + i) = Some zero_task" "ts + i < next_address s" "ts + i \<noteq> 0" "ts + i \<noteq> current_task s"
    using Suc.prems assms(4) by auto
  obtain t where t: "parallel_task (Suc n) (func i) (ts + i) s = Inr (Done (), t)" "same_below s t"
      "\<forall>q < next_address s. q \<noteq> ts + i \<longrightarrow> tasks t q = tasks s q"
      "case P i (world s) of
        Ends w \<Rightarrow> world t = w \<and> map_option t_exception (tasks t (ts + i)) = Some 0
      | Throws e w \<Rightarrow> world t = w \<and> map_option t_exception (tasks t (ts + i)) = Some e"
    using parallel_task_runs [OF Suc.prems(1) z assms(6)] by blast
  have b: "bounded t" "next_address s \<le> next_address t" "current_task t = current_task s"
    using t(2) by (auto simp: same_below_def)
  have zs: "\<forall>j \<in> {Suc i..<Suc i + k}. tasks t (ts + j) = Some zero_task"
    using t(3) Suc.prems(2,3) by simp
  obtain u where u: "each_task (Suc n) func ts (Suc i) k t = Inr (Done (), u)" "same_below t u"
      "\<forall>q < next_address t. q \<notin> {ts + Suc i..<ts + Suc i + k} \<longrightarrow> tasks u q = tasks t q"
      "\<forall>j \<in> {Suc i..<Suc i + k}. tasks u (ts + j) \<noteq> None"
      "(task_exceptions u ts (Suc i) k, world u) = run_each P (Suc i) k (world t)"
    using Suc.IH [OF b(1) zs] Suc.prems(3,4) b(2,3) by fastforce
  have same: "tasks u (ts + i) = tasks t (ts + i)" using u(3) z(2) b(2) by simp
  have run: "each_task (Suc n) func ts i (Suc k) s = Inr (Done (), u)" using t(1) u(1) by simp
  have below: "\<forall>q < next_address s. q \<notin> {ts + i..<ts + i + Suc k} \<longrightarrow> tasks u q = tasks s q"
  proof (intro allI impI)
    fix q assume q: "q < next_address s" "q \<notin> {ts + i..<ts + i + Suc k}"
    then have "tasks u q = tasks t q" using u(3) b(2) by simp
    then show "tasks u q = tasks s q" using t(3) q by auto
  qed
  have some: "\<forall>j \<in> {i..<i + Suc k}. tasks u (ts + j) \<noteq> None"
  proof
    fix j assume "j \<in> {i..<i + Suc k}"
    then show "tasks u (ts + j) \<noteq> None" using u(4) same t(4) by (cases "j = i") (auto split: ending.splits)
  qed
  have "(task_exceptions u ts i (Suc k), world u) = run_each P i (Suc k) (world s)"
  proof (cases "P i (world s)")
    case (Ends w)
    then have "world t = w" "t_exception (the (tasks u (ts + i))) = 0" using t(4) same by auto
    with Ends u(5) show ?thesis by (simp add: task_exceptions_Suc Let_def)
  next
    case (Throws e w)
    then have "world t = w" "t_exception (the (tasks u (ts + i))) = e" "e \<noteq> 0"
      using t(4) same throws_objectsD [OF assms(7) Throws] by auto
    with Throws u(5) show ?thesis by (simp add: task_exceptions_Suc Let_def) (metis case_prod_conv)
  qed
  with run below some same_below_trans [OF t(2) u(2)] show ?case by blast
qed

text \<open>
  C9. A parallel loop runs every element once, in order, each in a task without a handler of
  the caller: an exception ends its own task and no other.  When all have run, the caller is the
  current task again; no exception, and the loop ends; one is thrown to the handler of the
  caller, and several are thrown as an array.  The elements throw objects: the code takes an exception that
  is the null word for none (\<open>throws_objects\<close>).\<close>

theorem parallel_for_each_refines:
  assumes "\<And>j. runs_in_task (func j) (P j)" "\<And>j. throws_objects (P j)"
  shows "implements (snow_parallel_for_each (Suc n) new_array num func) (parallel_ending new_array num P)"
  unfolding implements_def
proof (intro allI impI)
  fix s :: "'a xstate" assume s: "sound s"
  let ?ts = "next_address s"
  define s0 where "s0 = s\<lparr>next_address := ?ts + num,
     tasks := (\<lambda>p. if ?ts \<le> p \<and> p < ?ts + num then Some zero_task else tasks s p)\<rparr>"
  have b: "bounded s" "current_task s < ?ts" using s by (auto simp: sound_def bounded_def)
  have s0: "new_tasks num s = Inr (Done ?ts, s0)" "world s0 = world s" "next_address s0 = ?ts + num" "current_task s0 = current_task s"
      "handlers s0 = handlers s" "\<And>q. q < ?ts \<Longrightarrow> tasks s0 q = tasks s q" "tries s0 = tries s"
    by (simp_all add: new_tasks_def s0_def)
  have k0: "bounded s0" using b unfolding bounded_def s0 by fastforce
  then have "same_below s s0" by (simp add: same_below_def s0_def)
  have zs: "\<forall>j \<in> {0..<0 + num}. tasks s0 (?ts + j) = Some zero_task" by (simp add: s0_def)
  obtain t where t: "each_task (Suc n) func ?ts 0 num s0 = Inr (Done (), t)" "same_below s0 t"
      "\<forall>q < next_address s0. q \<notin> {?ts..<?ts + num} \<longrightarrow> tasks t q = tasks s0 q"
      "\<forall>j \<in> {0..<num}. tasks t (?ts + j) \<noteq> None" "(task_exceptions t ?ts 0 num, world t) = run_each P 0 num (world s0)"
    using each_task_runs [where func = func and P = P and n = n and i = 0 and k = num, OF k0 zs] assms b(2) s0(3,4) by auto
  have "keeps s t" unfolding keeps_def
    using same_below_grows [OF same_below_trans [OF \<open>same_below s s0\<close> t(2)]] t(3) s0(3,6) b(2) by simp
  note snd = keeps_sound(1) [OF this s]
  let ?es = "task_exceptions t ?ts 0 num"
  have "snow_parallel_for_each (Suc n) new_array num func s =
      (if ?es = [] then xret () else snow_throw_exception (if length ?es = 1 then hd ?es else new_array ?es)) t"
    using collect_exceptions_run [of 0 num t ?ts] t(4) s0(1) t(1)
    by (simp add: snow_parallel_for_each_def collect_exceptions_and_rethrow_def)
  moreover have "parallel_ending new_array num P (world s) =
      (if ?es = [] then Ends (world t) else Throws (if length ?es = 1 then hd ?es else new_array ?es) (world t))"
    unfolding parallel_ending_def s0(2) [symmetric] t(5) [symmetric] by simp
  moreover have "meets s (Throws x (world t)) (snow_throw_exception x t)" for x
    using meets_after [OF s \<open>keeps s t\<close>] implements_throw snd unfolding implements_def by blast
  moreover have "meets s (Ends (world t)) (xret () t)" using \<open>keeps s t\<close> by (auto simp: meets_def)
  ultimately show "meets s (parallel_ending new_array num P (world s)) (snow_parallel_for_each (Suc n) new_array num func s)"
    by simp
qed

lemma parallel_for_each_refines_witness:
  "meets (one_task 0) (Throws 99 0) (snow_parallel_for_each (Suc 0) (\<lambda>_. 99) 3 (\<lambda>j. snow_throw_exception 5) (one_task (0::nat)))"
proof -
  have "implements (snow_parallel_for_each (Suc 0) (\<lambda>_. 99) 3 (\<lambda>j. snow_throw_exception 5))
      (parallel_ending (\<lambda>_. 99) 3 (\<lambda>j. Throws 5))"
    by (rule parallel_for_each_refines [OF runs_in_task_throw]) (simp add: throws_objects_def)
  from meets_one_task [OF this, of 0] show ?thesis by (simp add: parallel_ending_def eval_nat_numeral)
qed

end
