(* ===== verification/Scopes.thy ===== *)
theory Scopes
  imports Contexts
begin

text \<open>
  Static scoping (snow/context.c, snow/function.c).  A reference to a variable of an outer
  function is resolved by walking from function to declaration context, \<open>context_at_level\<close>;
  a read of a name walks from context to static parent.  The two agree because
  \<open>snow_create_context_for_function\<close> copies the one into the other and nothing else writes
  either of them once a function has a context.  \<open>scopes_reached\<close> are the states a program
  makes with the operations of Contexts; the invariant holds in all of them.
\<close>

subsection \<open>What an operation may change\<close>

text \<open>The static structure: parent and function of each context, declaration of each function.\<close>

definition statics :: "scopes \<Rightarrow> (VALUE \<rightharpoonup> VALUE \<times> VALUE) \<times> (VALUE \<rightharpoonup> VALUE)" where
  "statics s = (\<lambda>p. map_option (\<lambda>c. (static_parent c, c_function c)) (contexts s p),
     \<lambda>p. map_option declaration_context (funcs s p))"

definition keeps :: "(VALUE \<rightharpoonup> VALUE \<times> VALUE) \<times> (VALUE \<rightharpoonup> VALUE) \<Rightarrow> 'a sprog \<Rightarrow> ('a \<Rightarrow> bool) \<Rightarrow> bool" where
  "keeps S m Q \<longleftrightarrow> (\<forall>s v s'. statics s = S \<longrightarrow> m s = Inr (v, s') \<longrightarrow> statics s' = S \<and> Q v)"

named_theorems keeping \<open>operations that keep the static structure\<close>

lemma keeps_statics_bind:
  assumes "keeps S m Q" "\<And>x. Q x \<Longrightarrow> keeps S (k x) R"
  shows "keeps S (pbind m k) R"
  unfolding keeps_def
proof (intro allI impI)
  fix s v s' assume s: "statics s = S" "pbind m k s = Inr (v, s')"
  then obtain x s1 where x: "m s = Inr (x, s1)" "k x s1 = Inr (v, s')"
    by (cases "m s") (auto simp: pbind_def)
  with assms(1) s(1) have "statics s1 = S" "Q x" unfolding keeps_def by blast+
  with assms(2) x(2) show "statics s' = S \<and> R v" unfolding keeps_def by blast
qed

lemma keeps_weaken: "keeps S m Q \<Longrightarrow> (\<And>x. Q x \<Longrightarrow> R x) \<Longrightarrow> keeps S m R"
  unfolding keeps_def by blast

lemma keeps_any: "keeps S m Q \<Longrightarrow> keeps S m (\<lambda>_. True)"
  unfolding keeps_def by blast

lemma keeps_plain [keeping]:
  "keeps S pget (\<lambda>_. True)" "keeps S (pret x) (\<lambda>_. True)" "keeps S (pfail e) (\<lambda>_. True)" "keeps S (plift r) (\<lambda>_. True)"
  "keeps S (sassert b) (\<lambda>_. True)" "keeps S (here arrays p) (\<lambda>_. True)" "keeps S (here descs p) (\<lambda>_. True)"
  "keeps S (here arguments p) (\<lambda>_. True)" "keeps S (put_array p a) (\<lambda>_. True)" "keeps S (put_desc p d) (\<lambda>_. True)"
  "keeps S (put_arguments p as) (\<lambda>_. True)"
  by (auto simp: keeps_def pget_def pret_def pfail_def plift_def sassert_def here_def put_array_def put_desc_def
      put_arguments_def statics_def split: option.splits sum.splits)

text \<open>A context read is one of the structure; writing it back with the same two fields keeps it.\<close>

lemma keeps_here_context:
  "keeps S (here contexts p) (\<lambda>c. fst S p = Some (static_parent c, c_function c))"
  by (auto simp: keeps_def here_def statics_def split: option.splits)

lemma keeps_put_context:
  "fst S p = Some (static_parent c, c_function c) \<Longrightarrow> keeps S (put_context p c) (\<lambda>_. True)"
  by (auto simp: keeps_def put_context_def statics_def fun_eq_iff)

lemma keeps_here_func: "keeps S (here funcs p) (\<lambda>f. snd S p = Some (declaration_context f))"
  by (auto simp: keeps_def here_def statics_def split: option.splits)

lemma keeps_put_func: "snd S p = Some (declaration_context f) \<Longrightarrow> keeps S (put_func p f) (\<lambda>_. True)"
  by (auto simp: keeps_def put_func_def statics_def fun_eq_iff)

lemma keeps_ret: "Q x \<Longrightarrow> keeps S (pret x) Q"
  by (simp add: keeps_def pret_def)

lemmas keeps_steps = keeps_statics_bind [OF keeps_here_context] keeps_statics_bind [OF keeps_here_func]
  keeps_statics_bind [OF keeps_put_context] keeps_statics_bind [OF keeps_put_func]

lemma keeps_create_array [keeping]: "keeps S (create_array env n) (\<lambda>_. True)"
  unfolding create_array_def by (rule keeps_statics_bind [OF keeps_plain(1)], rule keeps_statics_bind [OF keeps_plain(9)], rule keeps_plain(2))

lemma keeps_statics_if: "(b \<Longrightarrow> keeps S m Q) \<Longrightarrow> (\<not> b \<Longrightarrow> keeps S m' Q) \<Longrightarrow> keeps S (if b then m else m') Q"
  by simp

text \<open>A bind whose first part says nothing of its result.\<close>

lemma keeps_then: "keeps S m (\<lambda>_. True) \<Longrightarrow> (\<And>x. keeps S (k x) R) \<Longrightarrow> keeps S (pbind m k) R"
  by (rule keeps_statics_bind)

lemmas keeps_structural = keeps_statics_if keeps_steps keeps_then keeping

lemma keeps_arrays [keeping]:
  "keeps S (sn_array_find p v) (\<lambda>_. True)" "keeps S (sn_array_get p i) (\<lambda>_. True)"
  "keeps S (sn_array_set p i v) (\<lambda>_. True)" "keeps S (sn_array_find_or_add p v) (\<lambda>_. True)"
  "keeps S (sn_array_size p) (\<lambda>_. True)"
  unfolding sn_array_find_def sn_array_get_def sn_array_set_def sn_array_find_or_add_def sn_array_size_def
  by (auto simp: split_def intro!: keeps_then keeping)

lemma keeps_set_local_local [keeping]: "keeps S (snow_context_set_local_local env ctx name val) (\<lambda>_. True)"
proof -
  let ?R = "\<lambda>c :: SnContext. fst S ctx = Some (static_parent c, c_function c)"
  have names: "keeps S (if local_names c = 0
      then pbind (sassert (c_function c = 0)) (\<lambda>_. pbind (create_array env 0) (\<lambda>ns.
           pbind (put_context ctx (c\<lparr>local_names := ns\<rparr>)) (\<lambda>_. pret (c\<lparr>local_names := ns\<rparr>)))) else pret c) ?R"
    if "?R c" for c
    using that by (auto intro!: keeps_statics_if keeps_then keeping keeps_put_context keeps_ret)
  have locals: "keeps S (if locals c = 0
      then pbind (create_array env 0) (\<lambda>ls.
           pbind (put_context ctx (c\<lparr>locals := ls\<rparr>)) (\<lambda>_. pret (c\<lparr>locals := ls\<rparr>))) else pret c) ?R"
    if "?R c" for c
    using that by (auto intro!: keeps_statics_if keeps_then keeping keeps_put_context keeps_ret)
  show ?thesis
    unfolding snow_context_set_local_local_def
    by (intro keeps_statics_bind [OF keeps_here_context] keeps_statics_bind [OF names] keeps_statics_bind [OF locals] keeps_then keeping)
qed

lemma keeps_set_local_loop: "keeps S (set_local_loop n ctx name val) (\<lambda>_. True)"
proof (induction n arbitrary: ctx)
  case (Suc n)
  have ask: "keeps S (if b then sn_array_find p v else pret (-1)) (\<lambda>_. True)" for b p v
    by (auto intro: keeping)
  show ?case
    by (simp add: split_def)
      (auto intro!: keeps_statics_bind [OF keeps_here_context] keeps_statics_bind [OF ask] keeps_then keeping Suc.IH)
qed (simp add: keeping)

lemma keeps_set_local [keeping]: "keeps S (snow_context_set_local n env ctx name val) (\<lambda>_. True)"
  unfolding snow_context_set_local_def
  by (rule keeps_statics_bind [OF keeps_set_local_loop]) (auto intro: keeping split: option.split)

lemma keeps_set_referenced [keeping]: "keeps S (snow_function_set_referenced_variable func idx val) (\<lambda>_. True)"
  unfolding snow_function_set_referenced_variable_def
  by (intro keeps_statics_bind [OF keeps_here_func] keeps_statics_bind [OF keeps_here_context] keeps_then keeping)

lemma keeps_define_local [keeping]: "keeps S (snow_function_description_define_local desc name) (\<lambda>_. True)"
  unfolding snow_function_description_define_local_def split_def
  by (intro keeps_then keeping keeps_statics_if)

lemma keeps_add_reference [keeping]: "keeps S (snow_function_description_add_variable_reference desc l i) (\<lambda>_. True)"
  unfolding snow_function_description_add_variable_reference_def Let_def
  by (intro keeps_then keeping keeps_statics_if)

lemma keeps_create_description [keeping]: "keeps S (snow_create_function_description env func) (\<lambda>_. True)"
  unfolding snow_create_function_description_def Let_def by (intro keeps_then keeping)

lemma keeps_bind_arguments: "keeps S (bind_arguments env context names k i) (\<lambda>_. True)"
proof (induction k arbitrary: i)
  case (Suc k)
  show ?case
    unfolding bind_arguments.simps(2) split_def
    by (intro keeps_then keeps_statics_bind [OF keeps_here_context] keeping keeps_statics_if Suc.IH)
qed (simp add: keeping)

lemma keeps_setup_context [keeping]: "keeps S (function_setup_context env func context) (\<lambda>_. True)"
proof -
  have it: "keeps S (if b then pbind (here arguments a) (\<lambda>as. plift (r as)) else pret 0) (\<lambda>_. True)" for b a r
    by (auto intro!: keeps_statics_if keeps_then keeping)
  have self: "keeps S (if b then pbind (here contexts d) (\<lambda>d. put_context context (c\<lparr>c_self := c_self d\<rparr>)) else pret ()) (\<lambda>_. True)"
    if "fst S context = Some (static_parent c, c_function c)" for b d c
    using that by (auto intro!: keeps_statics_if keeps_statics_bind [OF keeps_here_context] keeps_put_context keeping)
  have names: "keeps S (if b then bind_arguments env context ns k 0 else pret ()) (\<lambda>_. True)" for b ns k
    by (auto intro: keeps_bind_arguments keeping)
  show ?thesis
    unfolding function_setup_context_def
    by (intro keeps_then [OF keeps_plain(5)] keeps_statics_bind [OF keeps_here_context] keeps_statics_bind [OF it]
        keeps_then [OF keeps_set_local_local] keeps_statics_bind [OF keeps_here_func] keeps_statics_bind [OF self]
        keeps_then [OF keeps_plain(7)] names)
qed

subsection \<open>The states a program makes\<close>

text \<open>The allocator hands out an address that no context and no function has.\<close>

definition fresh_in :: "scope_env \<Rightarrow> scopes \<Rightarrow> bool" where
  "fresh_in env s \<longleftrightarrow> contexts s (s_alloc env s) = None \<and> funcs s (s_alloc env s) = None"

text \<open>
  Contexts and functions are made by the operations of Contexts, in any order; a function is
  declared (once, by the code that made it) before it is given contexts; \<open>snow_call\<close> and the
  parallel threads write the receiver and the arguments of a context they made.
\<close>

inductive scopes_reached :: "scope_env \<Rightarrow> scopes \<Rightarrow> bool" for env where
  scopes_start: "contexts s = Map.empty \<Longrightarrow> funcs s = Map.empty \<Longrightarrow> scopes_reached env s"
| scopes_context: "scopes_reached env s \<Longrightarrow> fresh_in env s \<Longrightarrow> snow_create_context env parent s = Inr (v, s') \<Longrightarrow>
    scopes_reached env s'"
| scopes_enter: "scopes_reached env s \<Longrightarrow> fresh_in env s \<Longrightarrow> snow_create_context_for_function env func s = Inr (v, s') \<Longrightarrow>
    scopes_reached env s'"
| scopes_call: "scopes_reached env s \<Longrightarrow> contexts s p = Some c \<Longrightarrow>
    put_context p (c\<lparr>c_self := self, c_args := args\<rparr>) s = Inr (u, s') \<Longrightarrow> scopes_reached env s'"
| scopes_description: "scopes_reached env s \<Longrightarrow> snow_create_function_description env code s = Inr (v, s') \<Longrightarrow> scopes_reached env s'"
| scopes_define: "scopes_reached env s \<Longrightarrow> snow_function_description_define_local desc name s = Inr (i, s') \<Longrightarrow>
    scopes_reached env s'"
| scopes_reference: "scopes_reached env s \<Longrightarrow> snow_function_description_add_variable_reference desc l j s = Inr (k, s') \<Longrightarrow>
    scopes_reached env s'"
| scopes_function: "scopes_reached env s \<Longrightarrow> fresh_in env s \<Longrightarrow>
    snow_create_function_from_description env desc s = Inr (v, s') \<Longrightarrow> scopes_reached env s'"
| scopes_declare: "scopes_reached env s \<Longrightarrow> \<forall>p c. contexts s p = Some c \<longrightarrow> c_function c \<noteq> func \<Longrightarrow>
    snow_function_declared_in_context func context s = Inr (u, s') \<Longrightarrow> scopes_reached env s'"
| scopes_setup: "scopes_reached env s \<Longrightarrow> function_setup_context env func context s = Inr (u, s') \<Longrightarrow> scopes_reached env s'"
| scopes_set: "scopes_reached env s \<Longrightarrow> snow_context_set_local n env context name val s = Inr (v, s') \<Longrightarrow> scopes_reached env s'"
| scopes_set_reference: "scopes_reached env s \<Longrightarrow> snow_function_set_referenced_variable func idx val s = Inr (v, s') \<Longrightarrow>
    scopes_reached env s'"

subsection \<open>The invariant\<close>

text \<open>The static parent of the context of a function is where the function was declared.\<close>

definition scopes_static :: "scopes \<Rightarrow> bool" where
  "scopes_static s \<longleftrightarrow> (\<forall>p c. contexts s p = Some c \<longrightarrow> c_function c \<noteq> 0 \<longrightarrow>
     (\<exists>f. funcs s (c_function c) = Some f \<and> declaration_context f = static_parent c))"

definition statics_ok :: "(VALUE \<rightharpoonup> VALUE \<times> VALUE) \<times> (VALUE \<rightharpoonup> VALUE) \<Rightarrow> bool" where
  "statics_ok S \<longleftrightarrow> (\<forall>p d f. fst S p = Some (d, f) \<longrightarrow> f \<noteq> 0 \<longrightarrow> snd S f = Some d)"

lemma scopes_static_statics: "scopes_static s \<longleftrightarrow> statics_ok (statics s)"
proof
  assume *: "scopes_static s"
  show "statics_ok (statics s)"
    unfolding statics_ok_def statics_def fst_conv snd_conv
  proof (intro allI impI)
    fix p d f
    assume "map_option (\<lambda>c. (static_parent c, c_function c)) (contexts s p) = Some (d, f)" "f \<noteq> 0"
    then obtain c where "contexts s p = Some c" "d = static_parent c" "f = c_function c" "f \<noteq> 0" by auto
    with * show "map_option declaration_context (funcs s f) = Some d" unfolding scopes_static_def by auto
  qed
next
  assume *: "statics_ok (statics s)"
  show "scopes_static s"
    unfolding scopes_static_def
  proof (intro allI impI)
    fix p c assume "contexts s p = Some c" "c_function c \<noteq> 0"
    then have "fst (statics s) p = Some (static_parent c, c_function c)" by (simp add: statics_def)
    with * \<open>c_function c \<noteq> 0\<close> have "snd (statics s) (c_function c) = Some (static_parent c)"
      unfolding statics_ok_def by blast
    then show "\<exists>f. funcs s (c_function c) = Some f \<and> declaration_context f = static_parent c"
      by (auto simp: statics_def)
  qed
qed

lemma keeps_statics: "m s = Inr (v, s') \<Longrightarrow> (\<And>S. keeps S m Q) \<Longrightarrow> statics s' = statics s"
  unfolding keeps_def by blast

text \<open>Making a context adds it to the structure, with the function's declaration as parent.\<close>

lemma create_context_statics:
  assumes "snow_create_context env parent s = Inr (v, s')"
  shows "v = s_alloc env s" "statics s' = ((fst (statics s))(v \<mapsto> (parent, 0)), snd (statics s))"
proof -
  let ?c = "\<lparr>static_parent = parent, c_function = 0, c_self = 0, local_names = 0, locals = uninit, c_args = 0\<rparr>"
  let ?s = "s\<lparr>contexts := (contexts s)(s_alloc env s \<mapsto> ?c)\<rparr>"
  have k: "keeps S (pbind (create_array env 0) (\<lambda>ls. pbind (here contexts ctx) (\<lambda>c. pbind (put_context ctx (c\<lparr>locals := ls\<rparr>))
      (\<lambda>_. pret ctx)))) (\<lambda>x. x = ctx)" for S ctx
    by (intro keeps_then keeps_statics_bind [OF keeps_here_context] keeping keeps_put_context keeps_ret) simp_all
  have "pbind (create_array env 0) (\<lambda>ls. pbind (here contexts (s_alloc env s)) (\<lambda>c.
      pbind (put_context (s_alloc env s) (c\<lparr>locals := ls\<rparr>)) (\<lambda>_. pret (s_alloc env s)))) ?s = Inr (v, s')"
    using assms unfolding snow_create_context_def by (simp add: pget_def put_context_def Let_def)
  with k [of "statics ?s"] have "v = s_alloc env s" "statics s' = statics ?s" unfolding keeps_def by blast+
  then show "v = s_alloc env s" "statics s' = ((fst (statics s))(v \<mapsto> (parent, 0)), snd (statics s))"
    by (auto simp: statics_def)
qed

lemma create_context_for_function_statics:
  assumes "snow_create_context_for_function env func s = Inr (v, s')"
  obtains f where "funcs s func = Some f" "v = s_alloc env s"
    "statics s' = ((fst (statics s))(v \<mapsto> (declaration_context f, func)), snd (statics s))"
proof -
  obtain f d where f: "funcs s func = Some f" "descs s (f_desc f) = Some d"
    using assms unfolding snow_create_context_for_function_def
    by (auto simp: pget_def here_def Let_def split: option.splits)
  let ?c = "\<lparr>static_parent = declaration_context f, c_function = func, c_self = 0, local_names = defined_locals d,
    locals = uninit, c_args = 0\<rparr>"
  let ?s = "s\<lparr>contexts := (contexts s)(s_alloc env s \<mapsto> ?c)\<rparr>"
  have k: "keeps S (pbind (sn_array_size ns) (\<lambda>n. pbind (create_array env n) (\<lambda>ls. pbind (here contexts ctx) (\<lambda>c.
      pbind (put_context ctx (c\<lparr>locals := ls\<rparr>)) (\<lambda>_. pret ctx))))) (\<lambda>x. x = ctx)" for S ctx ns
    by (intro keeps_then keeps_statics_bind [OF keeps_here_context] keeping keeps_put_context keeps_ret) simp_all
  have "pbind (sn_array_size (defined_locals d)) (\<lambda>n. pbind (create_array env n) (\<lambda>ls.
      pbind (here contexts (s_alloc env s)) (\<lambda>c. pbind (put_context (s_alloc env s) (c\<lparr>locals := ls\<rparr>))
      (\<lambda>_. pret (s_alloc env s))))) ?s = Inr (v, s')"
    using assms f unfolding snow_create_context_for_function_def by (simp add: pget_def put_context_def Let_def here_def)
  with k [of "statics ?s"] have "v = s_alloc env s" "statics s' = statics ?s" unfolding keeps_def by blast+
  then show thesis using f by (intro that [of f]) (auto simp: statics_def)
qed

lemma create_function_statics:
  assumes "snow_create_function_from_description env desc s = Inr (v, s')"
  shows "v = s_alloc env s" "statics s' = (fst (statics s), (snd (statics s))(v \<mapsto> 0))"
proof -
  obtain d where d: "descs s desc = Some d" "d_func d \<noteq> 0"
    using assms unfolding snow_create_function_from_description_def
    by (auto simp: pget_def here_def sassert_def plift_def assert_ok_def Let_def split: option.splits if_splits)
  let ?f = "\<lparr>f_desc = desc, declaration_context = 0,
    variable_references = replicate (length (variable_reference_descriptions d)) (0, 0)\<rparr>"
  have "(Inr (s_alloc env s, s\<lparr>funcs := (funcs s)(s_alloc env s \<mapsto> ?f)\<rparr>) :: (VALUE \<times> scopes) result) = Inr (v, s')"
    using assms d unfolding snow_create_function_from_description_def
    by (simp add: pget_def put_func_def Let_def here_def sassert_def plift_def assert_ok_def pret_def del: sum.inject prod.inject)
  then show "v = s_alloc env s" "statics s' = (fst (statics s), (snd (statics s))(v \<mapsto> 0))"
    by (auto simp: statics_def)
qed

lemma keeps_up_levels: "keeps S (up_levels k ctx) (\<lambda>_. True)"
  by (induction k arbitrary: ctx)
    (auto intro!: keeping keeps_then keeps_statics_bind [OF keeps_here_context] keeps_statics_bind [OF keeps_here_func])

lemma keeps_resolve: "keeps S (resolve_references func context ds i) (\<lambda>_. True)"
proof (induction ds arbitrary: i)
  case (Cons d ds)
  obtain level index where d: "d = (level, index)" by fastforce
  have at: "keeps S (context_at_level context level) (\<lambda>_. True)"
    by (simp add: context_at_level_def keeps_up_levels)
  show ?case
    unfolding d resolve_references.simps(2)
    by (intro keeps_then [OF keeps_plain(5)] keeps_then [OF at] keeps_statics_bind [OF keeps_here_func]
        keeps_then [OF keeps_plain(4)] keeps_then [OF keeps_put_func] Cons.IH) simp
qed (simp add: keeping)

lemma declared_statics:
  assumes "snow_function_declared_in_context func context s = Inr (u, s')"
  shows "statics s' = (fst (statics s), (snd (statics s))(func \<mapsto> context))"
proof -
  obtain f where f: "funcs s func = Some f"
    using assms unfolding snow_function_declared_in_context_def by (auto simp: here_def split: option.splits)
  let ?s = "s\<lparr>funcs := (funcs s)(func \<mapsto> f\<lparr>declaration_context := context\<rparr>)\<rparr>"
  have "pbind (here descs (f_desc f)) (\<lambda>d. resolve_references func context (variable_reference_descriptions d) 0) ?s = Inr (u, s')"
    using assms f unfolding snow_function_declared_in_context_def by (simp add: here_def put_func_def)
  moreover have "keeps S (pbind (here descs (f_desc f))
      (\<lambda>d. resolve_references func context (variable_reference_descriptions d) 0)) (\<lambda>_. True)" for S
    by (intro keeps_then keeping keeps_resolve)
  ultimately have "statics s' = statics ?s" by (rule keeps_statics)
  then show ?thesis by (auto simp: statics_def)
qed

text \<open>The invariant over the structure: fresh contexts and functions, and late declarations.\<close>

lemma statics_okD: "statics_ok S \<Longrightarrow> fst S p = Some (d, f) \<Longrightarrow> f \<noteq> 0 \<Longrightarrow> snd S f = Some d"
  unfolding statics_ok_def by blast

lemma statics_ok_enter:
  assumes "statics_ok S" "f \<noteq> 0 \<longrightarrow> snd S f = Some d"
  shows "statics_ok ((fst S)(v \<mapsto> (d, f)), snd S)"
  using assms unfolding statics_ok_def by auto

lemma statics_ok_declare:
  assumes "statics_ok S" "\<And>p d. fst S p \<noteq> Some (d, f)"
  shows "statics_ok (fst S, (snd S)(f \<mapsto> d))"
  using assms unfolding statics_ok_def by fastforce

lemma scopes_reached_static: "scopes_reached env s \<Longrightarrow> scopes_static s"
proof (induction rule: scopes_reached.induct)
  case (scopes_start s)
  then show ?case by (simp add: scopes_static_def)
next
  case (scopes_context s parent v s')
  then show ?case
    using create_context_statics(2) [OF scopes_context.hyps(3)]
    by (simp add: scopes_static_statics statics_ok_enter)
next
  case (scopes_enter s func v s')
  obtain f where "funcs s func = Some f" "statics s' = ((fst (statics s))(v \<mapsto> (declaration_context f, func)), snd (statics s))"
    using create_context_for_function_statics [OF scopes_enter.hyps(3)] by blast
  moreover have "snd (statics s) func = Some (declaration_context f)" using calculation(1) by (simp add: statics_def)
  ultimately show ?case using scopes_enter.IH by (simp add: scopes_static_statics statics_ok_enter)
next
  case (scopes_call s p c self args u s')
  then have "statics s' = statics s" by (auto simp: put_context_def statics_def)
  then show ?case using scopes_call.IH by (simp add: scopes_static_statics)
next
  case (scopes_function s desc v s')
  have v: "v = s_alloc env s" "statics s' = (fst (statics s), (snd (statics s))(v \<mapsto> 0))"
    using create_function_statics [OF scopes_function.hyps(3)] by blast+
  have "snd (statics s) v = None" using scopes_function.hyps(2) v(1) by (simp add: fresh_in_def statics_def)
  then have "fst (statics s) p \<noteq> Some (d, v)" if "v \<noteq> 0" for p d
    using scopes_function.IH that statics_okD unfolding scopes_static_statics by fastforce
  then show ?case
    using scopes_function.IH v(2) unfolding scopes_static_statics
    by (cases "v = 0") (auto simp: statics_ok_def)
next
  case (scopes_declare s func ctx u s')
  have "fst (statics s) p \<noteq> Some (d, func)" for p d
    using scopes_declare.hyps(2) by (auto simp: statics_def)
  then show ?case
    using scopes_declare.IH declared_statics [OF scopes_declare.hyps(3)]
    by (simp add: scopes_static_statics statics_ok_declare)
next
  case scopes_description
  then show ?case using keeps_statics [OF scopes_description.hyps(2) keeps_create_description] by (simp add: scopes_static_statics)
next
  case scopes_define
  then show ?case using keeps_statics [OF scopes_define.hyps(2) keeps_define_local] by (simp add: scopes_static_statics)
next
  case scopes_reference
  then show ?case using keeps_statics [OF scopes_reference.hyps(2) keeps_add_reference] by (simp add: scopes_static_statics)
next
  case scopes_setup
  then show ?case using keeps_statics [OF scopes_setup.hyps(2) keeps_setup_context] by (simp add: scopes_static_statics)
next
  case scopes_set
  then show ?case using keeps_statics [OF scopes_set.hyps(2) keeps_set_local] by (simp add: scopes_static_statics)
next
  case scopes_set_reference
  then show ?case using keeps_statics [OF scopes_set_reference.hyps(2) keeps_set_referenced] by (simp add: scopes_static_statics)
qed

subsection \<open>References to variables of outer functions\<close>

text \<open>Every context before the \<open>k\<close>th of a chain is the context of a function.\<close>

definition inside_functions :: "scopes \<Rightarrow> VALUE list \<Rightarrow> nat \<Rightarrow> bool" where
  "inside_functions s cs k \<longleftrightarrow> (\<forall>i<k. \<exists>c. contexts s (cs ! i) = Some c \<and> c_function c \<noteq> 0)"

lemma up_levels_chain:
  assumes "scopes_static s"
  shows "static_chain s p cs \<Longrightarrow> k < length cs \<Longrightarrow> inside_functions s cs k \<Longrightarrow> up_levels k p s = Inr (cs ! k, s)"
  unfolding inside_functions_def
proof (induction k arbitrary: p cs)
  case 0
  then show ?case by (cases cs) simp_all
next
  case (Suc k)
  then obtain qs where cs: "cs = p # qs" by (cases cs) auto
  obtain c where c: "contexts s p = Some c" "c_function c \<noteq> 0" using Suc.prems(3) cs by fastforce
  obtain f where f: "funcs s (c_function c) = Some f" "declaration_context f = static_parent c"
    using assms c unfolding scopes_static_def by blast
  have "\<exists>c. contexts s (qs ! i) = Some c \<and> c_function c \<noteq> 0" if "i < k" for i
    using Suc.prems(3) that cs by (metis Suc_mono nth_Cons_Suc)
  then have "up_levels k (static_parent c) s = Inr (qs ! k, s)"
    using Suc.IH [of "static_parent c" qs] Suc.prems(1,2) cs c by simp
  then show ?case using Suc.prems(1) cs c f by (simp add: here_def sassert_def)
qed

text \<open>A reference \<open>(level, index)\<close> that a chain of contexts resolves, and what it becomes.\<close>

definition resolvable :: "scopes \<Rightarrow> VALUE list \<Rightarrow> nat \<times> nat \<Rightarrow> bool" where
  "resolvable s cs r \<longleftrightarrow> 0 < fst r \<and> fst r \<le> length cs \<and> inside_functions s cs (fst r - 1)"

definition resolved :: "VALUE list \<Rightarrow> nat \<times> nat \<Rightarrow> VALUE \<times> nat" where
  "resolved cs r = (cs ! (fst r - 1), snd r mod 2 ^ 16)"

lemma context_at_level_ok:
  "scopes_static s \<Longrightarrow> static_chain s p cs \<Longrightarrow> resolvable s cs r \<Longrightarrow> context_at_level p (fst r) s = Inr (cs ! (fst r - 1), s)"
  unfolding context_at_level_def resolvable_def by (rule up_levels_chain) auto

lemma static_chain_contexts: "contexts s' = contexts s \<Longrightarrow> static_chain s' p cs = static_chain s p cs"
  by (induction cs arbitrary: p) (simp_all split: option.split)

lemma resolve_references_ok:
  assumes "static_chain s context cs" "\<And>p c. contexts s p = Some c \<Longrightarrow> c_function c \<noteq> func"
  shows "scopes_static s \<Longrightarrow> \<forall>r \<in> set ds. resolvable s cs r \<Longrightarrow> funcs s func = Some f \<Longrightarrow>
    length (variable_references f) = i + length ds \<Longrightarrow>
    resolve_references func context ds i s =
      Inr ((), s\<lparr>funcs := (funcs s)(func \<mapsto> f\<lparr>variable_references := take i (variable_references f) @ map (resolved cs) ds\<rparr>)\<rparr>)"
  using assms
proof (induction ds arbitrary: i f s)
  case Nil
  then show ?case by (simp add: pret_def fun_upd_idem)
next
  case (Cons r ds)
  obtain level index where r: "r = (level, index)" by fastforce
  let ?f = "f\<lparr>variable_references := (variable_references f)[i := resolved cs r]\<rparr>"
  let ?s = "s\<lparr>funcs := (funcs s)(func \<mapsto> ?f)\<rparr>"
  have at: "context_at_level context level s = Inr (cs ! (level - 1), s)" "level \<noteq> 0"
    using context_at_level_ok [OF Cons.prems(1,5), of r] Cons.prems(2) by (simp_all add: r resolvable_def)
  have "scopes_static ?s"
    using Cons.prems(1,6) unfolding scopes_static_def by fastforce
  moreover have "static_chain ?s context cs" using Cons.prems(5) by (simp add: static_chain_contexts [of ?s s])
  moreover have "\<forall>r \<in> set ds. resolvable ?s cs r"
    using Cons.prems(2) by (simp add: resolvable_def inside_functions_def)
  ultimately have "resolve_references func context ds (Suc i) ?s = Inr ((), ?s\<lparr>funcs := (funcs ?s)(func \<mapsto>
      ?f\<lparr>variable_references := take (Suc i) (variable_references ?f) @ map (resolved cs) ds\<rparr>)\<rparr>)"
    using Cons.prems(4,6) by (intro Cons.IH) simp_all
  moreover have "take (Suc i) (variable_references ?f) = take i (variable_references f) @ [resolved cs r]"
    using Cons.prems(4) by (simp add: take_Suc_conv_app_nth)
  ultimately have rest: "resolve_references func context ds (Suc i) ?s = Inr ((), s\<lparr>funcs := (funcs s)(func \<mapsto>
      f\<lparr>variable_references := take i (variable_references f) @ map (resolved cs) (r # ds)\<rparr>)\<rparr>)"
    by simp
  have "write_slot (variable_references f) i (cs ! (level - 1), index mod 2 ^ 16) = Inr (variable_references ?f)"
    using Cons.prems(4) by (simp add: write_slot_def resolved_def r)
  then have "resolve_references func context (r # ds) i s = resolve_references func context ds (Suc i) ?s"
    using at Cons.prems(3) by (simp add: r here_def put_func_def sassert_def)
  then show ?case using rest by (rule trans)
qed

subsection \<open>Property\<close>

text \<open>
  C22. Static scoping.  In every state that programs make with the operations on contexts and
  functions (contexts with and without a function, functions from descriptions, declarations,
  calls and their argument set-up, assignments), the static parent of the context of a
  function is the context that function was declared in.  So on the chain of static parents of
  a context, \<open>context_at_level\<close>, which goes from function to declaration context, gives the
  context that many levels up, as long as those it passes are contexts of functions; and
  declaring a new function in a context stores, for each of its references to variables of
  outer functions, the context of the chain at the level of the reference and the index (16
  bits of it), and its declaration context, and changes nothing else.
\<close>

theorem context_at_level_static:
  assumes "scopes_reached env s"
  shows "(\<forall>p c. contexts s p = Some c \<longrightarrow> c_function c \<noteq> 0 \<longrightarrow>
      (\<exists>f. funcs s (c_function c) = Some f \<and> static_parent c = declaration_context f)) \<and>
    (\<forall>p cs level. static_chain s p cs \<longrightarrow> 0 < level \<longrightarrow> level \<le> length cs \<longrightarrow> inside_functions s cs (level - 1) \<longrightarrow>
      context_at_level p level s = Inr (cs ! (level - 1), s)) \<and>
    (\<forall>func f d ctx cs. funcs s func = Some f \<longrightarrow> descs s (f_desc f) = Some d \<longrightarrow>
      (\<forall>p c. contexts s p = Some c \<longrightarrow> c_function c \<noteq> func) \<longrightarrow> static_chain s ctx cs \<longrightarrow>
      length (variable_references f) = length (variable_reference_descriptions d) \<longrightarrow>
      (\<forall>r \<in> set (variable_reference_descriptions d). resolvable s cs r) \<longrightarrow>
      snow_function_declared_in_context func ctx s =
        Inr ((), s\<lparr>funcs := (funcs s)(func \<mapsto> f\<lparr>declaration_context := ctx,
          variable_references := map (resolved cs) (variable_reference_descriptions d)\<rparr>)\<rparr>))"
proof -
  have st: "scopes_static s" using assms by (rule scopes_reached_static)
  have "snow_function_declared_in_context func ctx s =
        Inr ((), s\<lparr>funcs := (funcs s)(func \<mapsto> f\<lparr>declaration_context := ctx,
          variable_references := map (resolved cs) (variable_reference_descriptions d)\<rparr>)\<rparr>)"
    if f: "funcs s func = Some f" "descs s (f_desc f) = Some d" "\<forall>p c. contexts s p = Some c \<longrightarrow> c_function c \<noteq> func"
      and cs: "static_chain s ctx cs" "length (variable_references f) = length (variable_reference_descriptions d)"
        "\<forall>r \<in> set (variable_reference_descriptions d). resolvable s cs r" for func f d ctx cs
  proof -
    let ?s = "s\<lparr>funcs := (funcs s)(func \<mapsto> f\<lparr>declaration_context := ctx\<rparr>)\<rparr>"
    have "scopes_static ?s" using st f(3) unfolding scopes_static_def by fastforce
    then have "resolve_references func ctx (variable_reference_descriptions d) 0 ?s =
        Inr ((), ?s\<lparr>funcs := (funcs ?s)(func \<mapsto> f\<lparr>declaration_context := ctx, variable_references :=
          take 0 (variable_references (f\<lparr>declaration_context := ctx\<rparr>)) @ map (resolved cs) (variable_reference_descriptions d)\<rparr>)\<rparr>)"
      using f(3) cs by (intro resolve_references_ok [THEN trans])
        (simp_all add: static_chain_contexts [of ?s s] resolvable_def inside_functions_def)
    then show ?thesis
      using f(1,2) by (simp add: snow_function_declared_in_context_def here_def put_func_def)
  qed
  moreover have "context_at_level p level s = Inr (cs ! (level - 1), s)"
    if "static_chain s p cs" "0 < level" "level \<le> length cs" "inside_functions s cs (level - 1)" for p cs level
    using context_at_level_ok [OF st that(1), of "(level, 0)"] that(2-4) by (simp add: resolvable_def)
  moreover have "\<exists>f. funcs s (c_function c) = Some f \<and> static_parent c = declaration_context f"
    if "contexts s p = Some c" "c_function c \<noteq> 0" for p c
    using st that unfolding scopes_static_def by fastforce
  ultimately show ?thesis by (intro conjI allI impI) blast+
qed

text \<open>
  An allocator for a small program: the first of a few addresses that nothing has.  The
  program makes the global context, a function (of a new description with one reference)
  declared in it, and a context for the function.
\<close>

definition small_alloc :: "scopes \<Rightarrow> VALUE" where
  "small_alloc s = (case filter (\<lambda>p. contexts s p = None \<and> descs s p = None \<and> funcs s p = None \<and> arrays s p = None)
      [16, 32, 48, 64, 80, 96, 112, 128] of p # _ \<Rightarrow> p | [] \<Rightarrow> 0)"

definition small_env :: scope_env where
  "small_env = \<lparr>s_alloc = small_alloc, s_sym = (\<lambda>_. 1), s_name = (\<lambda>_. []), s_run = (\<lambda>_ _. pfail Trap),
     s_missing = (\<lambda>_ _ _. pfail Trap), s_get_member = (\<lambda>_ _. pret 0), s_function_prototype = 8\<rparr>"

definition small_start :: scopes where
  "small_start = \<lparr>contexts = Map.empty, descs = Map.empty, funcs = Map.empty, arrays = Map.empty,
     arguments = Map.empty, global_context = 16\<rparr>"

definition small_1 :: scopes where
  "small_1 = small_start\<lparr>contexts := [16 \<mapsto> \<lparr>static_parent = 0, c_function = 0, c_self = 0, local_names = 0, locals = 32, c_args = 0\<rparr>],
     arrays := [32 \<mapsto> array_init_with_size 0]\<rparr>"

definition small_2 :: scopes where
  "small_2 = small_1\<lparr>descs := [48 \<mapsto> \<lparr>d_func = 1000, d_name = 1, defined_locals = 64, argument_names = 0,
       variable_reference_descriptions = []\<rparr>],
     arrays := (arrays small_1)(64 \<mapsto> array_init_with_size 0)\<rparr>"

definition small_3 :: scopes where
  "small_3 = small_2\<lparr>descs := [48 \<mapsto> \<lparr>d_func = 1000, d_name = 1, defined_locals = 64, argument_names = 0,
       variable_reference_descriptions = [(1, 0)]\<rparr>]\<rparr>"

definition small_function :: SnFunction where
  "small_function = \<lparr>f_desc = 48, declaration_context = 0, variable_references = [(0, 0)]\<rparr>"

definition small_4 :: scopes where
  "small_4 = small_3\<lparr>funcs := [80 \<mapsto> small_function]\<rparr>"

definition small_5 :: scopes where
  "small_5 = small_4\<lparr>funcs := [80 \<mapsto> small_function\<lparr>declaration_context := 16, variable_references := [(16, 0)]\<rparr>]\<rparr>"

definition small_6 :: scopes where
  "small_6 = small_5\<lparr>contexts := (contexts small_5)(96 \<mapsto> \<lparr>static_parent = 16, c_function = 80, c_self = 0, local_names = 64,
       locals = 112, c_args = 0\<rparr>),
     arrays := (arrays small_5)(112 \<mapsto> array_init_with_size 0)\<rparr>"

lemmas small_defs = small_start_def small_1_def small_2_def small_3_def small_4_def small_5_def small_6_def
  small_function_def small_env_def small_alloc_def

lemmas small_operations = create_array_def pget_def put_context_def put_desc_def put_func_def put_array_def here_def
  pret_def plift_def Let_def sassert_def assert_ok_def sn_array_size_def

lemma small_steps:
  "snow_create_context small_env 0 small_start = Inr (16, small_1)"
  "snow_create_function_description small_env 1000 small_1 = Inr (48, small_2)"
  "snow_function_description_add_variable_reference 48 1 0 small_2 = Inr (0, small_3)"
  "snow_create_function_from_description small_env 48 small_3 = Inr (80, small_4)"
  "snow_create_context_for_function small_env 80 small_5 = Inr (96, small_6)"
  "fresh_in small_env small_start" "fresh_in small_env small_3" "fresh_in small_env small_5"
  by (simp_all add: snow_create_context_def snow_create_function_description_def fresh_in_def
      snow_function_description_add_variable_reference_def snow_create_function_from_description_def
      snow_create_context_for_function_def small_operations small_defs array_init_with_size_def array_size_def)

lemma small_4_reached: "scopes_reached small_env small_4"
proof -
  have "scopes_reached small_env small_start" by (rule scopes_start) (simp_all add: small_start_def)
  then have "scopes_reached small_env small_1" using small_steps(6,1) by (rule scopes_context)
  then have "scopes_reached small_env small_2" using small_steps(2) by (rule scopes_description)
  then have "scopes_reached small_env small_3" using small_steps(3) by (rule scopes_reference)
  then show ?thesis using small_steps(7,4) by (rule scopes_function)
qed

lemma context_at_level_static_witness:
  "snow_function_declared_in_context 80 16 small_4 = Inr ((), small_5) \<and> context_at_level 96 2 small_6 = Inr (16, small_6)"
proof -
  let ?d = "\<lparr>d_func = 1000, d_name = 1, defined_locals = 64, argument_names = 0,
       variable_reference_descriptions = [(1, 0)]\<rparr>"
  have p: "funcs small_4 80 = Some small_function" "descs small_4 (f_desc small_function) = Some ?d"
    "\<And>p c. contexts small_4 p = Some c \<Longrightarrow> c_function c \<noteq> 80" "static_chain small_4 16 [16]"
    "length (variable_references small_function) = length (variable_reference_descriptions ?d)"
    "\<And>r. r \<in> set (variable_reference_descriptions ?d) \<Longrightarrow> resolvable small_4 [16] r"
    by (auto simp: small_defs resolvable_def inside_functions_def split: if_splits)
  have "snow_function_declared_in_context 80 16 small_4 = Inr ((), small_4\<lparr>funcs := (funcs small_4)(80 \<mapsto>
      small_function\<lparr>declaration_context := 16, variable_references := map (resolved [16]) (variable_reference_descriptions ?d)\<rparr>)\<rparr>)"
    by (rule context_at_level_static [OF small_4_reached, THEN conjunct2, THEN conjunct2, rule_format, OF p])
  then have 5: "snow_function_declared_in_context 80 16 small_4 = Inr ((), small_5)"
    by (simp add: small_defs resolved_def)
  have "scopes_reached small_env small_5"
    by (rule scopes_declare [OF small_4_reached _ 5]) (simp add: small_defs)
  then have "scopes_reached small_env small_6" using small_steps(8,5) by (rule scopes_enter)
  moreover have "static_chain small_6 96 [96, 16]" "inside_functions small_6 [96, 16] (2 - 1)"
    by (simp_all add: small_defs inside_functions_def)
  ultimately have "context_at_level 96 2 small_6 = Inr ([96, 16] ! (2 - 1), small_6)"
    by (intro context_at_level_static [THEN conjunct2, THEN conjunct1, rule_format]) simp_all
  with 5 show ?thesis by simp
qed

end
