(* ===== verification/Wrap.thy ===== *)
theory Wrap
  imports GcHeader
begin

text \<open>
  Wrapped C structures (snow/class.c), over the collector's memory: an object of a wrapping
  class carries, after its fields, the address of the function that frees the structure, and
  the structure.  The fields of classes and objects are words at their offsets.  What lies
  outside is a parameter: \<open>w_call\<close> calls a C function on an address, \<open>w_symbol\<close> and
  \<open>w_set_member\<close> are the symbol table and the members of objects (Symbols, Objects),
  \<open>w_prototype\<close> the prototype of a basic type, \<open>w_define_class_method\<close> and \<open>w_initialize\<close> the
  definition of a class method and the call of \<open>initialize\<close> (Members).
\<close>

record wenv =
  w_gc :: genv
  w_collect :: "unit gprog"
  w_call :: "64 word \<Rightarrow> addr \<Rightarrow> unit gprog"
  w_instance_free :: "64 word"
  w_prototype :: "SnObjectType \<Rightarrow> (64 word) gprog"
  w_symbol :: "string \<Rightarrow> 64 word"
  w_set_member :: "addr \<Rightarrow> 64 word \<Rightarrow> addr \<Rightarrow> unit gprog"
  w_define_class_method :: "addr \<Rightarrow> string \<Rightarrow> unit gprog"
  w_initialize :: "addr \<Rightarrow> unit gprog"

definition sizeof_object :: nat where "sizeof_object = 72"
definition sizeof_wrap_class :: nat where "sizeof_wrap_class = 120"
definition sizeof_free_func :: nat where "sizeof_free_func = 8"

text \<open>Fields of \<open>SnClass\<close> and \<open>SnWrapClass\<close>.\<close>

definition at_name :: "addr \<Rightarrow> addr" where "at_name c = c + 72"
definition at_instance_prototype :: "addr \<Rightarrow> addr" where "at_instance_prototype c = c + 80"
definition at_struct_name :: "addr \<Rightarrow> addr" where "at_struct_name c = c + 88"
definition at_struct_size :: "addr \<Rightarrow> addr" where "at_struct_size c = c + 96"
definition at_init_func :: "addr \<Rightarrow> addr" where "at_init_func c = c + 104"
definition at_free_func :: "addr \<Rightarrow> addr" where "at_free_func c = c + 112"

subsection \<open>Objects in memory\<close>

text \<open>Writes of one half of a word: the type and the flags of an object share one.\<close>

definition wr_low :: "addr \<Rightarrow> 64 word \<Rightarrow> unit gprog" where
  "wr_low p w = pbind (rd p) (\<lambda>old. wr p (push_bit 32 (drop_bit 32 old) OR take_bit 32 w))"

definition wr_high :: "addr \<Rightarrow> 64 word \<Rightarrow> unit gprog" where
  "wr_high p w = pbind (rd p) (\<lambda>old. wr p (take_bit 32 old OR push_bit 32 w))"

definition mem_alloc_any_object :: "wenv \<Rightarrow> SnObjectType \<Rightarrow> nat \<Rightarrow> addr gprog" where
  "mem_alloc_any_object env t n =
     pbind (gassert (n > 4)) (\<lambda>_.
     pbind (snow_gc_alloc_object (w_gc env) (w_collect env) n) (\<lambda>base.
     pbind (wr_low base (of_nat (type_code t))) (\<lambda>_. pret base)))"

text \<open>\<open>array_init\<close>: the pointer, then the size and the allocated size, the halves of a word.\<close>

definition mem_array_init :: "addr \<Rightarrow> unit gprog" where
  "mem_array_init p = pbind (wr p 0) (\<lambda>_. pbind (wr_low (p + 8) 0) (\<lambda>_. wr_high (p + 8) 0))"

definition mem_object_init :: "addr \<Rightarrow> 64 word \<Rightarrow> unit gprog" where
  "mem_object_init obj prototype =
     pbind (wr_high (obj) 1) (\<lambda>_.
     pbind (wr (obj + 8) prototype) (\<lambda>_.
     pbind (wr (obj + 16) 0) (\<lambda>_.
     pbind (wr (obj + 8) prototype) (\<lambda>_.
     pbind (mem_array_init (obj + 24)) (\<lambda>_.
     pbind (mem_array_init (obj + 40)) (\<lambda>_.
     mem_array_init (obj + 56)))))))"

definition mem_create_object :: "wenv \<Rightarrow> 64 word \<Rightarrow> addr gprog" where
  "mem_create_object env prototype =
     pbind (mem_alloc_any_object env SN_OBJECT_TYPE sizeof_object) (\<lambda>obj.
     pbind (mem_object_init obj prototype) (\<lambda>_. pret obj))"

definition mem_create_object_with_extra_data :: "wenv \<Rightarrow> 64 word \<Rightarrow> nat \<Rightarrow> (addr \<times> addr) gprog" where
  "mem_create_object_with_extra_data env prototype extra_bytes =
     pbind (mem_alloc_any_object env SN_OBJECT_TYPE (sizeof_object + extra_bytes)) (\<lambda>obj.
     pbind (mem_object_init obj prototype) (\<lambda>_. pret (obj, obj + extra_bytes)))"

subsection \<open>Wrapping\<close>

definition class_wrap_instance_free :: "wenv \<Rightarrow> addr \<Rightarrow> unit gprog" where
  "class_wrap_instance_free env obj =
     pbind (snow_gc_allocated_size obj) (\<lambda>n.
     pbind (gassert (n > sizeof_object)) (\<lambda>_.
     pbind (rd (obj + sizeof_object)) (\<lambda>free_func.
       if free_func \<noteq> 0 then w_call env free_func (obj + (sizeof_object + sizeof_free_func)) else pret ())))"

text \<open>
  \<open>memset\<close> of a number of bytes: the pointer stored before the structure is at a multiple of
  8 only when the size of the structure is one, so no part of a word is left over.
\<close>

definition snow_create_wrap_object :: "wenv \<Rightarrow> addr \<Rightarrow> addr gprog" where
  "snow_create_wrap_object env self =
     pbind (object_type self) (\<lambda>t.
     pbind (gassert (t = type_code SN_CLASS_TYPE)) (\<lambda>_.
     pbind (snow_gc_allocated_size self) (\<lambda>n.
     pbind (gassert (n = snow_gc_round sizeof_wrap_class)) (\<lambda>_.
     pbind (rd (at_instance_prototype self)) (\<lambda>prototype.
     pbind (gassert (prototype \<noteq> 0)) (\<lambda>_.
     pbind (rd (at_struct_size self)) (\<lambda>struct_size.
     pbind (mem_create_object_with_extra_data env prototype (unat struct_size + sizeof_free_func)) (\<lambda>(new_object, extra).
     pbind (rd (at_free_func self)) (\<lambda>free_func.
     pbind (wr extra free_func) (\<lambda>_.
     pbind (rd (at_struct_size self)) (\<lambda>struct_size.
     pbind (fill_words (extra + sizeof_free_func) (unat struct_size div 8) 0) (\<lambda>_.
     pbind (rd (at_init_func self)) (\<lambda>init_func.
     pbind (if init_func \<noteq> 0 then w_call env init_func (extra + sizeof_free_func) else pret ()) (\<lambda>_.
     pbind (snow_gc_set_free_func new_object (w_instance_free env)) (\<lambda>_.
     pret new_object)))))))))))))))"

definition snow_unwrap_struct :: "addr \<Rightarrow> nat \<Rightarrow> addr gprog" where
  "snow_unwrap_struct obj struct_size =
     pbind (snow_gc_allocated_size obj) (\<lambda>n.
     pbind (gassert (n = snow_gc_round (sizeof_object + sizeof_free_func + struct_size))) (\<lambda>_.
     pret (obj + sizeof_object + sizeof_free_func)))"

definition class_wrap_new :: "wenv \<Rightarrow> addr \<Rightarrow> addr gprog" where
  "class_wrap_new env self =
     pbind (snow_create_wrap_object env self) (\<lambda>new_object.
     pbind (w_initialize env new_object) (\<lambda>_. pret new_object))"

definition snow_create_class_wrap_struct ::
    "wenv \<Rightarrow> string \<Rightarrow> 64 word \<Rightarrow> nat \<Rightarrow> 64 word \<Rightarrow> 64 word \<Rightarrow> addr gprog" where
  "snow_create_class_wrap_struct env name struct_name struct_size init_func free_func =
     pbind (mem_alloc_any_object env SN_CLASS_TYPE sizeof_wrap_class) (\<lambda>kl.
     pbind (w_prototype env SN_CLASS_TYPE) (\<lambda>prototype.
     pbind (mem_object_init kl prototype) (\<lambda>_.
     pbind (wr (at_name kl) (w_symbol env name)) (\<lambda>_.
     pbind (mem_create_object env 0) (\<lambda>instance_prototype.
     pbind (wr (at_instance_prototype kl) (of_nat instance_prototype)) (\<lambda>_.
     pbind (w_set_member env instance_prototype (w_symbol env ''class'') kl) (\<lambda>_.
     pbind (wr (at_struct_name kl) struct_name) (\<lambda>_.
     pbind (wr (at_struct_size kl) (of_nat struct_size)) (\<lambda>_.
     pbind (wr (at_init_func kl) init_func) (\<lambda>_.
     pbind (wr (at_free_func kl) free_func) (\<lambda>_.
     pbind (w_define_class_method env kl ''__call__'') (\<lambda>_. pret kl))))))))))))"

subsection \<open>Writing to a block\<close>

definition block :: "gstate \<Rightarrow> addr \<Rightarrow> nat \<Rightarrow> bool" where
  "block s p n \<longleftrightarrow> p mod 8 = 0 \<and> (\<forall>a. p \<le> a \<longrightarrow> a + 8 \<le> p + n \<longrightarrow> a mod 8 = 0 \<longrightarrow> mem s a \<noteq> None)"

lemma add_mod8: "a mod 8 = 0 \<Longrightarrow> b mod 8 = 0 \<Longrightarrow> (a + b) mod 8 = (0 :: nat)"
  by presburger

lemma block_at: "block s p n \<Longrightarrow> k mod 8 = 0 \<Longrightarrow> k + 8 \<le> n \<Longrightarrow> (p + k) mod 8 = 0 \<and> mem s (p + k) \<noteq> None"
proof -
  assume b: "block s p n" and k: "k mod 8 = 0" "k + 8 \<le> n"
  then have "(p + k) mod 8 = 0" by (auto simp: block_def mod_add_eq [of p 8 k, symmetric])
  with b k show ?thesis unfolding block_def by simp
qed

lemma block_mem: "block s p n \<Longrightarrow> dom m = dom (mem s) \<Longrightarrow> block (s\<lparr>mem := m\<rparr>) p n"
  unfolding block_def by (simp add: dom_def set_eq_iff)

lemma block_upd: "block s p n \<Longrightarrow> mem s a \<noteq> None \<Longrightarrow> block (s\<lparr>mem := (mem s)(a \<mapsto> w)\<rparr>) p n"
  by (rule block_mem) auto

lemma wr_block: "block s p n \<Longrightarrow> k mod 8 = 0 \<Longrightarrow> k + 8 \<le> n \<Longrightarrow>
    wr (p + k) w s = Inr ((), s\<lparr>mem := (mem s)(p + k \<mapsto> w)\<rparr>) \<and> block (s\<lparr>mem := (mem s)(p + k \<mapsto> w)\<rparr>) p n"
  using block_at [of s p n k] block_upd [of s p n "p + k" w] by (auto simp: wr_def)

lemma rd_block: "block s p n \<Longrightarrow> k mod 8 = 0 \<Longrightarrow> k + 8 \<le> n \<Longrightarrow> rd (p + k) s = Inr (the (mem s (p + k)), s)"
  using block_at [of s p n k] by (auto simp: rd_def read_word_def)

lemma halves_zero: "take_bit 32 (push_bit 32 (drop_bit 32 (old :: 64 word)) OR take_bit 32 0) OR push_bit 32 0 = 0"
  by (rule bit_word_eqI) (auto simp: bit_take_bit_iff bit_or_iff bit_push_bit_iff)

lemma array_init_block:
  assumes "block s p n" "k mod 8 = 0" "k + 16 \<le> n"
  shows "mem_array_init (p + k) s = Inr ((), s\<lparr>mem := (mem s)(p + k \<mapsto> 0, p + (k + 8) \<mapsto> 0)\<rparr>) \<and>
    block (s\<lparr>mem := (mem s)(p + k \<mapsto> 0, p + (k + 8) \<mapsto> 0)\<rparr>) p n"
proof -
  have k8: "(k + 8) mod 8 = 0" "k + 8 + 8 \<le> n" using assms by simp_all
  let ?s1 = "s\<lparr>mem := (mem s)(p + k \<mapsto> 0)\<rparr>"
  have 1: "wr (p + k) 0 s = Inr ((), ?s1)" "block ?s1 p n"
    using wr_block [OF assms(1,2), of 0] assms(3) by simp_all
  let ?v = "push_bit 32 (drop_bit 32 (the (mem ?s1 (p + (k + 8))))) OR take_bit 32 (0 :: 64 word)"
  let ?s2 = "?s1\<lparr>mem := (mem ?s1)(p + (k + 8) \<mapsto> ?v)\<rparr>"
  have 2: "wr_low (p + k + 8) 0 ?s1 = Inr ((), ?s2)" "block ?s2 p n"
    using rd_block [OF 1(2) k8] wr_block [OF 1(2) k8, of ?v] by (simp_all add: wr_low_def add.assoc)
  let ?s3 = "?s2\<lparr>mem := (mem ?s2)(p + (k + 8) \<mapsto> take_bit 32 ?v OR push_bit 32 0)\<rparr>"
  have 3: "wr_high (p + k + 8) 0 ?s2 = Inr ((), ?s3)" "block ?s3 p n"
    using rd_block [OF 2(2) k8] wr_block [OF 2(2) k8, of "take_bit 32 ?v OR push_bit 32 0"]
    by (simp_all add: wr_high_def add.assoc)
  have "?s3 = s\<lparr>mem := (mem s)(p + k \<mapsto> 0, p + (k + 8) \<mapsto> 0)\<rparr>" unfolding halves_zero by simp
  then show ?thesis using 1(1) 2(1) 3 by (simp add: mem_array_init_def)
qed

text \<open>What an initialised object has in its fields after the first word.\<close>

definition object_words :: "addr \<Rightarrow> 64 word \<Rightarrow> (addr \<rightharpoonup> 64 word) \<Rightarrow> (addr \<rightharpoonup> 64 word)" where
  "object_words p prototype m = m(p \<mapsto> take_bit 32 (the (m p)) OR push_bit 32 1, p + 8 \<mapsto> prototype, p + 16 \<mapsto> 0, p + 24 \<mapsto> 0,
     p + 32 \<mapsto> 0, p + 40 \<mapsto> 0, p + 48 \<mapsto> 0, p + 56 \<mapsto> 0, p + 64 \<mapsto> 0)"

lemma object_init_block:
  assumes "block s p n" "72 \<le> n"
  shows "mem_object_init p prototype s = Inr ((), s\<lparr>mem := object_words p prototype (mem s)\<rparr>)"
    "block (s\<lparr>mem := object_words p prototype (mem s)\<rparr>) p n"
proof -
  let ?w = "take_bit 32 (the (mem s p)) OR push_bit 32 1"
  have m: "(0 :: nat) mod 8 = 0" "(8 :: nat) mod 8 = 0" "(16 :: nat) mod 8 = 0" "(24 :: nat) mod 8 = 0"
    "(40 :: nat) mod 8 = 0" "(56 :: nat) mod 8 = 0" by simp_all
  let ?s1 = "s\<lparr>mem := (mem s)(p \<mapsto> ?w)\<rparr>"
  have 1: "wr_high p 1 s = Inr ((), ?s1)" "block ?s1 p n"
    using rd_block [OF assms(1) m(1)] wr_block [OF assms(1) m(1), of ?w] assms(2) by (simp_all add: wr_high_def)
  let ?s2 = "?s1\<lparr>mem := (mem ?s1)(p + 8 \<mapsto> prototype)\<rparr>"
  have 2: "wr (p + 8) prototype ?s1 = Inr ((), ?s2)" "block ?s2 p n"
    using wr_block [OF 1(2) m(2)] assms(2) by simp_all
  let ?s3 = "?s2\<lparr>mem := (mem ?s2)(p + 16 \<mapsto> 0)\<rparr>"
  have 3: "wr (p + 16) 0 ?s2 = Inr ((), ?s3)" "block ?s3 p n"
    using wr_block [OF 2(2) m(3)] assms(2) by simp_all
  let ?s4 = "?s3\<lparr>mem := (mem ?s3)(p + 8 \<mapsto> prototype)\<rparr>"
  have 4: "wr (p + 8) prototype ?s3 = Inr ((), ?s4)" "block ?s4 p n"
    using wr_block [OF 3(2) m(2)] assms(2) by simp_all
  let ?s5 = "?s4\<lparr>mem := (mem ?s4)(p + 24 \<mapsto> 0, p + (24 + 8) \<mapsto> 0)\<rparr>"
  have 5: "mem_array_init (p + 24) ?s4 = Inr ((), ?s5)" "block ?s5 p n"
    using array_init_block [OF 4(2) m(4)] assms(2) by simp_all
  let ?s6 = "?s5\<lparr>mem := (mem ?s5)(p + 40 \<mapsto> 0, p + (40 + 8) \<mapsto> 0)\<rparr>"
  have 6: "mem_array_init (p + 40) ?s5 = Inr ((), ?s6)" "block ?s6 p n"
    using array_init_block [OF 5(2) m(5)] assms(2) by simp_all
  let ?s7 = "?s6\<lparr>mem := (mem ?s6)(p + 56 \<mapsto> 0, p + (56 + 8) \<mapsto> 0)\<rparr>"
  have 7: "mem_array_init (p + 56) ?s6 = Inr ((), ?s7)" "block ?s7 p n"
    using array_init_block [OF 6(2) m(6)] assms(2) by simp_all
  have s7: "?s7 = s\<lparr>mem := object_words p prototype (mem s)\<rparr>"
    unfolding object_words_def by (auto simp: fun_eq_iff intro!: gstate.equality)
  show "mem_object_init p prototype s = Inr ((), s\<lparr>mem := object_words p prototype (mem s)\<rparr>)"
    unfolding mem_object_init_def s7 [symmetric]
    by (simp only: pbind_def 1(1) 2(1) 3(1) 4(1) 5(1) 6(1) 7(1) rbind_simps prod.case)
  show "block (s\<lparr>mem := object_words p prototype (mem s)\<rparr>) p n" using 7(2) unfolding s7 .
qed

lemma fill_words_block:
  "block s p (8 * k) \<Longrightarrow> fill_words p k w s =
     Inr ((), s\<lparr>mem := \<lambda>a. if p \<le> a \<and> a < p + 8 * k \<and> a mod 8 = 0 then Some w else mem s a\<rparr>)"
proof (induction k arbitrary: p s)
  case 0
  have "(\<lambda>a. if p \<le> a \<and> a < p + 8 * 0 \<and> a mod 8 = 0 then Some w else mem s a) = mem s" by (auto simp: fun_eq_iff)
  then show ?case by simp
next
  case (Suc k)
  let ?s = "s\<lparr>mem := (mem s)(p \<mapsto> w)\<rparr>"
  have p: "p mod 8 = 0" using Suc.prems by (simp add: block_def)
  have 1: "wr p w s = Inr ((), ?s)" "block ?s p (8 * Suc k)"
    using wr_block [OF Suc.prems, of 0 w] by simp_all
  have "block ?s (p + 8) (8 * k)"
    unfolding block_def
  proof (intro conjI allI impI)
    fix a assume "p + 8 \<le> a" "a + 8 \<le> p + 8 + 8 * k" "a mod 8 = 0"
    then show "mem ?s a \<noteq> None" using 1(2) [unfolded block_def, THEN conjunct2, rule_format, of a] by simp
  qed (simp add: p)
  from Suc.IH [OF this] have "fill_words (p + 8) k w ?s =
      Inr ((), ?s\<lparr>mem := \<lambda>a. if p + 8 \<le> a \<and> a < p + 8 + 8 * k \<and> a mod 8 = 0 then Some w else mem ?s a\<rparr>)" .
  moreover have "(if p + 8 \<le> a \<and> a < p + 8 + 8 * k \<and> a mod 8 = 0 then Some w else mem ?s a) =
      (if p \<le> a \<and> a < p + 8 * Suc k \<and> a mod 8 = 0 then Some w else mem s a)" for a
  proof -
    have "p < a \<Longrightarrow> a mod 8 = 0 \<Longrightarrow> p + 8 \<le> a" using p by presburger
    then show ?thesis using p by auto
  qed
  ultimately show ?case using 1(1) by simp
qed

subsection \<open>Allocation in the nursery\<close>

text \<open>Nursery \<open>i\<close>, this thread's, has room for \<open>n\<close> bytes more and its memory is there.\<close>

definition nursery_room :: "gstate \<Rightarrow> nat \<Rightarrow> nat \<Rightarrow> bool" where
  "nursery_room s i n \<longleftrightarrow> my_nursery s = Some i \<and> i < length (nurseries s) \<and>
     (let h = nurseries s ! i; p = h_current h; total = gc_calculate_total_size (snow_gc_round n)
      in 0 < h_start h \<and> h_start h mod SNOW_GC_ALIGNMENT = 0 \<and> p mod SNOW_GC_ALIGNMENT = 0 \<and> h_start h \<le> p \<and>
         p + total \<le> h_end h \<and> total \<le> GC_BIG_ALLOCATION_SIZE_LIMIT \<and> num_objects h < 2 ^ 24 \<and>
         lower_bound (info s) \<le> h_start h \<and> h_end h \<le> upper_bound (info s) \<and>
         gc_find_heap s (p + sizeof_head) = Some (Nursery, i) \<and> block s p total)"

lemma snow_gc_round: "snow_gc_round n mod SNOW_GC_ALIGNMENT = 0" "n \<le> snow_gc_round n" "snow_gc_round n < n + 16"
proof -
  have "(n + (16 - n mod 16) mod 16) mod 16 = 0"
  proof (cases "n mod 16 = 0")
    case False
    have m: "n mod 16 < 16" by simp
    then have "(16 - n mod 16) mod 16 = 16 - n mod 16" using False by simp
    moreover have "n + (16 - n mod 16) = 16 * (n div 16) + 16" using m mult_div_mod_eq [of 16 n] by linarith
    ultimately show ?thesis by simp
  qed simp
  then show "snow_gc_round n mod SNOW_GC_ALIGNMENT = 0" unfolding snow_gc_round_def SNOW_GC_ALIGNMENT_def .
  show "n \<le> snow_gc_round n" unfolding snow_gc_round_def by (rule le_add1)
  have "(SNOW_GC_ALIGNMENT - n mod SNOW_GC_ALIGNMENT) mod SNOW_GC_ALIGNMENT < 16"
    unfolding SNOW_GC_ALIGNMENT_def by (rule mod_less_divisor) simp
  then show "snow_gc_round n < n + 16" unfolding snow_gc_round_def by (rule add_strict_left_mono)
qed

lemma find_heap_list_update:
  "i < length hs \<Longrightarrow> (\<And>q. gc_heap_contains h' q = gc_heap_contains (hs ! i) q) \<Longrightarrow>
    gc_heap_list_find_heap (hs[i := h']) p = gc_heap_list_find_heap hs p"
proof (induction hs arbitrary: i)
  case (Cons h hs)
  show ?case
  proof (cases i)
    case 0
    then have "gc_heap_contains h' p = gc_heap_contains h p" using Cons.prems(2) [of p] by simp
    then show ?thesis using 0 by simp
  next
    case (Suc j)
    have "gc_heap_list_find_heap (hs[j := h']) p = gc_heap_list_find_heap hs p"
      by (rule Cons.IH) (use Cons.prems Suc in simp_all)
    then show ?thesis using Suc by simp
  qed
qed simp

text \<open>
  The state after an allocation: the block is found from its first address in every state that
  differs in the memory of the block only and has no bead there.
\<close>

definition allocated :: "gstate \<Rightarrow> heap_ref \<Rightarrow> addr \<Rightarrow> nat \<Rightarrow> bool" where
  "allocated s r obj R \<longleftrightarrow> sizeof_head \<le> obj \<and> (obj - sizeof_head) mod SNOW_GC_ALIGNMENT = 0 \<and> R mod SNOW_GC_ALIGNMENT = 0 \<and>
     gc_find_heap s obj = Some r \<and>
     (\<exists>h w. get_heap r s = Inr (h, s) \<and> 0 < h_start h \<and> h_start h mod SNOW_GC_ALIGNMENT = 0 \<and> h_start h + sizeof_head \<le> obj \<and>
        obj + R + sizeof_tail \<le> h_end h \<and> lower_bound (info s) \<le> h_start h \<and> h_end h \<le> upper_bound (info s) \<and>
        begins s (obj - sizeof_head) w \<and> ai_size w = R)"

lemma allocated_mem:
  assumes "allocated s r obj R" "\<And>a. a < obj \<or> a = obj + R + 8 \<Longrightarrow> m a = mem s a"
  shows "allocated (s\<lparr>mem := m\<rparr>) r obj R"
proof -
  obtain h w where h: "get_heap r s = Inr (h, s)" "0 < h_start h" "h_start h mod SNOW_GC_ALIGNMENT = 0"
    "h_start h + sizeof_head \<le> obj" "obj + R + sizeof_tail \<le> h_end h" "lower_bound (info s) \<le> h_start h"
    "h_end h \<le> upper_bound (info s)" "begins s (obj - sizeof_head) w" "ai_size w = R" "sizeof_head \<le> obj"
    using assms(1) unfolding allocated_def by (elim conjE exE) (rule that; assumption)
  have e: "obj - sizeof_head + sizeof_head + R + 8 = obj + R + 8" using h(10) by simp
  have "begins (s\<lparr>mem := m\<rparr>) (obj - sizeof_head) w"
    using h(8,10) assms(2) unfolding begins_def h(9) e by (simp add: sizeof_head_def)
  moreover have "get_heap r (s\<lparr>mem := m\<rparr>) = Inr (h, s\<lparr>mem := m\<rparr>)"
    using h(1) by (auto simp: get_heap_def rbind_def split: sum.splits)
  ultimately show ?thesis using assms(1) h unfolding allocated_def by auto
qed

lemma allocated_find:
  assumes "allocated s r obj R" "no_bead s obj" "0 < R"
  shows "find_allocation obj s = Inr ((r, obj, obj - sizeof_head, obj + R), s)"
    "snow_gc_allocated_size obj s = Inr (R, s)"
proof -
  obtain h w where h: "get_heap r s = Inr (h, s)" "0 < h_start h" "h_start h mod SNOW_GC_ALIGNMENT = 0"
    "h_start h + sizeof_head \<le> obj" "obj + R + sizeof_tail \<le> h_end h" "lower_bound (info s) \<le> h_start h"
    "h_end h \<le> upper_bound (info s)" "begins s (obj - sizeof_head) w" "ai_size w = R"
    and o: "sizeof_head \<le> obj" "(obj - sizeof_head) mod SNOW_GC_ALIGNMENT = 0" "gc_find_heap s obj = Some r"
    using assms(1) unfolding allocated_def by (elim conjE exE) (rule that; assumption)
  have q: "no_bead s q" if "obj - sizeof_head < q" "q \<le> obj" "q mod SNOW_GC_ALIGNMENT = 0" for q
  proof -
    have "q = obj" using mod16_less [OF o(2) that(3,1)] that(2) o(1) by (simp add: sizeof_head_def)
    then show ?thesis using assms(2) by simp
  qed
  have a: "obj < h_end h - sizeof_tail" using h(5) assms(3) by simp
  have room: "obj - sizeof_head + sizeof_head + ai_size w + sizeof_tail \<le> h_end h" using h(5,9) o(1) by simp
  have start: "gc_find_object_start r obj s = Inr ((obj - sizeof_head + sizeof_head, obj - sizeof_head,
      obj - sizeof_head + sizeof_head + ai_size w), s)"
    using h(2,4) by (intro find_start_down [OF h(1,3) o(2) _ _ room h(6,7,8) _ a q]) simp_all
  then show found: "find_allocation obj s = Inr ((r, obj, obj - sizeof_head, obj + R), s)"
    using o(1,3) h(9) by (simp add: find_allocation_def)
  have "rd (obj - sizeof_head) s = Inr (w, s)" using h(8) rd_aligned mod16_8 [OF o(2)] by (simp add: begins_def)
  then show "snow_gc_allocated_size obj s = Inr (R, s)" using found h(9) by (simp add: snow_gc_allocated_size_def)
qed

lemma find_heap_nursery:
  assumes "i < length (nurseries s)" "\<And>q. gc_heap_contains h q = gc_heap_contains (nurseries s ! i) q"
  shows "gc_find_heap (s\<lparr>nurseries := (nurseries s)[i := h], mem := m, st_total := t\<rparr>) p = gc_find_heap s p"
proof -
  have "find_in sp (s\<lparr>nurseries := (nurseries s)[i := h], mem := m, st_total := t\<rparr>) p = find_in sp s p" for sp
    using find_heap_list_update [OF assms] by (cases sp) (simp_all add: find_in_def)
  then show ?thesis by (simp only: gc_find_heap_def) simp
qed

lemma alloc_object_nursery:
  assumes "nursery_room s i n" "0 < n"
  defines "obj \<equiv> h_current (nurseries s ! i) + sizeof_head" and "R \<equiv> snow_gc_round n"
  obtains s1 where "snow_gc_alloc_object env collect n s = Inr (obj, s1)" "allocated s1 (Nursery, i) obj R"
    "block s1 obj R" "mem s1 (obj + R) = Some 0" "\<And>a. a + sizeof_head < obj \<Longrightarrow> mem s1 a = mem s a"
    "\<And>a. obj + R + sizeof_tail \<le> a \<Longrightarrow> mem s1 a = mem s a"
proof -
  let ?h = "nurseries s ! i"
  let ?h' = "?h\<lparr>h_current := h_current ?h + (R + (sizeof_head + sizeof_tail)), num_objects := num_objects ?h + 1\<rparr>"
  have room: "my_nursery s = Some i" "i < length (nurseries s)" "0 < h_start ?h" "h_start ?h mod SNOW_GC_ALIGNMENT = 0"
    "h_current ?h mod SNOW_GC_ALIGNMENT = 0" "h_start ?h \<le> h_current ?h"
    "h_current ?h + (R + (sizeof_head + sizeof_tail)) \<le> h_end ?h" "R + (sizeof_head + sizeof_tail) \<le> GC_BIG_ALLOCATION_SIZE_LIMIT"
    "num_objects ?h < 2 ^ 24" "lower_bound (info s) \<le> h_start ?h" "h_end ?h \<le> upper_bound (info s)"
    "gc_find_heap s obj = Some (Nursery, i)" "block s (h_current ?h) (R + (sizeof_head + sizeof_tail))"
    using assms(1) unfolding nursery_room_def obj_def R_def gc_calculate_total_size_def Let_def by blast+
  have R: "R mod SNOW_GC_ALIGNMENT = 0" "R < 2 ^ 32" "0 < R"
    using snow_gc_round [of n] room(8) assms(2) by (simp_all add: R_def GC_BIG_ALLOCATION_SIZE_LIMIT_def)
  let ?p = "h_current ?h" let ?total = "R + (sizeof_head + sizeof_tail)"
  let ?s' = "s\<lparr>nurseries := (nurseries s)[i := ?h']\<rparr>"
  have al: "?total mod SNOW_GC_ALIGNMENT = 0"
    using R(1) mod16_step [OF room(5) R(1)] by (simp add: SNOW_GC_ALIGNMENT_def sizeof_head_def sizeof_tail_def mod_add_eq [of R, symmetric])
  have heap: "get_heap (Nursery, i) s = Inr (?h, s)" using room(2) by (simp add: get_heap_def read_slot_def)
  have "gc_heap_alloc (g_malloc env s GC_NURSERY_SIZE) ?h ?total GC_NURSERY_SIZE (info s) =
      Inr (?h', info s, Some (?p, num_objects ?h))"
    using al room(3,7,9) by (simp add: gc_heap_alloc_def)
  then have one: "alloc_in_heap env (Nursery, i) ?total GC_NURSERY_SIZE s = Inr (Some (?p, num_objects ?h), ?s')"
    using heap room(2,3) by (simp add: alloc_in_heap_def Let_def put_heap_def)
  have b: "block ?s' ?p ?total" using room(13) by (simp add: block_def)
  have t: "(16 + R) mod 8 = 0" "(16 + R + 8) mod 8 = 0" using R(1) by (simp_all add: SNOW_GC_ALIGNMENT_def) presburger+
  let ?w = "gc_compute_checksum (ai_fields R (num_objects ?h) GC_OBJECT)"
  let ?m = "(mem s)(?p + 8 \<mapsto> MAGIC_BEAD_HEAD, ?p + (16 + R + 8) \<mapsto> MAGIC_BEAD_TAIL, ?p \<mapsto> ?w, ?p + (16 + R) \<mapsto> 0)"
  let ?s2 = "?s'\<lparr>mem := ?m\<rparr>"
  have init: "gc_init_allocation ?p R GC_OBJECT (num_objects ?h) 0 ?s' = Inr (obj, ?s2)"
    using block_at [OF b, of 0] block_at [OF b, of 8] block_at [OF b t(1)] block_at [OF b t(2)]
    by (simp add: gc_init_allocation_def Let_def wr_def sizeof_head_def sizeof_tail_def obj_def add.assoc)
  note ok = init_allocation_ok [OF init room(5) R(1,2) room(9)]
  let ?s3 = "?s2\<lparr>st_total := (st_total ?s2 + 1) mod 2 ^ 32\<rparr>"
  have "snow_gc_alloc_object env collect n s = Inr (obj, ?s3)"
    using one init assms(2) room(1,8)
    by (simp add: snow_gc_alloc_object_def gc_alloc_def Let_def gc_calculate_total_size_def gc_my_nursery_def flip: R_def)
  moreover have "allocated ?s3 (Nursery, i) obj R"
  proof -
    have "gc_find_heap ?s3 obj = Some (Nursery, i)"
      using find_heap_nursery [OF room(2), of ?h'] room(12) by (simp add: gc_heap_contains_def)
    moreover have "get_heap (Nursery, i) ?s3 = Inr (?h', ?s3)" using room(2) by (simp add: get_heap_def read_slot_def)
    moreover have "begins ?s3 (obj - sizeof_head) ?w" using ok(2) by (simp add: begins_def obj_def)
    moreover have "obj - sizeof_head = ?p" "sizeof_head \<le> obj" by (simp_all add: obj_def)
    ultimately show ?thesis
      unfolding allocated_def using room(3-7,10,11) R(1) ok(3)
      by (intro conjI exI [of _ ?h'] exI [of _ ?w]) (simp_all add: obj_def)
  qed
  moreover have "block ?s3 obj R"
    unfolding block_def
  proof (intro conjI allI impI)
    show "obj mod 8 = 0" using mod16_8(1) [OF room(5)] by (simp add: obj_def sizeof_head_def mod_add_eq [of ?p, symmetric])
    fix a assume "obj \<le> a" "a + 8 \<le> obj + R" "a mod 8 = 0"
    then have "mem s a \<noteq> None" using room(13) by (simp add: block_def obj_def sizeof_head_def sizeof_tail_def)
    then show "mem ?s3 a \<noteq> None" by simp
  qed
  moreover have "mem ?s3 (obj + R) = Some 0" by (simp add: obj_def sizeof_head_def)
  moreover have m: "mem ?s3 a = mem s a" if "a + sizeof_head < obj \<or> obj \<le> a \<and> a < obj + R \<or> obj + R + sizeof_tail \<le> a" for a
    using that ok(6) [of a] by (simp add: obj_def)
  ultimately show thesis by (intro that [of ?s3]) blast+
qed

subsection \<open>Property\<close>

text \<open>The fields of a wrapping class, away from the block that its instance will get.\<close>

definition wrap_class_at :: "gstate \<Rightarrow> addr \<Rightarrow> 64 word \<Rightarrow> nat \<Rightarrow> 64 word \<Rightarrow> bool" where
  "wrap_class_at s c prototype n free_func \<longleftrightarrow> c mod 8 = 0 \<and>
     object_type c s = Inr (type_code SN_CLASS_TYPE, s) \<and>
     snow_gc_allocated_size c s = Inr (snow_gc_round sizeof_wrap_class, s) \<and>
     prototype \<noteq> 0 \<and> mem s (at_instance_prototype c) = Some prototype \<and>
     mem s (at_struct_size c) = Some (of_nat n) \<and> mem s (at_init_func c) = Some 0 \<and> mem s (at_free_func c) = Some free_func"

lemma create_wrap_object_ok:
  assumes cls: "wrap_class_at s c prototype n free_func"
    and room: "nursery_room s i (80 + n)" and n: "n mod 8 = 0" "n \<le> 72"
    and beads: "prototype \<noteq> MAGIC_BEAD_HEAD" "free_func \<noteq> MAGIC_BEAD_HEAD"
    and apart: "at_free_func c + 8 \<le> h_current (nurseries s ! i) \<or>
      h_current (nurseries s ! i) + gc_calculate_total_size (snow_gc_round (80 + n)) \<le> at_instance_prototype c"
  defines "obj \<equiv> h_current (nurseries s ! i) + sizeof_head" and "R \<equiv> snow_gc_round (80 + n)"
  obtains m s1 where "snow_create_wrap_object env c s = Inr (obj, s1\<lparr>mem := m\<rparr>)"
    "allocated (s1\<lparr>mem := m\<rparr>) (Nursery, i) obj R" "no_bead (s1\<lparr>mem := m\<rparr>) obj" "0 < R"
    "m (obj + R) = Some (w_instance_free env)" "m (obj + n + 8) = Some free_func"
    "\<And>a. obj + n + 16 \<le> a \<Longrightarrow> a < obj + n + 16 + n \<Longrightarrow> a mod 8 = 0 \<Longrightarrow> m a = Some 0"
    "\<And>a. obj + 8 \<le> a \<Longrightarrow> a < obj + 72 \<Longrightarrow> a < obj + n + 8 \<Longrightarrow> a mod 8 = 0 \<Longrightarrow>
       m a = Some (if a = obj + 8 then prototype else 0)"
proof -
  have fits: "n + 16 + n \<le> R" "80 + n \<le> R"
  proof -
    show "80 + n \<le> R" unfolding R_def by (rule snow_gc_round(2))
    then show "n + 16 + n \<le> R"
    proof (cases "n \<le> 64")
      case False
      then have "n = 72" using n by presburger
      then show ?thesis by (simp add: R_def snow_gc_round_def SNOW_GC_ALIGNMENT_def)
    qed simp
  qed
  have Ral: "R mod 8 = 0" using mod16_8(1) [OF snow_gc_round(1)] by (simp add: R_def)
  have n8: "8 * (n div 8) = n" using n(1) by presburger
  have un: "unat (of_nat n :: 64 word) = n" using n(2) by (simp add: unat_of_nat)
  obtain s1 where s1: "snow_gc_alloc_object (w_gc env) (w_collect env) (80 + n) s = Inr (obj, s1)"
    "allocated s1 (Nursery, i) obj R" "block s1 obj R" "mem s1 (obj + R) = Some 0"
    "\<And>a. a + sizeof_head < obj \<Longrightarrow> mem s1 a = mem s a" "\<And>a. obj + R + sizeof_tail \<le> a \<Longrightarrow> mem s1 a = mem s a"
    using alloc_object_nursery [OF room, of "w_gc env" "w_collect env"] unfolding obj_def R_def by auto
  have z: "(0 :: nat) mod 8 = 0" "(n + 8) mod 8 = 0" using n(1) by simp_all
  define v where "v = push_bit 32 (drop_bit 32 (the (mem s1 obj))) OR take_bit 32 (of_nat (type_code SN_OBJECT_TYPE) :: 64 word)"
  define m1 where "m1 = (mem s1)(obj \<mapsto> v)"
  define m2 where "m2 = object_words obj prototype m1"
  define m3 where "m3 = m2(obj + (n + 8) \<mapsto> free_func)"
  define m4 where "m4 = (\<lambda>a. if obj + (n + 16) \<le> a \<and> a < obj + (n + 16) + 8 * (n div 8) \<and> a mod 8 = 0 then Some 0 else m3 a)"
  define m5 where "m5 = m4(obj + R \<mapsto> w_instance_free env)"
  have 1: "wr_low obj (of_nat (type_code SN_OBJECT_TYPE)) s1 = Inr ((), s1\<lparr>mem := m1\<rparr>)" "block (s1\<lparr>mem := m1\<rparr>) obj R"
    using rd_block [OF s1(3) z(1)] wr_block [OF s1(3) z(1), of v] fits(2) by (simp_all add: wr_low_def m1_def v_def)
  have 2: "mem_object_init obj prototype (s1\<lparr>mem := m1\<rparr>) = Inr ((), s1\<lparr>mem := m2\<rparr>)" "block (s1\<lparr>mem := m2\<rparr>) obj R"
    using object_init_block [OF 1(2), of prototype] fits(2) by (simp_all add: m2_def)
  have 3: "wr (obj + (n + 8)) free_func (s1\<lparr>mem := m2\<rparr>) = Inr ((), s1\<lparr>mem := m3\<rparr>)" "block (s1\<lparr>mem := m3\<rparr>) obj R"
    using wr_block [OF 2(2) z(2), of free_func] fits(2) by (simp_all add: m3_def)
  have "block (s1\<lparr>mem := m3\<rparr>) (obj + (n + 16)) (8 * (n div 8))"
    unfolding block_def
  proof (intro conjI allI impI)
    have "obj mod 8 = 0" using 3(2) by (simp add: block_def)
    moreover have "(n + 16) mod 8 = 0" using n(1) by presburger
    ultimately show "(obj + (n + 16)) mod 8 = 0" by (rule add_mod8)
    fix a assume "obj + (n + 16) \<le> a" "a + 8 \<le> obj + (n + 16) + 8 * (n div 8)" "a mod 8 = 0"
    then show "mem (s1\<lparr>mem := m3\<rparr>) a \<noteq> None"
      using 3(2) [unfolded block_def, THEN conjunct2, rule_format, of a] fits(1) n(1) by simp
  qed
  then have 4: "fill_words (obj + (n + 16)) (n div 8) 0 (s1\<lparr>mem := m3\<rparr>) = Inr ((), s1\<lparr>mem := m4\<rparr>)"
    using fill_words_block [of "s1\<lparr>mem := m3\<rparr>" "obj + (n + 16)" "n div 8" 0] by (simp add: m4_def cong: if_cong)
  have m4: "m4 a = mem s1 a" if "a < obj \<or> obj + R \<le> a" for a
    using that fits n(1) by (auto simp: m4_def m3_def m2_def object_words_def m1_def)
  have 5: "allocated (s1\<lparr>mem := m4\<rparr>) (Nursery, i) obj R" using m4 by (intro allocated_mem [OF s1(2)]) auto
  have o8: "obj mod 8 = 0" using s1(3) by (simp add: block_def)
  have head: "m4 obj \<noteq> None" "\<exists>v. m4 (obj + 8) = Some v \<and> v \<noteq> MAGIC_BEAD_HEAD"
    using beads by (auto simp: m4_def m3_def m2_def object_words_def)
  then have nb: "no_bead (s1\<lparr>mem := m4\<rparr>) obj" by (simp add: no_bead_def)
  have find: "find_allocation obj (s1\<lparr>mem := m4\<rparr>) = Inr (((Nursery, i), obj, obj - sizeof_head, obj + R), s1\<lparr>mem := m4\<rparr>)"
    using fits(2) by (intro allocated_find(1) [OF 5 nb]) simp
  have "(obj + R) mod 8 = 0" using o8 Ral by (rule add_mod8)
  then have tail: "snow_gc_set_free_func obj (w_instance_free env) (s1\<lparr>mem := m4\<rparr>) = Inr ((), s1\<lparr>mem := m5\<rparr>)"
    using find m4 [of "obj + R"] s1(4) by (simp add: snow_gc_set_free_func_def wr_def m5_def)
  have away: "m2 a = mem s a" "m3 a = mem s a" "m4 a = mem s a"
    if "at_instance_prototype c \<le> a" "a \<le> at_free_func c" for a
  proof -
    have "a + sizeof_head < obj \<or> obj + R + sizeof_tail \<le> a"
      using apart that by (auto simp: obj_def R_def gc_calculate_total_size_def sizeof_head_def sizeof_tail_def)
    then have "mem s1 a = mem s a" "a < obj \<or> obj + R \<le> a" using s1(5,6) by auto
    then show "m2 a = mem s a" "m3 a = mem s a" "m4 a = mem s a"
      using fits m4 [of a] by (auto simp: m3_def m2_def object_words_def m1_def)
  qed
  have c8: "at_instance_prototype c mod 8 = 0" "at_struct_size c mod 8 = 0" "at_init_func c mod 8 = 0" "at_free_func c mod 8 = 0"
    using cls by (simp_all add: wrap_class_at_def at_instance_prototype_def at_struct_size_def at_init_func_def at_free_func_def
        mod_add_eq [of c, symmetric])
  have order: "at_instance_prototype c \<le> at_struct_size c" "at_struct_size c \<le> at_init_func c" "at_init_func c \<le> at_free_func c"
    "at_instance_prototype c \<le> at_init_func c" "at_instance_prototype c \<le> at_free_func c" "at_struct_size c \<le> at_free_func c"
    by (simp_all add: at_instance_prototype_def at_struct_size_def at_init_func_def at_free_func_def)
  have fields: "rd (at_instance_prototype c) s = Inr (prototype, s)" "rd (at_struct_size c) s = Inr (of_nat n, s)"
    "rd (at_free_func c) (s1\<lparr>mem := m2\<rparr>) = Inr (free_func, s1\<lparr>mem := m2\<rparr>)"
    "rd (at_struct_size c) (s1\<lparr>mem := m3\<rparr>) = Inr (of_nat n, s1\<lparr>mem := m3\<rparr>)"
    "rd (at_init_func c) (s1\<lparr>mem := m4\<rparr>) = Inr (0, s1\<lparr>mem := m4\<rparr>)"
    using cls order by (auto simp: wrap_class_at_def away intro!: rd_aligned c8)
  have create: "snow_create_wrap_object env c s = Inr (obj, s1\<lparr>mem := m5\<rparr>)"
  proof -
    have c: "object_type c s = Inr (type_code SN_CLASS_TYPE, s)" "snow_gc_allocated_size c s = Inr (snow_gc_round sizeof_wrap_class, s)"
      "prototype \<noteq> 0" using cls by (simp_all add: wrap_class_at_def)
    have "mem_create_object_with_extra_data env prototype (n + 8) s = Inr ((obj, obj + (n + 8)), s1\<lparr>mem := m2\<rparr>)"
      using s1(1) 1(1) 2(1) by (simp add: mem_create_object_with_extra_data_def mem_alloc_any_object_def sizeof_object_def add.commute)
    moreover have "obj + (n + 8) + sizeof_free_func = obj + (n + 16)" by (simp add: sizeof_free_func_def)
    ultimately show ?thesis
      using c fields 3(1) 4 tail un by (simp add: snow_create_wrap_object_def sizeof_free_func_def add.commute add.left_commute del: rbind_eq_Inr)
  qed
  have m5: "m5 a = m4 a" if "a \<noteq> obj + R" for a using that by (simp add: m5_def)
  have a5: "allocated (s1\<lparr>mem := m5\<rparr>) (Nursery, i) obj R" using m4 m5 by (intro allocated_mem [OF s1(2)]) auto
  have n5: "no_bead (s1\<lparr>mem := m5\<rparr>) obj" using head m5 [of obj] m5 [of "obj + 8"] fits(2) by (simp add: no_bead_def)
  show thesis
  proof (rule that [OF create a5 n5])
    show "0 < R" using fits(2) by simp
    show "m5 (obj + R) = Some (w_instance_free env)" by (simp add: m5_def)
    show "m5 (obj + n + 8) = Some free_func" using fits m5 by (simp add: m4_def m3_def add.assoc)
    show "m5 a = Some 0" if "obj + n + 16 \<le> a" "a < obj + n + 16 + n" "a mod 8 = 0" for a
      using that fits m5 [of a] n8 by (simp add: m4_def add.assoc)
    show "m5 a = Some (if a = obj + 8 then prototype else 0)"
      if "obj + 8 \<le> a" "a < obj + 72" "a < obj + n + 8" "a mod 8 = 0" for a
    proof -
      have d': "obj \<le> a" using that(1) by simp
      define d where "d = a - obj"
      have d: "a = obj + d" using d' by (simp add: d_def)
      have "d mod 8 = 0" using that(4) o8 d by presburger
      then have "d \<in> {8, 16, 24, 32, 40, 48, 56, 64}" using that(1,2) d by simp presburger
      then have "m2 a = Some (if a = obj + 8 then prototype else 0)" by (auto simp: d m2_def object_words_def)
      then show ?thesis using that(3) fits m5 [of a] by (simp add: m4_def m3_def)
    qed
  qed
qed

text \<open>
  C36. Wrapping a structure of \<open>n\<close> bytes (a multiple of 8, at most 72) without a function that
  initialises it, when this thread's nursery has room, the class lies outside that room, and
  neither the prototype nor the free function is the word the collector marks headers with.
  The object is allocated with its
  header, fields, pointer to the free function and structure, and its finaliser set; but the
  pointer and the cleared structure are put \<open>n + 8\<close> bytes after the start of the object
  instead of after its 72 bytes.  For 64 bytes these are the same: the fields of the object
  are as initialised, \<open>snow_unwrap_struct\<close> gives the structure and the finaliser calls the
  free function on it.  For any other size \<open>snow_unwrap_struct\<close> gives another address than the
  structure's; for a shorter structure the pointer to the free function lies on the fields
  of the object (on its prototype when \<open>n = 0\<close>); and for 32 to 56 bytes the finaliser finds
  zero where it looks for the pointer and never calls the free function.
\<close>

theorem wrap_object_layout:
  assumes "wrap_class_at s c prototype n free_func" "nursery_room s i (80 + n)" "n mod 8 = 0" "n \<le> 72"
    "prototype \<noteq> MAGIC_BEAD_HEAD" "free_func \<noteq> MAGIC_BEAD_HEAD"
    "at_free_func c + 8 \<le> h_current (nurseries s ! i) \<or>
      h_current (nurseries s ! i) + gc_calculate_total_size (snow_gc_round (80 + n)) \<le> at_instance_prototype c"
  defines "obj \<equiv> h_current (nurseries s ! i) + sizeof_head"
  defines "data \<equiv> obj + n + 16"
  shows "\<exists>s'. snow_create_wrap_object env c s = Inr (obj, s') \<and>
    find_allocation obj s' = Inr (((Nursery, i), obj, obj - sizeof_head, obj + snow_gc_round (80 + n)), s') \<and>
    mem s' (obj + snow_gc_round (80 + n)) = Some (w_instance_free env) \<and>
    mem s' (data - 8) = Some free_func \<and> (\<forall>a. data \<le> a \<and> a < data + n \<and> a mod 8 = 0 \<longrightarrow> mem s' a = Some 0) \<and>
    (\<exists>u. snow_unwrap_struct obj n s' = Inr (u, s') \<and> (u = data \<longleftrightarrow> n = 64)) \<and>
    (n = 64 \<longrightarrow> mem s' (obj + 8) = Some prototype \<and> (\<forall>k \<in> {16, 24, 32, 40, 48, 56, 64}. mem s' (obj + k) = Some 0) \<and>
       class_wrap_instance_free env obj s' = (if free_func \<noteq> 0 then w_call env free_func data s' else Inr ((), s'))) \<and>
    (n < 64 \<longrightarrow> obj + 8 \<le> data - 8 \<and> data - 8 < obj + sizeof_object) \<and>
    (32 \<le> n \<and> n \<le> 56 \<longrightarrow> class_wrap_instance_free env obj s' = Inr ((), s'))"
proof -
  obtain m s1 where w: "snow_create_wrap_object env c s = Inr (obj, s1\<lparr>mem := m\<rparr>)"
    "allocated (s1\<lparr>mem := m\<rparr>) (Nursery, i) obj (snow_gc_round (80 + n))" "no_bead (s1\<lparr>mem := m\<rparr>) obj"
    "0 < snow_gc_round (80 + n)" "m (obj + snow_gc_round (80 + n)) = Some (w_instance_free env)" "m (obj + n + 8) = Some free_func"
    "\<And>a. obj + n + 16 \<le> a \<Longrightarrow> a < obj + n + 16 + n \<Longrightarrow> a mod 8 = 0 \<Longrightarrow> m a = Some 0"
    "\<And>a. obj + 8 \<le> a \<Longrightarrow> a < obj + 72 \<Longrightarrow> a < obj + n + 8 \<Longrightarrow> a mod 8 = 0 \<Longrightarrow>
       m a = Some (if a = obj + 8 then prototype else 0)"
    using create_wrap_object_ok [OF assms(1-7), of env, folded obj_def] by blast
  note found = allocated_find [OF w(2,3,4)]
  have u: "snow_unwrap_struct obj n (s1\<lparr>mem := m\<rparr>) = Inr (obj + 80, s1\<lparr>mem := m\<rparr>)"
    using found(2) by (simp add: snow_unwrap_struct_def sizeof_object_def sizeof_free_func_def)
  have size: "72 < snow_gc_round (80 + n)" using snow_gc_round(2) [of "80 + n"] by linarith
  have o8: "obj mod 8 = 0"
  proof -
    have "(obj - sizeof_head) mod 8 = 0" using w(2) mod16_8(1) by (simp add: allocated_def)
    moreover have "obj = (obj - sizeof_head) + sizeof_head" by (simp add: obj_def)
    ultimately show ?thesis using add_mod8 [of "obj - sizeof_head" sizeof_head] by (simp add: sizeof_head_def)
  qed
  have free: "class_wrap_instance_free env obj (s1\<lparr>mem := m\<rparr>) =
      (if f \<noteq> 0 then w_call env f (obj + 80) (s1\<lparr>mem := m\<rparr>) else Inr ((), s1\<lparr>mem := m\<rparr>))" if "m (obj + 72) = Some f" for f
  proof -
    have "rd (obj + 72) (s1\<lparr>mem := m\<rparr>) = Inr (f, s1\<lparr>mem := m\<rparr>)"
      using that add_mod8 [OF o8, of 72] by (intro rd_aligned) simp_all
    then show ?thesis using found(2) size
      by (simp add: class_wrap_instance_free_def sizeof_object_def sizeof_free_func_def)
  qed
  have 64: "mem (s1\<lparr>mem := m\<rparr>) (obj + 8) = Some prototype \<and>
      (\<forall>k \<in> {16, 24, 32, 40, 48, 56, 64}. mem (s1\<lparr>mem := m\<rparr>) (obj + k) = Some 0) \<and>
      class_wrap_instance_free env obj (s1\<lparr>mem := m\<rparr>) =
        (if free_func \<noteq> 0 then w_call env free_func data (s1\<lparr>mem := m\<rparr>) else Inr ((), s1\<lparr>mem := m\<rparr>))" if "n = 64"
  proof -
    have "m (obj + k) = Some (if k = 8 then prototype else 0)" if "k \<in> {8, 16, 24, 32, 40, 48, 56, 64}" for k
      using w(8) [of "obj + k"] that \<open>n = 64\<close> add_mod8 [OF o8, of k] by auto
    then have "m (obj + 8) = Some prototype" "\<forall>k \<in> {16, 24, 32, 40, 48, 56, 64}. m (obj + k) = Some 0" by auto
    moreover have "m (obj + 72) = Some free_func" using w(6) that by (simp add: add.commute)
    moreover have "data = obj + 80" using that by (simp add: data_def)
    ultimately show ?thesis using free [of free_func] by simp
  qed
  have short: "class_wrap_instance_free env obj (s1\<lparr>mem := m\<rparr>) = Inr ((), s1\<lparr>mem := m\<rparr>)" if "32 \<le> n" "n \<le> 56"
    using w(7) [of "obj + 72"] free [of 0] that add_mod8 [OF o8, of 72] by simp
  have at: "data - 8 = obj + n + 8" by (simp add: data_def)
  then have "m (data - 8) = Some free_func" using w(6) by (simp only:)
  show ?thesis
    using w(1,5,7) found(1) u 64 short at \<open>m (data - 8) = Some free_func\<close>
    by (intro exI [of _ "s1\<lparr>mem := m\<rparr>"]) (auto simp: data_def sizeof_object_def)
qed

text \<open>
  A nursery with one allocation, a class that wraps structures of 32 bytes with a free function
  (12288), which is never called on its instance.
\<close>

definition wrap_heap :: SnGCHeap where
  "wrap_heap = zero_heap\<lparr>h_start := 4096, h_current := 4256, h_end := 4416, num_objects := 1\<rparr>"

definition wrap_mem :: "addr \<rightharpoonup> 64 word" where
  "wrap_mem = (map_chunk 4096 320 Map.empty)(4096 \<mapsto> gc_compute_checksum (ai_fields 128 0 GC_OBJECT), 4104 \<mapsto> MAGIC_BEAD_HEAD,
     4112 \<mapsto> 0xd1, 4120 \<mapsto> 0, 4192 \<mapsto> 8192, 4208 \<mapsto> 32, 4216 \<mapsto> 0, 4224 \<mapsto> 12288, 4240 \<mapsto> 0, 4248 \<mapsto> MAGIC_BEAD_TAIL)"

definition wrap_state :: gstate where
  "wrap_state = \<lparr>mem = wrap_mem, info = gc_alloc_chunk 4096 320 gc_info_init, nurseries = [wrap_heap], adults = [],
     biggies = [], unkillables = [], graveyard = [], new_adults = [], new_unkillables = [], my_nursery = Some 0, num_minor = 0,
     st_survived = 0, st_freed = 0, st_moved = 0, st_indefinites = 0, st_total = 0\<rparr>"

lemma wrap_state_simps:
  "mem wrap_state = wrap_mem" "nurseries wrap_state = [wrap_heap]" "my_nursery wrap_state = Some 0"
  "lower_bound (info wrap_state) = 4096" "upper_bound (info wrap_state) = 4416" "h_start wrap_heap = 4096"
  "h_current wrap_heap = 4256" "h_end wrap_heap = 4416" "num_objects wrap_heap = 1"
  by (simp_all add: wrap_state_def wrap_heap_def gc_alloc_chunk_def gc_info_init_def)

lemma wrap_state_found: "gc_find_heap wrap_state 4112 = Some (Nursery, 0)" "gc_find_heap wrap_state 4272 = Some (Nursery, 0)"
  by (simp_all add: gc_find_heap_def find_in_def gc_maybe_contains_def gc_heap_contains_def sizeof_head_def sizeof_tail_def
      wrap_state_simps)

lemma wrap_state_class: "wrap_class_at wrap_state 4112 8192 32 12288"
proof -
  let ?w = "gc_compute_checksum (ai_fields 128 0 GC_OBJECT)"
  have w: "ai_size ?w = 128" "gc_check_checksum ?w" using header_fields(1) [of 128 0] header_checksum by simp_all
  have "begins wrap_state 4096 ?w"
    using w by (simp add: begins_def wrap_state_simps wrap_mem_def SNOW_GC_ALIGNMENT_def sizeof_head_def)
  then have "allocated wrap_state (Nursery, 0) 4112 128"
    using w(1) wrap_state_found(1)
    by (simp add: allocated_def get_heap_def read_slot_def wrap_state_simps SNOW_GC_ALIGNMENT_def sizeof_head_def sizeof_tail_def)
      blast
  moreover have "no_bead wrap_state 4112" by (simp add: no_bead_def wrap_state_simps wrap_mem_def MAGIC_BEAD_HEAD_def)
  ultimately have "snow_gc_allocated_size 4112 wrap_state = Inr (128, wrap_state)" by (rule allocated_find(2)) simp
  moreover have "rd 4112 wrap_state = Inr (0xd1, wrap_state)" by (rule rd_aligned) (simp_all add: wrap_state_simps wrap_mem_def)
  ultimately show ?thesis
    by (simp add: wrap_class_at_def object_type_def snow_gc_round_def sizeof_wrap_class_def SNOW_GC_ALIGNMENT_def
        at_instance_prototype_def at_struct_size_def at_init_func_def at_free_func_def wrap_state_simps wrap_mem_def)
qed

lemma wrap_state_room: "nursery_room wrap_state 0 (80 + 32)"
proof -
  have "block wrap_state 4256 144" by (auto simp: block_def wrap_state_simps wrap_mem_def map_chunk_def)
  then show ?thesis
    using wrap_state_found(2)
    by (simp add: nursery_room_def wrap_state_simps snow_gc_round_def SNOW_GC_ALIGNMENT_def gc_calculate_total_size_def
        sizeof_head_def sizeof_tail_def GC_BIG_ALLOCATION_SIZE_LIMIT_def)
qed

lemma wrap_object_layout_witness:
  "\<forall>env. \<exists>s'. snow_create_wrap_object env 4112 wrap_state = Inr (4272, s') \<and> mem s' 4312 = Some 12288 \<and>
     class_wrap_instance_free env 4272 s' = Inr ((), s')"
proof
  fix env
  have "at_free_func 4112 + 8 \<le> h_current (nurseries wrap_state ! 0)" by (simp add: at_free_func_def wrap_state_simps)
  then show "\<exists>s'. snow_create_wrap_object env 4112 wrap_state = Inr (4272, s') \<and> mem s' 4312 = Some 12288 \<and>
     class_wrap_instance_free env 4272 s' = Inr ((), s')"
    using wrap_object_layout [OF wrap_state_class wrap_state_room, of env]
    by (auto simp: MAGIC_BEAD_HEAD_def wrap_state_simps sizeof_head_def)
qed

end
