(* ===== verification/Loader.thy ===== *)
theory Loader
  imports Values
begin

text \<open>
  Loading files (\<open>snow_get_load_paths\<close>, \<open>load_source\<close>, \<open>load_dynamic_library\<close>, \<open>snow_load\<close>,
  \<open>snow_require\<close> in snow/snow.c).  Strings are held by value, and the map of the files that are
  loaded, which compares strings by their contents, is a map from strings.  The file system, the
  linker and the evaluation of source text are parameters.
\<close>

record lstate =
  load_paths :: "string list option"
  loaded_files :: "string \<rightharpoonup> VALUE"

type_synonym 'a lprog = "('a, lstate) prog"

record load_env =
  l_stat :: "string \<Rightarrow> bool"
  l_read :: "string \<Rightarrow> string option"
  l_cwd :: string
  l_libdir :: string
  l_eval :: "string \<Rightarrow> VALUE lprog"
  l_library :: "string \<Rightarrow> unit lprog"

definition snow_get_load_paths :: "load_env \<Rightarrow> string list lprog" where
  "snow_get_load_paths env s = (case load_paths s of
     None \<Rightarrow> Inr ([l_libdir env], s\<lparr>load_paths := Some [l_libdir env]\<rparr>)
   | Some paths \<Rightarrow> Inr (paths, s))"

text \<open>The loop over a first line that starts with \<open>#!\<close> does not stop at the end of the text, and
  what is evaluated is the whole text.\<close>

definition skip_shebang :: "string \<Rightarrow> string result" where
  "skip_shebang source =
     (if take 2 source = ''#!''
      then (if CHR ''\<newline>'' \<in> set source then Inr (dropWhile (\<lambda>c. c \<noteq> CHR ''\<newline>'') source) else Inl Undef)
      else Inr source)"

definition load_source :: "load_env \<Rightarrow> string \<Rightarrow> unit lprog" where
  "load_source env file = (case l_read env file of
     None \<Rightarrow> pfail Undef
   | Some source \<Rightarrow> pbind (plift (skip_shebang source)) (\<lambda>ps. pbind (l_eval env source) (\<lambda>_. pret ())))"

text \<open>\<open>file[length - 3]\<close> of a shorter name is outside it.\<close>

definition is_snow_file :: "string \<Rightarrow> bool result" where
  "is_snow_file file =
     (if length file < 3 then Inl Undef else Inr (drop (length file - 3) file = ''.sn''))"

definition snow_load :: "load_env \<Rightarrow> string \<Rightarrow> VALUE lprog" where
  "snow_load env file =
     (if \<not> l_stat env file then pret 0
      else pbind pget (\<lambda>s.
        case loaded_files s file of
          Some found \<Rightarrow> pret SN_FALSE
        | None \<Rightarrow>
            pbind (pput (s\<lparr>loaded_files := (loaded_files s)(file \<mapsto> SN_TRUE)\<rparr>)) (\<lambda>_.
            pbind (plift (is_snow_file file)) (\<lambda>is_snow.
            pbind (if is_snow then load_source env file else l_library env file) (\<lambda>_. pret SN_TRUE)))))"

definition file_candidates :: "string \<Rightarrow> string list" where
  "file_candidates file = [file, file @ ''.sn'', file @ ''.so'', file @ ''.dylib'']"

primrec load_first :: "load_env \<Rightarrow> string list \<Rightarrow> VALUE lprog" where
  "load_first env [] = pret 0"
| "load_first env (c # cs) = pbind (snow_load env c) (\<lambda>found. if found \<noteq> 0 then pret found else load_first env cs)"

definition in_paths :: "string list \<Rightarrow> string \<Rightarrow> string list" where
  "in_paths paths file = concat (map (\<lambda>path. map (\<lambda>c. path @ ''/'' @ c) (file_candidates file)) paths)"

definition snow_require :: "load_env \<Rightarrow> string \<Rightarrow> VALUE lprog" where
  "snow_require env file =
     pbind (if take 1 file \<noteq> ''/''
            then pbind (load_first env (in_paths [l_cwd env] file)) (\<lambda>found.
                 if found \<noteq> 0 then pret found
                 else pbind (snow_get_load_paths env) (\<lambda>paths. load_first env (in_paths paths file)))
            else snow_load env file) (\<lambda>found.
     if found \<noteq> 0 then pret found else pfail (Raise (''Required file not found: '' @ file)))"

text \<open>Loading a file leaves the load paths, and only adds to the files that are loaded.\<close>

definition loads_more :: "'a lprog \<Rightarrow> bool" where
  "loads_more p \<longleftrightarrow> (\<forall>s x t. p s = Inr (x, t) \<longrightarrow>
     (load_paths s \<noteq> None \<longrightarrow> load_paths t = load_paths s) \<and> dom (loaded_files s) \<subseteq> dom (loaded_files t))"

lemma SN_values: "SN_TRUE \<noteq> 0" "SN_FALSE \<noteq> 0"
  by (simp_all add: SN_TRUE_def SN_FALSE_def)

lemma load_source_more:
  assumes "\<And>x. loads_more (l_eval env x)"
  shows "loads_more (load_source env f)"
  unfolding loads_more_def
proof (intro allI impI)
  fix s x t assume "load_source env f s = Inr (x, t)"
  then obtain src y where "l_eval env src s = Inr (y, t)"
    by (auto simp: load_source_def split: option.splits)
  with assms [of src] show "(load_paths s \<noteq> None \<longrightarrow> load_paths t = load_paths s) \<and> dom (loaded_files s) \<subseteq> dom (loaded_files t)"
    unfolding loads_more_def by blast
qed

lemma snow_load_cases:
  assumes "\<And>x. loads_more (l_eval env x)" "\<And>x. loads_more (l_library env x)" "snow_load env f s = Inr (v, t)"
  shows "if l_stat env f
     then v \<noteq> 0 \<and> f \<in> dom (loaded_files t) \<and> (load_paths s \<noteq> None \<longrightarrow> load_paths t = load_paths s) \<and>
       dom (loaded_files s) \<subseteq> dom (loaded_files t)
     else v = 0 \<and> t = s"
proof (cases "l_stat env f \<and> loaded_files s f = None")
  case True
  let ?s = "s\<lparr>loaded_files := (loaded_files s)(f \<mapsto> SN_TRUE)\<rparr>"
  obtain b u where b: "is_snow_file f = Inr b" "(if b then load_source env f else l_library env f) ?s = Inr (u, t)" "v = SN_TRUE"
    using assms(3) True by (auto simp: snow_load_def rbind_def split: sum.splits if_splits)
  have "loads_more (if b then load_source env f else l_library env f)"
    using assms(1,2) load_source_more by auto
  then show ?thesis using b True SN_values unfolding loads_more_def by fastforce
next
  case False
  with assms(3) SN_values show ?thesis by (auto simp: snow_load_def)
qed

lemma snow_load_again:
  "l_stat env f \<Longrightarrow> f \<in> dom (loaded_files s) \<Longrightarrow> snow_load env f s = Inr (SN_FALSE, s)"
  by (auto simp: snow_load_def)

text \<open>A search loads the first of its candidates that exists.\<close>

lemma snow_load_found: "snow_load env f s = Inr (v, t) \<Longrightarrow> v \<noteq> 0 \<longleftrightarrow> l_stat env f"
  using SN_values by (auto simp: snow_load_def split: if_splits option.splits)

lemma load_first_find:
  "load_first env cs s = (case find (l_stat env) cs of None \<Rightarrow> Inr (0, s) | Some c \<Rightarrow> snow_load env c s)"
proof (induction cs)
  case (Cons c cs)
  show ?case
  proof (cases "l_stat env c")
    case True
    then show ?thesis using snow_load_found [of env c s] by (auto simp: rbind_def split: sum.split)
  next
    case False
    then have "snow_load env c s = Inr (0, s)" by (simp add: snow_load_def)
    then show ?thesis using Cons.IH False by simp
  qed
qed simp

text \<open>Where \<open>snow_require\<close> looks: an absolute name is itself its only candidate.\<close>

definition require_candidates :: "load_env \<Rightarrow> string list \<Rightarrow> string \<Rightarrow> string list" where
  "require_candidates env paths file =
     (if take 1 file = ''/'' then [file] else in_paths [l_cwd env] file @ in_paths paths file)"

lemma find_append: "find P (xs @ ys) = (case find P xs of None \<Rightarrow> find P ys | Some x \<Rightarrow> Some x)"
  by (induction xs) simp_all

lemma find_holds: "find P xs = Some x \<Longrightarrow> P x"
  by (induction xs) (auto split: if_splits)

lemma require_finds:
  assumes "load_paths s = Some paths"
  shows "snow_require env file s = (case find (l_stat env) (require_candidates env paths file) of
    None \<Rightarrow> Inl (Raise (''Required file not found: '' @ file)) | Some c \<Rightarrow> snow_load env c s)"
proof -
  have ret: "rbind (snow_load env c s) (\<lambda>(found, t). if found \<noteq> 0 then Inr (found, t) else k t) = snow_load env c s"
    if "l_stat env c" for c k
    using that snow_load_found [of env c s] by (auto simp: rbind_def split: sum.split)
  show ?thesis
  proof (cases "take 1 file = ''/''")
    case True
    then show ?thesis
      using ret [of "file"] by (cases "l_stat env file") (simp_all add: snow_require_def require_candidates_def if_distribR snow_load_def [of env "file"] cong: if_cong)
  next
    case False
    let ?raise = "\<lambda>t :: lstate. (Inl (Raise (''Required file not found: '' @ file)) :: (VALUE \<times> lstate) result)"
    note first = load_first_find [of env "in_paths [l_cwd env] file" s] load_first_find [of env "in_paths paths file" s]
    have paths: "snow_get_load_paths env s = Inr (paths, s)" using assms by (simp add: snow_get_load_paths_def)
    show ?thesis
    proof (cases "find (l_stat env) (in_paths [l_cwd env] file)")
      case (Some c)
      have c: "l_stat env c" by (rule find_holds [OF Some])
      have "snow_require env file s = rbind (rbind (snow_load env c s)
          (\<lambda>(found, t). if found \<noteq> 0 then Inr (found, t) else rbind (snow_get_load_paths env t)
             (\<lambda>(paths, t). load_first env (in_paths paths file) t)))
          (\<lambda>(found, t). if found \<noteq> 0 then Inr (found, t) else ?raise t)"
        using False first Some by (simp add: snow_require_def if_distribR cong: if_cong)
      then show ?thesis using False Some unfolding ret [OF c] by (simp add: require_candidates_def find_append)
    next
      case None
      have "snow_require env file s = rbind (load_first env (in_paths paths file) s)
          (\<lambda>(found, t). if found \<noteq> 0 then Inr (found, t) else ?raise t)"
        using False first(1) None paths by (simp add: snow_require_def if_distribR cong: if_cong)
      moreover have "rbind (snow_load env c s) (\<lambda>(found, t). if found \<noteq> 0 then Inr (found, t) else ?raise t) = snow_load env c s"
        if "find (l_stat env) (in_paths paths file) = Some c" for c using ret [OF find_holds [OF that]] .
      ultimately show ?thesis
        using False None first(2) by (auto simp: require_candidates_def find_append split: option.splits)
    qed
  qed
qed

text \<open>
  C39. Requiring a file, when the load paths are set.  What is loaded is the first file that
  exists of its candidates: the name as it is, with \<open>.sn\<close>, \<open>.so\<close> and \<open>.dylib\<close>, first in the
  working directory and then in each of the load paths in their order (an absolute name is
  its only candidate); when none exists, an error is raised.  And when what runs in loaded files
  keeps the load paths and the record of the files that are loaded, a file whose require has
  returned is not loaded again: requiring it once more gives false and changes nothing.
\<close>

theorem require_once:
  assumes "\<And>x. loads_more (l_eval env x)" "\<And>x. loads_more (l_library env x)" "load_paths s = Some paths"
  shows "snow_require env file s = (case find (l_stat env) (require_candidates env paths file) of
      None \<Rightarrow> Inl (Raise (''Required file not found: '' @ file)) | Some c \<Rightarrow> snow_load env c s) \<and>
    (\<forall>v t. snow_require env file s = Inr (v, t) \<longrightarrow> v \<noteq> 0 \<and>
      (\<exists>c. find (l_stat env) (require_candidates env paths file) = Some c \<and> c \<in> dom (loaded_files t)) \<and>
      snow_require env file t = Inr (SN_FALSE, t))"
proof (intro conjI allI impI)
  show eq: "snow_require env file s = (case find (l_stat env) (require_candidates env paths file) of
      None \<Rightarrow> Inl (Raise (''Required file not found: '' @ file)) | Some c \<Rightarrow> snow_load env c s)"
    by (rule require_finds [OF assms(3)])
  fix v t assume r: "snow_require env file s = Inr (v, t)"
  with eq obtain c where c: "find (l_stat env) (require_candidates env paths file) = Some c" "snow_load env c s = Inr (v, t)"
    by (auto split: option.splits)
  have st: "l_stat env c" by (rule find_holds [OF c(1)])
  with snow_load_cases [OF assms(1,2) c(2)] assms(3)
  have t: "v \<noteq> 0" "c \<in> dom (loaded_files t)" "load_paths t = Some paths" by auto
  show "v \<noteq> 0" by (rule t(1))
  show "\<exists>c. find (l_stat env) (require_candidates env paths file) = Some c \<and> c \<in> dom (loaded_files t)" using c(1) t(2) by blast
  show "snow_require env file t = Inr (SN_FALSE, t)"
    unfolding require_finds [OF t(3)] c(1) using snow_load_again [OF st t(2)] by simp
qed

text \<open>The file \<open>a.sn\<close> is in the working directory and in a load path.\<close>

definition two_files :: load_env where
  "two_files = \<lparr>l_stat = \<lambda>f. f = ''/home/a.sn'' \<or> f = ''/lib/a.sn'', l_read = \<lambda>_. Some '''', l_cwd = ''/home'', l_libdir = ''/lib'',
     l_eval = \<lambda>_. pret 0, l_library = \<lambda>_. pret ()\<rparr>"

lemma require_once_witness:
  "\<exists>t. snow_require two_files ''a'' \<lparr>load_paths = Some [''/lib''], loaded_files = Map.empty\<rparr> = Inr (SN_TRUE, t) \<and>
     ''/home/a.sn'' \<in> dom (loaded_files t) \<and> snow_require two_files ''a'' t = Inr (SN_FALSE, t)"
proof -
  have f: "find (l_stat two_files) (require_candidates two_files [''/lib''] ''a'') = Some ''/home/a.sn''"
    by (simp add: require_candidates_def in_paths_def file_candidates_def two_files_def)
  have "loads_more (l_eval two_files x)" "loads_more (l_library two_files x)" for x
    by (simp_all add: loads_more_def two_files_def)
  note req = require_once [OF this, of "\<lparr>load_paths = Some [''/lib''], loaded_files = Map.empty\<rparr>" "[''/lib'']" "''a''"]
  have "snow_load two_files ''/home/a.sn'' \<lparr>load_paths = Some [''/lib''], loaded_files = Map.empty\<rparr> =
      Inr (SN_TRUE, \<lparr>load_paths = Some [''/lib''], loaded_files = [''/home/a.sn'' \<mapsto> SN_TRUE]\<rparr>)"
    by (simp add: snow_load_def is_snow_file_def load_source_def skip_shebang_def two_files_def)
  with f req show ?thesis by auto
qed

end
