(* ===== verification/Spec2Isabelle.thy ===== *)
theory Spec2Isabelle
  imports Values ArrayT SnowMap LinkBuffer Asm Arguments Symbols Numeric GcHeap Members Contexts Collections GcReach GcMove CodeCorrect Tasks Scopes Wrap Loader
begin

text \<open>
  A verification development of the runtime and the compiler of the programming language Snow
  (the C sources under src/snow).

  The program.  Snow is an object language compiled to x86-64 machine code when it is loaded.  A
  value is a tagged word; objects, arrays, maps, strings and functions live in memory that a
  moving, generational collector manages.  The parser makes a syntax tree, the code generator
  turns every function of it into machine code that calls back into the runtime for members,
  variables, calls, exceptions and parallel loops.

  How the models are made.  C functions are functions of the state they touch that give the new
  state; \<open>fault + 'a\<close> is their result, where \<open>Trap\<close> is a failed assertion or TRAP(), \<open>Undef\<close>
  behaviour that C leaves undefined (a read outside a block, a null pointer, a division by zero)
  and \<open>Raise d\<close> an exception with a description, for the components in which nothing catches
  it.  Words have their C widths; lengths and addresses that the code keeps far from the end of
  their type are \<open>nat\<close>.  It is the debug build: fresh memory is filled with a pattern, and ASSERT
  is checked.  Recursion through objects and through the program takes fuel, a bound on its depth
  (\<open>n\<close>, first argument); running out is a fault, and the theorems that say a computation returns
  give a bound that is enough.  Code outside the repository, and running compiled code from the
  runtime, are parameters.

  The theories and what they model.

  Prelude: results, slots of blocks, counted loops, programs over a state.

  Values (intern.h, object.h, snow.c): tags, conversions, types, truth.  Int round trip.

  ArrayT (array-intern.h): the growing array; reading, writing, erasing, pushing, searching
  against operations on lists, negative indices and growth included.

  SnowMap (map.c): a map as a block of pairs with its comparison function; setting and getting
  against a finite map, and the default comparison, which looks at the low half of keys only.

  LinkBuffer (linkbuffer.c): the paged buffer of bytes against a list of bytes; modifying across
  the end of a page goes wrong.  The locale \<open>byte_sink\<close> is what the assembler uses of it.

  Asm (asm-x86_64.h, asm.h): operands, prefixes, ModRM, every instruction emitter, labels.
  A decoder written from the processor's manual gives back the operands; a linked jump reaches
  its label; two address forms cannot be encoded.

  Ast (ast.c, ast.h): the nodes, their constructors and printing.

  Codegen (codegen.c, codegen-x86_64.c): \<open>codegen_compile_node\<close> and one definition for every kind
  of node, temporaries, labels, references to outer variables, prologue and epilogue.  The
  state holds the generator, the descriptions and arrays it fills and the store.  The fuel is the
  depth of the tree.

  Machine, CodeSpec, CodeRun, CodeEmit, CodeCorrect: the code generator is correct.  Machine
  decodes and runs the instructions that are emitted, on registers, flags, the temporaries of the
  frame and a world that only calls of the runtime change.  CodeSpec has the expressions of a
  function at the top level as a datatype, their trees, their code as lists of instructions and
  their values.  CodeRun shows that this code computes the value, CodeEmit that
  \<open>codegen_compile_node\<close> appends exactly this code, CodeCorrect puts the two together.  Assumed
  are one page of the buffer (1024 bytes, so that linking a jump does not cross pages) and runtime
  functions that keep \<open>RBP\<close>, \<open>R13\<close> and the frame; nested functions, return and try are not
  among the expressions, and no claim is made of code whose evaluation has no value.

  Arguments, Symbols (symbol.c and the store of snow.c), Numeric (numeric.c, boolean.c, nil.c):
  argument lists, interning, the store that keeps values alive, arithmetic and its bounds.

  Objects, Members (object.c, class.c, the member functions of snow.c): objects by address,
  prototypes, included modules, properties, the member protocol, calls and method dispatch,
  and classes.  Lookup ends, finds what was set, goes through modules before
  prototypes; including keeps the modules free of cycles.

  Wrap (class.c, class.h): classes that wrap a C structure and their instances, as words of the
  collector's memory, from the allocation to the finaliser; where the structure of a new instance
  really is.

  Contexts, Scopes (context.c, function.c, globals): contexts, locals, static scopes and
  references to outer variables, the set-up of a call.  Scopes has the states that the creation
  of contexts, functions and descriptions reaches; in all of them the function of a context was
  declared in its static parent, so the walk over functions finds the static parents.

  Strings, Collections (str.c, array.c, printing in map.c and arguments.c): formatting against
  its specification, concatenation, buffers, the methods of arrays.

  GcHeap, GcMemory, GcCollect (gcheap.h, gc.c): incremental heaps (blocks back to back while they
  fit, null and no change when one does not) and their flags, headers with
  their checksums, allocation, roots, marking, sweeping, moving, updating, both collections.
  GcMark, GcReach: marking from roots marks exactly what they reach, in the graph of the fields
  the collector knows.  GcHeader: headers round trip and a pointer into an allocation finds it.
  GcMove: moving copies the words and the finaliser.

  FixedAlloc, Exceptions, Continuations, Tasks (fixed-alloc.c, exception.c, task.c,
  continuation.c, task-serial.c): saving and restoring the state of a frame, handlers, both forms
  of try, continuations on stacks of their own, parallel loops.  A saved state is a save point;
  a jump to it ends computations up to the frame that saved it.  ExceptionSpec has the abstract
  specification \<open>structured_try\<close>, on endings, which both forms of try refine; one restore of a
  state is enough for the first and three for the second, hence their fuel.  A parallel loop
  refines running its elements one after the other and throwing what they threw.

  Loader (snow.c): require and load; the first candidate that exists, in the working directory and
  then in the load paths, is loaded, and loaded once.

  Not modelled: the parser and scanner (bison and flex sources, parser.yy and scanner.ll); main.c
  and the prompt; the libraries in src/lib (calls of the operating system and of regex
  libraries); task-dispatch.c (blocks and semaphores of libdispatch, threads in parallel) and the
  barriers of the collector; the assembly of arch-x86_64.c; debug.c; the tables of classes and
  globals built by snow_init and globals.c; locks, which the sources have commented out; the
  bodies of pointer.c and intern.c, which only forward.
\<close>

end
